(* ===== verification/Prelude.thy ===== *)
theory Prelude
  imports Main "HOL-Library.Word"
begin

text \<open>
  Shared vocabulary of the development: the result type of kernel operations, the searches the
  C code writes as \<open>for\<close> loops over fixed arrays, and the generic facts on lists, options and
  machine words that the component theories use.

  An operation that changes state takes the state and returns the new one.  An operation that may
  not return (a \<open>panic\<close>, a null dereference, a \<open>sleep\<close> nobody ends) yields a value of
  \<open>'a res\<close>: \<open>Ok x\<close> when the C function returns, \<open>Stop e\<close> when it does not.
\<close>

unbundle bit_operations_syntax

named_theorems mmu_simps \<open>definitions of the address arithmetic of mmu.h and memlayout.h\<close>
named_theorems frame_simps \<open>what an operation leaves unchanged\<close>

section \<open>Machine types\<close>

type_synonym byte = "8 word"
type_synonym uint32 = "32 word"

lemma unat_uint32_less: "unat (w :: uint32) < 4294967296"
proof -
  have "unat w < 2 ^ LENGTH(32)" by (rule unsigned_less)
  then show ?thesis by simp
qed

lemma uint_eq_iff [simp]: "uint (a :: 'a :: len word) = uint b \<longleftrightarrow> a = b"
  by (auto intro: unsigned_word_eqI)

lemma uint_eq_0 [simp]: "uint (a :: 'a :: len word) = 0 \<longleftrightarrow> a = 0"
  using uint_eq_iff[of a 0] by simp

section \<open>Operations that may stop\<close>

datatype stop =
    Panic string      \<comment> \<open>\<open>panic(msg)\<close>: the kernel halts\<close>
  | NullDeref         \<comment> \<open>a null pointer is dereferenced\<close>
  | OutOfRange        \<comment> \<open>an array is accessed outside its bounds\<close>
  | Sleeping          \<comment> \<open>the caller sleeps and only another thread can continue it\<close>
  | PageFault uint32  \<comment> \<open>the kernel touches a user address that is not present\<close>
  | Diverges          \<comment> \<open>a loop does not end\<close>

datatype 'a res = Stop stop | Ok 'a

primrec andthen :: "'a res \<Rightarrow> ('a \<Rightarrow> 'b res) \<Rightarrow> 'b res" where
  "andthen (Stop e) f = Stop e"
| "andthen (Ok x) f = f x"

lemma andthen_eq_Ok: "andthen m f = Ok y \<longleftrightarrow> (\<exists>x. m = Ok x \<and> f x = Ok y)"
  by (cases m) auto

lemma andthen_eq_Stop:
  "andthen m f = Stop e \<longleftrightarrow> m = Stop e \<or> (\<exists>x. m = Ok x \<and> f x = Stop e)"
  by (cases m) auto

lemma andthen_OkE [elim]:
  assumes "andthen m f = Ok y"
  obtains x where "m = Ok x" and "f x = Ok y"
  using assms by (auto simp: andthen_eq_Ok)

lemma andthen_assoc: "andthen (andthen m f) g = andthen m (\<lambda>x. andthen (f x) g)"
  by (cases m) auto

lemma andthen_cong [fundef_cong]:
  "m = m' \<Longrightarrow> (\<And>x. m' = Ok x \<Longrightarrow> f x = f' x) \<Longrightarrow> andthen m f = andthen m' f'"
  by (cases m') auto

definition guard_stop :: "bool \<Rightarrow> stop \<Rightarrow> unit res" where
  "guard_stop b e = (if b then Stop e else Ok ())"

lemma guard_stop_eq [simp]:
  "guard_stop b e = Ok u \<longleftrightarrow> \<not> b"
  "guard_stop b e = Stop e' \<longleftrightarrow> b \<and> e = e'"
  by (auto simp: guard_stop_def)

lemma andthen_guard [simp]:
  "\<not> b \<Longrightarrow> andthen (guard_stop b e) f = f ()"
  "b \<Longrightarrow> andthen (guard_stop b e) f = Stop e"
  by (auto simp: guard_stop_def)

text \<open>A \<open>for\<close> loop over a list of indices whose body may stop.\<close>

primrec for_each :: "'i list \<Rightarrow> ('i \<Rightarrow> 's \<Rightarrow> 's res) \<Rightarrow> 's \<Rightarrow> 's res" where
  "for_each [] f s = Ok s"
| "for_each (i # is) f s = andthen (f i s) (for_each is f)"

lemma for_each_append: "for_each (xs @ ys) f s = andthen (for_each xs f s) (for_each ys f)"
proof (induction xs arbitrary: s)
  case (Cons x xs)
  then show ?case by (cases "f x s") auto
qed simp

text \<open>The rule for a loop that returns: an invariant indexed by the number of turns done.\<close>

lemma for_each_inv:
  assumes "I 0 s" and "\<And>k s. k < length xs \<Longrightarrow> I k s \<Longrightarrow> \<exists>s'. f (xs ! k) s = Ok s' \<and> I (Suc k) s'"
  shows "\<exists>s'. for_each xs f s = Ok s' \<and> I (length xs) s'"
  using assms
proof (induction xs rule: rev_induct)
  case (snoc x xs)
  have "\<exists>s'. f (xs ! k) s = Ok s' \<and> I (Suc k) s'" if "k < length xs" "I k s" for k s
    using snoc.prems(2)[of k s] that by (simp add: nth_append)
  from snoc.IH[OF snoc.prems(1) this] obtain s1 where
    "for_each xs f s = Ok s1" "I (length xs) s1" by blast
  moreover from this(2) obtain s2 where "f x s1 = Ok s2" "I (Suc (length xs)) s2"
    using snoc.prems(2)[of "length xs" s1] by auto
  ultimately show ?case by (simp add: for_each_append)
qed simp

section \<open>Linear searches over fixed arrays\<close>

text \<open>
  \<open>for(i = 0; i < N; i++) if(P(a[i])) ...; break\<close>: the index of the first element that
  satisfies \<open>P\<close>.
\<close>

fun find_idx :: "('a \<Rightarrow> bool) \<Rightarrow> 'a list \<Rightarrow> nat option" where
  "find_idx P [] = None"
| "find_idx P (x # xs) = (if P x then Some 0 else map_option Suc (find_idx P xs))"

lemma find_idx_None_iff: "find_idx P xs = None \<longleftrightarrow> (\<forall>x \<in> set xs. \<not> P x)"
  by (induction xs) auto

lemma find_idx_Some_iff:
  "find_idx P xs = Some i \<longleftrightarrow> i < length xs \<and> P (xs ! i) \<and> (\<forall>j < i. \<not> P (xs ! j))"
proof (induction xs arbitrary: i)
  case Nil
  then show ?case by simp
next
  case (Cons x xs)
  show ?case
    by (cases i) (auto simp: Cons.IH less_Suc_eq_0_disj)
qed

lemma find_idx_SomeD:
  assumes "find_idx P xs = Some i"
  shows "i < length xs" and "P (xs ! i)" and "\<And>j. j < i \<Longrightarrow> \<not> P (xs ! j)"
  using assms by (auto simp: find_idx_Some_iff)

lemma find_idx_ex:
  assumes "i < length xs" and "P (xs ! i)"
  obtains j where "find_idx P xs = Some j" and "j \<le> i"
proof (cases "find_idx P xs")
  case None
  with assms show ?thesis by (auto simp: find_idx_None_iff)
next
  case (Some j)
  have "j \<le> i"
  proof (rule ccontr)
    assume "\<not> j \<le> i"
    then have "\<not> P (xs ! i)" using find_idx_SomeD(3)[OF Some, of i] by simp
    with assms show False by simp
  qed
  with Some show ?thesis by (rule that)
qed

section \<open>Updating one element of an array\<close>

definition upd_at :: "nat \<Rightarrow> ('a \<Rightarrow> 'a) \<Rightarrow> 'a list \<Rightarrow> 'a list" where
  "upd_at i f xs = xs[i := f (xs ! i)]"

lemma length_upd_at [simp]: "length (upd_at i f xs) = length xs"
  by (simp add: upd_at_def)

lemma nth_upd_at:
  "j < length xs \<Longrightarrow> upd_at i f xs ! j = (if j = i then f (xs ! i) else xs ! j)"
  by (auto simp: upd_at_def nth_list_update)

lemma nth_upd_at_same [simp]: "i < length xs \<Longrightarrow> upd_at i f xs ! i = f (xs ! i)"
  by (simp add: upd_at_def)

lemma nth_upd_at_other [simp]: "i \<noteq> j \<Longrightarrow> upd_at i f xs ! j = xs ! j"
  by (simp add: upd_at_def)

lemma map_upd_at_same:
  "(\<And>x. g (f x) = g x) \<Longrightarrow> map g (upd_at i f xs) = map g xs"
  by (intro nth_equalityI) (simp_all add: nth_upd_at)

text \<open>How many elements satisfy a predicate, and how one update changes the number.\<close>

definition count_if :: "('a \<Rightarrow> bool) \<Rightarrow> 'a list \<Rightarrow> nat" where
  "count_if P xs = length (filter P xs)"

lemma count_if_simps [simp]:
  "count_if P [] = 0"
  "count_if P (x # xs) = (if P x then Suc (count_if P xs) else count_if P xs)"
  "count_if P (xs @ ys) = count_if P xs + count_if P ys"
  by (auto simp: count_if_def)

lemma count_if_le: "count_if P xs \<le> length xs"
  by (simp add: count_if_def)

lemma count_if_0: "count_if P xs = 0 \<longleftrightarrow> (\<forall>x \<in> set xs. \<not> P x)"
  by (simp add: count_if_def filter_empty_conv)

lemma count_if_full: "count_if P xs = length xs \<longleftrightarrow> (\<forall>x \<in> set xs. P x)"
  by (metis count_if_def filter_id_conv length_filter_less order.strict_implies_not_eq)

lemma count_if_update:
  assumes "i < length xs"
  shows "count_if P (xs[i := y]) + (if P (xs ! i) then 1 else 0)
       = count_if P xs + (if P y then 1 else 0)"
proof -
  have "xs = take i xs @ xs ! i # drop (Suc i) xs"
    using assms by (simp add: id_take_nth_drop)
  moreover have "xs[i := y] = take i xs @ y # drop (Suc i) xs"
    using assms by (simp add: upd_conv_take_nth_drop)
  ultimately have
    "count_if P xs = count_if P (take i xs @ xs ! i # drop (Suc i) xs)"
    "count_if P (xs[i := y]) = count_if P (take i xs @ y # drop (Suc i) xs)"
    by auto
  then show ?thesis by simp
qed

lemma count_if_map: "count_if P (map f xs) = count_if (\<lambda>x. P (f x)) xs"
  by (induction xs) auto

lemma count_if_cong_map:
  "map f xs = map f ys \<Longrightarrow> count_if (\<lambda>x. P (f x)) xs = count_if (\<lambda>x. P (f x)) ys"
  by (metis count_if_map)

end
