(* ===== verification/Mmu.thy ===== *)
theory Mmu
  imports Prelude
begin

text \<open>
  Address arithmetic of the x86 two-level page table (src/mmu.h) and the kernel's memory layout
  (src/memlayout.h).  Every macro is a function on 32-bit words; the constants are abbreviations.
\<close>

section \<open>Constants of memlayout.h, mmu.h and param.h\<close>

abbreviation (input) EXTMEM :: uint32 where "EXTMEM \<equiv> 0x100000"
abbreviation (input) PHYSTOP :: uint32 where "PHYSTOP \<equiv> 0xE000000"
abbreviation (input) DEVSPACE :: uint32 where "DEVSPACE \<equiv> 0xFE000000"
abbreviation (input) KERNBASE :: uint32 where "KERNBASE \<equiv> 0x80000000"
abbreviation (input) KERNLINK :: uint32 where "KERNLINK \<equiv> 0x80100000"

abbreviation (input) PGSIZE :: uint32 where "PGSIZE \<equiv> 4096"
abbreviation (input) NPDENTRIES :: nat where "NPDENTRIES \<equiv> 1024"
abbreviation (input) NPTENTRIES :: nat where "NPTENTRIES \<equiv> 1024"

abbreviation (input) PTE_P :: uint32 where "PTE_P \<equiv> 0x001"
abbreviation (input) PTE_W :: uint32 where "PTE_W \<equiv> 0x002"
abbreviation (input) PTE_U :: uint32 where "PTE_U \<equiv> 0x004"
abbreviation (input) PTE_A :: uint32 where "PTE_A \<equiv> 0x020"
abbreviation (input) PTE_PG :: uint32 where "PTE_PG \<equiv> 0x200"

section \<open>Translation between kernel virtual and physical addresses\<close>

definition V2P :: "uint32 \<Rightarrow> uint32" where
  "V2P a = a - KERNBASE"

definition P2V :: "uint32 \<Rightarrow> uint32" where
  "P2V a = a + KERNBASE"

lemma V2P_P2V [simp]: "V2P (P2V a) = a"
  by (simp add: V2P_def P2V_def)

lemma P2V_V2P [simp]: "P2V (V2P a) = a"
  by (simp add: V2P_def P2V_def)

lemma V2P_inj [simp]: "V2P a = V2P b \<longleftrightarrow> a = b"
  by (simp add: V2P_def)

lemma P2V_inj [simp]: "P2V a = P2V b \<longleftrightarrow> a = b"
  by (simp add: P2V_def)

section \<open>Splitting a linear address\<close>

definition PDX :: "uint32 \<Rightarrow> uint32" where
  "PDX va = drop_bit 22 va AND 0x3FF"

definition PTX :: "uint32 \<Rightarrow> uint32" where
  "PTX va = drop_bit 12 va AND 0x3FF"

definition PGADDR :: "uint32 \<Rightarrow> uint32 \<Rightarrow> uint32 \<Rightarrow> uint32" where
  "PGADDR d t o' = push_bit 22 d OR push_bit 12 t OR o'"

definition PGROUNDUP :: "uint32 \<Rightarrow> uint32" where
  "PGROUNDUP sz = (sz + PGSIZE - 1) AND NOT (PGSIZE - 1)"

definition PGROUNDDOWN :: "uint32 \<Rightarrow> uint32" where
  "PGROUNDDOWN a = a AND NOT (PGSIZE - 1)"

definition PTE_ADDR :: "uint32 \<Rightarrow> uint32" where
  "PTE_ADDR pte = pte AND NOT 0xFFF"

definition PTE_FLAGS :: "uint32 \<Rightarrow> uint32" where
  "PTE_FLAGS pte = pte AND 0xFFF"

lemmas mmu_defs [mmu_simps] =
  PDX_def PTX_def PGADDR_def PGROUNDUP_def PGROUNDDOWN_def PTE_ADDR_def PTE_FLAGS_def

text \<open>The masks of the source, in the form the bit library reasons about.\<close>

lemma mask_numerals:
  "(0x3FF :: uint32) = mask 10"
  "(0xFFF :: uint32) = mask 12"
  "(NOT 0xFFF :: uint32) = NOT (mask 12)"
  by (simp_all add: mask_eq_exp_minus_1)

lemma PGSIZE_minus_1: "PGSIZE - 1 = mask 12"
  by (simp add: mask_eq_exp_minus_1)

lemma bit_PDX: "bit (PDX va) n \<longleftrightarrow> n < 10 \<and> bit va (22 + n)"
  by (auto simp: PDX_def mask_numerals bit_simps)

lemma bit_PTX: "bit (PTX va) n \<longleftrightarrow> n < 10 \<and> bit va (12 + n)"
  by (auto simp: PTX_def mask_numerals bit_simps)

lemma bit_PTE_ADDR: "bit (PTE_ADDR a) n \<longleftrightarrow> 12 \<le> n \<and> bit a n"
  by (auto simp: PTE_ADDR_def mask_numerals bit_simps dest: bit_imp_le_length)

lemma bit_PTE_FLAGS: "bit (PTE_FLAGS a) n \<longleftrightarrow> n < 12 \<and> bit a n"
  by (auto simp: PTE_FLAGS_def mask_numerals bit_simps)

lemma bit_PGADDR:
  "bit (PGADDR d t o') n \<longleftrightarrow>
     n < 32 \<and> (22 \<le> n \<and> bit d (n - 22) \<or> 12 \<le> n \<and> bit t (n - 12) \<or> bit o' n)"
  by (auto simp: PGADDR_def bit_simps dest: bit_imp_le_length)

lemma PGROUNDDOWN_eq: "PGROUNDDOWN a = PTE_ADDR a"
  by (simp add: PGROUNDDOWN_def PTE_ADDR_def)

section \<open>Page alignment\<close>

definition aligned :: "uint32 \<Rightarrow> bool" where
  "aligned a \<longleftrightarrow> PTE_FLAGS a = 0"

lemma PTE_FLAGS_mod: "unat (PTE_FLAGS a) = unat a mod 4096"
  by (simp add: PTE_FLAGS_def mask_numerals(2) flip: take_bit_eq_mask)
     (simp add: take_bit_eq_mod unat_mod)

lemma aligned_iff_mod: "aligned a \<longleftrightarrow> unat a mod 4096 = 0"
  by (metis PTE_FLAGS_mod aligned_def unat_eq_zero)

lemma alignedE:
  assumes "aligned a"
  obtains k where "unat a = 4096 * k"
  using assms by (auto simp: aligned_iff_mod)

lemma aligned_iff_bits: "aligned a \<longleftrightarrow> (\<forall>n < 12. \<not> bit a n)"
  by (auto simp: aligned_def bit_eq_iff bit_PTE_FLAGS)

lemma aligned_PTE_ADDR [simp]: "aligned (PTE_ADDR a)"
  by (simp add: aligned_iff_bits bit_PTE_ADDR)

lemma aligned_PGROUNDDOWN [simp]: "aligned (PGROUNDDOWN a)"
  by (simp add: PGROUNDDOWN_eq)

lemma PTE_ADDR_aligned: "aligned a \<Longrightarrow> PTE_ADDR a = a"
  by (rule bit_word_eqI) (auto simp: aligned_iff_bits bit_PTE_ADDR not_less [symmetric])

lemma aligned_PTE_ADDR_iff: "aligned a \<longleftrightarrow> PTE_ADDR a = a"
  by (metis PTE_ADDR_aligned aligned_PTE_ADDR)

lemma PTE_ADDR_or_FLAGS: "PTE_ADDR a OR PTE_FLAGS a = a"
  by (rule bit_word_eqI) (auto simp: bit_or_iff bit_PTE_ADDR bit_PTE_FLAGS)

lemma PTE_ADDR_and_FLAGS: "PTE_ADDR a AND PTE_FLAGS b = 0"
  by (rule bit_word_eqI) (auto simp: bit_and_iff bit_PTE_ADDR bit_PTE_FLAGS)

lemma PTE_ADDR_plus_FLAGS: "PTE_ADDR a + PTE_FLAGS a = a"
  by (simp add: disjunctive_add_eq_or PTE_ADDR_and_FLAGS PTE_ADDR_or_FLAGS)

lemma unat_PTE_ADDR: "unat (PTE_ADDR a) = unat a - unat a mod 4096"
proof -
  have "PTE_ADDR a = a - PTE_FLAGS a"
    by (metis PTE_ADDR_plus_FLAGS add_diff_cancel_right')
  moreover have "unat (PTE_FLAGS a) \<le> unat a"
    by (simp add: PTE_FLAGS_mod)
  ultimately show ?thesis
    by (simp add: unat_sub word_le_nat_alt PTE_FLAGS_mod)
qed

lemma small_iff_PTE_FLAGS: "unat x < 4096 \<longleftrightarrow> PTE_FLAGS x = x"
  by (metis PTE_FLAGS_mod mod_less mod_less_divisor word_unat_eq_iff zero_less_numeral)

lemma small_iff_PTE_ADDR: "unat x < 4096 \<longleftrightarrow> PTE_ADDR x = 0"
  by (metis PTE_ADDR_plus_FLAGS add_cancel_right_left small_iff_PTE_FLAGS)

lemma aligned_or:
  assumes "aligned p" and "unat x < 4096"
  shows "PTE_ADDR (p OR x) = p" and "PTE_FLAGS (p OR x) = x"
proof -
  have p: "\<not> bit p n" if "n < 12" for n
    using assms(1) that by (simp add: aligned_iff_bits)
  have x: "\<not> bit x n" if "12 \<le> n" for n
  proof -
    have "\<not> bit (PTE_FLAGS x) n" using that by (simp add: bit_PTE_FLAGS)
    then show ?thesis using assms(2) by (simp add: small_iff_PTE_FLAGS)
  qed
  show "PTE_ADDR (p OR x) = p"
    by (rule bit_word_eqI) (metis bit_PTE_ADDR bit_or_iff not_le p x)
  show "PTE_FLAGS (p OR x) = x"
    by (rule bit_word_eqI) (metis bit_PTE_FLAGS bit_or_iff not_le p x)
qed

lemma aligned_plus_or:
  assumes "aligned p" and "unat x < 4096"
  shows "p + x = p OR x"
  using assms
  by (metis PTE_ADDR_aligned PTE_ADDR_and_FLAGS disjunctive_add_eq_or small_iff_PTE_FLAGS)

lemma PTE_ADDR_add:
  assumes "aligned p" and "unat x < 4096"
  shows "PTE_ADDR (p + x) = p" and "PTE_FLAGS (p + x) = x"
  using assms by (simp_all add: aligned_plus_or aligned_or)

lemma aligned_add: "aligned a \<Longrightarrow> aligned b \<Longrightarrow> aligned (a + b)"
  by (simp add: aligned_iff_mod unat_word_ariths mod_mod_cancel)
     (metis add.right_neutral mod_add_eq mod_mod_trivial)

lemma aligned_diff: "aligned a \<Longrightarrow> aligned b \<Longrightarrow> aligned (a - b)"
proof -
  assume a: "aligned a" "aligned b"
  then have "4096 dvd unat a" "4096 dvd unat b" by (auto simp: aligned_iff_mod)
  then show ?thesis
    by (auto simp: aligned_iff_mod unat_sub_if' intro!: dvd_diff_nat dvd_add)
qed

lemma aligned_consts [simp]: "aligned 0" "aligned KERNBASE" "aligned PGSIZE" "aligned PHYSTOP"
  by (simp_all add: aligned_iff_mod)

lemma aligned_V2P [simp]: "aligned (V2P a) \<longleftrightarrow> aligned a"
  by (metis P2V_V2P P2V_def V2P_def aligned_add aligned_consts(2) aligned_diff)

lemma aligned_P2V [simp]: "aligned (P2V a) \<longleftrightarrow> aligned a"
  by (metis V2P_P2V aligned_V2P)

section \<open>Table indices\<close>

lemma PDX_less: "unat (PDX va) < 1024"
proof -
  have "PDX va = take_bit 10 (drop_bit 22 va)"
    by (simp add: PDX_def mask_numerals take_bit_eq_mask)
  then show ?thesis by (simp add: take_bit_eq_mod unat_mod)
qed

lemma PTX_less: "unat (PTX va) < 1024"
proof -
  have "PTX va = take_bit 10 (drop_bit 12 va)"
    by (simp add: PTX_def mask_numerals take_bit_eq_mask)
  then show ?thesis by (simp add: take_bit_eq_mod unat_mod)
qed

lemma PDX_PTX_eq_iff: "PDX a = PDX b \<and> PTX a = PTX b \<longleftrightarrow> PTE_ADDR a = PTE_ADDR b"
proof
  assume h: "PDX a = PDX b \<and> PTX a = PTX b"
  show "PTE_ADDR a = PTE_ADDR b"
  proof (rule bit_word_eqI)
    fix n assume n: "n < LENGTH(32)"
    consider "n < 12" | "12 \<le> n" "n < 22" | "22 \<le> n" by linarith
    then show "bit (PTE_ADDR a) n = bit (PTE_ADDR b) n"
    proof cases
      case 2
      then have "n - 12 < 10" by linarith
      with 2 show ?thesis using h bit_PTX[of a "n - 12"] bit_PTX[of b "n - 12"]
        by (simp add: bit_PTE_ADDR)
    next
      case 3
      then have "n - 22 < 10" using n by simp
      with 3 show ?thesis using h n bit_PDX[of a "n - 22"] bit_PDX[of b "n - 22"]
        by (simp add: bit_PTE_ADDR)
    qed (simp add: bit_PTE_ADDR)
  qed
next
  assume h: "PTE_ADDR a = PTE_ADDR b"
  have bits: "bit a n = bit b n" if "12 \<le> n" for n
    using h that by (metis bit_PTE_ADDR)
  show "PDX a = PDX b \<and> PTX a = PTX b"
    by (auto intro!: bit_word_eqI simp: bit_PDX bit_PTX bits)
qed

lemma PDX_PTX_PTE_ADDR [simp]: "PDX (PTE_ADDR a) = PDX a" "PTX (PTE_ADDR a) = PTX a"
  using PDX_PTX_eq_iff[of "PTE_ADDR a" a] by (simp_all add: PTE_ADDR_aligned)

section \<open>Properties\<close>

text \<open>
  C12. Splitting an address with \<open>PDX\<close>, \<open>PTX\<close> and its page offset loses nothing:
  \<open>PGADDR\<close> rebuilds the address, and conversely the three parts of a rebuilt address are the
  indices and the offset it was built from.
\<close>

theorem pgaddr_roundtrip:
  "PGADDR (PDX va) (PTX va) (PTE_FLAGS va) = va \<and>
   (unat d < 1024 \<and> unat t < 1024 \<and> unat x < 4096 \<longrightarrow>
      PDX (PGADDR d t x) = d \<and> PTX (PGADDR d t x) = t \<and> PTE_FLAGS (PGADDR d t x) = x)"
proof (intro conjI impI)
  show "PGADDR (PDX va) (PTX va) (PTE_FLAGS va) = va"
  proof (rule bit_word_eqI)
    fix n assume "n < LENGTH(32)"
    then show "bit (PGADDR (PDX va) (PTX va) (PTE_FLAGS va)) n = bit va n"
      by (cases "n < 12"; cases "n < 22") (auto simp: bit_PGADDR bit_PDX bit_PTX bit_PTE_FLAGS)
  qed
next
  assume h: "unat d < 1024 \<and> unat t < 1024 \<and> unat x < 4096"
  have high: "\<not> bit w n" if "unat w < 2 ^ k" "k \<le> n" for w :: uint32 and n k
  proof
    assume "bit w n"
    then have "bit (unat w) n" by (simp add: bit_unsigned_iff)
    moreover have "take_bit k (unat w) = unat w" using that(1) by (simp add: take_bit_eq_mod)
    ultimately show False using that(2) by (metis bit_take_bit_iff not_le)
  qed
  have d: "n < 10" if "bit d n" for n using h high[of d 10 n] that by force
  have t: "n < 10" if "bit t n" for n using h high[of t 10 n] that by force
  have x: "n < 12" if "bit x n" for n using h high[of x 12 n] that by force
  show "PDX (PGADDR d t x) = d"
    by (rule bit_word_eqI) (auto simp: bit_PDX bit_PGADDR dest: d t x)
  show "PTX (PGADDR d t x) = t"
    by (rule bit_word_eqI) (auto simp: bit_PTX bit_PGADDR dest: d t x)
  show "PTE_FLAGS (PGADDR d t x) = x"
    by (rule bit_word_eqI) (auto simp: bit_PTE_FLAGS bit_PGADDR dest: d t x)
qed

theorem pgaddr_roundtrip_witness:
  "PGADDR 3 5 7 = 0xC05007 \<and> PDX (PGADDR 3 5 7) = 3 \<and> PTX (PGADDR 3 5 7) = 5"
  using pgaddr_roundtrip[of 0 3 5 7] by (simp add: PGADDR_def)

lemma unat_PGROUNDUP:
  "unat (PGROUNDUP sz) =
     (if unat sz \<le> 2 ^ 32 - 4096 then 4096 * ((unat sz + 4095) div 4096) else 0)"
proof -
  have eq: "PGROUNDUP sz = PTE_ADDR (sz + 4095)"
    by (simp add: PGROUNDUP_def PTE_ADDR_def add.commute)
  have "unat (sz + 4095) = (if unat sz \<le> 2 ^ 32 - 4096 then unat sz + 4095
                            else unat sz + 4095 - 2 ^ 32)"
    using unat_uint32_less[of sz] by (auto simp: unat_plus_if')
  moreover have "unat sz + 4095 - 2 ^ 32 < 4096"
    using unat_uint32_less[of sz] by simp
  moreover have "n - n mod 4096 = 4096 * (n div 4096)" for n :: nat
    by (simp add: minus_mod_eq_mult_div)
  ultimately show ?thesis
    by (simp add: eq unat_PTE_ADDR)
qed

text \<open>
  C13. \<open>PGROUNDUP\<close> yields the least page boundary not below its argument, except in the last
  page of the address space, where the addition wraps around and the result is 0.
\<close>

theorem pgroundup_least_boundary:
  "aligned (PGROUNDUP sz) \<and>
   (if unat sz \<le> 2 ^ 32 - 4096
    then sz \<le> PGROUNDUP sz \<and> (\<forall>b. aligned b \<and> sz \<le> b \<longrightarrow> PGROUNDUP sz \<le> b)
    else PGROUNDUP sz = 0)"
proof (intro conjI)
  show "aligned (PGROUNDUP sz)"
    by (simp add: aligned_iff_mod unat_PGROUNDUP)
  show "if unat sz \<le> 2 ^ 32 - 4096
    then sz \<le> PGROUNDUP sz \<and> (\<forall>b. aligned b \<and> sz \<le> b \<longrightarrow> PGROUNDUP sz \<le> b)
    else PGROUNDUP sz = 0"
  proof (split if_split, intro conjI impI allI)
    assume h: "unat sz \<le> 2 ^ 32 - 4096"
    then have r: "unat (PGROUNDUP sz) = 4096 * ((unat sz + 4095) div 4096)"
      by (simp add: unat_PGROUNDUP)
    show "sz \<le> PGROUNDUP sz"
      unfolding word_le_nat_alt r by linarith
    fix b assume b: "aligned b \<and> sz \<le> b"
    then obtain k where "unat b = 4096 * k"
      by (auto simp: aligned_iff_mod)
    with b show "PGROUNDUP sz \<le> b"
      unfolding word_le_nat_alt r by auto
  next
    assume "\<not> unat sz \<le> 2 ^ 32 - 4096"
    then have "unat (PGROUNDUP sz) = 0" by (simp add: unat_PGROUNDUP)
    then show "PGROUNDUP sz = 0" by (simp add: unat_eq_zero)
  qed
qed

theorem pgroundup_least_boundary_witness:
  "PGROUNDUP 5000 = 8192 \<and> 5000 \<le> PGROUNDUP 5000 \<and> PGROUNDUP 5000 \<le> 12288"
proof -
  have "aligned 12288" by (simp add: aligned_iff_mod)
  then show ?thesis
    using pgroundup_least_boundary[of 5000] by (simp add: PGROUNDUP_def)
qed

end
