(* ===== verification/Memory.thy ===== *)
theory Memory
  imports Mmu
begin

text \<open>
  Memory as the kernel sees it: a byte at every kernel virtual address.  Physical memory is mapped
  at \<open>KERNBASE\<close> in every page table (the \<open>kmap\<close> table of src/vm.c), so the byte at physical
  address \<open>pa\<close> is the byte at \<open>P2V pa\<close>.  The routines of src/string.c and the string
  instructions of src/x86.h that they use are functions on such a memory.
\<close>

type_synonym memory = "uint32 \<Rightarrow> byte"

section \<open>Words in memory\<close>

definition ld32 :: "memory \<Rightarrow> uint32 \<Rightarrow> uint32" where
  "ld32 m a = ucast (m a) OR push_bit 8 (ucast (m (a + 1)))
     OR push_bit 16 (ucast (m (a + 2))) OR push_bit 24 (ucast (m (a + 3)))"

definition st32 :: "memory \<Rightarrow> uint32 \<Rightarrow> uint32 \<Rightarrow> memory" where
  "st32 m a w = m(a := ucast w, a + 1 := ucast (drop_bit 8 w),
     a + 2 := ucast (drop_bit 16 w), a + 3 := ucast (drop_bit 24 w))"

lemma join_bytes:
  fixes w :: uint32
  shows "ucast (ucast w :: byte) OR push_bit 8 (ucast (ucast (drop_bit 8 w) :: byte))
     OR push_bit 16 (ucast (ucast (drop_bit 16 w) :: byte))
     OR push_bit 24 (ucast (ucast (drop_bit 24 w) :: byte)) = w" (is "?l = w")
proof (rule bit_word_eqI)
  fix n assume "n < LENGTH(32)"
  then have n: "n < 32" by simp
  consider "n < 8" | "8 \<le> n" "n < 16" | "16 \<le> n" "n < 24" | "24 \<le> n" by linarith
  then show "bit ?l n = bit w n"
    using n by cases (auto simp: bit_simps)
qed

lemma ld32_st32_same [simp]: "ld32 (st32 m a w) a = w"
  by (simp add: ld32_def st32_def join_bytes)

lemma ld32_cong: "(\<And>i. i < 4 \<Longrightarrow> m (a + of_nat i) = m' (a + of_nat i)) \<Longrightarrow> ld32 m a = ld32 m' a"
proof -
  assume h: "\<And>i. i < 4 \<Longrightarrow> m (a + of_nat i) = m' (a + of_nat i)"
  have "m a = m' a" "m (a + 1) = m' (a + 1)" "m (a + 2) = m' (a + 2)" "m (a + 3) = m' (a + 3)"
    using h[of 0] h[of 1] h[of 2] h[of 3] by simp_all
  then show ?thesis by (simp add: ld32_def)
qed

lemma st32_other: "(\<And>i. i < 4 \<Longrightarrow> x \<noteq> a + of_nat i) \<Longrightarrow> st32 m a w x = m x"
proof -
  assume h: "\<And>i. i < 4 \<Longrightarrow> x \<noteq> a + of_nat i"
  have "x \<noteq> a" "x \<noteq> a + 1" "x \<noteq> a + 2" "x \<noteq> a + 3"
    using h[of 0] h[of 1] h[of 2] h[of 3] by simp_all
  then show ?thesis by (simp add: st32_def)
qed

text \<open>Words at distinct multiples of four do not overlap.\<close>

lemma mult4_add:
  fixes a :: uint32
  assumes "unat a mod 4 = 0" and "i < 4"
  shows "unat (a + of_nat i) = unat a + i" and "unat (a + of_nat i) div 4 = unat a div 4"
proof -
  obtain k where k: "unat a = 4 * k" using assms(1) by auto
  then have "k \<le> 1073741823" using unat_uint32_less[of a] by linarith
  then have "unat a + i < 2 ^ 32" using k assms(2) by simp
  moreover have "unat (of_nat i :: uint32) = i"
    using assms(2) by (simp add: unat_of_nat)
  ultimately show eq: "unat (a + of_nat i) = unat a + i"
    by (simp add: unat_plus_if')
  show "unat (a + of_nat i) div 4 = unat a div 4"
    unfolding eq k using assms(2) by simp
qed

lemma mult4_neq:
  fixes a b :: uint32
  assumes "unat a mod 4 = 0" "unat b mod 4 = 0" "a \<noteq> b" "i < 4" "j < 4"
  shows "a + of_nat i \<noteq> b + of_nat j"
proof
  assume "a + of_nat i = b + of_nat j"
  then have "unat a div 4 = unat b div 4"
    using mult4_add(2)[OF assms(1,4)] mult4_add(2)[OF assms(2,5)] by simp
  then have "unat a = unat b"
    using assms(1,2) by (metis div_mult_mod_eq)
  then show False using assms(3) by (simp add: word_unat_eq_iff)
qed

lemma ld32_st32_other:
  assumes "unat a mod 4 = 0" "unat b mod 4 = 0" "a \<noteq> b"
  shows "ld32 (st32 m a w) b = ld32 m b"
proof (rule ld32_cong, rule st32_other)
  fix i j :: nat assume "i < 4" "j < 4"
  with assms show "b + of_nat i \<noteq> a + of_nat j" by (intro mult4_neq) auto
qed

section \<open>Pages\<close>

text \<open>Two memories agree on a page.\<close>

definition same_page :: "memory \<Rightarrow> memory \<Rightarrow> uint32 \<Rightarrow> bool" where
  "same_page m m' p \<longleftrightarrow> (\<forall>a. PTE_ADDR a = p \<longrightarrow> m a = m' a)"

lemma same_page_refl [simp]: "same_page m m p"
  by (simp add: same_page_def)

lemma same_page_trans: "same_page m m' p \<Longrightarrow> same_page m' m'' p \<Longrightarrow> same_page m m'' p"
  by (simp add: same_page_def)

lemma same_page_sym: "same_page m m' p \<Longrightarrow> same_page m' m p"
  by (simp add: same_page_def)

text \<open>The address of entry \<open>i\<close> of a table of 32-bit words that fills the page \<open>p\<close>.\<close>

definition entry :: "uint32 \<Rightarrow> uint32 \<Rightarrow> uint32" where
  "entry p i = p + 4 * i"

lemma unat_times4:
  fixes i :: uint32
  assumes "unat i < 1024"
  shows "unat (4 * i) = 4 * unat i"
  using assms by (simp add: unat_word_ariths)

lemma entry_page:
  assumes "aligned p" and "unat i < 1024" and "k < 4"
  shows "PTE_ADDR (entry p i + of_nat k) = p" and "unat (entry p i) mod 4 = 0"
proof -
  have u: "unat (4 * i + of_nat k) = 4 * unat i + k"
    using mult4_add(1)[of "4 * i" k] assms by (simp add: unat_times4)
  then have "unat (4 * i + of_nat k) < 4096" using assms by simp
  then show "PTE_ADDR (entry p i + of_nat k) = p"
    using assms(1) by (simp add: entry_def add.assoc PTE_ADDR_add)
  have "entry p i = p OR 4 * i" "unat (4 * i) < 4096"
    using assms by (simp_all add: entry_def aligned_plus_or unat_times4)
  then have "unat (entry p i) mod 4096 = unat (4 * i)"
    using assms(1) aligned_or(2)[of p "4 * i"] PTE_FLAGS_mod[of "entry p i"] by simp
  then have "unat (entry p i) mod 4096 mod 4 = 4 * unat i mod 4"
    using assms by (simp add: unat_times4)
  then show "unat (entry p i) mod 4 = 0"
    by (simp add: mod_mod_cancel)
qed

lemma entry_page0: "aligned p \<Longrightarrow> unat i < 1024 \<Longrightarrow> PTE_ADDR (entry p i) = p"
  using entry_page(1)[of p i 0] by simp

lemma entry_0 [simp]: "entry p 0 = p"
  by (simp add: entry_def)

lemma entry_inj:
  assumes "aligned p" "aligned q" "unat i < 1024" "unat j < 1024"
  shows "entry p i = entry q j \<longleftrightarrow> p = q \<and> i = j"
proof
  assume h: "entry p i = entry q j"
  then have pq: "p = q" using assms by (metis entry_page0)
  with h have "4 * i = 4 * j" by (simp add: entry_def)
  then have "unat i = unat j" using assms by (metis unat_times4 mult_cancel1 zero_neq_numeral)
  with pq show "p = q \<and> i = j" by (simp add: word_unat_eq_iff)
qed simp

lemma ld32_same_page:
  assumes "same_page m m' p" "aligned p" "unat i < 1024"
  shows "ld32 m (entry p i) = ld32 m' (entry p i)"
  by (rule ld32_cong) (use assms entry_page in \<open>auto simp: same_page_def\<close>)

lemma same_page_st32:
  assumes "aligned p" "unat i < 1024" "p \<noteq> q"
  shows "same_page (st32 m (entry p i) w) m q"
  unfolding same_page_def by (metis assms entry_page(1) st32_other)

lemma ld32_st32_entry:
  assumes "aligned p" "aligned q" "unat i < 1024" "unat j < 1024"
  shows "ld32 (st32 m (entry p i) w) (entry q j) =
           (if p = q \<and> i = j then w else ld32 m (entry q j))"
proof (cases "entry p i = entry q j")
  case True
  then show ?thesis using assms by (simp add: entry_inj)
next
  case False
  then have "ld32 (st32 m (entry p i) w) (entry q j) = ld32 m (entry q j)"
    using assms by (intro ld32_st32_other) (auto intro: entry_page(2)[where k = 0])
  moreover have "\<not> (p = q \<and> i = j)" using False by blast
  ultimately show ?thesis by auto
qed

section \<open>Byte strings in memory\<close>

primrec store_bytes :: "memory \<Rightarrow> uint32 \<Rightarrow> byte list \<Rightarrow> memory" where
  "store_bytes m a [] = m"
| "store_bytes m a (b # bs) = store_bytes (m(a := b)) (a + 1) bs"

definition load_bytes :: "memory \<Rightarrow> uint32 \<Rightarrow> nat \<Rightarrow> byte list" where
  "load_bytes m a n = map (\<lambda>i. m (a + of_nat i)) [0..<n]"

lemma length_load_bytes [simp]: "length (load_bytes m a n) = n"
  by (simp add: load_bytes_def)

lemma unat_minus_Suc:
  fixes x a :: uint32
  assumes "x \<noteq> a"
  shows "unat (x - a) = Suc (unat (x - (a + 1)))"
proof -
  have "x - a \<noteq> 0" using assms by simp
  then have "unat (x - (a + 1)) = unat (x - a) - 1" and "unat (x - a) \<noteq> 0"
    by (simp_all add: unat_minus_one unat_eq_zero flip: diff_diff_add)
  then show ?thesis by simp
qed

lemma store_bytes_apply:
  assumes "length bs \<le> 2 ^ 32"
  shows "store_bytes m a bs x = (if unat (x - a) < length bs then bs ! unat (x - a) else m x)"
  using assms
proof (induction bs arbitrary: m a)
  case (Cons b bs)
  show ?case
  proof (cases "x = a")
    case True
    have "unat (a - (a + 1)) = 2 ^ 32 - 1" by (simp add: unsigned_minus_1_eq_mask mask_eq_exp_minus_1)
    with Cons True show ?thesis by simp
  next
    case False
    with Cons show ?thesis by (simp add: unat_minus_Suc)
  qed
qed simp

lemma load_store_bytes:
  assumes "length bs \<le> 2 ^ 32"
  shows "load_bytes (store_bytes m a bs) a (length bs) = bs"
proof (rule nth_equalityI)
  fix i assume "i < length (load_bytes (store_bytes m a bs) a (length bs))"
  then have "i < length bs" by simp
  moreover from this assms have "unat (of_nat i :: uint32) = i" by (simp add: unat_of_nat)
  ultimately show "load_bytes (store_bytes m a bs) a (length bs) ! i = bs ! i"
    using assms by (simp add: load_bytes_def store_bytes_apply)
qed simp

end
