(* ===== verification/StringC.thy ===== *)
theory StringC
  imports Memory
begin

text \<open>
  src/string.c and the string instructions of src/x86.h.  Routines that only read take their
  arguments as character sequences \<open>nat \<Rightarrow> byte\<close> (the bytes from the pointer on); routines
  that write either act on a memory (\<open>memset\<close>, \<open>memmove\<close>) or yield the list of bytes they
  store at their destination (\<open>strncpy\<close>, \<open>safestrcpy\<close>).
\<close>

section \<open>memset\<close>

text \<open>\<open>rep stosb\<close> and \<open>rep stosl\<close> store \<open>cnt\<close> bytes or words at ascending addresses.\<close>

fun stosb :: "memory \<Rightarrow> uint32 \<Rightarrow> byte \<Rightarrow> nat \<Rightarrow> memory" where
  "stosb m addr data 0 = m"
| "stosb m addr data (Suc cnt) = stosb (m(addr := data)) (addr + 1) data cnt"

fun stosl :: "memory \<Rightarrow> uint32 \<Rightarrow> uint32 \<Rightarrow> nat \<Rightarrow> memory" where
  "stosl m addr data 0 = m"
| "stosl m addr data (Suc cnt) = stosl (st32 m addr data) (addr + 4) data cnt"

definition memset :: "memory \<Rightarrow> uint32 \<Rightarrow> uint32 \<Rightarrow> uint32 \<Rightarrow> memory" where
  "memset m dst c n =
     (if unat dst mod 4 = 0 \<and> unat n mod 4 = 0
      then let c = c AND 0xFF
           in stosl m dst (push_bit 24 c OR push_bit 16 c OR push_bit 8 c OR c) (unat n div 4)
      else stosb m dst (ucast c) (unat n))"

section \<open>memcmp, strncmp, strlen\<close>

fun memcmp :: "(nat \<Rightarrow> byte) \<Rightarrow> (nat \<Rightarrow> byte) \<Rightarrow> nat \<Rightarrow> int" where
  "memcmp s1 s2 0 = 0"
| "memcmp s1 s2 (Suc n) =
     (if s1 0 \<noteq> s2 0 then uint (s1 0) - uint (s2 0)
      else memcmp (\<lambda>i. s1 (Suc i)) (\<lambda>i. s2 (Suc i)) n)"

fun strncmp :: "(nat \<Rightarrow> byte) \<Rightarrow> (nat \<Rightarrow> byte) \<Rightarrow> nat \<Rightarrow> int" where
  "strncmp p q 0 = 0"
| "strncmp p q (Suc n) =
     (if p 0 \<noteq> 0 \<and> p 0 = q 0 then strncmp (\<lambda>i. p (Suc i)) (\<lambda>i. q (Suc i)) n
      else uint (p 0) - uint (q 0))"

partial_function (option) strlen_from :: "(nat \<Rightarrow> byte) \<Rightarrow> nat \<Rightarrow> nat option" where
  "strlen_from s n = (if s n = 0 then Some n else strlen_from s (Suc n))"

definition strlen :: "(nat \<Rightarrow> byte) \<Rightarrow> nat option" where
  "strlen s = strlen_from s 0"

section \<open>memmove\<close>

fun copy_up :: "memory \<Rightarrow> uint32 \<Rightarrow> uint32 \<Rightarrow> nat \<Rightarrow> memory" where
  "copy_up m d s 0 = m"
| "copy_up m d s (Suc n) = copy_up (m(d := m s)) (d + 1) (s + 1) n"

fun copy_down :: "memory \<Rightarrow> uint32 \<Rightarrow> uint32 \<Rightarrow> nat \<Rightarrow> memory" where
  "copy_down m d s 0 = m"
| "copy_down m d s (Suc n) = copy_down (m(d - 1 := m (s - 1))) (d - 1) (s - 1) n"

definition memmove :: "memory \<Rightarrow> uint32 \<Rightarrow> uint32 \<Rightarrow> uint32 \<Rightarrow> memory" where
  "memmove m dst src n =
     (if src < dst \<and> src + n > dst
      then copy_down m (dst + n) (src + n) (unat n)
      else copy_up m dst src (unat n))"

text \<open>\<open>memcpy\<close> exists for the compiler and is \<open>memmove\<close>.\<close>

definition memcpy :: "memory \<Rightarrow> uint32 \<Rightarrow> uint32 \<Rightarrow> uint32 \<Rightarrow> memory" where
  "memcpy m dst src n = memmove m dst src n"

section \<open>strncpy, safestrcpy\<close>

text \<open>The first loop of \<open>strncpy\<close> copies up to and including the terminator, the second pads.\<close>

fun strncpy :: "(nat \<Rightarrow> byte) \<Rightarrow> nat \<Rightarrow> byte list" where
  "strncpy t 0 = []"
| "strncpy t (Suc n) =
     (if t 0 \<noteq> 0 then t 0 # strncpy (\<lambda>i. t (Suc i)) n else 0 # replicate n 0)"

fun safestrcpy_loop :: "(nat \<Rightarrow> byte) \<Rightarrow> nat \<Rightarrow> byte list" where
  "safestrcpy_loop t 0 = [0]"
| "safestrcpy_loop t (Suc n) =
     (if t 0 \<noteq> 0 then t 0 # safestrcpy_loop (\<lambda>i. t (Suc i)) n else [0, 0])"

definition safestrcpy :: "(nat \<Rightarrow> byte) \<Rightarrow> int \<Rightarrow> byte list" where
  "safestrcpy t n = (if n \<le> 0 then [] else safestrcpy_loop t (nat n - 1))"

section \<open>memset and memmove as functions of the address\<close>

lemma word_gap_Suc:
  fixes x a :: uint32
  assumes "Suc n \<le> 2 ^ 32"
  shows "unat (x - a) < Suc n \<longleftrightarrow> x = a \<or> unat (x - (a + 1)) < n"
proof (cases "x = a")
  case False
  then have "x - a \<noteq> 0" by simp
  then have "unat (x - (a + 1)) = unat (x - a) - 1" and "unat (x - a) \<noteq> 0"
    by (simp_all add: unat_minus_one unat_eq_zero flip: diff_diff_add)
  with False show ?thesis by auto
qed simp

lemma stosb_apply:
  "n \<le> 2 ^ 32 \<Longrightarrow> stosb m a c n x = (if unat (x - a) < n then c else m x)"
proof (induction n arbitrary: m a)
  case (Suc n)
  then show ?case using word_gap_Suc[of n x a] by auto
qed simp

lemma stosb_add: "stosb m a c (k + n) = stosb (stosb m a c k) (a + of_nat k) c n"
  by (induction k arbitrary: m a) (simp_all add: algebra_simps)

lemma stosb_4: "stosb m a c 4 = m(a := c, a + 1 := c, a + 2 := c, a + 3 := c)"
  by (simp add: numeral_eq_Suc add.assoc)

lemma stosl_stosb:
  assumes "\<And>m a. st32 m a w = stosb m a c 4"
  shows "stosl m a w n = stosb m a c (4 * n)"
proof (induction n arbitrary: m a)
  case (Suc n)
  show ?case using stosb_add[of m a c 4 "4 * n"] by (simp add: assms Suc.IH)
qed simp

lemma ucast_bytes:
  fixes c :: uint32
  defines "b \<equiv> c AND 0xFF"
  defines "w \<equiv> push_bit 24 b OR push_bit 16 b OR push_bit 8 b OR b"
  shows "ucast w = (ucast c :: byte)" "ucast (drop_bit 8 w) = (ucast c :: byte)"
    "ucast (drop_bit 16 w) = (ucast c :: byte)" "ucast (drop_bit 24 w) = (ucast c :: byte)"
proof -
  have m: "(0xFF :: uint32) = mask 8" by (simp add: mask_eq_exp_minus_1)
  have b: "bit b n \<longleftrightarrow> n < 8 \<and> bit c n" for n
    by (auto simp: b_def m bit_simps)
  have w: "bit w n \<longleftrightarrow> n < 32 \<and> (bit b n \<or> 8 \<le> n \<and> bit b (n - 8) \<or> 16 \<le> n \<and> bit b (n - 16)
             \<or> 24 \<le> n \<and> bit b (n - 24))" for n
    by (auto simp: w_def bit_simps dest: bit_imp_le_length)
  show "ucast w = (ucast c :: byte)"
    by (rule bit_word_eqI) (auto simp: bit_simps w b)
  show "ucast (drop_bit 8 w) = (ucast c :: byte)"
    by (rule bit_word_eqI) (auto simp: bit_simps w b)
  show "ucast (drop_bit 16 w) = (ucast c :: byte)"
    by (rule bit_word_eqI) (auto simp: bit_simps w b)
  show "ucast (drop_bit 24 w) = (ucast c :: byte)"
    by (rule bit_word_eqI) (auto simp: bit_simps w b)
qed

text \<open>The word path of \<open>memset\<close> stores the same bytes as the byte path.\<close>

lemma memset_stosb: "memset m dst c n = stosb m dst (ucast c) (unat n)"
proof -
  define w where "w = push_bit 24 (c AND 0xFF) OR push_bit 16 (c AND 0xFF)
                        OR push_bit 8 (c AND 0xFF) OR (c AND 0xFF)"
  have "st32 m a w = stosb m a (ucast c) 4" for m a
    unfolding st32_def stosb_4 w_def by (simp only: ucast_bytes)
  then have "stosl m dst w k = stosb m dst (ucast c) (4 * k)" for k
    by (intro stosl_stosb)
  then show ?thesis
    by (auto simp: memset_def w_def Let_def)
qed

lemma memset_apply:
  "memset m dst c n x = (if unat (x - dst) < unat n then ucast c else m x)"
  using unat_uint32_less[of n] by (simp add: memset_stosb stosb_apply)

lemma copy_up_apply:
  assumes "n \<le> 2 ^ 32"
    and "\<And>i j. i < j \<Longrightarrow> j < n \<Longrightarrow> d + of_nat i \<noteq> s + of_nat j"
  shows "copy_up m d s n x = (if unat (x - d) < n then m (s + (x - d)) else m x)"
  using assms
proof (induction n arbitrary: m d s)
  case (Suc n)
  let ?m = "m(d := m s)"
  have ov: "d + 1 + of_nat i \<noteq> s + 1 + of_nat j" if "i < j" "j < n" for i j
    using Suc.prems(2)[of "Suc i" "Suc j"] that by (simp add: add.assoc)
  have IH: "copy_up ?m (d + 1) (s + 1) n x =
      (if unat (x - (d + 1)) < n then ?m (s + 1 + (x - (d + 1))) else ?m x)"
    using Suc.prems(1) ov by (intro Suc.IH) auto
  show ?case
  proof (cases "unat (x - (d + 1)) < n")
    case True
    then have lt: "unat (x - d) < Suc n"
      using Suc.prems(1) word_gap_Suc[of n x d] by simp
    have "?m (s + (x - d)) = m (s + (x - d))"
    proof (cases "x = d")
      case False
      then have "0 < unat (x - d)" by (simp add: unat_gt_0)
      then have "d + of_nat 0 \<noteq> s + of_nat (unat (x - d))"
        using lt by (intro Suc.prems(2)) auto
      then show ?thesis by auto
    qed auto
    with True lt show ?thesis by (simp add: IH)
  next
    case False
    then show ?thesis
      using Suc.prems(1) word_gap_Suc[of n x d] by (auto simp: IH)
  qed
qed simp

lemma unat_gap_snoc:
  fixes x d :: uint32
  assumes "n < 2 ^ 32"
  shows "unat (x - d) < Suc n \<longleftrightarrow> x = d + of_nat n \<or> unat (x - d) < n"
proof -
  have "unat (of_nat n :: uint32) = n"
    using assms by (simp add: unat_of_nat)
  then have "unat (x - d) = n \<longleftrightarrow> x - d = of_nat n"
    by (metis word_unat_eq_iff)
  moreover have "x - d = of_nat n \<longleftrightarrow> x = d + of_nat n"
    by (metis add.commute add_diff_cancel diff_add_cancel)
  ultimately show ?thesis by (auto simp: less_Suc_eq)
qed

lemma copy_down_apply:
  assumes "n \<le> 2 ^ 32"
    and "\<And>i j. j < i \<Longrightarrow> i < n \<Longrightarrow> d + of_nat i \<noteq> s + of_nat j"
  shows "copy_down m (d + of_nat n) (s + of_nat n) n x =
           (if unat (x - d) < n then m (s + (x - d)) else m x)"
  using assms
proof (induction n arbitrary: m)
  case (Suc n)
  let ?m = "m(d + of_nat n := m (s + of_nat n))"
  have IH: "copy_down ?m (d + of_nat n) (s + of_nat n) n x =
      (if unat (x - d) < n then ?m (s + (x - d)) else ?m x)"
    using Suc.prems by (intro Suc.IH) auto
  have "s + (x - d) \<noteq> d + of_nat n" if "unat (x - d) < n"
    using Suc.prems(2)[OF that] by (metis lessI of_nat_unat ucast_id)
  then show ?case
    using Suc.prems(1) unat_gap_snoc[of n x d] by (auto simp: IH add.commute add.left_commute)
qed simp

section \<open>C strings as lists\<close>

text \<open>The bytes of a C string before its terminator, looking at most \<open>n\<close> bytes ahead.\<close>

fun cstr :: "(nat \<Rightarrow> byte) \<Rightarrow> nat \<Rightarrow> byte list" where
  "cstr s 0 = []"
| "cstr s (Suc n) = (if s 0 = 0 then [] else s 0 # cstr (\<lambda>i. s (Suc i)) n)"

text \<open>A list of bytes as a character sequence; beyond its end there are zeros.\<close>

definition seq :: "byte list \<Rightarrow> nat \<Rightarrow> byte" where
  "seq xs i = (if i < length xs then xs ! i else 0)"

lemma seq_simps [simp]:
  "seq [] i = 0" "seq (x # xs) 0 = x" "seq (x # xs) (Suc i) = seq xs i"
  by (simp_all add: seq_def)

lemma length_cstr_le: "length (cstr s n) \<le> n"
  by (induction s n rule: cstr.induct) auto

lemma cstr_nonzero: "0 \<notin> set (cstr s n)"
  by (induction s n rule: cstr.induct) auto

lemma cstr_all_zero: "(\<And>i. s i = 0) \<Longrightarrow> cstr s n = []"
  by (cases n) auto

lemma strncmp_eq_0: "strncmp p q n = 0 \<longleftrightarrow> cstr p n = cstr q n"
  by (induction p q n rule: strncmp.induct) auto

lemma length_strncpy [simp]: "length (strncpy t n) = n"
  by (induction t n rule: strncpy.induct) auto

lemma strncpy_eq: "strncpy t n = cstr t n @ replicate (n - length (cstr t n)) 0"
  by (induction t n rule: strncpy.induct) auto

lemma cstr_seq_replicate0: "cstr (seq (replicate k 0)) n = []"
  by (rule cstr_all_zero) (simp add: seq_def)

lemma cstr_strncpy: "cstr (seq (strncpy t n)) n = cstr t n"
  by (induction t n rule: strncpy.induct) (auto simp: cstr_seq_replicate0)

lemma memcmp_eq_0: "memcmp s1 s2 n = 0 \<longleftrightarrow> (\<forall>i < n. s1 i = s2 i)"
  by (induction s1 s2 n rule: memcmp.induct) (auto simp: less_Suc_eq_0_disj)

lemma safestrcpy_loop_spec:
  "length (safestrcpy_loop t n) \<le> Suc n \<and> cstr (seq (safestrcpy_loop t n)) (Suc n) = cstr t n"
proof (induction t n rule: safestrcpy_loop.induct)
  case (2 t n)
  show ?case
  proof (cases "t 0 = 0")
    case False
    with 2 show ?thesis
      by (simp add: cstr.simps(2)[of _ "Suc n"] cstr.simps(2)[of t n] del: cstr.simps)
  qed simp
qed simp

lemma strlen_from_SomeD:
  assumes "strlen_from s n = Some k"
  shows "n \<le> k \<and> s k = 0 \<and> (\<forall>i. n \<le> i \<and> i < k \<longrightarrow> s i \<noteq> 0)"
proof (rule strlen_from.raw_induct
    [where P = "\<lambda>s n k. n \<le> k \<and> s k = 0 \<and> (\<forall>i. n \<le> i \<and> i < k \<longrightarrow> s i \<noteq> 0)", OF _ assms])
  fix f :: "(nat \<Rightarrow> byte) \<Rightarrow> nat \<Rightarrow> nat option" and s n k
  assume IH: "\<And>s n k. f s n = Some k \<Longrightarrow> n \<le> k \<and> s k = 0 \<and> (\<forall>i. n \<le> i \<and> i < k \<longrightarrow> s i \<noteq> 0)"
    and eq: "(if s n = 0 then Some n else f s (Suc n)) = Some k"
  show "n \<le> k \<and> s k = 0 \<and> (\<forall>i. n \<le> i \<and> i < k \<longrightarrow> s i \<noteq> 0)"
  proof (cases "s n = 0")
    case False
    then have "Suc n \<le> k \<and> s k = 0 \<and> (\<forall>i. Suc n \<le> i \<and> i < k \<longrightarrow> s i \<noteq> 0)"
      using eq IH[of s "Suc n" k] by simp
    with False show ?thesis by (metis Suc_leD le_antisym not_less_eq_eq)
  qed (use eq in auto)
qed

lemma strlen_from_returns:
  "n \<le> k \<Longrightarrow> s k = 0 \<Longrightarrow> (\<And>i. n \<le> i \<Longrightarrow> i < k \<Longrightarrow> s i \<noteq> 0) \<Longrightarrow> strlen_from s n = Some k"
proof (induction "k - n" arbitrary: n)
  case 0
  then show ?case by (simp add: strlen_from.simps)
next
  case (Suc d)
  then have "n < k" by simp
  with Suc.prems have "strlen_from s n = strlen_from s (Suc n)"
    by (simp add: strlen_from.simps[of s n])
  also have "\<dots> = Some k" using Suc \<open>n < k\<close> by (intro Suc.hyps(1)) auto
  finally show ?case .
qed

lemma strlen_eq_Some: "strlen s = Some k \<longleftrightarrow> s k = 0 \<and> (\<forall>i < k. s i \<noteq> 0)"
  unfolding strlen_def by (auto dest: strlen_from_SomeD intro: strlen_from_returns)

section \<open>Properties\<close>

text \<open>
  C14. \<open>memmove\<close> copies the source as it was before the call, however source and destination
  overlap, and changes no other byte, provided neither range runs past the end of the address
  space.
\<close>

theorem memmove_copies:
  assumes "unat src + unat n < 2 ^ 32" and "unat dst + unat n \<le> 2 ^ 32"
  shows "memmove m dst src n a =
           (if unat (a - dst) < unat n then m (src + (a - dst)) else m a)"
proof -
  have n: "unat n \<le> 2 ^ 32" using unat_uint32_less[of n] by simp
  have u: "unat (src + of_nat i) = unat src + i \<and> unat (dst + of_nat i) = unat dst + i"
    if "i < unat n" for i
    using that assms unat_uint32_less[of n] by (simp add: unat_plus_if' unat_of_nat)
  have ne: "dst + of_nat i \<noteq> src + of_nat j"
    if "i < unat n" "j < unat n" "unat dst + i \<noteq> unat src + j" for i j
    using u[OF that(1)] u[OF that(2)] that(3) by (metis (no_types))
  have sn: "unat (src + n) = unat src + unat n"
    using assms(1) by (simp add: unat_plus_if')
  show ?thesis
  proof (cases "src < dst \<and> src + n > dst")
    case True
    then have "unat src < unat dst" by (simp add: word_less_nat_alt)
    then have "copy_down m (dst + of_nat (unat n)) (src + of_nat (unat n)) (unat n) a =
        (if unat (a - dst) < unat n then m (src + (a - dst)) else m a)"
      by (intro copy_down_apply n ne) auto
    with True show ?thesis by (simp add: memmove_def)
  next
    case False
    then have "unat dst \<le> unat src \<or> unat src + unat n \<le> unat dst"
      using sn by (auto simp: word_less_nat_alt)
    then have "copy_up m dst src (unat n) a =
        (if unat (a - dst) < unat n then m (src + (a - dst)) else m a)"
      by (intro copy_up_apply n ne) auto
    moreover have "memmove m dst src n = copy_up m dst src (unat n)"
      using False by (simp only: memmove_def if_False)
    ultimately show ?thesis by simp
  qed
qed

theorem memmove_copies_witness:
  "memmove (\<lambda>a. ucast a) 11 10 3 13 = 12 \<and> memmove (\<lambda>a. ucast a) 11 10 3 14 = 14"
  using memmove_copies[of 10 3 11 "\<lambda>a. ucast a" 13] memmove_copies[of 10 3 11 "\<lambda>a. ucast a" 14]
  by simp

text \<open>
  C15. A name stored with \<open>strncpy\<close> into a field of \<open>n\<close> bytes fills the field exactly, and
  \<open>strncmp\<close> over \<open>n\<close> bytes recognises it: it compares equal to exactly those names that
  agree with it in their first \<open>n\<close> characters.
\<close>

theorem strncpy_strncmp_roundtrip:
  "length (strncpy t n) = n \<and>
   (strncmp u (seq (strncpy t n)) n = 0 \<longleftrightarrow> cstr u n = cstr t n)"
  by (simp add: strncmp_eq_0 cstr_strncpy)

text \<open>
  \<open>safestrcpy\<close> into a buffer of \<open>n > 0\<close> bytes never writes past the buffer and always
  leaves a terminated string: the source cut to its first \<open>n - 1\<close> characters.
\<close>

lemma safestrcpy_terminates_string:
  assumes "0 < n"
  shows "length (safestrcpy t n) \<le> nat n \<and>
         cstr (seq (safestrcpy t n)) (nat n) = cstr t (nat n - 1) \<and>
         length (cstr (seq (safestrcpy t n)) (nat n)) < nat n"
proof -
  obtain k where k: "nat n = Suc k" using assms by (cases "nat n") auto
  then have "safestrcpy t n = safestrcpy_loop t k" using assms by (simp add: safestrcpy_def)
  with k safestrcpy_loop_spec[of t k] length_cstr_le[of t k] show ?thesis by simp
qed

end
