(* ===== verification/Kalloc.thy ===== *)
theory Kalloc
  imports StringC
begin

text \<open>
  The physical page allocator (src/kalloc.c).  The free list is threaded through the free pages
  themselves: the first word of a free page is the address of the next one.  The symbol \<open>end\<close>,
  which the linker script defines, is the argument \<open>kend\<close>.  The spin lock \<open>kmem.lock\<close> is
  taken and released inside each operation, so it has no effect on a sequential run.
\<close>

section \<open>State and operations\<close>

record kmem =
  use_lock :: bool
  freelist :: uint32

record machine =
  mem :: memory
  kmem :: kmem
  page_counter :: int
  total_free_pages :: int

text \<open>The operations work on any state that extends the machine.\<close>

type_synonym 'a mach = "'a machine_scheme"

definition getfreepages :: "'a mach \<Rightarrow> int" where
  "getfreepages s = page_counter s"

definition getTotalPageskernel :: "uint32 \<Rightarrow> uint32" where
  "getTotalPageskernel kend = PGROUNDDOWN (PHYSTOP - V2P kend) div PGSIZE"

definition getTotalfreePages :: "'a mach \<Rightarrow> int" where
  "getTotalfreePages s = total_free_pages s"

definition kfree :: "uint32 \<Rightarrow> uint32 \<Rightarrow> 'a mach \<Rightarrow> 'a mach res" where
  "kfree kend v s =
     (if unat v mod unat PGSIZE \<noteq> 0 \<or> v < kend \<or> V2P v \<ge> PHYSTOP then Stop (Panic ''kfree'')
      else let m = memset (mem s) v 1 PGSIZE;
               m = st32 m v (freelist (kmem s))
           in Ok (s\<lparr>mem := m, page_counter := page_counter s + 1,
                    kmem := (kmem s)\<lparr>freelist := v\<rparr>\<rparr>))"

definition kalloc :: "'a mach \<Rightarrow> uint32 \<times> 'a mach" where
  "kalloc s =
     (let r = freelist (kmem s);
          s = s\<lparr>page_counter := page_counter s - 1\<rparr>;
          s = (if r \<noteq> 0 then s\<lparr>kmem := (kmem s)\<lparr>freelist := ld32 (mem s) r\<rparr>\<rparr> else s)
      in (r, s))"

lemma kfree_Ok_range: "kfree kend v s = Ok s' \<Longrightarrow> V2P v < PHYSTOP"
  by (auto simp: kfree_def not_le split: if_splits)

lemma V2P_less_PHYSTOP:
  assumes "V2P v < PHYSTOP"
  shows "0x80000000 \<le> unat v" and "unat v < 0x8E000000"
proof -
  have "unat (V2P v) = (if 0x80000000 \<le> unat v then unat v - 0x80000000 else unat v + 0x80000000)"
    using unat_uint32_less[of v] by (auto simp: V2P_def unat_sub_if')
  moreover have "unat (V2P v) < 0xE000000" using assms by (simp add: word_less_nat_alt)
  ultimately show "0x80000000 \<le> unat v" and "unat v < 0x8E000000" by (auto split: if_splits)
qed

text \<open>
  The loop of \<open>freerange\<close>.  It ends because \<open>kfree\<close> panics on an address outside physical
  memory, so the addition cannot wrap while the loop goes on.
\<close>

function freerange_loop :: "uint32 \<Rightarrow> uint32 \<Rightarrow> uint32 \<Rightarrow> 'a mach \<Rightarrow> 'a mach res" where
  "freerange_loop kend p vend s =
     (if p + PGSIZE \<le> vend
      then andthen (kfree kend p s) (\<lambda>s. freerange_loop kend (p + PGSIZE) vend s)
      else Ok s)"
  by pat_completeness auto
termination
proof (relation "measure (\<lambda>(kend, p, vend, s). 4294967296 - unat p)")
  fix kend p vend :: uint32 and s s' :: "'a mach"
  assume "kfree kend p s = Ok s'"
  then have "unat p < 0x8E000000"
    by (intro V2P_less_PHYSTOP(2)) (rule kfree_Ok_range)
  then show "((kend, p + PGSIZE, vend, s'), kend, p, vend, s)
      \<in> measure (\<lambda>(kend, p, vend, s). 4294967296 - unat p)"
    by (simp add: unat_plus_if')
qed simp

declare freerange_loop.simps [simp del]

definition freerange :: "uint32 \<Rightarrow> uint32 \<Rightarrow> uint32 \<Rightarrow> 'a mach \<Rightarrow> 'a mach res" where
  "freerange kend vstart vend s = freerange_loop kend (PGROUNDUP vstart) vend s"

definition kinit1 :: "uint32 \<Rightarrow> uint32 \<Rightarrow> uint32 \<Rightarrow> 'a mach \<Rightarrow> 'a mach res" where
  "kinit1 kend vstart vend s =
     andthen (freerange kend vstart vend (s\<lparr>kmem := (kmem s)\<lparr>use_lock := False\<rparr>\<rparr>))
       (\<lambda>s. Ok (s\<lparr>total_free_pages := total_free_pages s
                   + uint ((PGROUNDDOWN vend - PGROUNDUP vstart) div PGSIZE)\<rparr>))"

definition kinit2 :: "uint32 \<Rightarrow> uint32 \<Rightarrow> uint32 \<Rightarrow> 'a mach \<Rightarrow> 'a mach res" where
  "kinit2 kend vstart vend s =
     andthen (freerange kend vstart vend s)
       (\<lambda>s. let s = s\<lparr>kmem := (kmem s)\<lparr>use_lock := True\<rparr>\<rparr>
            in Ok (s\<lparr>total_free_pages := total_free_pages s
                   + uint ((PGROUNDDOWN vend - PGROUNDUP vstart) div PGSIZE)\<rparr>))"

section \<open>The free list as a list of pages\<close>

primrec freechain :: "memory \<Rightarrow> uint32 \<Rightarrow> uint32 list \<Rightarrow> bool" where
  "freechain m r [] \<longleftrightarrow> r = 0"
| "freechain m r (p # ps) \<longleftrightarrow> r = p \<and> freechain m (ld32 m p) ps"

definition page_ok :: "uint32 \<Rightarrow> uint32 \<Rightarrow> bool" where
  "page_ok kend p \<longleftrightarrow> aligned p \<and> kend \<le> p \<and> V2P p < PHYSTOP"

definition free_pages :: "uint32 \<Rightarrow> 'a mach \<Rightarrow> uint32 list \<Rightarrow> bool" where
  "free_pages kend s ps \<longleftrightarrow>
     freechain (mem s) (freelist (kmem s)) ps \<and> distinct ps \<and> (\<forall>p \<in> set ps. page_ok kend p)"

lemma page_ok_nonzero: "page_ok kend p \<Longrightarrow> p \<noteq> 0"
  by (auto simp: page_ok_def V2P_def)

lemma page_ok_aligned: "page_ok kend p \<Longrightarrow> aligned p"
  by (simp add: page_ok_def)

lemma freechain_cong:
  "(\<And>p. p \<in> set ps \<Longrightarrow> ld32 m p = ld32 m' p) \<Longrightarrow> freechain m r ps = freechain m' r ps"
  by (induction ps arbitrary: r) auto

lemma ld32_same_page0: "same_page m m' p \<Longrightarrow> aligned p \<Longrightarrow> ld32 m p = ld32 m' p"
  using ld32_same_page[of m m' p 0] by simp

lemma freechain_same_pages:
  assumes "\<And>p. p \<in> set ps \<Longrightarrow> same_page m m' p \<and> aligned p"
  shows "freechain m r ps = freechain m' r ps"
  by (rule freechain_cong) (use assms ld32_same_page0 in blast)

text \<open>Writing to pages that are in use leaves the free list alone.\<close>

lemma free_pages_same_pages:
  assumes "free_pages kend s ps" and "\<And>p. p \<in> set ps \<Longrightarrow> same_page (mem s) m p"
  shows "free_pages kend (s\<lparr>mem := m\<rparr>) ps"
proof -
  have "same_page (mem s) m p \<and> aligned p" if "p \<in> set ps" for p
    using assms that by (auto simp: free_pages_def page_ok_aligned)
  then have "freechain (mem s) (freelist (kmem s)) ps = freechain m (freelist (kmem s)) ps"
    by (rule freechain_same_pages)
  then show ?thesis using assms(1) by (simp add: free_pages_def)
qed

section \<open>What the operations do to the free list\<close>

lemma kalloc_Cons:
  assumes "free_pages kend s (p # ps)"
  shows "kalloc s = (p, s\<lparr>page_counter := page_counter s - 1,
                          kmem := (kmem s)\<lparr>freelist := ld32 (mem s) p\<rparr>\<rparr>)"
    and "free_pages kend (snd (kalloc s)) ps"
proof -
  have p: "freelist (kmem s) = p" "p \<noteq> 0"
    using assms page_ok_nonzero by (auto simp: free_pages_def)
  then show eq: "kalloc s = (p, s\<lparr>page_counter := page_counter s - 1,
                          kmem := (kmem s)\<lparr>freelist := ld32 (mem s) p\<rparr>\<rparr>)"
    by (simp add: kalloc_def)
  show "free_pages kend (snd (kalloc s)) ps"
    using assms by (auto simp: eq free_pages_def)
qed

lemma kalloc_Nil:
  assumes "free_pages kend s []"
  shows "kalloc s = (0, s\<lparr>page_counter := page_counter s - 1\<rparr>)"
  using assms by (simp add: kalloc_def free_pages_def)

lemma page_gap:
  assumes "aligned p"
  shows "unat (a - p) < 4096 \<longleftrightarrow> PTE_ADDR a = p"
proof
  assume "unat (a - p) < 4096"
  then show "PTE_ADDR a = p" using assms PTE_ADDR_add(1)[of p "a - p"] by simp
next
  assume "PTE_ADDR a = p"
  then have "a - p = PTE_FLAGS a" by (metis PTE_ADDR_plus_FLAGS add_diff_cancel_left')
  then show "unat (a - p) < 4096" by (simp add: PTE_FLAGS_mod)
qed

lemma same_page_memset:
  "aligned p \<Longrightarrow> p \<noteq> q \<Longrightarrow> same_page m (memset m p c PGSIZE) q"
  by (auto simp: same_page_def memset_apply page_gap)

lemma kfree_Ok:
  assumes "page_ok kend v"
  shows "kfree kend v s = Ok (s\<lparr>mem := st32 (memset (mem s) v 1 PGSIZE) v (freelist (kmem s)),
            page_counter := page_counter s + 1, kmem := (kmem s)\<lparr>freelist := v\<rparr>\<rparr>)"
  using assms by (simp add: kfree_def page_ok_def aligned_iff_mod not_less not_le Let_def)

lemma kfree_free_pages:
  assumes "free_pages kend s ps" "page_ok kend v" "v \<notin> set ps"
  obtains s' where "kfree kend v s = Ok s'" "free_pages kend s' (v # ps)"
    "\<And>q. q \<noteq> v \<Longrightarrow> same_page (mem s) (mem s') q" "page_counter s' = page_counter s + 1"
    "total_free_pages s' = total_free_pages s"
proof -
  define m where "m = st32 (memset (mem s) v 1 PGSIZE) v (freelist (kmem s))"
  define s' where "s' = s\<lparr>mem := m, page_counter := page_counter s + 1,
                          kmem := (kmem s)\<lparr>freelist := v\<rparr>\<rparr>"
  have v: "aligned v" using assms(2) by (rule page_ok_aligned)
  have same: "same_page (mem s) m q" if "q \<noteq> v" for q
    unfolding m_def
    by (rule same_page_trans[OF same_page_memset[OF v that[symmetric]]],
        rule same_page_sym, rule same_page_st32[of v 0, simplified]) (use v that in auto)
  have "freechain (mem s) (freelist (kmem s)) ps = freechain m (freelist (kmem s)) ps"
    by (rule freechain_same_pages)
       (use assms same in \<open>metis free_pages_def page_ok_aligned\<close>)
  then have fp: "free_pages kend s' (v # ps)"
    using assms by (simp add: free_pages_def s'_def m_def)
  have "kfree kend v s = Ok s'"
    by (simp add: kfree_Ok[OF assms(2)] s'_def m_def)
  then show ?thesis using fp
    by (rule that[of s']) (simp_all add: s'_def same)
qed

section \<open>Freeing a range at boot\<close>

abbreviation nth_page :: "uint32 \<Rightarrow> nat \<Rightarrow> uint32" where
  "nth_page p i \<equiv> p + of_nat i * 4096"

lemma unat_nth_page:
  assumes "unat p + 4096 * i < 2 ^ 32"
  shows "unat (nth_page p i) = unat p + 4096 * i"
  using assms by (simp add: unat_word_ariths unat_of_nat mult.commute)

lemma page_okI:
  assumes "aligned p" "kend \<le> p" "0x80000000 \<le> unat p" "unat p < 0x8E000000"
  shows "page_ok kend p"
  using assms by (simp add: page_ok_def V2P_def word_less_nat_alt unat_sub_if')

lemma nth_page_0 [simp]: "nth_page p 0 = p"
  by simp

lemma nth_page_Suc: "nth_page p (Suc i) = nth_page (p + 4096) i"
  by (simp add: algebra_simps)

lemma freerange_loop_Ok:
  assumes "free_pages kend s ps" "aligned p" "kend \<le> p" "0x80000000 \<le> unat p"
    and "unat vend \<le> 0x8E000000" "unat p + 4096 * n \<le> unat vend" "unat vend < unat p + 4096 * Suc n"
    and "\<And>q. q \<in> set ps \<Longrightarrow> unat q < unat p \<or> unat vend \<le> unat q"
  shows "\<exists>s'. freerange_loop kend p vend s = Ok s' \<and>
           free_pages kend s' (rev (map (nth_page p) [0..<n]) @ ps) \<and>
           page_counter s' = page_counter s + int n \<and> total_free_pages s' = total_free_pages s"
  using assms
proof (induction n arbitrary: p s ps)
  case 0
  then have "\<not> p + PGSIZE \<le> vend"
    by (simp add: word_le_nat_alt unat_plus_if')
  with 0 show ?case by (simp add: freerange_loop.simps)
next
  case (Suc n)
  have u: "unat (p + 4096) = unat p + 4096"
    using Suc.prems(5,6) by (simp add: unat_plus_if')
  have ok: "page_ok kend p" using Suc.prems by (intro page_okI) auto
  have "p \<notin> set ps" using Suc.prems(6,8) by force
  with Suc.prems(1) ok obtain s1 where s1: "kfree kend p s = Ok s1" "free_pages kend s1 (p # ps)"
    "page_counter s1 = page_counter s + 1" "total_free_pages s1 = total_free_pages s"
    by (metis kfree_free_pages)
  have "\<exists>s'. freerange_loop kend (p + 4096) vend s1 = Ok s' \<and>
      free_pages kend s' (rev (map (nth_page (p + 4096)) [0..<n]) @ p # ps) \<and>
      page_counter s' = page_counter s1 + int n \<and> total_free_pages s' = total_free_pages s1"
  proof (rule Suc.IH[OF s1(2)])
    show "aligned (p + 4096)" using Suc.prems(2) by (intro aligned_add) auto
    show "kend \<le> p + 4096" using Suc.prems(3) u by (simp add: word_le_nat_alt)
    show "unat q < unat (p + 4096) \<or> unat vend \<le> unat q" if "q \<in> set (p # ps)" for q
      using that Suc.prems(8) u by force
  qed (use Suc.prems u in auto)
  moreover have "map (nth_page p) [0..<Suc n] = p # map (nth_page (p + 4096)) [0..<n]"
    by (simp only: upt_conv_Cons[OF zero_less_Suc] map_Suc_upt[symmetric] list.map map_map comp_def
        nth_page_Suc) simp
  moreover have "p + PGSIZE \<le> vend"
    using Suc.prems(6) u by (simp add: word_le_nat_alt)
  ultimately show ?case
    using s1 by (simp only: freerange_loop.simps[of kend p] andthen.simps if_True) auto
qed

text \<open>The pages between two boundaries, as the set a range of page numbers covers.\<close>

lemma set_nth_pages:
  fixes p vend :: uint32
  assumes "aligned p" "unat p + 4096 * n \<le> unat vend" "unat vend < unat p + 4096 * Suc n"
  shows "set (map (nth_page p) [0..<n]) = {q. aligned q \<and> p \<le> q \<and> unat q + 4096 \<le> unat vend}"
proof (intro set_eqI iffI)
  fix q assume "q \<in> set (map (nth_page p) [0..<n])"
  then obtain i where i: "i < n" and q: "q = nth_page p i" by auto
  have "unat p + 4096 * i < 2 ^ 32" using i assms(2) unat_uint32_less[of vend] by simp
  then have u: "unat q = unat p + 4096 * i" unfolding q by (rule unat_nth_page)
  then show "q \<in> {q. aligned q \<and> p \<le> q \<and> unat q + 4096 \<le> unat vend}"
    using i assms by (simp add: aligned_iff_mod word_le_nat_alt)
next
  fix q assume q: "q \<in> {q. aligned q \<and> p \<le> q \<and> unat q + 4096 \<le> unat vend}"
  then have "4096 dvd unat q - unat p"
    using assms(1) by (auto simp: aligned_iff_mod intro!: dvd_diff_nat)
  then obtain i where "unat q - unat p = 4096 * i" ..
  moreover have "unat p \<le> unat q" using q by (simp add: word_le_nat_alt)
  ultimately have i: "unat q = unat p + 4096 * i" by simp
  then have "q = nth_page p i"
    using unat_nth_page[of p i] unat_uint32_less[of q] by (simp add: word_unat_eq_iff)
  moreover have "i < n" using i q assms(3) by simp
  ultimately show "q \<in> set (map (nth_page p) [0..<n])" by simp
qed

lemma freerange_Ok:
  assumes "free_pages kend s ps" "kend \<le> vstart" "0x80000000 \<le> unat vstart"
    and "PGROUNDUP vstart \<le> vend" "unat vstart \<le> 0x8E000000" "unat vend \<le> 0x8E000000" "aligned vend"
    and "\<And>q. q \<in> set ps \<Longrightarrow> unat q < unat vstart \<or> unat vend \<le> unat q"
  shows "\<exists>s' qs. freerange kend vstart vend s = Ok s' \<and> free_pages kend s' (qs @ ps) \<and>
           set qs = {q. aligned q \<and> vstart \<le> q \<and> q < vend} \<and>
           length qs = unat ((PGROUNDDOWN vend - PGROUNDUP vstart) div PGSIZE) \<and>
           page_counter s' = page_counter s + int (length qs) \<and>
           total_free_pages s' = total_free_pages s"
proof -
  define p where "p = PGROUNDUP vstart"
  have p: "aligned p" "vstart \<le> p" "unat p < unat vstart + 4096"
    and least: "\<And>b. aligned b \<Longrightarrow> vstart \<le> b \<Longrightarrow> p \<le> b"
  proof -
    have "unat p = 4096 * ((unat vstart + 4095) div 4096)"
      using assms(5) by (simp add: p_def unat_PGROUNDUP)
    then show 1: "aligned p" "vstart \<le> p" "unat p < unat vstart + 4096"
      by (simp_all add: aligned_iff_mod word_le_nat_alt)
    fix b assume b: "aligned b" "vstart \<le> b"
    from b(1) obtain k where "unat b = 4096 * k" by (rule alignedE)
    moreover from 1(1) obtain l where "unat p = 4096 * l" by (rule alignedE)
    ultimately show "p \<le> b" using 1(3) b(2) by (simp add: word_le_nat_alt)
  qed
  from assms(7) obtain k where k: "unat vend = 4096 * k" by (rule alignedE)
  from p(1) obtain l where l: "unat p = 4096 * l" by (rule alignedE)
  note kl = k l
  have le: "unat p \<le> unat vend" using assms(4) by (simp add: p_def word_le_nat_alt)
  define n where "n = k - l"
  have n: "unat p + 4096 * n = unat vend" using kl le by (simp add: n_def)
  define qs where "qs = rev (map (nth_page p) [0..<n])"
  have "\<exists>s'. freerange_loop kend p vend s = Ok s' \<and> free_pages kend s' (qs @ ps) \<and>
           page_counter s' = page_counter s + int n \<and> total_free_pages s' = total_free_pages s"
    unfolding qs_def
  proof (rule freerange_loop_Ok[OF assms(1) p(1)])
    show "unat q < unat p \<or> unat vend \<le> unat q" if "q \<in> set ps" for q
      using assms(8)[OF that] p(2) by (auto simp: word_le_nat_alt)
  qed (use n assms p in \<open>auto simp: word_le_nat_alt\<close>)
  then obtain s' where s': "freerange_loop kend p vend s = Ok s'" "free_pages kend s' (qs @ ps)"
    "page_counter s' = page_counter s + int n" "total_free_pages s' = total_free_pages s"
    by blast
  have set: "set qs = {q. aligned q \<and> vstart \<le> q \<and> q < vend}"
  proof -
    have "aligned q \<and> p \<le> q \<and> unat q + 4096 \<le> unat vend \<longleftrightarrow> aligned q \<and> vstart \<le> q \<and> q < vend" for q
    proof -
      have "unat q + 4096 \<le> unat vend \<longleftrightarrow> q < vend" if "aligned q"
      proof -
        from that obtain j where "unat q = 4096 * j" by (auto simp: aligned_iff_mod)
        then show ?thesis using kl(1) by (auto simp: word_less_nat_alt)
      qed
      then show ?thesis using p(2) least[of q] by auto
    qed
    then show ?thesis using set_nth_pages[OF p(1), of n vend] n by (simp add: qs_def)
  qed
  have len: "length qs = n" by (simp add: qs_def)
  have "unat ((PGROUNDDOWN vend - p) div PGSIZE) = (unat vend - unat p) div 4096"
    using le assms(7) by (simp add: PGROUNDDOWN_eq PTE_ADDR_aligned unat_div unat_sub word_le_nat_alt)
  also have "\<dots> = n" unfolding n[symmetric] by simp
  finally show ?thesis
    using s' set len unfolding freerange_def p_def[symmetric] by (intro exI[of _ s'] exI[of _ qs]) simp
qed

section \<open>The allocator's contract\<close>

text \<open>
  What the rest of the kernel relies on: an allocator hands out the pages of its free list one by
  one, 0 when there is none, without touching memory; freeing a page that is not free puts it back
  and writes to that page only.
\<close>

locale page_allocator =
  fixes alloc :: "'s \<Rightarrow> uint32 \<times> 's"
    and dealloc :: "uint32 \<Rightarrow> 's \<Rightarrow> 's res"
    and frees :: "'s \<Rightarrow> uint32 list \<Rightarrow> bool"
    and contents :: "'s \<Rightarrow> memory"
    and legal :: "uint32 \<Rightarrow> bool"
  assumes alloc_Nil: "frees s [] \<Longrightarrow> fst (alloc s) = 0 \<and> frees (snd (alloc s)) []"
    and alloc_Cons: "frees s (p # ps) \<Longrightarrow> fst (alloc s) = p \<and> frees (snd (alloc s)) ps"
    and alloc_contents: "contents (snd (alloc s)) = contents s"
    and dealloc_Ok: "frees s ps \<Longrightarrow> legal p \<Longrightarrow> p \<notin> set ps \<Longrightarrow>
      \<exists>s'. dealloc p s = Ok s' \<and> frees s' (p # ps) \<and>
           (\<forall>q. q \<noteq> p \<longrightarrow> same_page (contents s) (contents s') q)"
    and frees_legal: "frees s ps \<Longrightarrow> distinct ps \<and> (\<forall>p \<in> set ps. legal p)"
    and legal_page: "legal p \<Longrightarrow> aligned p \<and> p \<noteq> 0"
begin

lemma alloc_zero_iff: "frees s ps \<Longrightarrow> fst (alloc s) = 0 \<longleftrightarrow> ps = []"
  using alloc_Nil[of s] alloc_Cons[of s] frees_legal[of s] legal_page
  by (cases ps) auto

lemma alloc_fresh:
  assumes "frees s ps" "fst (alloc s) \<noteq> 0"
  obtains qs where "ps = fst (alloc s) # qs" "frees (snd (alloc s)) qs"
    "fst (alloc s) \<notin> set qs" "legal (fst (alloc s))"
proof -
  obtain p qs where ps: "ps = p # qs"
    using assms alloc_zero_iff by (cases ps) auto
  with assms(1) have "fst (alloc s) = p" "frees (snd (alloc s)) qs"
    using alloc_Cons by auto
  with that[of qs] ps frees_legal[OF assms(1)] show ?thesis by auto
qed

lemma dealloc_alloc:
  assumes "frees s ps" "legal p" "p \<notin> set ps"
  shows "\<exists>s' s''. dealloc p s = Ok s' \<and> alloc s' = (p, s'') \<and> frees s'' ps \<and>
           (\<forall>q. q \<noteq> p \<longrightarrow> same_page (contents s) (contents s'') q)"
proof -
  obtain s' where s': "dealloc p s = Ok s'" "frees s' (p # ps)"
    "\<And>q. q \<noteq> p \<Longrightarrow> same_page (contents s) (contents s') q"
    using dealloc_Ok[OF assms] by blast
  then show ?thesis
    using alloc_Cons[OF s'(2)] alloc_contents[of s'] by (metis prod.collapse)
qed

lemma alloc_dealloc:
  assumes "frees s (p # ps)"
  shows "\<exists>s' s''. alloc s = (p, s') \<and> dealloc p s' = Ok s'' \<and> frees s'' (p # ps)"
proof -
  have "frees (snd (alloc s)) ps" "fst (alloc s) = p" "legal p" "p \<notin> set ps"
    using alloc_Cons[OF assms] frees_legal[OF assms] by auto
  then show ?thesis using dealloc_Ok[of "snd (alloc s)" ps p] by (metis prod.collapse)
qed

end

interpretation ka: page_allocator kalloc "kfree kend" "free_pages kend" mem "page_ok kend"
  for kend
proof unfold_locales
  fix s p ps
  show "free_pages kend s [] \<Longrightarrow> fst (kalloc s) = 0 \<and> free_pages kend (snd (kalloc s)) []"
    by (simp add: kalloc_Nil) (simp add: free_pages_def)
  show "free_pages kend s (p # ps) \<Longrightarrow> fst (kalloc s) = p \<and> free_pages kend (snd (kalloc s)) ps"
    using kalloc_Cons[of kend s p ps] by simp
  show "mem (snd (kalloc s)) = mem s"
    by (simp add: kalloc_def Let_def)
  show "\<exists>s'. kfree kend p s = Ok s' \<and> free_pages kend s' (p # ps) \<and>
      (\<forall>q. q \<noteq> p \<longrightarrow> same_page (mem s) (mem s') q)"
    if "free_pages kend s ps" "page_ok kend p" "p \<notin> set ps"
    using kfree_free_pages[OF that] by metis
  show "free_pages kend s ps \<Longrightarrow> distinct ps \<and> (\<forall>p \<in> set ps. page_ok kend p)"
    by (simp add: free_pages_def)
  show "page_ok kend p \<Longrightarrow> aligned p \<and> p \<noteq> 0"
    using page_ok_nonzero page_ok_aligned by blast
qed

section \<open>Properties\<close>

text \<open>
  C16. A page given back with \<open>kfree\<close> is the next one \<open>kalloc\<close> hands out, the rest of the
  free list is as before, and no byte outside that page has changed.
\<close>

theorem kfree_kalloc_roundtrip:
  assumes "free_pages kend s ps" "page_ok kend p" "p \<notin> set ps"
  shows "\<exists>s' s''. kfree kend p s = Ok s' \<and> kalloc s' = (p, s'') \<and> free_pages kend s'' ps \<and>
           (\<forall>q. q \<noteq> p \<longrightarrow> same_page (mem s) (mem s'') q)"
  using assms by (rule ka.dealloc_alloc)

text \<open>The machine before \<open>kinit1\<close>: no free page, counters at their static initial value 0.\<close>

definition boot_machine :: machine where
  "boot_machine = \<lparr>mem = (\<lambda>_. 0), kmem = \<lparr>use_lock = False, freelist = 0\<rparr>,
                   page_counter = 0, total_free_pages = 0\<rparr>"

lemma free_pages_boot: "free_pages kend boot_machine []"
  by (simp add: free_pages_def boot_machine_def)

theorem kfree_kalloc_roundtrip_witness:
  "\<exists>s' s''. kfree 0x80100000 0x80200000 boot_machine = Ok s' \<and> kalloc s' = (0x80200000, s'') \<and>
     free_pages 0x80100000 s'' []"
proof -
  have "page_ok 0x80100000 0x80200000"
    by (intro page_okI) (simp_all add: aligned_iff_mod)
  then show ?thesis
    using kfree_kalloc_roundtrip[of "0x80100000" boot_machine "[]" "0x80200000"]
    by (auto simp: free_pages_boot)
qed

text \<open>
  C17. As long as \<open>page_counter\<close> is the length of the free list, \<open>kfree\<close> and a successful
  \<open>kalloc\<close> keep it so.  A \<open>kalloc\<close> that finds no page decrements it all the same: the
  count of free pages becomes \<open>- 1\<close> although the list is still empty.
\<close>

theorem page_counter_tracks_free_list:
  assumes "free_pages kend s ps" "page_counter s = int (length ps)"
  shows "(page_ok kend p \<and> p \<notin> set ps \<longrightarrow>
            (\<exists>s'. kfree kend p s = Ok s' \<and> free_pages kend s' (p # ps) \<and>
                  getfreepages s' = int (length (p # ps)))) \<and>
         (if ps = [] then kalloc s = (0, s\<lparr>page_counter := - 1\<rparr>)
          else free_pages kend (snd (kalloc s)) (tl ps) \<and>
               getfreepages (snd (kalloc s)) = int (length (tl ps)))"
proof (intro conjI impI)
  assume "page_ok kend p \<and> p \<notin> set ps"
  with assms show "\<exists>s'. kfree kend p s = Ok s' \<and> free_pages kend s' (p # ps) \<and>
                  getfreepages s' = int (length (p # ps))"
    by (auto simp: getfreepages_def elim!: kfree_free_pages[of kend s ps p])
next
  show "if ps = [] then kalloc s = (0, s\<lparr>page_counter := - 1\<rparr>)
          else free_pages kend (snd (kalloc s)) (tl ps) \<and>
               getfreepages (snd (kalloc s)) = int (length (tl ps))"
  proof (cases ps)
    case Nil
    with assms show ?thesis by (simp add: kalloc_Nil)
  next
    case (Cons q qs)
    with assms show ?thesis
      using kalloc_Cons[of kend s q qs] by (simp add: getfreepages_def)
  qed
qed

theorem page_counter_tracks_free_list_witness:
  "kalloc boot_machine = (0, boot_machine\<lparr>page_counter := - 1\<rparr>)"
  using page_counter_tracks_free_list[of 0 boot_machine "[]"] free_pages_boot[of 0]
  by (simp add: boot_machine_def)

text \<open>
  C18. The two initialisation phases of \<open>main\<close>, with the arguments \<open>main\<close> gives them and one
  right after the other, put exactly the page frames between the end of the kernel image and
  \<open>PHYSTOP\<close> on the free list, each once, and both counters then give their number.  (\<open>main\<close>
  takes pages for the page table of the kernel and for the other CPUs between the two phases.)
\<close>

theorem kinit_frees_all_pages:
  assumes "0x80000000 \<le> unat kend" "unat kend \<le> unat (P2V 0x400000)"
  shows "\<exists>s1 s2 ps. kinit1 kend kend (P2V 0x400000) boot_machine = Ok s1 \<and>
           kinit2 kend (P2V 0x400000) (P2V PHYSTOP) s1 = Ok s2 \<and>
           free_pages kend s2 ps \<and> set ps = {p. page_ok kend p} \<and>
           getfreepages s2 = int (length ps) \<and> getTotalfreePages s2 = int (length ps)"
proof -
  define a b where "a = P2V 0x400000" and "b = P2V PHYSTOP"
  have ab: "unat a = 0x80400000" "unat b = 0x8E000000" "aligned a" "aligned b"
    by (simp_all add: a_def b_def P2V_def aligned_iff_mod)
  have ge: "0x80000000 \<le> unat kend" and le: "unat kend \<le> 0x80400000"
    using assms ab by (simp_all add: a_def)
  define s0 where "s0 = boot_machine\<lparr>kmem := (kmem boot_machine)\<lparr>use_lock := False\<rparr>\<rparr>"
  have s0: "free_pages kend s0 []" "page_counter s0 = 0" "total_free_pages s0 = 0"
    by (simp_all add: s0_def boot_machine_def free_pages_def)
  have up: "PGROUNDUP kend \<le> a" "PGROUNDUP a = a"
  proof -
    have "4096 * ((unat kend + 4095) div 4096) \<le> 4096 * ((0x80400000 + 4095) div 4096)"
      using le by (intro mult_le_mono2 div_le_mono) simp
    then show "PGROUNDUP kend \<le> a"
      using le ab by (simp add: word_le_nat_alt unat_PGROUNDUP)
    show "PGROUNDUP a = a"
      by (simp add: a_def P2V_def PGROUNDUP_def)
  qed
  obtain t ps where t: "freerange kend kend a s0 = Ok t" "free_pages kend t ps"
      "set ps = {q. aligned q \<and> kend \<le> q \<and> q < a}"
      "length ps = unat ((PGROUNDDOWN a - PGROUNDUP kend) div PGSIZE)"
      "page_counter t = int (length ps)" "total_free_pages t = 0"
    using freerange_Ok[OF s0(1), of kend a] ge le ab up s0 by auto
  define s1 where "s1 = t\<lparr>total_free_pages := int (length ps)\<rparr>"
  have k1: "kinit1 kend kend a boot_machine = Ok s1"
    using t by (simp add: kinit1_def s0_def[symmetric] s1_def)
  have s1: "free_pages kend s1 ps" using t(2) by (simp add: s1_def free_pages_def)
  have "\<exists>s' qs. freerange kend a b s1 = Ok s' \<and> free_pages kend s' (qs @ ps) \<and>
      set qs = {q. aligned q \<and> a \<le> q \<and> q < b} \<and>
      length qs = unat ((PGROUNDDOWN b - PGROUNDUP a) div PGSIZE) \<and>
      page_counter s' = page_counter s1 + int (length qs) \<and>
      total_free_pages s' = total_free_pages s1"
    using ge le ab up t(3) by (intro freerange_Ok[OF s1]) (auto simp: word_le_nat_alt word_less_nat_alt)
  then obtain u qs where u: "freerange kend a b s1 = Ok u" "free_pages kend u (qs @ ps)"
      "set qs = {q. aligned q \<and> a \<le> q \<and> q < b}"
      "length qs = unat ((PGROUNDDOWN b - PGROUNDUP a) div PGSIZE)"
      "page_counter u = int (length ps) + int (length qs)" "total_free_pages u = int (length ps)"
    by (auto simp: s1_def t)
  define s2 where "s2 = u\<lparr>kmem := (kmem u)\<lparr>use_lock := True\<rparr>,
                          total_free_pages := int (length ps) + int (length qs)\<rparr>"
  have k2: "kinit2 kend a b s1 = Ok s2"
    using u by (simp add: kinit2_def s2_def Let_def)
  have "set (qs @ ps) = {p. page_ok kend p}"
  proof -
    have "q \<in> set (qs @ ps) \<longleftrightarrow> aligned q \<and> kend \<le> q \<and> unat q < 0x8E000000" for q
      using t(3) u(3) ab le by (auto simp: word_le_nat_alt word_less_nat_alt)
    moreover have "page_ok kend q \<longleftrightarrow> aligned q \<and> kend \<le> q \<and> unat q < 0x8E000000" for q
      using ge V2P_less_PHYSTOP[of q] page_okI[of q kend]
      by (auto simp: page_ok_def word_le_nat_alt)
    ultimately show ?thesis by auto
  qed
  moreover have "free_pages kend s2 (qs @ ps)" using u(2) by (simp add: s2_def free_pages_def)
  ultimately show ?thesis
    using k1 k2 u unfolding a_def[symmetric] b_def[symmetric]
    by (intro exI[of _ s1] exI[of _ s2] exI[of _ "qs @ ps"])
       (simp add: s2_def getfreepages_def getTotalfreePages_def)
qed

theorem kinit_frees_all_pages_witness:
  "\<exists>s1 s2 ps. kinit1 0x80120000 0x80120000 (P2V 0x400000) boot_machine = Ok s1 \<and>
     kinit2 0x80120000 (P2V 0x400000) (P2V PHYSTOP) s1 = Ok s2 \<and>
     free_pages 0x80120000 s2 ps \<and> set ps = {p. page_ok 0x80120000 p}"
  using kinit_frees_all_pages[of "0x80120000"] by (auto simp: P2V_def)

end
