(* ===== verification/PageTable.thy ===== *)
theory PageTable
  imports Kalloc
begin

text \<open>
  The two-level page tables of src/vm.c, as words in memory: \<open>walkpgdir\<close> and its two copies in
  src/proc.c and src/trap.c, \<open>mappages\<close>, the operations that read or rewrite one page table
  entry, and the copies to and from a user address space.  A page directory is named by its kernel
  virtual address, and a pointer to an entry is the address of that word; 0 is the null pointer.
  The abstraction \<open>pte m pgdir\<close> maps a virtual address to its page table entry, and 0 where
  there is no page table.  Reloading the page-directory base register (\<open>lcr3\<close>) changes no word.
\<close>

section \<open>Operations\<close>

definition present :: "uint32 \<Rightarrow> bool" where
  "present e \<longleftrightarrow> e AND PTE_P \<noteq> 0"

definition walkpgdir :: "uint32 \<Rightarrow> uint32 \<Rightarrow> bool \<Rightarrow> 'a mach \<Rightarrow> uint32 \<times> 'a mach" where
  "walkpgdir pgdir va alloc s =
     (let pde = entry pgdir (PDX va) in
      if ld32 (mem s) pde AND PTE_P \<noteq> 0
      then (entry (P2V (PTE_ADDR (ld32 (mem s) pde))) (PTX va), s)
      else if \<not> alloc then (0, s)
      else let (pgtab, s) = kalloc s in
           if pgtab = 0 then (0, s)
           else let m = memset (mem s) pgtab 0 PGSIZE;
                    m = st32 m pde (V2P pgtab OR PTE_P OR PTE_W OR PTE_U)
                in (entry pgtab (PTX va), s\<lparr>mem := m\<rparr>))"

definition getPagePAddr :: "uint32 \<Rightarrow> uint32 \<Rightarrow> 'a mach \<Rightarrow> uint32" where
  "getPagePAddr userPageVAddr pgdir s =
     (let pte = fst (walkpgdir pgdir userPageVAddr False s) in
      if pte = 0 then -1 else PTE_ADDR (ld32 (mem s) pte))"

definition fixPagedInPTE :: "uint32 \<Rightarrow> uint32 \<Rightarrow> uint32 \<Rightarrow> 'a mach \<Rightarrow> 'a mach res" where
  "fixPagedInPTE userPageVAddr pagePAddr pgdir s =
     (let (pte, s) = walkpgdir pgdir userPageVAddr False s in
      if pte = 0 then Stop (Panic ''PTE of swapped page is missing'')
      else if ld32 (mem s) pte AND PTE_P \<noteq> 0 then Stop (Panic ''REMAP!'')
      else let e = ld32 (mem s) pte;
               e = e OR (PTE_P OR PTE_W OR PTE_U);
               e = e AND NOT PTE_PG;
               e = e OR pagePAddr
           in Ok (s\<lparr>mem := st32 (mem s) pte e\<rparr>))"

text \<open>
  The loop of \<open>mappages\<close>.  Both bounds are page aligned, so \<open>a\<close> meets \<open>last\<close> after
  fewer than \<open>2^20\<close> steps; the first argument bounds the steps.
\<close>

primrec mappages_loop ::
  "nat \<Rightarrow> uint32 \<Rightarrow> uint32 \<Rightarrow> uint32 \<Rightarrow> uint32 \<Rightarrow> uint32 \<Rightarrow> 'a mach \<Rightarrow> (int \<times> 'a mach) res" where
  "mappages_loop 0 pgdir a last' pa perm s = Stop Diverges"
| "mappages_loop (Suc n) pgdir a last' pa perm s =
     (let (pte, s) = walkpgdir pgdir a True s in
      if pte = 0 then Ok (- 1, s)
      else if ld32 (mem s) pte AND PTE_P \<noteq> 0 then Stop (Panic ''remap'')
      else let s = s\<lparr>mem := st32 (mem s) pte (pa OR perm OR PTE_P)\<rparr> in
           if a = last' then Ok (0, s)
           else mappages_loop n pgdir (a + PGSIZE) last' (pa + PGSIZE) perm s)"

definition mappages ::
  "uint32 \<Rightarrow> uint32 \<Rightarrow> uint32 \<Rightarrow> uint32 \<Rightarrow> uint32 \<Rightarrow> 'a mach \<Rightarrow> (int \<times> 'a mach) res" where
  "mappages pgdir va size' pa perm s =
     (let a = PGROUNDDOWN va;
          last' = PGROUNDDOWN (va + size' - 1)
      in mappages_loop 1048576 pgdir a last' pa perm s)"

definition fixPagedOutPTE :: "uint32 \<Rightarrow> uint32 \<Rightarrow> bool \<Rightarrow> 'a mach \<Rightarrow> 'a mach res" where
  "fixPagedOutPTE pgdir va walkpgdirmode s =
     (let (pte, s) = walkpgdir pgdir va walkpgdirmode s in
      if pte = 0 then Stop (Panic ''PTE of swapped page is missing'')
      else let e = ld32 (mem s) pte;
               e = e OR PTE_PG;
               e = e AND NOT PTE_P;
               e = e AND PTE_FLAGS e
           in Ok (s\<lparr>mem := st32 (mem s) pte e\<rparr>))"

text \<open>
  \<open>get_user_bit\<close>, \<open>updateAccessBit\<close> and \<open>pageIsInFile\<close> dereference the result of
  \<open>walkpgdir\<close> without testing it.
\<close>

definition get_user_bit :: "uint32 \<Rightarrow> uint32 \<Rightarrow> 'a mach \<Rightarrow> int res" where
  "get_user_bit pgdir va s =
     (let pte = fst (walkpgdir pgdir va False s) in
      if pte = 0 then Stop NullDeref
      else if ld32 (mem s) pte = 0 then Stop (Panic ''updateAccessBit: pte is empty'')
      else if ld32 (mem s) pte AND PTE_U = 0 then Ok 0 else Ok 1)"

definition updateAccessBit :: "uint32 \<Rightarrow> uint32 \<Rightarrow> 'a mach \<Rightarrow> (int \<times> 'a mach) res" where
  "updateAccessBit pgdir va s =
     (let (pte, s) = walkpgdir pgdir va False s in
      if pte = 0 then Stop NullDeref
      else if ld32 (mem s) pte = 0 then Stop (Panic ''updateAccessBit: pte is empty'')
      else let accessed = ld32 (mem s) pte AND PTE_A;
               s = s\<lparr>mem := st32 (mem s) pte (ld32 (mem s) pte AND NOT PTE_A)\<rparr>
           in Ok (if accessed = 0 then 0 else 1, s))"

definition pageIsInFile :: "uint32 \<Rightarrow> uint32 \<Rightarrow> 'a mach \<Rightarrow> int res" where
  "pageIsInFile userPageVAddr pgdir s =
     (let pte = fst (walkpgdir pgdir userPageVAddr False s) in
      if pte = 0 then Stop NullDeref
      else if ld32 (mem s) pte AND PTE_PG \<noteq> 0 \<and> ld32 (mem s) pte AND PTE_P = 0
      then Ok 1 else Ok 0)"

definition clearpteu :: "uint32 \<Rightarrow> uint32 \<Rightarrow> 'a mach \<Rightarrow> 'a mach res" where
  "clearpteu pgdir uva s =
     (let (pte, s) = walkpgdir pgdir uva False s in
      if pte = 0 then Stop (Panic ''clearpteu'')
      else Ok (s\<lparr>mem := st32 (mem s) pte (ld32 (mem s) pte AND NOT PTE_U)\<rparr>))"

definition uva2ka :: "uint32 \<Rightarrow> uint32 \<Rightarrow> 'a mach \<Rightarrow> uint32 res" where
  "uva2ka pgdir uva s =
     (let pte = fst (walkpgdir pgdir uva False s) in
      if pte = 0 then Stop NullDeref
      else if ld32 (mem s) pte AND PTE_P = 0 then Ok 0
      else if ld32 (mem s) pte AND PTE_U = 0 then Ok 0
      else Ok (P2V (PTE_ADDR (ld32 (mem s) pte))))"

definition inituvm :: "uint32 \<Rightarrow> uint32 \<Rightarrow> uint32 \<Rightarrow> 'a mach \<Rightarrow> 'a mach res" where
  "inituvm pgdir init sz s =
     (if sz \<ge> PGSIZE then Stop (Panic ''inituvm: more than a page'')
      else let (page, s) = kalloc s in
           if page = 0 then Stop NullDeref
           else let s = s\<lparr>mem := memset (mem s) page 0 PGSIZE\<rparr> in
                andthen (mappages pgdir 0 PGSIZE (V2P page) (PTE_W OR PTE_U) s)
                  (\<lambda>(_, s). Ok (s\<lparr>mem := memmove (mem s) page init sz\<rparr>)))"

lemma page_rest: "unat (PGSIZE - (va - PGROUNDDOWN va)) = 4096 - unat va mod 4096"
proof -
  have "va - PGROUNDDOWN va = PTE_FLAGS va"
    by (metis PGROUNDDOWN_eq PTE_ADDR_plus_FLAGS add_diff_cancel_left')
  moreover have "unat (PTE_FLAGS va) < 4096" by (simp add: PTE_FLAGS_mod)
  ultimately show ?thesis
    by (simp add: unat_sub_if' PTE_FLAGS_mod less_imp_le)
qed

text \<open>\<open>copyout\<close> receives the bytes at its source pointer as a list.\<close>

function copyout :: "uint32 \<Rightarrow> uint32 \<Rightarrow> byte list \<Rightarrow> 'a mach \<Rightarrow> (int \<times> 'a mach) res" where
  "copyout pgdir va buf s =
     (if buf = [] then Ok (0, s)
      else let va0 = PGROUNDDOWN va in
           andthen (uva2ka pgdir va0 s) (\<lambda>pa0.
             if pa0 = 0 then Ok (- 1, s)
             else let n = unat (PGSIZE - (va - va0));
                      n = (if n > length buf then length buf else n)
                  in copyout pgdir (va0 + PGSIZE) (drop n buf)
                       (s\<lparr>mem := store_bytes (mem s) (pa0 + (va - va0)) (take n buf)\<rparr>)))"
  by pat_completeness auto

termination
  by (relation "measure (\<lambda>(pgdir, va, buf, s). length buf)") (auto simp: page_rest)

declare copyout.simps [simp del]

section \<open>A page directory as a map from addresses to entries\<close>

definition pde_at :: "memory \<Rightarrow> uint32 \<Rightarrow> uint32 \<Rightarrow> uint32" where
  "pde_at m pgdir va = ld32 m (entry pgdir (PDX va))"

definition ptab :: "memory \<Rightarrow> uint32 \<Rightarrow> uint32 \<Rightarrow> uint32" where
  "ptab m pgdir va = P2V (PTE_ADDR (pde_at m pgdir va))"

definition pte :: "memory \<Rightarrow> uint32 \<Rightarrow> uint32 \<Rightarrow> uint32" where
  "pte m pgdir va =
     (if present (pde_at m pgdir va) then ld32 m (entry (ptab m pgdir va) (PTX va)) else 0)"

text \<open>The pages a page directory and its page tables occupy.\<close>

definition tables :: "memory \<Rightarrow> uint32 \<Rightarrow> uint32 set" where
  "tables m pgdir = insert pgdir {ptab m pgdir va | va. present (pde_at m pgdir va)}"

text \<open>Well-formed: the directory is a page, and no page table is shared or is the directory.\<close>

definition wf_pgdir :: "memory \<Rightarrow> uint32 \<Rightarrow> bool" where
  "wf_pgdir m pgdir \<longleftrightarrow> aligned pgdir \<and>
     (\<forall>va. present (pde_at m pgdir va) \<longrightarrow> ptab m pgdir va \<noteq> pgdir \<and> ptab m pgdir va \<noteq> 0) \<and>
     (\<forall>va va'. present (pde_at m pgdir va) \<longrightarrow> present (pde_at m pgdir va') \<longrightarrow>
        ptab m pgdir va = ptab m pgdir va' \<longrightarrow> PDX va = PDX va')"

lemma present_0 [simp]: "\<not> present 0"
  by (simp add: present_def)

lemma present_iff_bit: "present e \<longleftrightarrow> bit e 0"
  unfolding present_def bit_0 and_one_eq even_iff_mod_2_eq_zero by (rule refl)

lemma aligned_ptab [simp]: "aligned (ptab m pgdir va)"
  by (simp add: ptab_def)

lemma pgdir_in_tables [simp]: "pgdir \<in> tables m pgdir"
  by (simp add: tables_def)

lemma ptab_in_tables: "present (pde_at m pgdir va) \<Longrightarrow> ptab m pgdir va \<in> tables m pgdir"
  by (auto simp: tables_def)

lemma wf_pgdir_aligned: "wf_pgdir m pgdir \<Longrightarrow> aligned pgdir"
  by (simp add: wf_pgdir_def)

lemma wf_ptabD:
  assumes "wf_pgdir m pgdir" "present (pde_at m pgdir va)"
  shows "ptab m pgdir va \<noteq> pgdir" "ptab m pgdir va \<noteq> 0"
    "present (pde_at m pgdir va') \<Longrightarrow> ptab m pgdir va = ptab m pgdir va' \<Longrightarrow> PDX va = PDX va'"
  using assms unfolding wf_pgdir_def by blast+

lemma tables_aligned: "wf_pgdir m pgdir \<Longrightarrow> f \<in> tables m pgdir \<Longrightarrow> aligned f"
  by (auto simp: tables_def wf_pgdir_def)

lemma pte_page: "pte m pgdir (PTE_ADDR va) = pte m pgdir va"
  by (simp add: pte_def pde_at_def ptab_def)

text \<open>The tables read the same in a memory that agrees on their pages.\<close>

lemma pde_at_cong:
  "aligned pgdir \<Longrightarrow> same_page m m' pgdir \<Longrightarrow> pde_at m' pgdir va = pde_at m pgdir va"
  by (simp add: pde_at_def ld32_same_page[of m m'] PDX_less)

lemma tables_cong:
  assumes "wf_pgdir m pgdir" "\<And>f. f \<in> tables m pgdir \<Longrightarrow> same_page m m' f"
  shows "pde_at m' pgdir = pde_at m pgdir" "ptab m' pgdir = ptab m pgdir"
    "pte m' pgdir = pte m pgdir" "tables m' pgdir = tables m pgdir" "wf_pgdir m' pgdir"
proof -
  show pde: "pde_at m' pgdir = pde_at m pgdir"
    using assms by (intro ext pde_at_cong) (auto simp: wf_pgdir_aligned)
  then show ptab: "ptab m' pgdir = ptab m pgdir" by (simp add: ptab_def fun_eq_iff)
  show "pte m' pgdir = pte m pgdir"
  proof
    fix va
    have "ld32 m' (entry (ptab m pgdir va) (PTX va)) = ld32 m (entry (ptab m pgdir va) (PTX va))"
      if "present (pde_at m pgdir va)"
      using assms(2)[OF ptab_in_tables[OF that]]
      by (simp add: ld32_same_page[of m m'] PTX_less)
    then show "pte m' pgdir va = pte m pgdir va" by (simp add: pte_def pde ptab)
  qed
  show "tables m' pgdir = tables m pgdir" by (simp add: tables_def pde ptab)
  show "wf_pgdir m' pgdir" using assms(1) unfolding wf_pgdir_def pde ptab .
qed

section \<open>Walking and updating\<close>

lemma walkpgdir_False:
  "walkpgdir pgdir va False s =
     (if present (pde_at (mem s) pgdir va) then entry (ptab (mem s) pgdir va) (PTX va) else 0, s)"
  by (simp add: walkpgdir_def present_def pde_at_def ptab_def Let_def)

lemma walkpgdir_present:
  "present (pde_at (mem s) pgdir va) \<Longrightarrow> walkpgdir pgdir va alloc s =
     (entry (ptab (mem s) pgdir va) (PTX va), s)"
  by (simp add: walkpgdir_def present_def pde_at_def ptab_def Let_def)

lemma entry_nonzero:
  assumes "aligned p" "p \<noteq> 0" "unat i < 1024"
  shows "entry p i \<noteq> 0"
proof
  assume "entry p i = 0"
  then have "PTE_ADDR (entry p i) = 0" by (simp add: PTE_ADDR_def)
  then show False using assms by (simp add: entry_page0)
qed

text \<open>Storing through the pointer that \<open>walkpgdir\<close> returns updates one entry of the map.\<close>

lemma store_pte:
  fixes w :: uint32
  assumes wf: "wf_pgdir m pgdir" and pr: "present (pde_at m pgdir va)"
  defines "m' \<equiv> st32 m (entry (ptab m pgdir va) (PTX va)) w"
  shows "pde_at m' pgdir = pde_at m pgdir" "tables m' pgdir = tables m pgdir" "wf_pgdir m' pgdir"
    "pte m' pgdir va' = (if PTE_ADDR va' = PTE_ADDR va then w else pte m pgdir va')"
    "\<And>q. q \<noteq> ptab m pgdir va \<Longrightarrow> same_page m m' q"
proof -
  show same: "same_page m m' q" if "q \<noteq> ptab m pgdir va" for q
    unfolding m'_def
    by (rule same_page_sym, rule same_page_st32) (use that in \<open>auto simp: PTX_less\<close>)
  have ne: "ptab m pgdir va \<noteq> pgdir" using wf_ptabD(1)[OF wf pr] .
  show pde: "pde_at m' pgdir = pde_at m pgdir"
    using wf ne same by (intro ext pde_at_cong) (auto simp: wf_pgdir_aligned)
  then have ptab: "ptab m' pgdir = ptab m pgdir" by (simp add: ptab_def fun_eq_iff)
  show "tables m' pgdir = tables m pgdir" by (simp add: tables_def pde ptab)
  show "wf_pgdir m' pgdir" using wf unfolding wf_pgdir_def pde ptab .
  have "ptab m pgdir va = ptab m pgdir va' \<and> PTX va = PTX va' \<longleftrightarrow> PTE_ADDR va' = PTE_ADDR va"
    if "present (pde_at m pgdir va')"
  proof -
    have "ptab m pgdir va = ptab m pgdir va' \<longleftrightarrow> PDX va = PDX va'"
      using wf_ptabD(3)[OF wf pr that] by (auto simp: ptab_def pde_at_def)
    then show ?thesis using PDX_PTX_eq_iff[of va va'] by auto
  qed
  moreover have "present (pde_at m pgdir va')" if "PTE_ADDR va' = PTE_ADDR va"
    using pr that PDX_PTX_eq_iff[of va va'] by (simp add: pde_at_def)
  moreover have "ld32 m' (entry (ptab m pgdir va') (PTX va')) =
      (if ptab m pgdir va = ptab m pgdir va' \<and> PTX va = PTX va' then w
       else ld32 m (entry (ptab m pgdir va') (PTX va')))"
    unfolding m'_def by (rule ld32_st32_entry) (simp_all add: PTX_less)
  ultimately show "pte m' pgdir va' = (if PTE_ADDR va' = PTE_ADDR va then w else pte m pgdir va')"
    by (simp add: pte_def pde ptab)
qed

text \<open>
  The page tables and the free list share no page.  A step that grows the tables moves pages from
  the free list to the tables and writes to no other page.
\<close>

definition vm_ok :: "uint32 \<Rightarrow> uint32 \<Rightarrow> uint32 list \<Rightarrow> 'a mach \<Rightarrow> bool" where
  "vm_ok kend pgdir ps s \<longleftrightarrow>
     free_pages kend s ps \<and> wf_pgdir (mem s) pgdir \<and> tables (mem s) pgdir \<inter> set ps = {}"

definition vm_grow ::
  "uint32 \<Rightarrow> uint32 \<Rightarrow> uint32 list \<Rightarrow> 'a mach \<Rightarrow> uint32 list \<Rightarrow> 'a mach \<Rightarrow> bool" where
  "vm_grow kend pgdir ps s ps' s' \<longleftrightarrow>
     vm_ok kend pgdir ps s \<and> vm_ok kend pgdir ps' s' \<and> set ps' \<subseteq> set ps \<and>
     tables (mem s') pgdir = tables (mem s) pgdir \<union> (set ps - set ps') \<and>
     (\<forall>q. q \<notin> tables (mem s) pgdir \<longrightarrow> q \<notin> set ps \<longrightarrow> same_page (mem s) (mem s') q)"

lemma vm_growD:
  assumes "vm_grow kend pgdir ps s ps' s'"
  shows "vm_ok kend pgdir ps s" "vm_ok kend pgdir ps' s'" "set ps' \<subseteq> set ps"
    "tables (mem s') pgdir = tables (mem s) pgdir \<union> (set ps - set ps')"
    "q \<notin> tables (mem s) pgdir \<Longrightarrow> q \<notin> set ps \<Longrightarrow> same_page (mem s) (mem s') q"
  using assms by (simp_all add: vm_grow_def)

lemma vm_grow_refl: "vm_ok kend pgdir ps s \<Longrightarrow> vm_grow kend pgdir ps s ps s"
  by (simp add: vm_grow_def)

lemma vm_grow_trans:
  assumes 1: "vm_grow kend pgdir ps s ps' s'" and 2: "vm_grow kend pgdir ps' s' ps'' s''"
  shows "vm_grow kend pgdir ps s ps'' s''"
proof -
  have "same_page (mem s) (mem s'') q" if "q \<notin> tables (mem s) pgdir" "q \<notin> set ps" for q
  proof (rule same_page_trans)
    show "same_page (mem s) (mem s') q" using vm_growD(5)[OF 1 that] .
    show "same_page (mem s') (mem s'') q"
      using vm_growD(5)[OF 2] that vm_growD(3,4)[OF 1] by blast
  qed
  moreover have "tables (mem s'') pgdir = tables (mem s) pgdir \<union> (set ps - set ps'')"
    using vm_growD(3,4)[OF 1] vm_growD(3,4)[OF 2] by blast
  ultimately show ?thesis
    using vm_growD[OF 1] vm_growD[OF 2] by (simp add: vm_grow_def subset_trans)
qed

lemma vm_ok_mem:
  assumes "vm_ok kend pgdir ps s" "wf_pgdir m pgdir" "tables m pgdir = tables (mem s) pgdir"
    and "\<And>q. q \<in> set ps \<Longrightarrow> same_page (mem s) m q"
  shows "vm_ok kend pgdir ps (s\<lparr>mem := m\<rparr>)"
  using assms by (simp add: vm_ok_def free_pages_same_pages)

text \<open>Rewriting an entry is such a step; it moves no page.\<close>

lemma vm_grow_store:
  fixes w :: uint32
  assumes ok: "vm_ok kend pgdir ps s" and pr: "present (pde_at (mem s) pgdir va)"
  defines "s' \<equiv> s\<lparr>mem := st32 (mem s) (entry (ptab (mem s) pgdir va) (PTX va)) w\<rparr>"
  shows "vm_grow kend pgdir ps s ps s'"
    "pte (mem s') pgdir = (\<lambda>v. if PTE_ADDR v = PTE_ADDR va then w else pte (mem s) pgdir v)"
proof -
  have wf: "wf_pgdir (mem s) pgdir" using ok by (simp add: vm_ok_def)
  note st = store_pte[OF wf pr]
  have "ptab (mem s) pgdir va \<in> tables (mem s) pgdir" using pr by (rule ptab_in_tables)
  then have same: "same_page (mem s) (mem s') q" if "q \<notin> tables (mem s) pgdir" for q
    using st(5)[of q w] that by (auto simp: s'_def)
  have "vm_ok kend pgdir ps s'"
    unfolding s'_def
  proof (rule vm_ok_mem[OF ok])
    fix q assume "q \<in> set ps"
    then have "q \<notin> tables (mem s) pgdir" using ok by (auto simp: vm_ok_def)
    then show "same_page (mem s) (st32 (mem s) (entry (ptab (mem s) pgdir va) (PTX va)) w) q"
      using same by (simp add: s'_def)
  qed (simp_all add: st)
  then show "vm_grow kend pgdir ps s ps s'"
    using ok same by (simp add: vm_grow_def s'_def st)
  show "pte (mem s') pgdir = (\<lambda>v. if PTE_ADDR v = PTE_ADDR va then w else pte (mem s) pgdir v)"
    by (simp add: s'_def st fun_eq_iff)
qed

text \<open>Installing a zeroed page as a page table adds no mapping.\<close>

lemma ld32_zero_page:
  assumes "aligned p" "unat i < 1024" "\<And>a. PTE_ADDR a = p \<Longrightarrow> m a = 0"
  shows "ld32 m (entry p i) = 0"
proof -
  have "m (entry p i + of_nat k) = 0" if "k < 4" for k
    using assms(3)[OF entry_page(1)[OF assms(1,2) that]] .
  from this[of 0] this[of 1] this[of 2] this[of 3] show ?thesis
    by (simp add: ld32_def)
qed

lemma add_pde:
  assumes wf: "wf_pgdir m pgdir" and np: "\<not> present (pde_at m pgdir va)"
    and p: "p \<noteq> 0" "p \<notin> tables m pgdir"
    and e: "present e" "P2V (PTE_ADDR e) = p"
    and pde: "\<And>v. pde_at m' pgdir v = (if PDX v = PDX va then e else pde_at m pgdir v)"
  shows "wf_pgdir m' pgdir" "tables m' pgdir = insert p (tables m pgdir)"
    "ptab m' pgdir v = (if PDX v = PDX va then p else ptab m pgdir v)"
proof -
  show ptab: "ptab m' pgdir v = (if PDX v = PDX va then p else ptab m pgdir v)" for v
    using e by (simp add: ptab_def pde)
  have old: "ptab m pgdir v \<noteq> p" "PDX v \<noteq> PDX va" if "present (pde_at m pgdir v)" for v
    using p(2) ptab_in_tables[OF that] np that by (auto simp: pde_at_def)
  show "wf_pgdir m' pgdir"
    unfolding wf_pgdir_def
  proof (intro conjI allI impI)
    fix v v' assume h: "present (pde_at m' pgdir v)"
    show "ptab m' pgdir v \<noteq> pgdir" "ptab m' pgdir v \<noteq> 0"
      using wf_ptabD(1,2)[OF wf, of v] p h by (auto simp: pde ptab)
    assume "present (pde_at m' pgdir v')" "ptab m' pgdir v = ptab m' pgdir v'"
    with h show "PDX v = PDX v'"
      using wf_ptabD(3)[OF wf, of v v'] old(1)[of v] old(1)[of v']
      by (cases "PDX v = PDX va"; cases "PDX v' = PDX va") (auto simp: pde ptab)
  qed (rule wf_pgdir_aligned[OF wf])
  have "tables m' pgdir \<subseteq> insert p (tables m pgdir)"
    unfolding tables_def by (auto simp: pde ptab)
  moreover have "p \<in> tables m' pgdir"
    using ptab_in_tables[of m' pgdir va] e by (simp add: pde ptab)
  moreover have "ptab m pgdir v \<in> tables m' pgdir" if "present (pde_at m pgdir v)" for v
    using ptab_in_tables[of m' pgdir v] that old(2)[OF that] by (simp add: pde ptab)
  then have "tables m pgdir \<subseteq> tables m' pgdir" by (auto simp: tables_def[of m])
  ultimately show "tables m' pgdir = insert p (tables m pgdir)" by blast
qed

lemma install_table:
  assumes wf: "wf_pgdir m pgdir" and np: "\<not> present (pde_at m pgdir va)"
    and p: "aligned p" "p \<noteq> 0" "p \<notin> tables m pgdir"
    and e: "e = V2P p OR PTE_P OR PTE_W OR PTE_U"
    and m': "m' = st32 (memset m p 0 PGSIZE) (entry pgdir (PDX va)) e"
  shows "present (pde_at m' pgdir va)" "wf_pgdir m' pgdir" "ptab m' pgdir va = p"
    "tables m' pgdir = insert p (tables m pgdir)" "pte m' pgdir v = pte m pgdir v"
    "\<And>q. q \<noteq> p \<Longrightarrow> q \<noteq> pgdir \<Longrightarrow> same_page m m' q"
proof -
  have al: "aligned pgdir" using wf by (rule wf_pgdir_aligned)
  have ne: "p \<noteq> pgdir" using p(3) by auto
  have "e = V2P p OR 7" by (simp add: e or.assoc)
  then have pe: "present e" "P2V (PTE_ADDR e) = p"
    using aligned_or(1)[of "V2P p" 7] p(1) by (simp_all add: present_iff_bit bit_or_iff)
  have same1: "same_page m (memset m p 0 PGSIZE) q" if "q \<noteq> p" for q
    using same_page_memset[OF p(1) that[symmetric]] .
  have same2: "same_page (memset m p 0 PGSIZE) m' q" if "q \<noteq> pgdir" for q
    unfolding m'
    by (rule same_page_sym, rule same_page_st32) (use al that in \<open>auto simp: PDX_less\<close>)
  show same: "same_page m m' q" if "q \<noteq> p" "q \<noteq> pgdir" for q
    using same_page_trans[OF same1 same2] that by blast
  have pde: "pde_at m' pgdir v = (if PDX v = PDX va then e else pde_at m pgdir v)" for v
    using pde_at_cong[OF al same1[OF ne[symmetric]], of v] al
    by (auto simp: pde_at_def m' ld32_st32_entry PDX_less)
  then show pr: "present (pde_at m' pgdir va)" using pe by simp
  note add = add_pde[OF wf np p(2,3) pe pde]
  show "wf_pgdir m' pgdir" "tables m' pgdir = insert p (tables m pgdir)" "ptab m' pgdir va = p"
    using add by simp_all
  show "pte m' pgdir v = pte m pgdir v"
  proof (cases "PDX v = PDX va")
    case True
    then have "pte m pgdir v = 0" using np by (simp add: pte_def pde_at_def)
    moreover have "m' a = 0" if "PTE_ADDR a = p" for a
      using same2[of p] ne that p(1) by (simp add: same_page_def memset_apply page_gap)
    ultimately show ?thesis
      using True p(1) by (simp add: pte_def pde add ld32_zero_page PTX_less)
  next
    case False
    have "ld32 m (entry (ptab m pgdir v) (PTX v)) = ld32 m' (entry (ptab m pgdir v) (PTX v))"
      if h: "present (pde_at m pgdir v)"
    proof (rule ld32_same_page[OF same aligned_ptab PTX_less])
      show "ptab m pgdir v \<noteq> p" using ptab_in_tables[OF h] p(3) by auto
      show "ptab m pgdir v \<noteq> pgdir" using wf_ptabD(1)[OF wf h] .
    qed
    with False show ?thesis by (simp add: pte_def pde add)
  qed
qed

lemma walkpgdir_True:
  assumes ok: "vm_ok kend pgdir ps s"
  obtains x s' ps' where "walkpgdir pgdir va True s = (x, s')" "vm_grow kend pgdir ps s ps' s'"
    "pte (mem s') pgdir = pte (mem s) pgdir" "x = 0 \<longrightarrow> ps = [] \<and> ps' = []"
    "x \<noteq> 0 \<longrightarrow> present (pde_at (mem s') pgdir va) \<and> x = entry (ptab (mem s') pgdir va) (PTX va)"
proof -
  have wf: "wf_pgdir (mem s) pgdir" and fp: "free_pages kend s ps"
    and dj: "tables (mem s) pgdir \<inter> set ps = {}" using ok by (simp_all add: vm_ok_def)
  consider (there) "present (pde_at (mem s) pgdir va)"
    | (none) "\<not> present (pde_at (mem s) pgdir va)" "ps = []"
    | (new) p qs where "\<not> present (pde_at (mem s) pgdir va)" "ps = p # qs"
    by (cases ps) auto
  then show ?thesis
  proof cases
    case there
    have "entry (ptab (mem s) pgdir va) (PTX va) \<noteq> 0"
      using wf_ptabD(2)[OF wf there] by (intro entry_nonzero) (auto simp: PTX_less)
    with there show ?thesis
      by (intro that[OF walkpgdir_present vm_grow_refl[OF ok]]) auto
  next
    case none
    let ?s' = "s\<lparr>page_counter := page_counter s - 1\<rparr>"
    have "walkpgdir pgdir va True s = (0, ?s')"
      using none fp by (simp add: walkpgdir_def kalloc_Nil Let_def present_def pde_at_def)
    moreover have "vm_grow kend pgdir ps s [] ?s'"
      using ok none by (simp add: vm_grow_def vm_ok_def free_pages_def)
    ultimately show ?thesis using none by (intro that[of 0 ?s' "[]"]) simp_all
  next
    case new
    let ?e = "V2P p OR PTE_P OR PTE_W OR PTE_U"
    define m' where "m' = st32 (memset (mem s) p 0 PGSIZE) (entry pgdir (PDX va)) ?e"
    define s' where "s' = (snd (kalloc s))\<lparr>mem := m'\<rparr>"
    have p: "aligned p" "p \<noteq> 0" "p \<notin> tables (mem s) pgdir" "p \<notin> set qs"
      using fp dj new by (auto simp: free_pages_def page_ok_aligned dest: page_ok_nonzero)
    note inst = install_table[OF wf new(1) p(1-3) refl m'_def]
    note ka = kalloc_Cons[OF fp[unfolded new(2)]]
    have m: "mem s' = m'" "mem (snd (kalloc s)) = mem s" by (simp_all add: s'_def ka)
    have same: "same_page (mem s) m' q" if "q \<notin> tables (mem s) pgdir" "q \<noteq> p" for q
      using inst(6)[of q] that pgdir_in_tables[of pgdir "mem s"] by blast
    have "free_pages kend s' qs"
      unfolding s'_def using ka(2)
      by (rule free_pages_same_pages) (use m same dj p new in auto)
    then have "vm_ok kend pgdir qs s'"
      using dj p new by (auto simp: vm_ok_def m inst)
    then have g: "vm_grow kend pgdir ps s qs s'"
      using ok same p new by (auto simp: vm_grow_def m inst)
    have w: "walkpgdir pgdir va True s = (entry p (PTX va), s')"
      using new(1) p(2) ka(1)
      by (simp add: walkpgdir_def s'_def m'_def present_def pde_at_def Let_def)
    show ?thesis
      by (rule that[OF w g]) (use p in \<open>auto simp: m inst entry_nonzero PTX_less fun_eq_iff\<close>)
  qed
qed

section \<open>mappages\<close>

text \<open>The page map after mapping \<open>len\<close> bytes at \<open>a\<close> to the physical addresses from \<open>pa\<close>.\<close>

definition map_range ::
  "uint32 \<Rightarrow> nat \<Rightarrow> uint32 \<Rightarrow> uint32 \<Rightarrow> (uint32 \<Rightarrow> uint32) \<Rightarrow> uint32 \<Rightarrow> uint32" where
  "map_range a len pa perm f v =
     (if unat (PTE_ADDR v - a) < len then (pa + (PTE_ADDR v - a)) OR perm OR PTE_P else f v)"

lemma page_step:
  assumes "aligned x" "aligned a" "x \<noteq> a"
  shows "unat (x - a) = unat (x - (a + PGSIZE)) + 4096"
proof -
  obtain k where k: "unat (x - a) = 4096 * k"
    using aligned_diff[OF assms(1,2)] by (rule alignedE)
  have "x - a \<noteq> 0" using assms(3) by simp
  then have "k \<noteq> 0" using k by (metis mult_0_right unat_eq_zero)
  then have ge: "4096 \<le> unat (x - a)" using k by simp
  have sub: "unat d = unat (d - PGSIZE) + 4096" if "4096 \<le> unat d" for d :: uint32
    using that by (simp add: unat_sub_if')
  have "x - (a + PGSIZE) = x - a - PGSIZE" by (rule diff_diff_add[symmetric])
  then show ?thesis using sub[OF ge] by (simp only:)
qed

lemma page_step_self: "unat (a - (a + PGSIZE)) = 2 ^ 32 - 4096"
  by (simp add: unat_sub_if')

lemma map_range_0: "map_range a 0 pa perm f = f"
  by (simp add: map_range_def fun_eq_iff)

lemma map_range_step:
  assumes "aligned a" "len + 4096 \<le> 2 ^ 32"
  shows "map_range (a + PGSIZE) len (pa + PGSIZE) perm
           (\<lambda>v. if PTE_ADDR v = a then pa OR perm OR PTE_P else f v)
         = map_range a (len + 4096) pa perm f"
proof
  fix v
  show "map_range (a + PGSIZE) len (pa + PGSIZE) perm
           (\<lambda>v. if PTE_ADDR v = a then pa OR perm OR PTE_P else f v) v
         = map_range a (len + 4096) pa perm f v"
  proof (cases "PTE_ADDR v = a")
    case True
    then show ?thesis using page_step_self[of a] assms(2) by (simp add: map_range_def)
  next
    case False
    then show ?thesis using page_step[of "PTE_ADDR v" a] assms(1) by (simp add: map_range_def)
  qed
qed

lemma present_perm: "present (pa OR perm OR PTE_P)"
  by (simp add: present_iff_bit bit_or_iff)

lemma aligned_le: "aligned d \<Longrightarrow> unat d + 4096 \<le> 2 ^ 32"
proof -
  assume "aligned d"
  then obtain k where k: "unat d = 4096 * k" by (rule alignedE)
  then have "k \<le> 1048575" using unat_uint32_less[of d] by linarith
  with k show ?thesis by simp
qed

text \<open>One turn of the loop, on a page that is not mapped.\<close>

lemma mappages_loop_step:
  assumes ok: "vm_ok kend pgdir ps s" and a: "aligned a" "\<not> present (pte (mem s) pgdir a)"
  obtains (full) s' where "ps = []" "vm_grow kend pgdir ps s [] s'" "pte (mem s') pgdir = pte (mem s) pgdir"
      "mappages_loop (Suc n) pgdir a last' pa perm s = Ok (- 1, s')"
  | (mapped) s' ps' where "vm_grow kend pgdir ps s ps' s'"
      "pte (mem s') pgdir = (\<lambda>v. if PTE_ADDR v = a then pa OR perm OR PTE_P else pte (mem s) pgdir v)"
      "mappages_loop (Suc n) pgdir a last' pa perm s =
        (if a = last' then Ok (0, s')
         else mappages_loop n pgdir (a + PGSIZE) last' (pa + PGSIZE) perm s')"
proof -
  obtain x s1 ps1 where w: "walkpgdir pgdir a True s = (x, s1)" "vm_grow kend pgdir ps s ps1 s1"
    "pte (mem s1) pgdir = pte (mem s) pgdir" "x = 0 \<longrightarrow> ps = [] \<and> ps1 = []"
    "x \<noteq> 0 \<longrightarrow> present (pde_at (mem s1) pgdir a) \<and> x = entry (ptab (mem s1) pgdir a) (PTX a)"
    by (rule walkpgdir_True[OF ok, of a])
  show ?thesis
  proof (cases "x = 0")
    case True
    with w show ?thesis by (intro full[of s1]) auto
  next
    case False
    let ?e = "pa OR perm OR PTE_P"
    define s2 where "s2 = s1\<lparr>mem := st32 (mem s1) x ?e\<rparr>"
    have pr: "present (pde_at (mem s1) pgdir a)" and x: "x = entry (ptab (mem s1) pgdir a) (PTX a)"
      using w(5) False by auto
    note st = vm_grow_store[OF vm_growD(2)[OF w(2)] pr, of ?e, folded x, folded s2_def]
    have "ld32 (mem s1) x = pte (mem s) pgdir a" using pr by (simp add: x pte_def flip: w(3))
    then have "mappages_loop (Suc n) pgdir a last' pa perm s =
        (if a = last' then Ok (0, s2)
         else mappages_loop n pgdir (a + PGSIZE) last' (pa + PGSIZE) perm s2)"
      using False a(2) by (simp add: w(1) s2_def present_def Let_def)
    with st(2)[unfolded w(3)] show ?thesis
      by (intro mapped[OF vm_grow_trans[OF w(2) st(1)]]) (simp_all add: a PTE_ADDR_aligned)
  qed
qed

text \<open>
  Mapping a range of unmapped pages: either all of it is mapped, or the free list is empty and an
  initial segment is.  No other page but the tables and free pages is written.
\<close>

lemma mappages_loop_spec:
  assumes "vm_ok kend pgdir ps s" "aligned a" "aligned last'" "unat (last' - a) div 4096 < n"
    and "\<And>v. unat (PTE_ADDR v - a) \<le> unat (last' - a) \<Longrightarrow> \<not> present (pte (mem s) pgdir v)"
  shows "\<exists>r s' ps' len. mappages_loop n pgdir a last' pa perm s = Ok (r, s') \<and>
    vm_grow kend pgdir ps s ps' s' \<and>
    pte (mem s') pgdir = map_range a len pa perm (pte (mem s) pgdir) \<and>
    (r = 0 \<and> len = unat (last' - a) + 4096 \<or>
     r = - 1 \<and> len \<le> unat (last' - a) \<and> len mod 4096 = 0 \<and> ps' = [])"
  using assms
proof (induction n arbitrary: a pa ps s)
  case (Suc n)
  have "\<not> present (pte (mem s) pgdir a)"
    using Suc.prems(5)[of a] Suc.prems(2) by (simp add: PTE_ADDR_aligned)
  with Suc.prems(1,2) show ?case
  proof (cases rule: mappages_loop_step[where n = n and pa = pa and perm = perm and last' = last'])
    case (full s')
    then show ?thesis by (auto simp: map_range_0 intro!: exI[of _ 0])
  next
    case (mapped s2 ps1)
    show ?thesis
    proof (cases "a = last'")
      case True
      have "pte (mem s2) pgdir = map_range a 4096 pa perm (pte (mem s) pgdir)"
        using map_range_step[of a 0 pa perm] Suc.prems(2) by (simp add: mapped(2) map_range_0)
      with True mapped show ?thesis by auto
    next
      case ne: False
      let ?a = "a + PGSIZE"
      have step: "unat (last' - a) = unat (last' - ?a) + 4096"
        using page_step[of last' a] Suc.prems(2,3) ne by simp
      then have lt: "unat (last' - ?a) div 4096 < n" using Suc.prems(4) by simp
      have "\<not> present (pte (mem s2) pgdir v)" if "unat (PTE_ADDR v - ?a) \<le> unat (last' - ?a)" for v
      proof -
        have "PTE_ADDR v \<noteq> a" using that page_step_self[of a] step unat_uint32_less[of "last' - a"]
          by auto
        then show ?thesis
          using page_step[of "PTE_ADDR v" a] Suc.prems(2) Suc.prems(5)[of v] that step by (simp add: mapped(2))
      qed
      then obtain r s' ps' len where ih:
        "mappages_loop n pgdir ?a last' (pa + PGSIZE) perm s2 = Ok (r, s')"
        "vm_grow kend pgdir ps1 s2 ps' s'"
        "pte (mem s') pgdir = map_range ?a len (pa + PGSIZE) perm (pte (mem s2) pgdir)"
        "r = 0 \<and> len = unat (last' - ?a) + 4096 \<or>
         r = - 1 \<and> len \<le> unat (last' - ?a) \<and> len mod 4096 = 0 \<and> ps' = []"
        using Suc.IH[OF vm_growD(2)[OF mapped(1)], of ?a "pa + PGSIZE"] Suc.prems(2,3) lt
        by (auto simp: aligned_add)
      have "len + 4096 \<le> 2 ^ 32"
        using ih(4) step aligned_le[OF aligned_diff[OF Suc.prems(3,2)]] by auto
      then have "pte (mem s') pgdir = map_range a (len + 4096) pa perm (pte (mem s) pgdir)"
        using map_range_step[OF Suc.prems(2)] by (simp add: ih(3) mapped(2))
      with ih vm_grow_trans[OF mapped(1) ih(2)] ne step mapped(3) show ?thesis
        by (intro exI[of _ r] exI[of _ s'] exI[of _ ps'] exI[of _ "len + 4096"]) auto
    qed
  qed
qed simp

section \<open>Properties\<close>

lemma aligned_less_iff_le:
  assumes "aligned d" "aligned e"
  shows "unat d < unat e + 4096 \<longleftrightarrow> unat d \<le> unat e"
proof -
  obtain k where "unat d = 4096 * k" using assms(1) by (rule alignedE)
  moreover obtain j where "unat e = 4096 * j" using assms(2) by (rule alignedE)
  ultimately show ?thesis by auto
qed

lemma unat_diff_le_iff:
  fixes a x b :: uint32
  assumes "a \<le> b"
  shows "unat (x - a) \<le> unat (b - a) \<longleftrightarrow> a \<le> x \<and> x \<le> b"
  using assms unat_uint32_less[of b] by (auto simp: unat_sub_if' word_le_nat_alt)

lemma PTE_ADDR_mono: "x \<le> y \<Longrightarrow> PTE_ADDR x \<le> PTE_ADDR y"
  by (simp add: word_le_nat_alt unat_PTE_ADDR minus_mod_eq_mult_div div_le_mono)

text \<open>
  C11. \<open>mappages\<close> on a range of unmapped pages never panics and always returns.  When it returns 0
  the page map has changed on the pages from \<open>PGROUNDDOWN(va)\<close> to
  \<open>PGROUNDDOWN(va + size - 1)\<close> only, each now leading to the corresponding physical page with
  the given permissions; when it returns -1 the free list is exhausted.  Every page it took from
  the free list became a page table and no other page was written.
\<close>

theorem mappages_maps_range:
  fixes len :: uint32
  assumes "vm_ok kend pgdir ps s" "len \<noteq> 0" "unat va + unat len \<le> 2 ^ 32"
    and "\<forall>v. PGROUNDDOWN va \<le> PTE_ADDR v \<and> PTE_ADDR v \<le> PGROUNDDOWN (va + len - 1)
           \<longrightarrow> \<not> present (pte (mem s) pgdir v)"
  shows "\<exists>r s' ps'. mappages pgdir va len pa perm s = Ok (r, s') \<and>
    vm_grow kend pgdir ps s ps' s' \<and> (r = 0 \<or> r = - 1 \<and> ps' = []) \<and>
    (r = 0 \<longrightarrow> (\<forall>v. pte (mem s') pgdir v =
       (if PGROUNDDOWN va \<le> PTE_ADDR v \<and> PTE_ADDR v \<le> PGROUNDDOWN (va + len - 1)
        then (pa + (PTE_ADDR v - PGROUNDDOWN va)) OR perm OR PTE_P
        else pte (mem s) pgdir v)))"
proof -
  define a b where "a = PGROUNDDOWN va" and "b = PGROUNDDOWN (va + len - 1)"
  have al: "aligned a" "aligned b" by (simp_all add: a_def b_def)
  have "va + len - 1 = va + (len - 1)" "unat (len - 1) = unat len - 1" "0 < unat len"
    using assms(2) by (simp_all add: unat_minus_one word_neq_0_conv[symmetric] unat_gt_0)
  then have "unat (va + len - 1) = unat va + (unat len - 1)"
    using assms(3) by (simp only: unat_plus_if') simp
  then have ab: "a \<le> b"
    unfolding a_def b_def PGROUNDDOWN_eq by (intro PTE_ADDR_mono) (simp add: word_le_nat_alt)
  have range: "unat (PTE_ADDR v - a) < unat (b - a) + 4096 \<longleftrightarrow> a \<le> PTE_ADDR v \<and> PTE_ADDR v \<le> b" for v
    using aligned_less_iff_le[of "PTE_ADDR v - a" "b - a"] unat_diff_le_iff[OF ab]
    by (simp add: al aligned_diff)
  have "\<not> present (pte (mem s) pgdir v)" if "unat (PTE_ADDR v - a) \<le> unat (b - a)" for v
    using that assms(4) unat_diff_le_iff[OF ab] by (simp add: a_def b_def)
  moreover have "unat (b - a) div 4096 < 1048576" 
    using unat_uint32_less[of "b - a"] by simp
  ultimately obtain r s' ps' k where "mappages pgdir va len pa perm s = Ok (r, s')"
    "vm_grow kend pgdir ps s ps' s'"
    "pte (mem s') pgdir = map_range a k pa perm (pte (mem s) pgdir)"
    "r = 0 \<and> k = unat (b - a) + 4096 \<or> r = - 1 \<and> ps' = []"
    using mappages_loop_spec[OF assms(1) al, of 1048576 pa perm]
    unfolding mappages_def a_def[symmetric] b_def[symmetric] Let_def by blast
  then show ?thesis
    unfolding a_def[symmetric] b_def[symmetric]
    by (intro exI[of _ r] exI[of _ s'] exI[of _ ps']) (auto simp: map_range_def range)
qed

text \<open>A kernel with an empty page directory at 0x80300000 and one free page.\<close>

definition demo_machine :: machine where
  "demo_machine = \<lparr>mem = (\<lambda>_. 0), kmem = \<lparr>use_lock = True, freelist = 0x80200000\<rparr>,
                   page_counter = 1, total_free_pages = 1\<rparr>"

lemma zero_memory:
  "ld32 (\<lambda>_. 0) a = 0" "pde_at (\<lambda>_. 0) pgdir va = 0" "pte (\<lambda>_. 0) pgdir va = 0"
  "tables (\<lambda>_. 0) pgdir = {pgdir}"
  by (simp_all add: ld32_def pde_at_def pte_def tables_def)

lemma demo_vm_ok: "vm_ok 0x80100000 0x80300000 [0x80200000] demo_machine"
proof -
  have "page_ok 0x80100000 0x80200000"
    by (intro page_okI) (simp_all add: aligned_iff_mod)
  then show ?thesis
    by (simp add: vm_ok_def free_pages_def demo_machine_def wf_pgdir_def zero_memory aligned_iff_mod)
qed

theorem mappages_maps_range_witness:
  "\<exists>r s' ps'. mappages 0x80300000 0x5008 0x2000 0x400000 (PTE_W OR PTE_U) demo_machine = Ok (r, s') \<and>
     (r = 0 \<longrightarrow> pte (mem s') 0x80300000 0x7123 = 0x402007 \<and> pte (mem s') 0x80300000 0x8000 = 0)"
proof -
  have "pte (mem demo_machine) pgdir v = 0" for pgdir v
    by (simp add: demo_machine_def zero_memory)
  then show ?thesis
    using mappages_maps_range[OF demo_vm_ok, where len = "0x2000" and va = "0x5008" and pa = "0x400000"
        and perm = "PTE_W OR PTE_U"]
    by (auto simp: PGROUNDDOWN_def PTE_ADDR_def)
qed

end
