(* ===== verification/UserMem.thy ===== *)
theory UserMem
  imports PageTable
begin

text \<open>
  The user part of an address space: the bytes it shows, the invariant that keeps page frames apart
  (\<open>user_ok\<close>), \<open>copyout\<close> of src/vm.c as an update of user bytes, and what paging a page
  out and in does to its entry.
\<close>

section \<open>User memory\<close>

text \<open>The kernel address of the page frame a virtual address is mapped to, and its byte.\<close>

definition frame :: "memory \<Rightarrow> uint32 \<Rightarrow> uint32 \<Rightarrow> uint32" where
  "frame m pgdir v = P2V (PTE_ADDR (pte m pgdir v))"

definition ubyte :: "memory \<Rightarrow> uint32 \<Rightarrow> uint32 \<Rightarrow> byte" where
  "ubyte m pgdir v = m (frame m pgdir v + PTE_FLAGS v)"

text \<open>
  The isolation invariant: below \<open>KERNBASE\<close> every mapped page has a frame of its own, which is
  neither a page table nor on the free list.
\<close>

definition frames_ok :: "uint32 \<Rightarrow> (uint32 \<Rightarrow> uint32) \<Rightarrow> uint32 set \<Rightarrow> bool" where
  "frames_ok kend f used \<longleftrightarrow>
     (\<forall>v. v < KERNBASE \<longrightarrow> present (f v) \<longrightarrow>
        page_ok kend (P2V (PTE_ADDR (f v))) \<and> P2V (PTE_ADDR (f v)) \<notin> used) \<and>
     (\<forall>v w. v < KERNBASE \<longrightarrow> w < KERNBASE \<longrightarrow> present (f v) \<longrightarrow> present (f w) \<longrightarrow>
        PTE_ADDR (f v) = PTE_ADDR (f w) \<longrightarrow> PTE_ADDR v = PTE_ADDR w)"

definition user_ok :: "uint32 \<Rightarrow> uint32 \<Rightarrow> uint32 list \<Rightarrow> 'a mach \<Rightarrow> bool" where
  "user_ok kend pgdir ps s \<longleftrightarrow> vm_ok kend pgdir ps s \<and>
     frames_ok kend (pte (mem s) pgdir) (tables (mem s) pgdir \<union> set ps)"

lemma frames_okD:
  assumes "frames_ok kend f used" "v < KERNBASE" "present (f v)"
  shows "page_ok kend (P2V (PTE_ADDR (f v)))" "P2V (PTE_ADDR (f v)) \<notin> used"
    "w < KERNBASE \<Longrightarrow> present (f w) \<Longrightarrow> PTE_ADDR (f v) = PTE_ADDR (f w) \<Longrightarrow> PTE_ADDR v = PTE_ADDR w"
  using assms unfolding frames_ok_def by blast+

lemma user_okD:
  assumes "user_ok kend pgdir ps s" "v < KERNBASE" "present (pte (mem s) pgdir v)"
  shows "page_ok kend (frame (mem s) pgdir v)" "frame (mem s) pgdir v \<notin> tables (mem s) pgdir"
    "frame (mem s) pgdir v \<notin> set ps"
    "w < KERNBASE \<Longrightarrow> present (pte (mem s) pgdir w) \<Longrightarrow>
       frame (mem s) pgdir v = frame (mem s) pgdir w \<Longrightarrow> PTE_ADDR v = PTE_ADDR w"
  using frames_okD[of kend "pte (mem s) pgdir" "tables (mem s) pgdir \<union> set ps" v] assms
  by (auto simp: user_ok_def frame_def)

lemma user_ok_vm_ok: "user_ok kend pgdir ps s \<Longrightarrow> vm_ok kend pgdir ps s"
  by (simp add: user_ok_def)

lemma vm_ok_wf: "vm_ok kend pgdir ps s \<Longrightarrow> wf_pgdir (mem s) pgdir"
  by (simp add: vm_ok_def)

lemma aligned_frame [simp]: "aligned (frame m pgdir v)"
  by (simp add: frame_def)

lemma frame_page [simp]: "frame m pgdir (PTE_ADDR v) = frame m pgdir v"
  by (simp add: frame_def pte_page)

lemma PTE_ADDR_in_frame [simp]: "PTE_ADDR (frame m pgdir v + PTE_FLAGS w) = frame m pgdir v"
  by (rule PTE_ADDR_add) (simp_all add: PTE_FLAGS_mod)

lemma ubyte_cong:
  assumes "frame m' pgdir v = frame m pgdir v" "same_page m m' (frame m pgdir v)"
  shows "ubyte m' pgdir v = ubyte m pgdir v"
  using assms by (simp add: ubyte_def same_page_def)

text \<open>Writing inside one frame changes the bytes of one user page and nothing of the tables.\<close>

lemma store_frame:
  assumes u: "user_ok kend pgdir ps s" and v: "v < KERNBASE" "present (pte (mem s) pgdir v)"
    and m': "\<forall>q. q \<noteq> frame (mem s) pgdir v \<longrightarrow> same_page (mem s) m' q"
  shows "user_ok kend pgdir ps (s\<lparr>mem := m'\<rparr>)" "pte m' pgdir = pte (mem s) pgdir"
    "tables m' pgdir = tables (mem s) pgdir"
    "\<And>w. w < KERNBASE \<Longrightarrow> present (pte (mem s) pgdir w) \<Longrightarrow> PTE_ADDR w \<noteq> PTE_ADDR v \<Longrightarrow>
       ubyte m' pgdir w = ubyte (mem s) pgdir w"
proof -
  have ok: "vm_ok kend pgdir ps s" using u by (rule user_ok_vm_ok)
  note f = user_okD[OF u v]
  have same: "same_page (mem s) m' q" if "q \<in> tables (mem s) pgdir \<or> q \<in> set ps" for q
    by (rule m'[rule_format]) (use that f(2,3) in auto)
  note t = tables_cong[OF vm_ok_wf[OF ok], of m', OF same]
  show pte: "pte m' pgdir = pte (mem s) pgdir" and tab: "tables m' pgdir = tables (mem s) pgdir"
    by (rule t; blast)+
  have fr: "frame m' pgdir = frame (mem s) pgdir" by (simp add: frame_def fun_eq_iff pte)
  have "vm_ok kend pgdir ps (s\<lparr>mem := m'\<rparr>)"
    using ok by (rule vm_ok_mem) (use t same in blast)+
  then show "user_ok kend pgdir ps (s\<lparr>mem := m'\<rparr>)"
    using u by (simp add: user_ok_def pte tab)
  show "ubyte m' pgdir w = ubyte (mem s) pgdir w"
    if "w < KERNBASE" "present (pte (mem s) pgdir w)" "PTE_ADDR w \<noteq> PTE_ADDR v" for w
  proof (rule ubyte_cong)
    show "same_page (mem s) m' (frame (mem s) pgdir w)"
      by (rule m'[rule_format]) (use f(4)[of w] that in auto)
  qed (simp add: fr)
qed

text \<open>A write of bytes that stays inside the page of \<open>va\<close>.\<close>

lemma same_page_flags:
  assumes "PTE_ADDR w = PTE_ADDR va"
  shows "PTE_FLAGS w - PTE_FLAGS va = w - va"
  using assms PTE_ADDR_plus_FLAGS[of w] PTE_ADDR_plus_FLAGS[of va]
  by (metis add_diff_cancel_left)

lemma unat_split_page: "unat v = unat (PTE_ADDR v) + unat v mod 4096"
  by (simp add: unat_PTE_ADDR)

lemma same_page_iff_range:
  "PTE_ADDR w = PTE_ADDR va \<longleftrightarrow>
     unat (PTE_ADDR va) \<le> unat w \<and> unat w < unat (PTE_ADDR va) + 4096"
proof
  assume "PTE_ADDR w = PTE_ADDR va"
  then show "unat (PTE_ADDR va) \<le> unat w \<and> unat w < unat (PTE_ADDR va) + 4096"
    using unat_split_page[of w] by simp
next
  assume h: "unat (PTE_ADDR va) \<le> unat w \<and> unat w < unat (PTE_ADDR va) + 4096"
  then have "unat (w - PTE_ADDR va) < 4096" by (simp add: unat_sub_if' less_diff_conv2)
  then show "PTE_ADDR w = PTE_ADDR va" using page_gap[of "PTE_ADDR va" w] by simp
qed

lemma same_page_store_bytes:
  assumes "aligned p" "unat x + length bs \<le> 4096" "q \<noteq> p"
  shows "same_page m (store_bytes m (p + x) bs) q"
  unfolding same_page_def
proof (intro allI impI)
  fix a assume a: "PTE_ADDR a = q"
  have "PTE_ADDR a = p" if h: "unat (a - (p + x)) < length bs"
  proof -
    define d where "d = a - (p + x)"
    have "unat (d + x) = unat d + unat x"
      using h assms(2) by (simp add: unat_plus_if' d_def[symmetric])
    moreover have "a - p = d + x" by (simp add: d_def)
    ultimately have "unat (a - p) < 4096" using h assms(2) by (simp add: d_def[symmetric])
    then show ?thesis using page_gap[OF assms(1)] by simp
  qed
  then show "m a = store_bytes m (p + x) bs a"
    using a assms by (auto simp: store_bytes_apply)
qed

lemma store_ubytes:
  assumes u: "user_ok kend pgdir ps s" and v: "va < KERNBASE" "present (pte (mem s) pgdir va)"
    and len: "length bs \<le> 4096 - unat va mod 4096"
  defines "m' \<equiv> store_bytes (mem s) (frame (mem s) pgdir va + PTE_FLAGS va) bs"
  shows "\<forall>q. q \<noteq> frame (mem s) pgdir va \<longrightarrow> same_page (mem s) m' q"
    and "w < KERNBASE \<Longrightarrow> present (pte (mem s) pgdir w) \<Longrightarrow> ubyte m' pgdir w =
      (if unat va \<le> unat w \<and> unat w < unat va + length bs then bs ! (unat w - unat va)
       else ubyte (mem s) pgdir w)"
proof -
  have l: "unat (PTE_FLAGS va) + length bs \<le> 4096"
    using len by (simp add: PTE_FLAGS_mod)
  show same: "\<forall>q. q \<noteq> frame (mem s) pgdir va \<longrightarrow> same_page (mem s) m' q"
    unfolding m'_def using l by (intro allI impI same_page_store_bytes) auto
  assume w: "w < KERNBASE" "present (pte (mem s) pgdir w)"
  note st = store_frame[OF u v same]
  show "ubyte m' pgdir w = (if unat va \<le> unat w \<and> unat w < unat va + length bs
      then bs ! (unat w - unat va) else ubyte (mem s) pgdir w)"
  proof (cases "PTE_ADDR w = PTE_ADDR va")
    case True
    then have fr: "frame (mem s) pgdir w = frame (mem s) pgdir va" by (metis frame_page)
    have "frame (mem s) pgdir va + PTE_FLAGS w - (frame (mem s) pgdir va + PTE_FLAGS va) = w - va"
      using same_page_flags[OF True] by simp
    moreover have "unat va < 0x80000000" "length bs \<le> 4096"
      using v(1) l by (simp_all add: word_less_nat_alt)
    then have "unat (w - va) < length bs \<longleftrightarrow> unat va \<le> unat w \<and> unat w < unat va + length bs"
      by (auto simp: unat_sub_if')
    ultimately have "m' (frame (mem s) pgdir va + PTE_FLAGS w) =
        (if unat va \<le> unat w \<and> unat w < unat va + length bs then bs ! (unat w - unat va)
         else mem s (frame (mem s) pgdir va + PTE_FLAGS w))"
      unfolding m'_def using l by (auto simp: store_bytes_apply unat_sub_if')
    moreover have "frame m' pgdir w = frame (mem s) pgdir w" by (simp add: frame_def st)
    ultimately show ?thesis by (simp add: ubyte_def fr)
  next
    case False
    then have "\<not> (unat va \<le> unat w \<and> unat w < unat va + length bs)"
      using l unat_split_page[of va] same_page_iff_range[of w va] by (auto simp: PTE_FLAGS_mod)
    then show ?thesis using st(4)[OF w False] by auto
  qed
qed

section \<open>Copying out to a user address space\<close>

definition user_page :: "uint32 \<Rightarrow> bool" where
  "user_page e \<longleftrightarrow> e AND PTE_P \<noteq> 0 \<and> e AND PTE_U \<noteq> 0"

lemma user_page_present: "user_page e \<Longrightarrow> present e"
  by (simp add: user_page_def present_def)

lemma uva2ka_frame:
  assumes "wf_pgdir (mem s) pgdir" "present (pde_at (mem s) pgdir va)"
  shows "uva2ka pgdir va s = Ok (if user_page (pte (mem s) pgdir va) then frame (mem s) pgdir va else 0)"
proof -
  have "entry (ptab (mem s) pgdir va) (PTX va) \<noteq> 0"
    using wf_ptabD(2)[OF assms] by (intro entry_nonzero) (auto simp: PTX_less)
  then show ?thesis
    using assms(2) by (simp add: uva2ka_def walkpgdir_False user_page_def frame_def pte_def Let_def)
qed

lemma pte_present_pde: "present (pte m pgdir va) \<Longrightarrow> present (pde_at m pgdir va)"
  by (auto simp: pte_def split: if_splits)

text \<open>One turn of the loop of \<open>copyout\<close> writes up to the end of the page.\<close>

lemma copyout_step:
  assumes u: "user_ok kend pgdir ps s" and va: "va < KERNBASE" "user_page (pte (mem s) pgdir va)"
    and buf: "buf \<noteq> []" and n: "n = min (length buf) (4096 - unat va mod 4096)"
  obtains s1 where "copyout pgdir va buf s = copyout pgdir (PGROUNDDOWN va + PGSIZE) (drop n buf) s1"
    "user_ok kend pgdir ps s1" "pte (mem s1) pgdir = pte (mem s) pgdir"
    "\<forall>w. w < KERNBASE \<longrightarrow> present (pte (mem s) pgdir w) \<longrightarrow> ubyte (mem s1) pgdir w =
      (if unat va \<le> unat w \<and> unat w < unat va + n then buf ! (unat w - unat va)
       else ubyte (mem s) pgdir w)"
proof -
  let ?f = "frame (mem s) pgdir va"
  define s1 where "s1 = s\<lparr>mem := store_bytes (mem s) (?f + PTE_FLAGS va) (take n buf)\<rparr>"
  note pr = user_page_present[OF va(2)]
  have len: "length (take n buf) \<le> 4096 - unat va mod 4096" and nl: "n \<le> length buf"
    by (simp_all add: n)
  note sb = store_ubytes[OF u va(1) pr len]
  note st = store_frame[OF u va(1) pr sb(1), folded s1_def]
  have "uva2ka pgdir (PGROUNDDOWN va) s = Ok ?f"
    using uva2ka_frame[of s pgdir "PTE_ADDR va"] va(2) pr vm_ok_wf[OF user_ok_vm_ok[OF u]]
      pte_present_pde[of "mem s" pgdir "PTE_ADDR va"] by (simp add: PGROUNDDOWN_eq pte_page)
  moreover have "?f \<noteq> 0" using user_okD(1)[OF u va(1) pr] page_ok_nonzero by auto
  moreover have "va - PGROUNDDOWN va = PTE_FLAGS va"
    by (metis PGROUNDDOWN_eq PTE_ADDR_plus_FLAGS add_diff_cancel_left')
  moreover have "n = (if unat (PGSIZE - (va - PGROUNDDOWN va)) > length buf then length buf
      else unat (PGSIZE - (va - PGROUNDDOWN va)))"
    by (simp add: page_rest n)
  ultimately have "copyout pgdir va buf s = copyout pgdir (PGROUNDDOWN va + PGSIZE) (drop n buf) s1"
    using buf by (subst copyout.simps) (simp add: Let_def s1_def)
  then show ?thesis
  proof (rule that)
    show "\<forall>w. w < KERNBASE \<longrightarrow> present (pte (mem s) pgdir w) \<longrightarrow> ubyte (mem s1) pgdir w =
      (if unat va \<le> unat w \<and> unat w < unat va + n then buf ! (unat w - unat va)
       else ubyte (mem s) pgdir w)"
      using sb(2) nl by (auto simp: s1_def)
  qed (use st in \<open>simp_all add: s1_def\<close>)
qed

lemma copyout_spec:
  assumes "user_ok kend pgdir ps s" "unat va + length buf \<le> unat KERNBASE"
    and "\<And>v. unat va \<le> unat v \<Longrightarrow> unat v < unat va + length buf \<Longrightarrow> user_page (pte (mem s) pgdir v)"
  shows "\<exists>s'. copyout pgdir va buf s = Ok (0, s') \<and> user_ok kend pgdir ps s' \<and>
    pte (mem s') pgdir = pte (mem s) pgdir \<and>
    (\<forall>w. w < KERNBASE \<longrightarrow> present (pte (mem s) pgdir w) \<longrightarrow> ubyte (mem s') pgdir w =
      (if unat va \<le> unat w \<and> unat w < unat va + length buf then buf ! (unat w - unat va)
       else ubyte (mem s) pgdir w))"
  using assms
proof (induction "length buf" arbitrary: va buf s rule: less_induct)
  case less
  show ?case
  proof (cases "buf = []")
    case True
    with less.prems show ?thesis by (auto simp: copyout.simps)
  next
    case False
    define n where "n = min (length buf) (4096 - unat va mod 4096)"
    define va' where "va' = PGROUNDDOWN va + PGSIZE"
    have "unat va < unat va + length buf" using False by simp
    then have "unat va < unat KERNBASE" using less.prems(2) by (rule less_le_trans)
    then have va: "va < KERNBASE" "user_page (pte (mem s) pgdir va)"
      and n0: "0 < n" and nl: "n \<le> length buf"
      using less.prems(3)[of va] False by (simp_all add: word_less_nat_alt n_def)
    obtain s1 where s1: "copyout pgdir va buf s = copyout pgdir va' (drop n buf) s1"
      "user_ok kend pgdir ps s1" "pte (mem s1) pgdir = pte (mem s) pgdir"
      "\<forall>w. w < KERNBASE \<longrightarrow> present (pte (mem s) pgdir w) \<longrightarrow> ubyte (mem s1) pgdir w =
        (if unat va \<le> unat w \<and> unat w < unat va + n then buf ! (unat w - unat va)
         else ubyte (mem s) pgdir w)"
      unfolding va'_def by (rule copyout_step[OF less.prems(1) va False n_def])
    show ?thesis
    proof (cases "n = length buf")
      case True
      with s1 show ?thesis by (auto simp: copyout.simps)
    next
      case ne: False
      then have "unat va' = unat va + n"
        using unat_split_page[of va] va(1)
        by (auto simp: va'_def n_def PGROUNDDOWN_eq unat_plus_if' word_less_nat_alt min_def
            split: if_splits)
      moreover from this have "\<exists>s'. copyout pgdir va' (drop n buf) s1 = Ok (0, s') \<and>
        user_ok kend pgdir ps s' \<and> pte (mem s') pgdir = pte (mem s1) pgdir \<and>
        (\<forall>w. w < KERNBASE \<longrightarrow> present (pte (mem s1) pgdir w) \<longrightarrow> ubyte (mem s') pgdir w =
          (if unat va' \<le> unat w \<and> unat w < unat va' + length (drop n buf)
           then drop n buf ! (unat w - unat va') else ubyte (mem s1) pgdir w))"
        using less.prems n0 nl False s1 by (intro less.hyps) auto
      ultimately obtain s' where s': "copyout pgdir va buf s = Ok (0, s')" "user_ok kend pgdir ps s'"
        "pte (mem s') pgdir = pte (mem s) pgdir"
        "\<forall>w. w < KERNBASE \<longrightarrow> present (pte (mem s) pgdir w) \<longrightarrow> ubyte (mem s') pgdir w =
          (if unat va + n \<le> unat w \<and> unat w < unat va + length buf
           then drop n buf ! (unat w - (unat va + n)) else ubyte (mem s1) pgdir w)"
        using s1(1,3) nl by auto
      show ?thesis
        by (rule exI[of _ s']) (use s' s1(4) nl in auto)
    qed
  qed
qed

section \<open>Entries of pages that go to the swap file and come back\<close>

definition paged_out_entry :: "uint32 \<Rightarrow> uint32" where
  "paged_out_entry e = PTE_FLAGS ((e OR PTE_PG) AND NOT PTE_P)"

definition paged_in_entry :: "uint32 \<Rightarrow> uint32 \<Rightarrow> uint32" where
  "paged_in_entry pa e = ((e OR (PTE_P OR PTE_W OR PTE_U)) AND NOT PTE_PG) OR pa"

lemma walkpgdir_entry:
  assumes "wf_pgdir (mem s) pgdir" "present (pde_at (mem s) pgdir va)"
  shows "walkpgdir pgdir va alloc s = (entry (ptab (mem s) pgdir va) (PTX va), s)"
    "entry (ptab (mem s) pgdir va) (PTX va) \<noteq> 0"
    "ld32 (mem s) (entry (ptab (mem s) pgdir va) (PTX va)) = pte (mem s) pgdir va"
  using wf_ptabD(2)[OF assms] assms(2)
  by (simp_all add: walkpgdir_present entry_nonzero PTX_less pte_def)

lemma fixPagedOutPTE_Ok:
  assumes ok: "vm_ok kend pgdir ps s" and pr: "present (pde_at (mem s) pgdir va)"
  obtains s' where "fixPagedOutPTE pgdir va alloc s = Ok s'" "vm_grow kend pgdir ps s ps s'"
    "pte (mem s') pgdir = (\<lambda>v. if PTE_ADDR v = PTE_ADDR va
       then paged_out_entry (pte (mem s) pgdir va) else pte (mem s) pgdir v)"
    "present (pde_at (mem s') pgdir va)"
proof -
  let ?x = "entry (ptab (mem s) pgdir va) (PTX va)"
  let ?e = "paged_out_entry (pte (mem s) pgdir va)"
  note w = walkpgdir_entry[OF vm_ok_wf[OF ok] pr]
  have "e AND PTE_FLAGS e = PTE_FLAGS e" for e
    by (rule bit_word_eqI) (auto simp: bit_and_iff bit_PTE_FLAGS)
  then have "fixPagedOutPTE pgdir va alloc s = Ok (s\<lparr>mem := st32 (mem s) ?x ?e\<rparr>)"
    by (simp add: fixPagedOutPTE_def w Let_def paged_out_entry_def)
  then show ?thesis
    by (rule that[OF _ vm_grow_store[OF ok pr]])
       (use store_pte(1)[OF vm_ok_wf[OF ok] pr] pr in simp)
qed

lemma fixPagedInPTE_Ok:
  assumes ok: "vm_ok kend pgdir ps s" and pr: "present (pde_at (mem s) pgdir va)"
    and out: "\<not> present (pte (mem s) pgdir va)"
  obtains s' where "fixPagedInPTE va pa pgdir s = Ok s'" "vm_grow kend pgdir ps s ps s'"
    "pte (mem s') pgdir = (\<lambda>v. if PTE_ADDR v = PTE_ADDR va
       then paged_in_entry pa (pte (mem s) pgdir va) else pte (mem s) pgdir v)"
proof -
  let ?x = "entry (ptab (mem s) pgdir va) (PTX va)"
  let ?e = "paged_in_entry pa (pte (mem s) pgdir va)"
  note w = walkpgdir_entry[OF vm_ok_wf[OF ok] pr]
  have "fixPagedInPTE va pa pgdir s = Ok (s\<lparr>mem := st32 (mem s) ?x ?e\<rparr>)"
    using out by (simp add: fixPagedInPTE_def w Let_def paged_in_entry_def present_def)
  then show ?thesis
    by (rule that[OF _ vm_grow_store[OF ok pr]])
qed

text \<open>The bits of the flags, in the integer form to which the simplifier brings them.\<close>

lemma bit_flags:
  "bit (1 :: int) n \<longleftrightarrow> n = 0" "bit (2 :: int) n \<longleftrightarrow> n = 1" "bit (4 :: int) n \<longleftrightarrow> n = 2"
  "bit (0x20 :: int) n \<longleftrightarrow> n = 5" "bit (0x200 :: int) n \<longleftrightarrow> n = 9"
  "bit (7 :: int) n \<longleftrightarrow> n = 0 \<or> n = 1 \<or> n = 2"
  "bit (- 2 :: int) n \<longleftrightarrow> n \<noteq> 0" "bit (- 5 :: int) n \<longleftrightarrow> n \<noteq> 2"
  "bit (- 33 :: int) n \<longleftrightarrow> n \<noteq> 5" "bit (- 513 :: int) n \<longleftrightarrow> n \<noteq> 9"
proof -
  have b: "bit (2 ^ k :: int) n \<longleftrightarrow> n = k" for k by (auto simp: bit_exp_iff)
  show "bit (1 :: int) n \<longleftrightarrow> n = 0" "bit (2 :: int) n \<longleftrightarrow> n = 1" "bit (4 :: int) n \<longleftrightarrow> n = 2"
    "bit (0x20 :: int) n \<longleftrightarrow> n = 5" "bit (0x200 :: int) n \<longleftrightarrow> n = 9"
    using b[of 0] b[of 1] b[of 2] b[of 5] b[of 9] by simp_all
  have "bit (NOT (2 ^ k) :: int) n \<longleftrightarrow> n \<noteq> k" for k by (simp add: bit_not_iff b)
  from this[of 0] this[of 2] this[of 5] this[of 9]
  show "bit (- 2 :: int) n \<longleftrightarrow> n \<noteq> 0" "bit (- 5 :: int) n \<longleftrightarrow> n \<noteq> 2"
    "bit (- 33 :: int) n \<longleftrightarrow> n \<noteq> 5" "bit (- 513 :: int) n \<longleftrightarrow> n \<noteq> 9" by simp_all
  have "(7 :: int) = 2 ^ 0 OR 2 ^ 1 OR 2 ^ 2" by simp
  then show "bit (7 :: int) n \<longleftrightarrow> n = 0 \<or> n = 1 \<or> n = 2" by (simp only: bit_or_iff b disj_assoc)
qed

lemmas bit_entry = bit_PTE_FLAGS bit_PTE_ADDR bit_flags bit_1_iff bit_or_iff bit_and_iff bit_not_iff

lemma paged_out_entry_bits:
  "\<not> present (paged_out_entry e)" "paged_out_entry e AND PTE_PG \<noteq> 0" "PTE_ADDR (paged_out_entry e) = 0"
proof -
  have "bit (paged_out_entry e AND PTE_PG) 9"
    by (simp add: paged_out_entry_def bit_entry)
  then show "paged_out_entry e AND PTE_PG \<noteq> 0" by auto
  show "\<not> present (paged_out_entry e)"
    by (simp add: present_iff_bit paged_out_entry_def bit_entry)
  show "PTE_ADDR (paged_out_entry e) = 0"
    by (rule bit_word_eqI) (simp add: paged_out_entry_def bit_entry)
qed

lemma paged_in_entry_bits:
  assumes "aligned pa"
  shows "present (paged_in_entry pa e)" "user_page (paged_in_entry pa e)"
    "paged_in_entry pa e AND PTE_PG = 0" "PTE_ADDR (paged_in_entry pa e) = PTE_ADDR e OR pa"
proof -
  have "bit (paged_in_entry pa e AND PTE_P) 0" "bit (paged_in_entry pa e AND PTE_U) 2"
    by (simp_all add: paged_in_entry_def bit_entry)
  then show "user_page (paged_in_entry pa e)" by (auto simp: user_page_def)
  then show "present (paged_in_entry pa e)" by (rule user_page_present)
  show "paged_in_entry pa e AND PTE_PG = 0"
    using assms by (intro bit_word_eqI) (auto simp: paged_in_entry_def bit_entry aligned_iff_bits)
  show "PTE_ADDR (paged_in_entry pa e) = PTE_ADDR e OR pa"
    using assms
    by (intro bit_word_eqI) (auto simp: paged_in_entry_def bit_entry aligned_iff_bits not_less[symmetric])
qed

section \<open>Mapping a fresh frame\<close>

lemma mappages_page:
  assumes ok: "vm_ok kend pgdir ps s" and a: "aligned a" "\<not> present (pte (mem s) pgdir a)"
  obtains (mapped) s' ps' where "mappages pgdir a PGSIZE pa perm s = Ok (0, s')"
      "vm_grow kend pgdir ps s ps' s'"
      "pte (mem s') pgdir = (\<lambda>v. if PTE_ADDR v = a then pa OR perm OR PTE_P else pte (mem s) pgdir v)"
  | (full) s' where "ps = []" "mappages pgdir a PGSIZE pa perm s = Ok (- 1, s')"
      "vm_grow kend pgdir ps s [] s'" "pte (mem s') pgdir = pte (mem s) pgdir"
proof -
  have "PTE_ADDR (a + 4095) = a" by (rule PTE_ADDR_add(1)[OF a(1)]) simp
  moreover have "a + PGSIZE - 1 = a + 4095" "Suc 1048575 = 1048576" by simp_all
  ultimately have m: "mappages pgdir a PGSIZE pa perm s =
      mappages_loop (Suc 1048575) pgdir a a pa perm s"
    using a(1) by (simp only: mappages_def PGROUNDDOWN_eq PTE_ADDR_aligned Let_def)
  show ?thesis
    by (rule mappages_loop_step[OF ok a, where n = 1048575 and last' = a and pa = pa and perm = perm])
       (use m mapped full in \<open>simp_all only: if_True simp_thms\<close>)
qed

text \<open>Growing the tables keeps the user part of the address space and its contents.\<close>

lemma vm_grow_used:
  "vm_grow kend pgdir ps s ps' s' \<Longrightarrow>
     tables (mem s') pgdir \<union> set ps' = tables (mem s) pgdir \<union> set ps"
  using vm_growD(3,4)[of kend pgdir ps s ps' s'] by blast

lemma user_ok_grow:
  assumes "user_ok kend pgdir ps s" "vm_grow kend pgdir ps s ps' s'"
    and "pte (mem s') pgdir = pte (mem s) pgdir"
  shows "user_ok kend pgdir ps' s'"
  using assms vm_growD(2)[OF assms(2)] vm_grow_used[OF assms(2)] by (simp add: user_ok_def)

lemma ubyte_grow:
  assumes u: "user_ok kend pgdir ps s" and g: "vm_grow kend pgdir ps s ps' s'"
    and v: "v < KERNBASE" "present (pte (mem s) pgdir v)" "pte (mem s') pgdir v = pte (mem s) pgdir v"
  shows "ubyte (mem s') pgdir v = ubyte (mem s) pgdir v"
proof (rule ubyte_cong)
  show "frame (mem s') pgdir v = frame (mem s) pgdir v" using v(3) by (simp add: frame_def)
  show "same_page (mem s) (mem s') (frame (mem s) pgdir v)"
    using user_okD(2,3)[OF u v(1,2)] by (intro vm_growD(5)[OF g])
qed

lemma frames_ok_update:
  assumes "frames_ok kend f used"
    and "page_ok kend (P2V (PTE_ADDR e))" "P2V (PTE_ADDR e) \<notin> used"
    and "\<And>v. v < KERNBASE \<Longrightarrow> present (f v) \<Longrightarrow> PTE_ADDR v \<noteq> a \<Longrightarrow> PTE_ADDR (f v) \<noteq> PTE_ADDR e"
  shows "frames_ok kend (\<lambda>v. if PTE_ADDR v = a then e else f v) used"
  unfolding frames_ok_def
proof (intro conjI allI impI)
  fix v w assume v: "v < KERNBASE" "present (if PTE_ADDR v = a then e else f v)"
  show "page_ok kend (P2V (PTE_ADDR (if PTE_ADDR v = a then e else f v)))"
    "P2V (PTE_ADDR (if PTE_ADDR v = a then e else f v)) \<notin> used"
    using v assms(2,3) frames_okD(1,2)[OF assms(1)] by (cases "PTE_ADDR v = a"; simp)+
  assume w: "w < KERNBASE" "present (if PTE_ADDR w = a then e else f w)"
    "PTE_ADDR (if PTE_ADDR v = a then e else f v) = PTE_ADDR (if PTE_ADDR w = a then e else f w)"
  show "PTE_ADDR v = PTE_ADDR w"
    using v w assms(4)[of v] assms(4)[of w] frames_okD(3)[OF assms(1), of v w]
    by (cases "PTE_ADDR v = a"; cases "PTE_ADDR w = a") auto
qed

lemma user_ok_map:
  assumes "user_ok kend pgdir ps s" "vm_grow kend pgdir ps s ps' s'"
    and "pte (mem s') pgdir = (\<lambda>v. if PTE_ADDR v = a then e else pte (mem s) pgdir v)"
    and "page_ok kend (P2V (PTE_ADDR e))" "P2V (PTE_ADDR e) \<notin> tables (mem s) pgdir \<union> set ps"
    and "\<And>v. v < KERNBASE \<Longrightarrow> present (pte (mem s) pgdir v) \<Longrightarrow> PTE_ADDR v \<noteq> a \<Longrightarrow>
           frame (mem s) pgdir v \<noteq> P2V (PTE_ADDR e)"
  shows "user_ok kend pgdir ps' s'"
proof -
  have "frames_ok kend (pte (mem s') pgdir) (tables (mem s) pgdir \<union> set ps)"
    unfolding assms(3) using assms by (intro frames_ok_update) (auto simp: user_ok_def frame_def)
  then show ?thesis
    using vm_growD(2)[OF assms(2)] vm_grow_used[OF assms(2)] by (simp add: user_ok_def)
qed

section \<open>Properties\<close>

lemma pageIsInFile_Ok:
  assumes "wf_pgdir (mem s) pgdir" "present (pde_at (mem s) pgdir va)"
  shows "pageIsInFile va pgdir s =
    Ok (if pte (mem s) pgdir va AND PTE_PG \<noteq> 0 \<and> \<not> present (pte (mem s) pgdir va) then 1 else 0)"
  using walkpgdir_entry[OF assms] by (simp add: pageIsInFile_def present_def Let_def)

lemma page_out_in_flags:
  "paged_in_entry pa (paged_out_entry e) =
   ((PTE_FLAGS e OR (PTE_P OR PTE_W OR PTE_U)) AND NOT PTE_PG) OR pa"
  by (rule bit_word_eqI) (auto simp: paged_in_entry_def paged_out_entry_def bit_entry)

text \<open>
  C10. Paging a present page out and in again.  After \<open>fixPagedOutPTE\<close> the page counts as being in
  the swap file and the kernel refuses to translate it for the user; \<open>fixPagedInPTE\<close> then maps
  it to the frame it is given and takes the swap mark away.  The flags the entry comes back with are
  the old ones and, whatever they were, present, writable and user: a page that the user could not
  write, or not access at all like the guard page of the stack, comes back writable for the user.
  No other page's entry changes.
\<close>

theorem page_out_in_entry:
  assumes ok: "vm_ok kend pgdir ps s" and pr: "present (pte (mem s) pgdir va)" and pa: "aligned pa"
  shows "\<exists>s1 s2. fixPagedOutPTE pgdir va False s = Ok s1 \<and>
    pageIsInFile va pgdir s1 = Ok 1 \<and> uva2ka pgdir va s1 = Ok 0 \<and>
    fixPagedInPTE va pa pgdir s1 = Ok s2 \<and> pageIsInFile va pgdir s2 = Ok 0 \<and>
    uva2ka pgdir va s2 = Ok (P2V pa) \<and>
    pte (mem s2) pgdir va = ((PTE_FLAGS (pte (mem s) pgdir va) OR (PTE_P OR PTE_W OR PTE_U)) AND NOT PTE_PG) OR pa \<and>
    (\<forall>v. PTE_ADDR v \<noteq> PTE_ADDR va \<longrightarrow> pte (mem s2) pgdir v = pte (mem s) pgdir v)"
proof -
  let ?e = "paged_out_entry (pte (mem s) pgdir va)"
  obtain s1 where s1: "fixPagedOutPTE pgdir va False s = Ok s1" "vm_grow kend pgdir ps s ps s1"
    "pte (mem s1) pgdir = (\<lambda>v. if PTE_ADDR v = PTE_ADDR va then ?e else pte (mem s) pgdir v)"
    "present (pde_at (mem s1) pgdir va)"
    by (rule fixPagedOutPTE_Ok[OF ok pte_present_pde[OF pr], of False])
  note ok1 = vm_growD(2)[OF s1(2)] and bits = paged_out_entry_bits[of "pte (mem s) pgdir va"]
  have e1: "pte (mem s1) pgdir va = ?e" by (simp add: s1(3))
  obtain s2 where s2: "fixPagedInPTE va pa pgdir s1 = Ok s2" "vm_grow kend pgdir ps s1 ps s2"
    "pte (mem s2) pgdir = (\<lambda>v. if PTE_ADDR v = PTE_ADDR va
       then paged_in_entry pa (pte (mem s1) pgdir va) else pte (mem s1) pgdir v)"
    by (rule fixPagedInPTE_Ok[OF ok1 s1(4), of pa]) (simp_all add: e1 bits)
  note ok2 = vm_growD(2)[OF s2(2)] and bits2 = paged_in_entry_bits[OF pa, of ?e]
  have e2: "pte (mem s2) pgdir va = paged_in_entry pa ?e" by (simp add: s2(3) e1)
  then have "present (pde_at (mem s2) pgdir va)" by (intro pte_present_pde) (simp add: bits2)
  then have "uva2ka pgdir va s2 = Ok (P2V pa)" "pageIsInFile va pgdir s2 = Ok 0"
    by (simp_all add: uva2ka_frame pageIsInFile_Ok vm_ok_wf[OF ok2] e2 bits bits2 frame_def)
  moreover have "uva2ka pgdir va s1 = Ok 0" "pageIsInFile va pgdir s1 = Ok 1"
    using user_page_present[of ?e] bits
    by (auto simp: uva2ka_frame pageIsInFile_Ok vm_ok_wf[OF ok1] s1(4) e1)
  moreover note e2[unfolded page_out_in_flags]
  moreover have "\<forall>v. PTE_ADDR v \<noteq> PTE_ADDR va \<longrightarrow> pte (mem s2) pgdir v = pte (mem s) pgdir v"
    by (simp add: s1(3) s2(3))
  ultimately show ?thesis using s1(1) s2(1) by blast
qed

text \<open>
  C9. \<open>copyout\<close> to a range of user addresses below \<open>KERNBASE\<close> whose pages are all present and
  accessible to the user succeeds, and the user then sees exactly the bytes of the buffer in that
  range and its old bytes everywhere else; the page map is untouched.
\<close>

theorem copyout_writes_user_bytes:
  assumes "user_ok kend pgdir ps s" "unat va + length buf \<le> unat KERNBASE"
    and "\<forall>v. unat va \<le> unat v \<and> unat v < unat va + length buf \<longrightarrow> user_page (pte (mem s) pgdir v)"
  shows "\<exists>s'. copyout pgdir va buf s = Ok (0, s') \<and> user_ok kend pgdir ps s' \<and>
    pte (mem s') pgdir = pte (mem s) pgdir \<and>
    (\<forall>w. w < KERNBASE \<longrightarrow> present (pte (mem s) pgdir w) \<longrightarrow> ubyte (mem s') pgdir w =
      (if unat va \<le> unat w \<and> unat w < unat va + length buf then buf ! (unat w - unat va)
       else ubyte (mem s) pgdir w))"
  using copyout_spec[OF assms(1,2)] assms(3) by blast

text \<open>
  A machine for the examples: the page directory at 0x80300000 has one page table, at 0x80200000,
  which maps the first three user pages to the frames at 0x80400000, 0x80401000 and 0x80402000;
  the access bits of the first two are set.
\<close>

definition user_machine :: machine where
  "user_machine = demo_machine\<lparr>
     mem := st32 (st32 (st32 (st32 (\<lambda>_. 0) (entry 0x80300000 0) 0x200007)
              (entry 0x80200000 0) 0x400027) (entry 0x80200000 1) 0x401027)
              (entry 0x80200000 2) 0x402007,
     kmem := \<lparr>use_lock = True, freelist = 0\<rparr>, page_counter := 0\<rparr>"

lemma user_machine_pde:
  "pde_at (mem user_machine) 0x80300000 va = (if PDX va = 0 then 0x200007 else 0)"
  using PDX_less[of va]
  by (simp add: pde_at_def user_machine_def ld32_st32_entry aligned_iff_mod zero_memory(1)
      del: entry_0)

lemma user_machine_pte:
  "pte (mem user_machine) 0x80300000 va =
     (if PDX va \<noteq> 0 then 0 else if PTX va = 0 then 0x400027 else if PTX va = 1 then 0x401027
      else if PTX va = 2 then 0x402007 else 0)"
proof -
  have "P2V (PTE_ADDR 0x200007) = 0x80200000" "present 0x200007"
    by (simp_all add: P2V_def PTE_ADDR_def present_def)
  then show ?thesis
    using PTX_less[of va] unfolding pte_def ptab_def user_machine_pde
    by (auto simp: user_machine_def ld32_st32_entry aligned_iff_mod zero_memory(1) simp del: entry_0)
qed

lemma user_machine_tables: "tables (mem user_machine) 0x80300000 \<subseteq> {0x80300000, 0x80200000}"
  by (auto simp: tables_def ptab_def user_machine_pde P2V_def PTE_ADDR_def split: if_splits)

lemma user_machine_ok: "user_ok 0x80100000 0x80300000 [] user_machine"
proof -
  let ?f = "pte (mem user_machine) 0x80300000"
  have "P2V (PTE_ADDR 0x200007) = 0x80200000" by (simp add: P2V_def PTE_ADDR_def)
  then have "vm_ok 0x80100000 0x80300000 [] user_machine"
    unfolding vm_ok_def wf_pgdir_def free_pages_def
    by (simp add: user_machine_pde ptab_def aligned_iff_mod split: if_splits)
       (simp add: user_machine_def)
  moreover have "frames_ok 0x80100000 ?f {0x80300000, 0x80200000}"
    unfolding frames_ok_def
  proof (intro conjI allI impI)
    fix v w assume v: "present (?f v)"
    have f: "PTE_ADDR (?f v) \<in> {0x400000, 0x401000, 0x402000}"
      using v by (simp add: user_machine_pte PTE_ADDR_def split: if_splits)
    then show "page_ok 0x80100000 (P2V (PTE_ADDR (?f v)))"
      by (auto simp: P2V_def aligned_iff_mod intro!: page_okI)
    show "P2V (PTE_ADDR (?f v)) \<notin> {0x80300000, 0x80200000}" using f by (auto simp: P2V_def)
    assume w: "present (?f w)" "PTE_ADDR (?f v) = PTE_ADDR (?f w)"
    then have "PDX v = PDX w \<and> PTX v = PTX w"
      using v by (simp add: user_machine_pte PTE_ADDR_def split: if_splits)
    then show "PTE_ADDR v = PTE_ADDR w" by (simp add: PDX_PTX_eq_iff)
  qed
  moreover have "frames_ok k f A \<Longrightarrow> B \<subseteq> A \<Longrightarrow> frames_ok k f B" for k f A B
    unfolding frames_ok_def by blast
  ultimately show ?thesis
    using user_machine_tables by (auto simp: user_ok_def)
qed

theorem page_out_in_entry_witness:
  "\<exists>s1 s2. fixPagedOutPTE 0x80300000 0x1000 False user_machine = Ok s1 \<and>
     pageIsInFile 0x1000 0x80300000 s1 = Ok 1 \<and>
     fixPagedInPTE 0x1000 0x500000 0x80300000 s1 = Ok s2 \<and>
     uva2ka 0x80300000 0x1000 s2 = Ok 0x80500000 \<and>
     pte (mem s2) 0x80300000 0x1000 AND (PTE_P OR PTE_W OR PTE_U OR PTE_PG) = PTE_P OR PTE_W OR PTE_U"
proof -
  have "aligned 0x500000" "P2V 0x500000 = 0x80500000"
    by (simp_all add: aligned_iff_mod P2V_def)
  moreover have "present (pte (mem user_machine) 0x80300000 0x1000)"
    by (simp add: user_machine_pte PDX_def PTX_def present_def)
  moreover have "((PTE_FLAGS e OR (PTE_P OR PTE_W OR PTE_U)) AND NOT PTE_PG OR 0x500000) AND (PTE_P OR PTE_W OR PTE_U OR PTE_PG) =
      PTE_P OR PTE_W OR PTE_U" for e
  proof -
    have "(x OR (PTE_P OR PTE_W OR PTE_U)) AND NOT PTE_PG AND (PTE_P OR PTE_W OR PTE_U OR PTE_PG) = PTE_P OR PTE_W OR PTE_U"
      for x :: uint32 by (rule bit_word_eqI) (auto simp: bit_entry)
    then show ?thesis by (simp add: bit.conj_disj_distrib2 and.assoc)
  qed
  ultimately show ?thesis
    using page_out_in_entry[OF user_ok_vm_ok[OF user_machine_ok], of "0x1000" "0x500000"] by auto
qed

theorem copyout_writes_user_bytes_witness:
  "\<exists>s'. copyout 0x80300000 0xFFE [1, 2, 3] user_machine = Ok (0, s') \<and>
     ubyte (mem s') 0x80300000 0x1000 = 3"
proof -
  have up: "user_page 0x400027" "user_page 0x401027" "present 0x401027"
    by (simp_all add: user_page_def present_def)
  have "user_page (pte (mem user_machine) 0x80300000 v)" if "0xFFE \<le> unat v" "unat v < 0x1001" for v
  proof -
    have "unat v = 0xFFE \<or> unat v = 0xFFF \<or> unat v = 0x1000" using that by auto
    then have "v = 0xFFE \<or> v = 0xFFF \<or> v = 0x1000" by (auto simp: word_unat_eq_iff)
    then show ?thesis using up by (auto simp: user_machine_pte PDX_def PTX_def)
  qed
  then obtain s' where s': "copyout 0x80300000 0xFFE [1, 2, 3] user_machine = Ok (0, s')"
    "\<forall>w. w < KERNBASE \<longrightarrow> present (pte (mem user_machine) 0x80300000 w) \<longrightarrow> ubyte (mem s') 0x80300000 w =
      (if 0xFFE \<le> unat w \<and> unat w < 0x1001 then [1, 2, 3] ! (unat w - 0xFFE) else ubyte (mem user_machine) 0x80300000 w)"
    using copyout_writes_user_bytes[OF user_machine_ok, of "0xFFE" "[1, 2, 3]"] by auto
  have "present (pte (mem user_machine) 0x80300000 0x1000)"
    using up by (simp add: user_machine_pte PDX_def PTX_def)
  then show ?thesis using s'(1) s'(2)[rule_format, of "0x1000"] by simp
qed

end
