(* ===== verification/ProcTypes.thy ===== *)
theory ProcTypes
  imports UserMem
begin

text \<open>
  The process structure of src/proc.h with the tables of its paging metadata, and the trap frame of
  src/x86.h.  A pointer into \<open>memory_pg_arr\<close> is an index, a pointer to a process an index into
  the process table, a pointer to an open file or an in-memory inode an index into its table; the
  null pointer is \<open>None\<close>.  An unused slot of the two metadata arrays holds the address -1.
\<close>

datatype procstate = UNUSED | EMBRYO | SLEEPING | RUNNABLE | RUNNING | ZOMBIE

text \<open>The page replacement policy is chosen when the kernel is compiled (\<open>SELECTION\<close>).\<close>

datatype policy = SCFIFO | NFUA | LAPA | AQ | NONE

abbreviation (input) MAX_PSYC_PAGES :: nat where "MAX_PSYC_PAGES \<equiv> 16"
abbreviation (input) MAX_TOTAL_PAGES :: nat where "MAX_TOTAL_PAGES \<equiv> 32"
abbreviation (input) NPROC :: nat where "NPROC \<equiv> 64"
abbreviation (input) NOFILE :: nat where "NOFILE \<equiv> 16"
abbreviation (input) KSTACKSIZE :: uint32 where "KSTACKSIZE \<equiv> 4096"

abbreviation (input) NOVA :: uint32 where "NOVA \<equiv> 0xFFFFFFFF"

text \<open>
  The objects a process sleeps on; the source uses their addresses.
\<close>

datatype chan =
    ChanTicks            \<comment> \<open>\<open>&ticks\<close>\<close>
  | ChanProc nat         \<comment> \<open>a process, for \<open>wait\<close>\<close>
  | ChanLog              \<comment> \<open>\<open>&log\<close>\<close>
  | ChanBuf nat          \<comment> \<open>the sleep lock of a buffer\<close>
  | ChanInode nat        \<comment> \<open>the sleep lock of an inode\<close>
  | ChanPipeRead uint32  \<comment> \<open>\<open>&p->nread\<close>\<close>
  | ChanPipeWrite uint32 \<comment> \<open>\<open>&p->nwrite\<close>\<close>
  | ChanDisk nat         \<comment> \<open>a buffer, while the disk driver works on it\<close>
  | ChanInput            \<comment> \<open>\<open>&input.r\<close>\<close>

record disk_info =
  dk_va :: uint32
  dk_location :: int

record free_page =
  fp_next :: "nat option"
  fp_prev :: "nat option"
  fp_va :: uint32
  fp_age :: uint32

record trapframe =
  tf_edi :: uint32
  tf_esi :: uint32
  tf_ebp :: uint32
  tf_oesp :: uint32
  tf_ebx :: uint32
  tf_edx :: uint32
  tf_ecx :: uint32
  tf_eax :: uint32
  tf_gs :: "16 word"
  tf_fs :: "16 word"
  tf_es :: "16 word"
  tf_ds :: "16 word"
  tf_trapno :: uint32
  tf_err :: uint32
  tf_eip :: uint32
  tf_cs :: "16 word"
  tf_eflags :: uint32
  tf_esp :: uint32
  tf_ss :: "16 word"

text \<open>The saved kernel context: the callee-saved registers and the return address.\<close>

record kcontext =
  cx_edi :: uint32
  cx_esi :: uint32
  cx_ebx :: uint32
  cx_ebp :: uint32
  cx_eip :: uint32

record proc =
  p_sz :: uint32
  p_pgdir :: uint32
  p_kstack :: uint32
  p_state :: procstate
  p_pid :: int
  p_parent :: "nat option"
  p_tf :: trapframe
  p_context :: kcontext
  p_chan :: "chan option"
  p_killed :: bool
  p_ofile :: "nat option list"
  p_cwd :: "nat option"
  p_name :: "byte list"
  p_swapFile :: "nat option"
  pages_in_memory_counter :: int
  pages_in_swapfile_counter :: int
  pagedout :: uint32
  fault_counter :: uint32
  disk_pg_arr :: "disk_info list"
  memory_pg_arr :: "free_page list"
  p_head :: "nat option"
  p_tail :: "nat option"
  p_dirty :: int

definition default_age :: "policy \<Rightarrow> uint32" where
  "default_age pol = (if pol = LAPA then 0xFFFFFFFF else 0)"

section \<open>Slots in use\<close>

definition used :: "proc \<Rightarrow> nat \<Rightarrow> bool" where
  "used p i \<longleftrightarrow> i < length (memory_pg_arr p) \<and> fp_va (memory_pg_arr p ! i) \<noteq> NOVA"

abbreviation slot_va :: "proc \<Rightarrow> nat \<Rightarrow> uint32" where
  "slot_va p i \<equiv> fp_va (memory_pg_arr p ! i)"

text \<open>The metadata arrays have their declared sizes and the two counters count the slots in use.\<close>

definition wf_meta :: "proc \<Rightarrow> bool" where
  "wf_meta p \<longleftrightarrow> length (memory_pg_arr p) = MAX_PSYC_PAGES \<and>
     length (disk_pg_arr p) = MAX_PSYC_PAGES \<and>
     pages_in_memory_counter p = int (count_if (\<lambda>f. fp_va f \<noteq> NOVA) (memory_pg_arr p)) \<and>
     pages_in_swapfile_counter p = int (count_if (\<lambda>d. dk_va d \<noteq> NOVA) (disk_pg_arr p))"

text \<open>A process for the examples: no memory, no files, empty metadata.\<close>

definition zero_trapframe :: trapframe where
  "zero_trapframe = \<lparr>tf_edi = 0, tf_esi = 0, tf_ebp = 0, tf_oesp = 0, tf_ebx = 0, tf_edx = 0, tf_ecx = 0,
     tf_eax = 0, tf_gs = 0, tf_fs = 0, tf_es = 0, tf_ds = 0, tf_trapno = 0, tf_err = 0, tf_eip = 0, tf_cs = 0,
     tf_eflags = 0, tf_esp = 0, tf_ss = 0\<rparr>"

definition zero_context :: kcontext where
  "zero_context = \<lparr>cx_edi = 0, cx_esi = 0, cx_ebx = 0, cx_ebp = 0, cx_eip = 0\<rparr>"

definition blank_proc :: proc where
  "blank_proc = \<lparr>p_sz = 0, p_pgdir = 0, p_kstack = 0, p_state = UNUSED, p_pid = 0, p_parent = None,
     p_tf = zero_trapframe, p_context = zero_context, p_chan = None, p_killed = False,
     p_ofile = replicate NOFILE None, p_cwd = None, p_name = [], p_swapFile = None,
     pages_in_memory_counter = 0, pages_in_swapfile_counter = 0, pagedout = 0, fault_counter = 0,
     disk_pg_arr = replicate MAX_PSYC_PAGES \<lparr>dk_va = NOVA, dk_location = -1\<rparr>,
     memory_pg_arr = replicate MAX_PSYC_PAGES
       \<lparr>fp_next = None, fp_prev = None, fp_va = NOVA, fp_age = 0\<rparr>,
     p_head = None, p_tail = None, p_dirty = 0\<rparr>"

end
