(* ===== verification/Replace.thy ===== *)
theory Replace
  imports ProcTypes
begin

text \<open>
  The page replacement policies of src/vm.c.  Each policy has an operation that enters a page in
  \<open>memory_pg_arr\<close> (\<open>update_memory\<close>) and one that selects the slot to evict
  (\<open>select_page_to_remove\<close>).  The first argument \<open>mypgdir\<close> of the selections is
  \<open>myproc()->pgdir\<close>, whose access bits they read.  Messages of \<open>panic\<close> are given without
  their final newline.
\<close>

section \<open>Entering a page\<close>

definition free_slot :: "proc \<Rightarrow> nat option" where
  "free_slot p = find_idx (\<lambda>f. fp_va f = NOVA) (memory_pg_arr p)"

definition findRamIndex :: "proc \<Rightarrow> int" where
  "findRamIndex p = (case free_slot p of Some i \<Rightarrow> int i | None \<Rightarrow> - 1)"

abbreviation upd_slot :: "nat \<Rightarrow> (free_page \<Rightarrow> free_page) \<Rightarrow> proc \<Rightarrow> proc" where
  "upd_slot i f p \<equiv> p\<lparr>memory_pg_arr := upd_at i f (memory_pg_arr p)\<rparr>"

text \<open>The two consistency checks at the start of \<open>update_memoryscfifo\<close> and \<open>update_memoryaq\<close>.\<close>

definition queue_checks :: "proc \<Rightarrow> unit res" where
  "queue_checks p =
     (if p_head p = None \<and> p_tail p \<noteq> None \<or> p_head p \<noteq> None \<and> p_tail p = None
      then Stop (Panic ''structure is wrong tail is  '')
      else case p_head p of
             None \<Rightarrow> Ok ()
           | Some h \<Rightarrow> if fp_prev (memory_pg_arr p ! h) \<noteq> None
                       then Stop (Panic ''queue head got prev pointer'') else Ok ())"

definition update_memoryscfifo :: "policy \<Rightarrow> uint32 \<Rightarrow> proc \<Rightarrow> (nat \<times> proc) res" where
  "update_memoryscfifo pol va p =
     andthen (queue_checks p) (\<lambda>_.
     case free_slot p of
       None \<Rightarrow> Stop (Panic ''no empty place in memory scfifo'')
     | Some i \<Rightarrow>
         let p = upd_slot i (\<lambda>f. f\<lparr>fp_va := va, fp_age := default_age pol\<rparr>) p;
             p = p\<lparr>pages_in_memory_counter := pages_in_memory_counter p + 1\<rparr>
         in if p_head p = None \<and> p_tail p = None
            then let p = upd_slot i (\<lambda>f. f\<lparr>fp_next := None, fp_prev := None\<rparr>) p
                 in Ok (i, p\<lparr>p_head := Some i, p_tail := Some i\<rparr>)
            else case p_tail p of
                   None \<Rightarrow> Stop (Panic ''no empty place in memory scfifo'')
                 | Some t \<Rightarrow>
                     if fp_next (memory_pg_arr p ! t) \<noteq> None
                     then Stop (Panic ''queue tail got next pointer'')
                     else let p = upd_slot t (\<lambda>f. f\<lparr>fp_next := Some i\<rparr>) p;
                              p = p\<lparr>p_tail := Some i\<rparr>;
                              p = upd_slot i (\<lambda>f. f\<lparr>fp_next := None\<rparr>) p
                          in Ok (i, p))"

definition update_memoryaq :: "policy \<Rightarrow> uint32 \<Rightarrow> proc \<Rightarrow> (nat \<times> proc) res" where
  "update_memoryaq pol va p =
     andthen (queue_checks p) (\<lambda>_.
     case free_slot p of
       None \<Rightarrow> Stop (Panic ''no empty place in memory aq'')
     | Some i \<Rightarrow>
         let p = upd_slot i (\<lambda>f. f\<lparr>fp_va := va, fp_age := default_age pol\<rparr>) p;
             p = p\<lparr>pages_in_memory_counter := pages_in_memory_counter p + 1\<rparr>;
             p = upd_slot i (\<lambda>f. f\<lparr>fp_next := None, fp_prev := None\<rparr>) p
         in case p_head p of
              None \<Rightarrow> Ok (i, p\<lparr>p_head := Some i, p_tail := Some i\<rparr>)
            | Some h \<Rightarrow> let p = upd_slot h (\<lambda>f. f\<lparr>fp_prev := Some i\<rparr>) p
                        in Ok (i, p\<lparr>p_head := Some i\<rparr>))"

definition update_memorynfua :: "policy \<Rightarrow> uint32 \<Rightarrow> proc \<Rightarrow> (nat \<times> proc) res" where
  "update_memorynfua pol va p =
     (case free_slot p of
        None \<Rightarrow> Stop (Panic ''no empty place in memory nfua'')
      | Some i \<Rightarrow>
          let p = upd_slot i (\<lambda>f. f\<lparr>fp_va := va, fp_age := default_age pol,
                                    fp_next := None, fp_prev := None\<rparr>) p
          in Ok (i, p\<lparr>pages_in_memory_counter := pages_in_memory_counter p + 1\<rparr>))"

definition update_memorylapa :: "policy \<Rightarrow> uint32 \<Rightarrow> proc \<Rightarrow> (nat \<times> proc) res" where
  "update_memorylapa pol va p =
     (case free_slot p of
        None \<Rightarrow> Stop (Panic ''no empty place in memory lapa'')
      | Some i \<Rightarrow>
          let p = upd_slot i (\<lambda>f. f\<lparr>fp_va := va, fp_age := default_age pol,
                                    fp_next := None, fp_prev := None\<rparr>) p
          in Ok (i, p\<lparr>pages_in_memory_counter := pages_in_memory_counter p + 1\<rparr>))"

definition update_memory :: "policy \<Rightarrow> uint32 \<Rightarrow> proc \<Rightarrow> (nat \<times> proc) res" where
  "update_memory pol va p =
     (case pol of
        SCFIFO \<Rightarrow> update_memoryscfifo pol va p
      | NFUA \<Rightarrow> update_memorynfua pol va p
      | LAPA \<Rightarrow> update_memorylapa pol va p
      | AQ \<Rightarrow> update_memoryaq pol va p
      | NONE \<Rightarrow> Stop (Panic ''unknown paging method''))"

section \<open>Selecting by age\<close>

text \<open>
  The loops of \<open>nfu_alg\<close> and \<open>lapa_alg\<close> over the slots from index \<open>i\<close> on.  The best slot
  so far is \<open>None\<close> where the source has -1; ages are compared as unsigned numbers, because the
  source compares a \<open>uint\<close> with an \<open>int\<close>.
\<close>

fun nfu_loop :: "free_page list \<Rightarrow> nat \<Rightarrow> nat option \<Rightarrow> uint32 \<Rightarrow> nat option" where
  "nfu_loop [] i min_index min_age = min_index"
| "nfu_loop (f # fs) i min_index min_age =
     (if fp_va f \<noteq> NOVA then
        if min_index = None then nfu_loop fs (Suc i) (Some i) (fp_age f)
        else if fp_age f < min_age then nfu_loop fs (Suc i) (Some i) (fp_age f)
        else nfu_loop fs (Suc i) min_index min_age
      else nfu_loop fs (Suc i) min_index min_age)"

definition nfu_alg :: "proc \<Rightarrow> nat option" where
  "nfu_alg p = nfu_loop (memory_pg_arr p) 0 None (- 1)"

definition count_ones :: "uint32 \<Rightarrow> nat" where
  "count_ones x = foldl (\<lambda>res i. if push_bit i 1 AND x \<noteq> 0 then res + 1 else res) 0 [0..<32]"

fun lapa_loop :: "free_page list \<Rightarrow> nat \<Rightarrow> nat option \<Rightarrow> uint32 \<Rightarrow> nat \<Rightarrow> nat option" where
  "lapa_loop [] i min_index min_age min_ones = min_index"
| "lapa_loop (f # fs) i min_index min_age min_ones =
     (if fp_va f \<noteq> NOVA then
        let tmp_ones = count_ones (fp_age f) in
        if min_index = None then lapa_loop fs (Suc i) (Some i) (fp_age f) tmp_ones
        else if tmp_ones = min_ones then
          if fp_age f < min_age then lapa_loop fs (Suc i) (Some i) (fp_age f) tmp_ones
          else lapa_loop fs (Suc i) min_index min_age min_ones
        else if tmp_ones < min_ones then lapa_loop fs (Suc i) (Some i) (fp_age f) tmp_ones
        else lapa_loop fs (Suc i) min_index min_age min_ones
      else lapa_loop fs (Suc i) min_index min_age min_ones)"

definition lapa_alg :: "proc \<Rightarrow> nat option" where
  "lapa_alg p = lapa_loop (memory_pg_arr p) 0 None (- 1) 0"

section \<open>Selecting from the queue\<close>

text \<open>The code at the end of \<open>scfifo_alg\<close> and \<open>aq_alg\<close> that unlinks the selected slot.\<close>

definition unlink_slot :: "nat \<Rightarrow> proc \<Rightarrow> proc" where
  "unlink_slot tmp p =
     (let f = memory_pg_arr p ! tmp;
          p = (case fp_prev f of None \<Rightarrow> p
               | Some q \<Rightarrow> upd_slot q (\<lambda>g. g\<lparr>fp_next := fp_next f\<rparr>) p);
          f = memory_pg_arr p ! tmp;
          p = (case fp_next f of None \<Rightarrow> p
               | Some q \<Rightarrow> upd_slot q (\<lambda>g. g\<lparr>fp_prev := fp_prev f\<rparr>) p);
          f = memory_pg_arr p ! tmp;
          p = (if p_head p = Some tmp then p\<lparr>p_head := fp_next f\<rparr> else p);
          p = (if p_tail p = Some tmp then p\<lparr>p_tail := fp_prev f\<rparr> else p)
      in p)"

text \<open>
  The turn of the \<open>do\<close> loop of \<open>scfifo_alg\<close> that finds the access bit set: the head goes to
  the tail.  \<open>tmp\<close> is the local variable, which names the head whenever the loop starts a turn.
\<close>

definition scfifo_rotate :: "nat \<Rightarrow> proc \<Rightarrow> (nat \<times> proc) res" where
  "scfifo_rotate tmp p =
     (case p_head p of
        None \<Rightarrow> Stop NullDeref
      | Some h \<Rightarrow>
        case fp_next (memory_pg_arr p ! h) of
          None \<Rightarrow> Stop NullDeref
        | Some h' \<Rightarrow>
          let p = p\<lparr>p_head := Some h'\<rparr>;
              p = upd_slot h' (\<lambda>f. f\<lparr>fp_prev := None\<rparr>) p;
              p = upd_slot tmp (\<lambda>f. f\<lparr>fp_next := None\<rparr>) p;
              p = upd_slot tmp (\<lambda>f. f\<lparr>fp_prev := p_tail p\<rparr>) p
          in case p_tail p of
               None \<Rightarrow> Stop NullDeref
             | Some t \<Rightarrow>
               let p = upd_slot t (\<lambda>f. f\<lparr>fp_next := Some tmp\<rparr>) p
               in Ok (h', p\<lparr>p_tail := Some tmp\<rparr>))"

partial_function (option) scfifo_loop ::
  "uint32 \<Rightarrow> nat option \<Rightarrow> nat \<Rightarrow> proc \<Rightarrow> 'a mach \<Rightarrow> (nat \<times> proc \<times> 'a mach) res option" where
  "scfifo_loop mypgdir oldhead tmp p s =
     (case p_head p of
        None \<Rightarrow> Some (Stop NullDeref)
      | Some h \<Rightarrow>
        case updateAccessBit mypgdir (fp_va (memory_pg_arr p ! h)) s of
          Stop e \<Rightarrow> Some (Stop e)
        | Ok (accessbit_head, s) \<Rightarrow>
          if accessbit_head = - 1 then
            Some (Stop (Panic ''access bit is not 1 or zero in scfifo swap pages''))
          else if accessbit_head = 1 then
            case scfifo_rotate tmp p of
              Stop e \<Rightarrow> Some (Stop e)
            | Ok (tmp, p) \<Rightarrow>
                if p_head p \<noteq> oldhead then scfifo_loop mypgdir oldhead tmp p s
                else Some (Ok (tmp, p, s))
          else
            let p = (if p_head p = p_tail p
                     then upd_slot h (\<lambda>f. f\<lparr>fp_next := None, fp_prev := None\<rparr>) p else p)
            in Some (Ok (h, p, s)))"

definition scfifo_alg :: "uint32 \<Rightarrow> proc \<Rightarrow> 'a mach \<Rightarrow> (nat \<times> proc \<times> 'a mach) res" where
  "scfifo_alg mypgdir p s =
     (case p_head p of
        None \<Rightarrow> Stop NullDeref
      | Some h \<Rightarrow>
        case scfifo_loop mypgdir (p_head p) h p s of
          None \<Rightarrow> Stop Diverges
        | Some r \<Rightarrow> andthen r (\<lambda>(tmp, p, s). Ok (tmp, unlink_slot tmp p, s)))"

text \<open>One turn of the \<open>while\<close> loop of \<open>aq_alg\<close>: the tail goes to the head.\<close>

definition aq_rotate :: "nat \<Rightarrow> proc \<Rightarrow> (nat \<times> proc) res" where
  "aq_rotate tmp p =
     (case p_tail p of
        None \<Rightarrow> Stop NullDeref
      | Some t \<Rightarrow>
        case fp_prev (memory_pg_arr p ! t) of
          None \<Rightarrow> Stop NullDeref
        | Some t' \<Rightarrow>
          let p = p\<lparr>p_tail := Some t'\<rparr>;
              p = upd_slot t' (\<lambda>f. f\<lparr>fp_next := None\<rparr>) p;
              p = upd_slot tmp (\<lambda>f. f\<lparr>fp_prev := None\<rparr>) p;
              p = upd_slot tmp (\<lambda>f. f\<lparr>fp_next := p_head p\<rparr>) p
          in case p_head p of
               None \<Rightarrow> Stop NullDeref
             | Some h \<Rightarrow>
               let p = upd_slot h (\<lambda>f. f\<lparr>fp_prev := Some tmp\<rparr>) p
               in Ok (t', p\<lparr>p_head := Some tmp\<rparr>))"

partial_function (option) aq_loop ::
  "uint32 \<Rightarrow> nat \<Rightarrow> nat \<Rightarrow> proc \<Rightarrow> 'a mach \<Rightarrow> (nat \<times> proc) res option" where
  "aq_loop mypgdir oldtail tmp p s =
     (case get_user_bit mypgdir (fp_va (memory_pg_arr p ! tmp)) s of
        Stop e \<Rightarrow> Some (Stop e)
      | Ok ubit \<Rightarrow>
        if ubit = 0 then
          case aq_rotate tmp p of
            Stop e \<Rightarrow> Some (Stop e)
          | Ok (tmp, p) \<Rightarrow>
              if tmp = oldtail
              then Some (Stop (Panic ''all pages in memory are with user bit off''))
              else aq_loop mypgdir oldtail tmp p s
        else Some (Ok (tmp, p)))"

definition aq_alg :: "uint32 \<Rightarrow> proc \<Rightarrow> 'a mach \<Rightarrow> (nat \<times> proc \<times> 'a mach) res" where
  "aq_alg mypgdir p s =
     (case p_tail p of
        None \<Rightarrow> Stop (Panic ''tail empty at aq alg'')
      | Some t \<Rightarrow>
        case aq_loop mypgdir t t p s of
          None \<Rightarrow> Stop Diverges
        | Some r \<Rightarrow> andthen r (\<lambda>(tmp, p). Ok (tmp, unlink_slot tmp p, s)))"

text \<open>\<open>nfu_alg\<close> and \<open>lapa_alg\<close> return the address of slot -1 when no page is in memory.\<close>

definition select_page_to_remove ::
  "policy \<Rightarrow> uint32 \<Rightarrow> proc \<Rightarrow> 'a mach \<Rightarrow> (nat \<times> proc \<times> 'a mach) res" where
  "select_page_to_remove pol mypgdir p s =
     (case pol of
        SCFIFO \<Rightarrow> scfifo_alg mypgdir p s
      | NFUA \<Rightarrow> (case nfu_alg p of None \<Rightarrow> Stop OutOfRange | Some i \<Rightarrow> Ok (i, p, s))
      | LAPA \<Rightarrow> (case lapa_alg p of None \<Rightarrow> Stop OutOfRange | Some i \<Rightarrow> Ok (i, p, s))
      | AQ \<Rightarrow> aq_alg mypgdir p s
      | NONE \<Rightarrow> Stop (Panic ''unknown paging method2''))"

section \<open>The first least element of a list\<close>

text \<open>
  \<open>nfu_alg\<close> and \<open>lapa_alg\<close> are the same search with different keys.
\<close>

fun first_min :: "('a \<Rightarrow> bool) \<Rightarrow> ('a \<Rightarrow> nat) \<Rightarrow> 'a list \<Rightarrow> nat \<Rightarrow> (nat \<times> nat) option \<Rightarrow> nat option" where
  "first_min P key [] i best = map_option fst best"
| "first_min P key (x # xs) i best =
     first_min P key xs (Suc i)
       (if P x \<and> (case best of None \<Rightarrow> True | Some (_, k) \<Rightarrow> key x < k) then Some (i, key x) else best)"

definition is_first_min :: "('a \<Rightarrow> bool) \<Rightarrow> ('a \<Rightarrow> nat) \<Rightarrow> 'a list \<Rightarrow> nat \<Rightarrow> bool" where
  "is_first_min P key xs i \<longleftrightarrow> i < length xs \<and> P (xs ! i) \<and>
     (\<forall>j < length xs. P (xs ! j) \<longrightarrow> key (xs ! i) \<le> key (xs ! j) \<and> (j < i \<longrightarrow> key (xs ! i) < key (xs ! j)))"

lemma is_first_min_snoc:
  "P x \<Longrightarrow> (\<And>j. j < length xs \<Longrightarrow> P (xs ! j) \<Longrightarrow> key x < key (xs ! j)) \<Longrightarrow>
     is_first_min P key (xs @ [x]) (length xs)"
  "is_first_min P key xs i \<Longrightarrow> (P x \<Longrightarrow> key (xs ! i) \<le> key x) \<Longrightarrow> is_first_min P key (xs @ [x]) i"
  by (auto simp: is_first_min_def nth_append less_Suc_eq intro: less_imp_le)

lemma first_min_spec:
  assumes "case best of None \<Rightarrow> \<forall>x \<in> set ys. \<not> P x
           | Some (j, k) \<Rightarrow> is_first_min P key ys j \<and> k = key (ys ! j)"
  shows "case first_min P key xs (length ys) best of None \<Rightarrow> \<forall>x \<in> set (ys @ xs). \<not> P x
         | Some j \<Rightarrow> is_first_min P key (ys @ xs) j"
  using assms
proof (induction xs arbitrary: ys best)
  case Nil
  then show ?case by (auto split: option.splits)
next
  case (Cons x xs)
  let ?best = "if P x \<and> (case best of None \<Rightarrow> True | Some (_, k) \<Rightarrow> key x < k)
    then Some (length ys, key x) else best"
  have "case ?best of None \<Rightarrow> \<forall>z \<in> set (ys @ [x]). \<not> P z
        | Some (j, k) \<Rightarrow> is_first_min P key (ys @ [x]) j \<and> k = key ((ys @ [x]) ! j)"
  proof (cases best)
    case None
    with Cons.prems show ?thesis
      by (auto intro!: is_first_min_snoc(1))
  next
    case (Some b)
    then obtain j where j: "best = Some (j, key (ys ! j))" "is_first_min P key ys j"
      using Cons.prems by (cases b) auto
    have lt: "key x < key (ys ! i)" if "key x < key (ys ! j)" "i < length ys" "P (ys ! i)" for i
      using j(2) that unfolding is_first_min_def by (meson less_le_trans)
    have "j < length ys" using j(2) by (simp add: is_first_min_def)
    then show ?thesis
      using j is_first_min_snoc[where P = P and x = x and xs = ys and key = key] lt
      by (auto simp: nth_append not_less)
  qed
  from Cons.IH[OF this] show ?case
    by (simp only: first_min.simps append_assoc append_Cons append_Nil length_append_singleton)
qed

lemma first_min_is_first_min:
  "first_min P key xs 0 None = Some i \<Longrightarrow> is_first_min P key xs i"
  "first_min P key xs 0 None = None \<Longrightarrow> x \<in> set xs \<Longrightarrow> \<not> P x"
  using first_min_spec[where best = None and ys = "[]" and P = P and key = key and xs = xs] by (auto split: option.splits)

section \<open>The selections by age\<close>

definition in_use :: "free_page \<Rightarrow> bool" where
  "in_use f \<longleftrightarrow> fp_va f \<noteq> NOVA"

definition lapa_key :: "free_page \<Rightarrow> nat" where
  "lapa_key f = count_ones (fp_age f) * 2 ^ 32 + unat (fp_age f)"

lemma lapa_key_less_iff:
  "lapa_key f < lapa_key g \<longleftrightarrow> count_ones (fp_age f) < count_ones (fp_age g) \<or>
     count_ones (fp_age f) = count_ones (fp_age g) \<and> fp_age f < fp_age g"
proof -
  have key: "a * 2 ^ 32 + unat x < b * 2 ^ 32 + unat y \<longleftrightarrow> a < b \<or> a = b \<and> x < y"
    for a b and x y :: uint32
  proof (cases a b rule: linorder_cases)
    case less
    then have "Suc a * 2 ^ 32 \<le> b * 2 ^ 32" by (intro mult_le_mono1) simp
    then show ?thesis using less unat_uint32_less[of x] by simp
  next
    case greater
    then have "Suc b * 2 ^ 32 \<le> a * 2 ^ 32" by (intro mult_le_mono1) simp
    then show ?thesis using greater unat_uint32_less[of y] by simp
  qed (simp add: word_less_nat_alt)
  show ?thesis unfolding lapa_key_def by (rule key)
qed

lemma nfu_loop_first_min:
  "nfu_loop fs i (map_option fst best) (case best of None \<Rightarrow> a | Some (_, k) \<Rightarrow> of_nat k) =
     first_min in_use (\<lambda>f. unat (fp_age f)) fs i best"
  if "\<And>j k. best = Some (j, k) \<Longrightarrow> k < 2 ^ 32"
  using that
proof (induction fs arbitrary: i best a)
  case (Cons f fs)
  have "fp_age f < of_nat k \<longleftrightarrow> unat (fp_age f) < k" if "k < 2 ^ 32" for k
    using that by (simp add: word_less_nat_alt unat_of_nat)
  then show ?case
    using Cons.prems Cons.IH[of "Some (i, unat (fp_age f))" "Suc i" a] Cons.IH[of best "Suc i" a]
      unat_uint32_less[of "fp_age f"]
    by (cases best) (auto simp: in_use_def[of f])
qed auto

lemma lapa_loop_first_min:
  "lapa_loop fs i (map_option fst best)
     (case best of None \<Rightarrow> a | Some (j, k) \<Rightarrow> fp_age (ys ! j))
     (case best of None \<Rightarrow> n | Some (j, k) \<Rightarrow> count_ones (fp_age (ys ! j))) =
   first_min in_use lapa_key fs i best"
  if "\<And>j k. best = Some (j, k) \<Longrightarrow> j < i \<and> k = lapa_key (ys ! j)"
    "i + length fs = length ys" "\<And>j. j < length fs \<Longrightarrow> fs ! j = ys ! (i + j)"
  using that
proof (induction fs arbitrary: i best a n)
  case (Cons f fs)
  have f: "f = ys ! i" using Cons.prems(3)[of 0] by simp
  have fs: "fs ! j = ys ! (Suc i + j)" if "j < length fs" for j
    using Cons.prems(3)[of "Suc j"] that by simp
  have new: "lapa_loop fs (Suc i) (Some i) (fp_age f) (count_ones (fp_age f)) =
      first_min in_use lapa_key fs (Suc i) (Some (i, lapa_key f))"
    using Cons.IH[of "Some (i, lapa_key f)" "Suc i"] Cons.prems(2) fs by (simp add: f)
  have old: "lapa_loop fs (Suc i) (map_option fst best)
     (case best of None \<Rightarrow> a | Some (j, k) \<Rightarrow> fp_age (ys ! j))
     (case best of None \<Rightarrow> n | Some (j, k) \<Rightarrow> count_ones (fp_age (ys ! j))) =
   first_min in_use lapa_key fs (Suc i) best"
    using Cons.IH[of best "Suc i" a n] Cons.prems(1,2) fs less_SucI by force
  show ?case
    using new old Cons.prems(1)
    by (cases best) (auto simp: in_use_def[of f] lapa_key_less_iff Let_def)
qed auto

lemma nfu_alg_first_min: "nfu_alg p = first_min in_use (\<lambda>f. unat (fp_age f)) (memory_pg_arr p) 0 None"
  using nfu_loop_first_min[where best = None and fs = "memory_pg_arr p" and i = 0 and a = "- 1"]
  by (simp add: nfu_alg_def)

lemma lapa_alg_first_min: "lapa_alg p = first_min in_use lapa_key (memory_pg_arr p) 0 None"
  using lapa_loop_first_min[where best = None and fs = "memory_pg_arr p" and ys = "memory_pg_arr p"
      and i = 0 and a = "- 1" and n = 0]
  by (simp add: lapa_alg_def)

lemma foldl_count: "foldl (\<lambda>res i. if P i then res + 1 else res) k xs = k + length (filter P xs)"
  by (induction xs arbitrary: k) auto

lemma count_ones_card: "count_ones x = card {i. bit x i}"
proof -
  have "push_bit i 1 AND x \<noteq> 0 \<longleftrightarrow> bit x i" if "i < 32" for i
  proof
    assume "push_bit i 1 AND x \<noteq> 0"
    then obtain n where "bit (push_bit i 1 AND x) n" by (auto simp: bit_eq_iff)
    then show "bit x i" by (auto simp: bit_simps)
  next
    assume "bit x i"
    then have "bit (push_bit i 1 AND x) i" using that by (simp add: bit_simps)
    then show "push_bit i 1 AND x \<noteq> 0" by auto
  qed
  then have "filter (\<lambda>i. push_bit i 1 AND x \<noteq> 0) [0..<32] = filter (bit x) [0..<32]"
    by (intro filter_cong) auto
  then have "count_ones x = length (filter (bit x) [0..<32])"
    by (simp add: count_ones_def foldl_count)
  also have "\<dots> = card (set (filter (bit x) [0..<32]))"
    by (rule distinct_card[symmetric]) simp
  also have "set (filter (bit x) [0..<32]) = {i. bit x i}"
    using bit_imp_le_length[of x] by auto
  finally show ?thesis .
qed

section \<open>The queue as a list of slots\<close>

fun chain :: "(nat \<Rightarrow> nat option) \<Rightarrow> nat list \<Rightarrow> bool" where
  "chain nx [] \<longleftrightarrow> True"
| "chain nx [x] \<longleftrightarrow> nx x = None"
| "chain nx (x # y # xs) \<longleftrightarrow> nx x = Some y \<and> chain nx (y # xs)"

lemma chain_cong: "(\<And>x. x \<in> set xs \<Longrightarrow> nx x = nx' x) \<Longrightarrow> chain nx xs = chain nx' xs"
  by (induction xs rule: induct_list012) auto

lemma chain_tl: "chain nx (x # xs) \<Longrightarrow> chain nx xs"
  by (cases xs) auto

lemma chain_last: "chain nx xs \<Longrightarrow> xs \<noteq> [] \<Longrightarrow> nx (last xs) = None"
  by (induction xs rule: induct_list012) auto

lemma chain_snoc:
  assumes "chain nx xs" "xs \<noteq> []" "distinct (xs @ [x])"
  shows "chain (nx(last xs := Some x, x := None)) (xs @ [x])"
  using assms
proof (induction xs rule: induct_list012)
  case (3 y z zs)
  have "chain (nx(last (z # zs) := Some x, x := None)) ((z # zs) @ [x])"
    by (rule 3(2)) (use 3(3,5) in auto)
  moreover have "last (y # z # zs) = last (z # zs)" by simp
  ultimately have "chain (nx(last (y # z # zs) := Some x, x := None)) (z # zs @ [x])"
    by (simp only: append_Cons)
  moreover have "(nx(last (y # z # zs) := Some x, x := None)) y = Some z"
    using 3(3,5) by auto
  ultimately show ?case by (simp only: append_Cons chain.simps(3) simp_thms)
qed auto

text \<open>Everything of a process but the links of its page queue is the same.\<close>

definition same_pages :: "proc \<Rightarrow> proc \<Rightarrow> bool" where
  "same_pages p p' \<longleftrightarrow>
     p' = p\<lparr>memory_pg_arr := memory_pg_arr p', p_head := p_head p', p_tail := p_tail p'\<rparr> \<and>
     map fp_va (memory_pg_arr p') = map fp_va (memory_pg_arr p) \<and>
     map fp_age (memory_pg_arr p') = map fp_age (memory_pg_arr p)"

lemma same_pages_refl [simp]: "same_pages p p"
  by (simp add: same_pages_def)

lemma same_pages_trans:
  assumes "same_pages p p'" "same_pages p' p''"
  shows "same_pages p p''"
proof -
  obtain a h t where p': "p' = p\<lparr>memory_pg_arr := a, p_head := h, p_tail := t\<rparr>"
    using assms(1) unfolding same_pages_def by blast
  have "p'' = p'\<lparr>memory_pg_arr := memory_pg_arr p'', p_head := p_head p'', p_tail := p_tail p''\<rparr>"
    using assms(2) unfolding same_pages_def by (rule conjunct1)
  also have "\<dots> = p\<lparr>memory_pg_arr := memory_pg_arr p'', p_head := p_head p'', p_tail := p_tail p''\<rparr>"
    unfolding p' by simp
  finally show ?thesis using assms unfolding same_pages_def by presburger
qed

lemma same_pages_slot:
  assumes "same_pages p p'"
  shows "length (memory_pg_arr p') = length (memory_pg_arr p)"
    "i < length (memory_pg_arr p) \<Longrightarrow> slot_va p' i = slot_va p i"
    "used p' i = used p i"
proof -
  have m: "map fp_va (memory_pg_arr p') = map fp_va (memory_pg_arr p)"
    using assms by (simp add: same_pages_def)
  show l: "length (memory_pg_arr p') = length (memory_pg_arr p)" using m by (rule map_eq_imp_length_eq)
  show va: "slot_va p' i = slot_va p i" if "i < length (memory_pg_arr p)" for i
    using m that l by (metis nth_map)
  show "used p' i = used p i" using va[of i] l by (auto simp: used_def)
qed

abbreviation next_of :: "proc \<Rightarrow> nat \<Rightarrow> nat option" where
  "next_of p i \<equiv> fp_next (memory_pg_arr p ! i)"

abbreviation prev_of :: "proc \<Rightarrow> nat \<Rightarrow> nat option" where
  "prev_of p i \<equiv> fp_prev (memory_pg_arr p ! i)"

text \<open>
  The slots of \<open>xs\<close>, oldest first, are the queue of the SCFIFO policy.  Only the \<open>next\<close> links
  and the head's \<open>prev\<close> link are constrained: \<open>update_memoryscfifo\<close> leaves the \<open>prev\<close> link
  of a page it appends alone.
\<close>

definition fifo :: "proc \<Rightarrow> nat list \<Rightarrow> bool" where
  "fifo p xs \<longleftrightarrow> distinct xs \<and> (\<forall>i \<in> set xs. i < length (memory_pg_arr p)) \<and>
     chain (next_of p) xs \<and>
     p_head p = (if xs = [] then None else Some (hd xs)) \<and>
     p_tail p = (if xs = [] then None else Some (last xs)) \<and>
     (xs \<noteq> [] \<longrightarrow> prev_of p (hd xs) = None)"

lemma scfifo_rotate_fifo:
  assumes q: "fifo p (h # h' # xs)"
  obtains p' where "scfifo_rotate h p = Ok (h', p')" "fifo p' (h' # xs @ [h])" "same_pages p p'"
proof -
  let ?t = "last (h' # xs)"
  define p' where "p' = (let p = p\<lparr>p_head := Some h'\<rparr>;
              p = upd_slot h' (\<lambda>f. f\<lparr>fp_prev := None\<rparr>) p;
              p = upd_slot h (\<lambda>f. f\<lparr>fp_next := None\<rparr>) p;
              p = upd_slot h (\<lambda>f. f\<lparr>fp_prev := p_tail p\<rparr>) p;
              p = upd_slot ?t (\<lambda>f. f\<lparr>fp_next := Some h\<rparr>) p
          in p\<lparr>p_tail := Some h\<rparr>)"
  have d: "distinct (h # h' # xs)" and lt: "\<And>i. i \<in> set (h # h' # xs) \<Longrightarrow> i < length (memory_pg_arr p)"
    and c: "chain (next_of p) (h # h' # xs)" and ht: "p_head p = Some h" "p_tail p = Some ?t"
    using q by (auto simp: fifo_def)
  have t: "?t \<in> set (h' # xs)" by (rule last_in_set) simp
  then have th: "?t \<noteq> h" using d by auto
  have "scfifo_rotate h p = Ok (h', p')"
    using c ht by (simp add: scfifo_rotate_def p'_def Let_def)
  moreover have "fifo p' (h' # xs @ [h])"
  proof -
    have "chain ((next_of p)(?t := Some h, h := None)) ((h' # xs) @ [h])"
      using chain_snoc[OF chain_tl[OF c], of h] d by auto
    moreover have "next_of p' i = ((next_of p)(?t := Some h, h := None)) i"
      if "i \<in> set (h # h' # xs)" for i
      using lt[OF that] lt[of ?t] lt[of h] lt[of h'] t th d by (auto simp: p'_def Let_def nth_upd_at)
    ultimately have "chain (next_of p') (h' # xs @ [h])"
      by (subst chain_cong[where nx' = "(next_of p)(?t := Some h, h := None)"]) auto
    moreover have "prev_of p' h' = None"
      using lt[of h'] lt[of h] lt[of ?t] t d by (auto simp: p'_def Let_def nth_upd_at)
    ultimately show ?thesis
      using d lt by (auto simp: fifo_def p'_def Let_def)
  qed
  moreover have "same_pages p p'"
    by (auto simp: same_pages_def p'_def Let_def map_upd_at_same)
  ultimately show ?thesis by (rule that)
qed

lemma unlink_slot_fifo:
  assumes q: "fifo p (v # xs)"
  shows "fifo (unlink_slot v p) xs" "same_pages p (unlink_slot v p)"
proof -
  have pv: "prev_of p v = None" and d: "distinct (v # xs)" and c: "chain (next_of p) (v # xs)"
    and lt: "\<And>i. i \<in> set (v # xs) \<Longrightarrow> i < length (memory_pg_arr p)"
    and ht: "p_head p = Some v" "p_tail p = Some (last (v # xs))"
    using q by (auto simp: fifo_def)
  show "same_pages p (unlink_slot v p)"
    using pv
    by (auto simp: unlink_slot_def Let_def same_pages_def map_upd_at_same split: option.splits)
  show "fifo (unlink_slot v p) xs"
  proof (cases xs)
    case Nil
    then show ?thesis using pv c ht by (simp add: unlink_slot_def Let_def fifo_def)
  next
    case (Cons w ws)
    then have nv: "next_of p v = Some w" using c by simp
    have vw: "v \<noteq> w" "last xs \<noteq> v" using d Cons by auto
    have u: "unlink_slot v p = (upd_slot w (\<lambda>g. g\<lparr>fp_prev := None\<rparr>) p)\<lparr>p_head := Some w\<rparr>"
      using pv nv vw ht lt[of w] Cons by (auto simp: unlink_slot_def Let_def nth_upd_at)
    have "next_of (unlink_slot v p) i = next_of p i" if "i \<in> set xs" for i
      using lt[of i] lt[of w] that Cons by (auto simp: u nth_upd_at)
    then have "chain (next_of (unlink_slot v p)) xs"
      using chain_tl[OF c] chain_cong[of xs "next_of (unlink_slot v p)" "next_of p"] by auto
    then show ?thesis
      using d lt ht Cons by (auto simp: fifo_def u)
  qed
qed

section \<open>Second chance\<close>

definition clear_A :: "uint32 set \<Rightarrow> (uint32 \<Rightarrow> uint32) \<Rightarrow> uint32 \<Rightarrow> uint32" where
  "clear_A pages f v = (if PTE_ADDR v \<in> pages then f v AND NOT PTE_A else f v)"

lemma clear_A_empty [simp]: "clear_A {} f = f"
  by (simp add: clear_A_def fun_eq_iff)

lemma clear_A_clear_A: "clear_A P (clear_A Q f) = clear_A (P \<union> Q) f"
  by (simp add: clear_A_def fun_eq_iff and.assoc)

lemma present_clear_A [simp]: "present (clear_A P f v) = present (f v)"
  by (simp add: clear_A_def present_iff_bit bit_entry)

lemma PTE_ADDR_clear_A [simp]: "PTE_ADDR (clear_A P f v) = PTE_ADDR (f v)"
  by (rule bit_word_eqI) (auto simp: clear_A_def bit_entry)

lemma updateAccessBit_Ok:
  assumes ok: "vm_ok kend pgdir ps s" and pr: "present (pte (mem s) pgdir va)"
  obtains s' where "updateAccessBit pgdir va s =
      Ok (if pte (mem s) pgdir va AND PTE_A = 0 then 0 else 1, s')"
    "vm_grow kend pgdir ps s ps s'" "pte (mem s') pgdir = clear_A {PTE_ADDR va} (pte (mem s) pgdir)"
proof -
  let ?e = "pte (mem s) pgdir va AND NOT PTE_A"
  let ?x = "entry (ptab (mem s) pgdir va) (PTX va)"
  note pde = pte_present_pde[OF pr]
  have nz: "pte (mem s) pgdir va \<noteq> 0" using pr by auto
  have u: "updateAccessBit pgdir va s =
      Ok (if pte (mem s) pgdir va AND PTE_A = 0 then 0 else 1, s\<lparr>mem := st32 (mem s) ?x ?e\<rparr>)"
    using walkpgdir_entry[OF vm_ok_wf[OF ok] pde] nz by (simp add: updateAccessBit_def Let_def)
  have "(\<lambda>v. if PTE_ADDR v = PTE_ADDR va then ?e else pte (mem s) pgdir v) =
      clear_A {PTE_ADDR va} (pte (mem s) pgdir)"
    by (rule ext) (metis clear_A_def pte_page singleton_iff)
  then show ?thesis
    using that[OF u vm_grow_store(1)[OF ok pde]] vm_grow_store(2)[OF ok pde, of ?e] by simp
qed

text \<open>The pages of a list of slots, and whether the page of a slot was accessed.\<close>

definition pages_of :: "proc \<Rightarrow> nat list \<Rightarrow> uint32 set" where
  "pages_of p xs = (\<lambda>i. PTE_ADDR (slot_va p i)) ` set xs"

definition accessed :: "(uint32 \<Rightarrow> uint32) \<Rightarrow> proc \<Rightarrow> nat \<Rightarrow> bool" where
  "accessed f p i \<longleftrightarrow> f (slot_va p i) AND PTE_A \<noteq> 0"

text \<open>The pages of the slots are present and no two slots hold the same page.\<close>

definition resident :: "(uint32 \<Rightarrow> uint32) \<Rightarrow> proc \<Rightarrow> nat list \<Rightarrow> bool" where
  "resident f p xs \<longleftrightarrow> (\<forall>i \<in> set xs. present (f (slot_va p i))) \<and>
     inj_on (\<lambda>i. PTE_ADDR (slot_va p i)) (set xs)"

text \<open>
  What the second chance does to a queue: the first page that was not accessed leaves it, and the
  pages before it go to the end; when all were accessed, the head leaves.
\<close>

definition second_chance :: "(nat \<Rightarrow> bool) \<Rightarrow> nat list \<Rightarrow> nat \<times> nat list" where
  "second_chance acc xs =
     (case find_idx (\<lambda>i. \<not> acc i) xs of
        Some k \<Rightarrow> (xs ! k, drop (Suc k) xs @ take k xs)
      | None \<Rightarrow> (hd xs, tl xs))"

definition examined :: "(nat \<Rightarrow> bool) \<Rightarrow> nat list \<Rightarrow> nat list" where
  "examined acc xs = (case find_idx (\<lambda>i. \<not> acc i) xs of Some k \<Rightarrow> take (Suc k) xs | None \<Rightarrow> xs)"

lemma examined_Cons:
  "examined acc (x # xs) = (if acc x then x # examined acc xs else [x])"
  by (auto simp: examined_def split: option.splits)

lemma find_idx_cong:
  "(\<And>x. x \<in> set xs \<Longrightarrow> P x = Q x) \<Longrightarrow> find_idx P xs = find_idx Q xs"
  by (induction xs) auto

lemma examined_cong:
  "(\<And>x. x \<in> set xs \<Longrightarrow> P x = Q x) \<Longrightarrow> examined P xs = examined Q xs"
  using find_idx_cong[of xs "\<lambda>i. \<not> P i" "\<lambda>i. \<not> Q i"] by (simp add: examined_def)

lemma set_examined: "set (examined acc xs) \<subseteq> set xs"
  by (auto simp: examined_def split: option.splits dest: in_set_takeD)

lemma same_pages_resident:
  assumes "same_pages p p'" "\<forall>i \<in> set xs. i < length (memory_pg_arr p)"
  shows "resident f p' xs = resident f p xs" "pages_of p' xs = pages_of p xs"
    "x \<in> set xs \<Longrightarrow> accessed f p' x = accessed f p x"
  using same_pages_slot(2)[OF assms(1)] assms(2)
  by (auto simp: resident_def pages_of_def accessed_def cong: inj_on_cong image_cong)

lemma resident_set: "set xs = set ys \<Longrightarrow> resident f p xs = resident f p ys"
  by (simp add: resident_def)

text \<open>The access bits of the other slots after one page was examined.\<close>

lemma accessed_clear_A:
  assumes "resident f p (h # xs)" "h \<notin> set xs" "i \<in> set xs"
  shows "accessed (clear_A {PTE_ADDR (slot_va p h)} f) p i = accessed f p i"
proof -
  have "PTE_ADDR (slot_va p i) \<noteq> PTE_ADDR (slot_va p h)"
    using assms unfolding resident_def inj_on_def by auto
  then show ?thesis by (simp add: accessed_def clear_A_def)
qed

lemma resident_clear_A [simp]: "resident (clear_A P f) p xs = resident f p xs"
  by (simp add: resident_def)

lemma scfifo_loop_spec:
  assumes "vm_ok kend pg ps s" "fifo p (ys @ zs)" "ys \<noteq> []" "2 \<le> length (ys @ zs)"
    and "oldhead = (if zs = [] then hd ys else hd zs)"
    and "resident (pte (mem s) pg) p (ys @ zs)"
  shows "\<exists>v xs p' s'. scfifo_loop pg (Some oldhead) (hd ys) p s = Some (Ok (v, p', s')) \<and>
    fifo p' (v # xs) \<and> same_pages p p' \<and> vm_grow kend pg ps s ps s' \<and>
    pte (mem s') pg =
      clear_A (pages_of p (examined (accessed (pte (mem s) pg) p) ys)) (pte (mem s) pg) \<and>
    (case find_idx (\<lambda>i. \<not> accessed (pte (mem s) pg) p i) ys of
       Some k \<Rightarrow> v = ys ! k \<and> xs = drop (Suc k) ys @ zs @ take k ys
     | None \<Rightarrow> v # xs = zs @ ys)"
  using assms
proof (induction ys arbitrary: zs p s)
  case (Cons h ys)
  let ?f = "pte (mem s) pg"
  have hd: "p_head p = Some h" using Cons.prems(2) by (simp add: fifo_def)
  have pr: "present (?f (slot_va p h))" using Cons.prems(6) by (simp add: resident_def)
  obtain s1 where s1: "updateAccessBit pg (slot_va p h) s =
      Ok (if ?f (slot_va p h) AND PTE_A = 0 then 0 else 1, s1)" "vm_grow kend pg ps s ps s1"
    "pte (mem s1) pg = clear_A {PTE_ADDR (slot_va p h)} ?f"
    by (rule updateAccessBit_Ok[OF Cons.prems(1) pr])
  show ?case
  proof (cases "accessed ?f p h")
    case False
    have "p_head p \<noteq> p_tail p"
      using Cons.prems(2,4) by (cases "ys @ zs") (auto simp: fifo_def)
    then have "scfifo_loop pg (Some oldhead) h p s = Some (Ok (h, p, s1))"
      using s1(1) hd False by (simp add: scfifo_loop.simps accessed_def)
    with False s1 Cons.prems(2) show ?thesis
      by (auto simp: examined_Cons pages_of_def)
  next
    case True
    obtain h' xs where xs: "ys @ zs = h' # xs"
      using Cons.prems(4) by (cases "ys @ zs") auto
    then have q: "fifo p (h # h' # xs)" using Cons.prems(2) by simp
    then have d: "distinct (h # ys @ zs)" and lt: "\<forall>i \<in> set (h # ys @ zs). i < length (memory_pg_arr p)"
      using xs by (simp_all add: fifo_def)
    obtain p1 where p1: "scfifo_rotate h p = Ok (h', p1)" "fifo p1 (h' # xs @ [h])" "same_pages p p1"
      by (rule scfifo_rotate_fifo[OF q])
    have hd1: "p_head p1 = Some h'" using p1(2) by (simp add: fifo_def)
    have loop: "scfifo_loop pg (Some oldhead) h p s =
        (if h' \<noteq> oldhead then scfifo_loop pg (Some oldhead) h' p1 s1 else Some (Ok (h', p1, s1)))"
      using s1(1) hd hd1 True p1(1) by (subst scfifo_loop.simps) (simp add: accessed_def)
    show ?thesis
    proof (cases ys)
      case Nil
      then have "h' = oldhead" using Cons.prems(5) xs by simp
      then show ?thesis
        using loop Nil xs True p1 s1 by (auto simp: examined_Cons examined_def pages_of_def)
    next
      case ys: (Cons y ys')
      then have ne: "h' \<noteq> oldhead" and h': "h' = hd ys" using Cons.prems(5) xs d by (auto split: if_splits)
      let ?zs = "zs @ [h]"
      have acc: "accessed (pte (mem s1) pg) p1 i = accessed ?f p i" if "i \<in> set ys" for i
        using accessed_clear_A[of ?f p h "ys @ zs" i] same_pages_resident(3)[OF p1(3) lt]
          Cons.prems(6) d that by (auto simp: s1(3))
      have "resident ?f p1 (h # ys @ zs)"
        using same_pages_resident(1)[OF p1(3) lt, of ?f] Cons.prems(6) by simp
      then have res: "resident (pte (mem s1) pg) p1 (ys @ ?zs)"
        using resident_set[of "h # ys @ zs" "ys @ ?zs"] by (simp add: s1(3))
      have "fifo p1 (ys @ ?zs)" "ys \<noteq> []" "2 \<le> length (ys @ ?zs)"
        "oldhead = (if ?zs = [] then hd ys else hd ?zs)"
        using Cons.prems(4,5) p1(2) ys xs by auto
      note IH = Cons.IH[OF vm_growD(2)[OF s1(2)] this res, folded h']
      from IH obtain v xs' p' s' where ih:
        "scfifo_loop pg (Some oldhead) h' p1 s1 = Some (Ok (v, p', s'))" "fifo p' (v # xs')"
        "same_pages p1 p'" "vm_grow kend pg ps s1 ps s'"
        "pte (mem s') pg = clear_A (pages_of p1 (examined (accessed (pte (mem s1) pg) p1) ys))
           (pte (mem s1) pg)"
        "case find_idx (\<lambda>i. \<not> accessed (pte (mem s1) pg) p1 i) ys of
           Some k \<Rightarrow> v = ys ! k \<and> xs' = drop (Suc k) ys @ ?zs @ take k ys
         | None \<Rightarrow> v # xs' = ?zs @ ys"
        by (elim exE conjE)
      have "pages_of p1 (examined (accessed (pte (mem s1) pg) p1) ys) =
          pages_of p (examined (accessed ?f p) ys)"
        using examined_cong[of ys, OF acc] same_pages_resident(2)[OF p1(3)] lt
          set_examined[of "accessed ?f p" ys] by (simp add: subset_iff)
      then have "pte (mem s') pg = clear_A (pages_of p (examined (accessed ?f p) (h # ys))) ?f"
        using ih(5) True by (simp add: s1(3) clear_A_clear_A examined_Cons pages_of_def)
      moreover have "find_idx (\<lambda>i. \<not> accessed (pte (mem s1) pg) p1 i) ys =
          find_idx (\<lambda>i. \<not> accessed ?f p i) ys"
        by (rule find_idx_cong) (simp add: acc)
      ultimately show ?thesis
        using ih loop ne True same_pages_trans[OF p1(3) ih(3)] vm_grow_trans[OF s1(2) ih(4)]
        by (intro exI[of _ v] exI[of _ xs'] exI[of _ p'] exI[of _ s']) (auto split: option.splits)
    qed
  qed
qed simp

lemma scfifo_alg_fifo:
  assumes ok: "vm_ok kend pg ps s" and q: "fifo p xs" "2 \<le> length xs"
    and res: "resident (pte (mem s) pg) p xs"
  obtains p' s' where "scfifo_alg pg p s = Ok (fst (second_chance (accessed (pte (mem s) pg) p) xs), p', s')"
    "fifo p' (snd (second_chance (accessed (pte (mem s) pg) p) xs))" "same_pages p p'"
    "vm_grow kend pg ps s ps s'"
    "pte (mem s') pg =
      clear_A (pages_of p (examined (accessed (pte (mem s) pg) p) xs)) (pte (mem s) pg)"
proof -
  let ?acc = "accessed (pte (mem s) pg) p"
  have ne: "xs \<noteq> []" using q(2) by auto
  then have hd: "p_head p = Some (hd xs)" using q(1) by (simp add: fifo_def)
  obtain v ys p1 s1 where l: "scfifo_loop pg (Some (hd xs)) (hd xs) p s = Some (Ok (v, p1, s1))"
    "fifo p1 (v # ys)" "same_pages p p1" "vm_grow kend pg ps s ps s1"
    "pte (mem s1) pg = clear_A (pages_of p (examined ?acc xs)) (pte (mem s) pg)"
    "case find_idx (\<lambda>i. \<not> ?acc i) xs of Some k \<Rightarrow> v = xs ! k \<and> ys = drop (Suc k) xs @ take k xs
     | None \<Rightarrow> v # ys = xs"
    using scfifo_loop_spec[OF ok, of p xs "[]" "hd xs", unfolded append_Nil append_Nil2] q res ne
    by auto
  have "second_chance ?acc xs = (v, ys)"
    using l(6) by (auto simp: second_chance_def split: option.splits)
  moreover have "scfifo_alg pg p s = Ok (v, unlink_slot v p1, s1)"
    by (simp add: scfifo_alg_def hd l(1))
  ultimately show ?thesis
    using unlink_slot_fifo[OF l(2)] same_pages_trans[OF l(3)] l(4,5)
    by (intro that[of "unlink_slot v p1" s1]) auto
qed

section \<open>The advancing queue\<close>

text \<open>
  The slots of \<open>xs\<close>, oldest first, are the queue of the AQ policy, which is linked through the
  \<open>prev\<close> fields from the tail on.  The \<open>next\<close> links of the other pages are not constrained:
  \<open>update_memoryaq\<close> sets the \<open>next\<close> link of a new head to null.
\<close>

definition aqueue :: "proc \<Rightarrow> nat list \<Rightarrow> bool" where
  "aqueue p xs \<longleftrightarrow> distinct xs \<and> (\<forall>i \<in> set xs. i < length (memory_pg_arr p)) \<and>
     chain (prev_of p) xs \<and>
     p_tail p = (if xs = [] then None else Some (hd xs)) \<and>
     p_head p = (if xs = [] then None else Some (last xs)) \<and>
     (xs \<noteq> [] \<longrightarrow> next_of p (hd xs) = None)"

lemma aq_rotate_aqueue:
  assumes q: "aqueue p (t # t' # xs)"
  obtains p' where "aq_rotate t p = Ok (t', p')" "aqueue p' (t' # xs @ [t])" "same_pages p p'"
proof -
  let ?h = "last (t' # xs)"
  define p' where "p' = (let p = p\<lparr>p_tail := Some t'\<rparr>;
              p = upd_slot t' (\<lambda>f. f\<lparr>fp_next := None\<rparr>) p;
              p = upd_slot t (\<lambda>f. f\<lparr>fp_prev := None\<rparr>) p;
              p = upd_slot t (\<lambda>f. f\<lparr>fp_next := p_head p\<rparr>) p;
              p = upd_slot ?h (\<lambda>f. f\<lparr>fp_prev := Some t\<rparr>) p
          in p\<lparr>p_head := Some t\<rparr>)"
  have d: "distinct (t # t' # xs)" and lt: "\<And>i. i \<in> set (t # t' # xs) \<Longrightarrow> i < length (memory_pg_arr p)"
    and c: "chain (prev_of p) (t # t' # xs)" and ht: "p_tail p = Some t" "p_head p = Some ?h"
    using q by (auto simp: aqueue_def)
  have h: "?h \<in> set (t' # xs)" by (rule last_in_set) simp
  then have ht': "?h \<noteq> t" using d by auto
  have "aq_rotate t p = Ok (t', p')"
    using c ht by (simp add: aq_rotate_def p'_def Let_def)
  moreover have "aqueue p' (t' # xs @ [t])"
  proof -
    have "chain ((prev_of p)(?h := Some t, t := None)) ((t' # xs) @ [t])"
      using chain_snoc[OF chain_tl[OF c], of t] d by auto
    moreover have "prev_of p' i = ((prev_of p)(?h := Some t, t := None)) i"
      if "i \<in> set (t # t' # xs)" for i
      using lt[OF that] lt[of ?h] lt[of t] lt[of t'] h ht' d by (auto simp: p'_def Let_def nth_upd_at)
    ultimately have "chain (prev_of p') (t' # xs @ [t])"
      by (subst chain_cong[where nx' = "(prev_of p)(?h := Some t, t := None)"]) auto
    moreover have "next_of p' t' = None"
      using lt[of t'] lt[of t] lt[of ?h] h d by (auto simp: p'_def Let_def nth_upd_at)
    ultimately show ?thesis
      using d lt by (auto simp: aqueue_def p'_def Let_def)
  qed
  moreover have "same_pages p p'"
    by (auto simp: same_pages_def p'_def Let_def map_upd_at_same)
  ultimately show ?thesis by (rule that)
qed

lemma unlink_slot_aqueue:
  assumes q: "aqueue p (v # xs)"
  shows "aqueue (unlink_slot v p) xs" "same_pages p (unlink_slot v p)"
proof -
  have nv: "next_of p v = None" and d: "distinct (v # xs)" and c: "chain (prev_of p) (v # xs)"
    and lt: "\<And>i. i \<in> set (v # xs) \<Longrightarrow> i < length (memory_pg_arr p)"
    and ht: "p_tail p = Some v" "p_head p = Some (last (v # xs))"
    using q by (auto simp: aqueue_def)
  have same: "same_pages p (unlink_slot v p) \<and> aqueue (unlink_slot v p) xs"
  proof (cases xs)
    case Nil
    then show ?thesis using nv c ht
      by (simp add: unlink_slot_def Let_def aqueue_def same_pages_def)
  next
    case (Cons w ws)
    then have pv: "prev_of p v = Some w" using c by simp
    have vw: "v \<noteq> w" "last xs \<noteq> v" using d Cons by auto
    have u: "unlink_slot v p = (upd_slot w (\<lambda>g. g\<lparr>fp_next := None\<rparr>) p)\<lparr>p_tail := Some w\<rparr>"
      using pv nv vw ht lt[of w] lt[of v] Cons by (auto simp: unlink_slot_def Let_def nth_upd_at)
    have "prev_of (unlink_slot v p) i = prev_of p i" if "i \<in> set xs" for i
      using lt[of i] lt[of w] that Cons by (auto simp: u nth_upd_at)
    then have "chain (prev_of (unlink_slot v p)) xs"
      using chain_tl[OF c] chain_cong[of xs "prev_of (unlink_slot v p)" "prev_of p"] by auto
    then show ?thesis
      using d lt ht Cons by (auto simp: aqueue_def u same_pages_def map_upd_at_same)
  qed
  then show "aqueue (unlink_slot v p) xs" "same_pages p (unlink_slot v p)" by auto
qed

definition user_slot :: "(uint32 \<Rightarrow> uint32) \<Rightarrow> proc \<Rightarrow> nat \<Rightarrow> bool" where
  "user_slot f p i \<longleftrightarrow> f (slot_va p i) AND PTE_U \<noteq> 0"

lemma get_user_bit_Ok:
  assumes "wf_pgdir (mem s) pgdir" "present (pte (mem s) pgdir va)"
  shows "get_user_bit pgdir va s = Ok (if pte (mem s) pgdir va AND PTE_U = 0 then 0 else 1)"
proof -
  have "pte (mem s) pgdir va \<noteq> 0" using assms(2) by auto
  then show ?thesis
    using walkpgdir_entry[OF assms(1) pte_present_pde[OF assms(2)]]
    by (simp add: get_user_bit_def Let_def)
qed

lemma aq_loop_spec:
  assumes "wf_pgdir (mem s) pg" "aqueue p (ys @ zs)"
    and "oldtail = (if zs = [] then hd ys else hd zs)"
    and "\<forall>i \<in> set ys. present (pte (mem s) pg (slot_va p i))"
    and "find_idx (user_slot (pte (mem s) pg) p) ys = Some k"
  shows "\<exists>p'. aq_loop pg oldtail (hd ys) p s = Some (Ok (ys ! k, p')) \<and> same_pages p p' \<and>
    aqueue p' (ys ! k # drop (Suc k) ys @ zs @ take k ys)"
  using assms
proof (induction ys arbitrary: zs p k)
  case (Cons t ys)
  let ?f = "pte (mem s) pg"
  have gb: "get_user_bit pg (slot_va p t) s = Ok (if user_slot ?f p t then 1 else 0)"
    using get_user_bit_Ok[OF Cons.prems(1), of "slot_va p t"] Cons.prems(4) by (simp add: user_slot_def)
  show ?case
  proof (cases "user_slot ?f p t")
    case True
    with Cons.prems show ?thesis by (subst aq_loop.simps) (auto simp: gb)
  next
    case False
    then obtain j where j: "k = Suc j" "find_idx (user_slot ?f p) ys = Some j"
      using Cons.prems(5) by auto
    then obtain t' xs where ys: "ys = t' # xs" by (cases ys) auto
    have q: "aqueue p (t # t' # xs @ zs)" using Cons.prems(2) by (simp add: ys)
    then have d: "distinct (t # ys @ zs)" and lt: "\<forall>i \<in> set ys. i < length (memory_pg_arr p)"
      by (auto simp: aqueue_def ys)
    obtain p1 where p1: "aq_rotate t p = Ok (t', p1)" "aqueue p1 (t' # (xs @ zs) @ [t])" "same_pages p p1"
      by (rule aq_rotate_aqueue[OF q])
    have "t' \<noteq> oldtail" using Cons.prems(3) d ys by (auto split: if_splits)
    then have l: "aq_loop pg oldtail t p s = aq_loop pg oldtail t' p1 s"
      using False by (subst aq_loop.simps) (simp add: gb p1(1))
    have va: "slot_va p1 i = slot_va p i" if "i \<in> set ys" for i
      using same_pages_slot(2)[OF p1(3)] lt that by blast
    then have "find_idx (user_slot ?f p1) ys = Some j"
      using j(2) find_idx_cong[of ys "user_slot ?f p1" "user_slot ?f p"] by (simp add: user_slot_def)
    moreover have "aqueue p1 (ys @ zs @ [t])" "oldtail = (if zs @ [t] = [] then hd ys else hd (zs @ [t]))"
      using p1(2) ys Cons.prems(3) by auto
    ultimately obtain p' where p': "aq_loop pg oldtail (hd ys) p1 s = Some (Ok (ys ! j, p'))"
      "same_pages p1 p'" "aqueue p' (ys ! j # drop (Suc j) ys @ (zs @ [t]) @ take j ys)"
      using Cons.IH[OF Cons.prems(1), of p1 "zs @ [t]" j] Cons.prems(4) va by auto
    then show ?thesis
      using l j(1) ys same_pages_trans[OF p1(3) p'(2)] by auto
  qed
qed simp

lemma aq_alg_aqueue:
  assumes wf: "wf_pgdir (mem s) pg" and q: "aqueue p xs"
    and res: "resident (pte (mem s) pg) p xs"
    and k: "find_idx (user_slot (pte (mem s) pg) p) xs = Some k"
  obtains p' where "aq_alg pg p s = Ok (xs ! k, p', s)" "aqueue p' (drop (Suc k) xs @ take k xs)"
    "same_pages p p'"
proof -
  have ne: "xs \<noteq> []" using k by auto
  then have tl: "p_tail p = Some (hd xs)" using q by (simp add: aqueue_def)
  obtain p1 where l: "aq_loop pg (hd xs) (hd xs) p s = Some (Ok (xs ! k, p1))" "same_pages p p1"
    "aqueue p1 (xs ! k # drop (Suc k) xs @ take k xs)"
    using aq_loop_spec[OF wf, of p xs "[]" "hd xs" k] q res k by (auto simp: resident_def)
  then have "aq_alg pg p s = Ok (xs ! k, unlink_slot (xs ! k) p1, s)"
    by (simp add: aq_alg_def tl)
  then show ?thesis
    using unlink_slot_aqueue[OF l(3)] same_pages_trans[OF l(2)] by (intro that) auto
qed

end
