(* ===== verification/Policies.thy ===== *)
theory Policies
  imports Replace "HOL-Library.Multiset"
begin

text \<open>
  The contract that the paging code relies on (\<open>replacement_policy\<close>: entering a page and
  selecting a victim), that each of the four policies of src/vm.c keeps it, and what each of them
  evicts.
\<close>

section \<open>The contract of a replacement policy\<close>

text \<open>A page was entered in slot \<open>i\<close>: nothing changes but that slot, the links and the counter.\<close>

definition entered :: "nat \<Rightarrow> uint32 \<Rightarrow> proc \<Rightarrow> proc \<Rightarrow> bool" where
  "entered i va p p' \<longleftrightarrow>
     p' = p\<lparr>memory_pg_arr := memory_pg_arr p', p_head := p_head p', p_tail := p_tail p',
            pages_in_memory_counter := pages_in_memory_counter p + 1\<rparr> \<and>
     map fp_va (memory_pg_arr p') = (map fp_va (memory_pg_arr p))[i := va]"

text \<open>The slot of an evicted page is marked unused, as the callers of the selection do.\<close>

definition drop_slot :: "nat \<Rightarrow> proc \<Rightarrow> proc" where
  "drop_slot i p = (upd_slot i (\<lambda>f. f\<lparr>fp_va := NOVA\<rparr>) p)
     \<lparr>pages_in_memory_counter := pages_in_memory_counter p - 1\<rparr>"

text \<open>
  The situation in which a page is selected: the pages of the slots in use are present and
  distinct, there are at least two of them, and one of them is accessible to the user.
\<close>

definition ready :: "(uint32 \<Rightarrow> uint32) \<Rightarrow> proc \<Rightarrow> bool" where
  "ready f p \<longleftrightarrow> (\<forall>i. used p i \<longrightarrow> present (f (slot_va p i))) \<and>
     inj_on (\<lambda>i. PTE_ADDR (slot_va p i)) {i. used p i} \<and>
     2 \<le> card {i. used p i} \<and> (\<exists>i. used p i \<and> user_slot f p i)"

lemma wf_meta_map:
  "wf_meta p \<longleftrightarrow> length (memory_pg_arr p) = MAX_PSYC_PAGES \<and>
     length (disk_pg_arr p) = MAX_PSYC_PAGES \<and>
     pages_in_memory_counter p = int (count_if (\<lambda>v. v \<noteq> NOVA) (map fp_va (memory_pg_arr p))) \<and>
     pages_in_swapfile_counter p = int (count_if (\<lambda>v. v \<noteq> NOVA) (map dk_va (disk_pg_arr p)))"
  by (simp add: wf_meta_def count_if_map)

lemma same_pages_fields:
  assumes "same_pages p p'"
  shows "disk_pg_arr p' = disk_pg_arr p" "pages_in_memory_counter p' = pages_in_memory_counter p"
    "pages_in_swapfile_counter p' = pages_in_swapfile_counter p" "p_pgdir p' = p_pgdir p"
    "map fp_va (memory_pg_arr p') = map fp_va (memory_pg_arr p)"
proof -
  obtain a h t where "p' = p\<lparr>memory_pg_arr := a, p_head := h, p_tail := t\<rparr>"
    using assms unfolding same_pages_def by blast
  then show "disk_pg_arr p' = disk_pg_arr p" "p_pgdir p' = p_pgdir p"
    "pages_in_memory_counter p' = pages_in_memory_counter p"
    "pages_in_swapfile_counter p' = pages_in_swapfile_counter p" by simp_all
  show "map fp_va (memory_pg_arr p') = map fp_va (memory_pg_arr p)"
    using assms by (simp add: same_pages_def)
qed

lemma entered_fields:
  assumes "entered i va p p'"
  shows "disk_pg_arr p' = disk_pg_arr p" "pages_in_memory_counter p' = pages_in_memory_counter p + 1"
    "pages_in_swapfile_counter p' = pages_in_swapfile_counter p" "p_pgdir p' = p_pgdir p"
    "map fp_va (memory_pg_arr p') = (map fp_va (memory_pg_arr p))[i := va]"
proof -
  obtain a h t where "p' = p\<lparr>memory_pg_arr := a, p_head := h, p_tail := t,
      pages_in_memory_counter := pages_in_memory_counter p + 1\<rparr>"
    using assms unfolding entered_def by blast
  then show "disk_pg_arr p' = disk_pg_arr p" "p_pgdir p' = p_pgdir p"
    "pages_in_memory_counter p' = pages_in_memory_counter p + 1"
    "pages_in_swapfile_counter p' = pages_in_swapfile_counter p" by simp_all
  show "map fp_va (memory_pg_arr p') = (map fp_va (memory_pg_arr p))[i := va]"
    using assms by (simp add: entered_def)
qed

lemma map_drop_slot [simp]:
  "map fp_va (memory_pg_arr (drop_slot i p)) = (map fp_va (memory_pg_arr p))[i := NOVA]"
  by (simp add: drop_slot_def upd_at_def map_update)

lemma length_drop_slot [simp]: "length (memory_pg_arr (drop_slot i p)) = length (memory_pg_arr p)"
  by (simp add: drop_slot_def)

text \<open>The invariant of the counters under the two changes.\<close>

lemma wf_meta_entered:
  assumes "wf_meta p" "entered i va p p'" "free_slot p = Some i" "va \<noteq> NOVA"
  shows "wf_meta p'"
proof -
  note e = entered_fields[OF assms(2)]
  have i: "i < length (memory_pg_arr p)" "slot_va p i = NOVA"
    using find_idx_SomeD(1,2)[OF assms(3)[unfolded free_slot_def]] by auto
  have "length (memory_pg_arr p') = length (memory_pg_arr p)"
    using arg_cong[OF e(5), of length] by simp
  moreover have "count_if (\<lambda>v. v \<noteq> NOVA) (map fp_va (memory_pg_arr p')) =
      Suc (count_if (\<lambda>v. v \<noteq> NOVA) (map fp_va (memory_pg_arr p)))"
    using count_if_update[of i "map fp_va (memory_pg_arr p)" "\<lambda>v. v \<noteq> NOVA" va] i assms(4)
    by (simp add: e(5))
  ultimately show ?thesis using assms(1) by (simp add: wf_meta_map e)
qed

lemma wf_meta_drop_slot:
  assumes "wf_meta p" "used p i"
  shows "wf_meta (drop_slot i p)"
proof -
  have "Suc (count_if (\<lambda>v. v \<noteq> NOVA) (map fp_va (memory_pg_arr (drop_slot i p)))) =
      count_if (\<lambda>v. v \<noteq> NOVA) (map fp_va (memory_pg_arr p))"
    using count_if_update[of i "map fp_va (memory_pg_arr p)" "\<lambda>v. v \<noteq> NOVA" NOVA] assms(2)
    by (simp add: used_def)
  then show ?thesis
    using assms(1) unfolding wf_meta_map by (auto simp: drop_slot_def)
qed

lemma same_pages_wf_meta: "same_pages p p' \<Longrightarrow> wf_meta p' = wf_meta p"
  using same_pages_fields[of p p'] same_pages_slot(1)[of p p'] by (simp add: wf_meta_map)

locale replacement_policy =
  fixes enter :: "uint32 \<Rightarrow> proc \<Rightarrow> (nat \<times> proc) res"
    and select :: "uint32 \<Rightarrow> proc \<Rightarrow> 'a mach \<Rightarrow> (nat \<times> proc \<times> 'a mach) res"
    and queued :: "proc \<Rightarrow> bool"
  assumes enter_Ok: "queued p \<Longrightarrow> free_slot p = Some i \<Longrightarrow> va \<noteq> NOVA \<Longrightarrow>
      \<exists>p'. enter va p = Ok (i, p') \<and> entered i va p p' \<and> queued p'"
    and select_Ok: "queued p \<Longrightarrow> vm_ok kend pg ps s \<Longrightarrow> ready (pte (mem s) pg) p \<Longrightarrow>
      \<exists>i p' s' P. select pg p s = Ok (i, p', s') \<and> used p i \<and> same_pages p p' \<and>
        queued (drop_slot i p') \<and> vm_grow kend pg ps s ps s' \<and>
        pte (mem s') pg = clear_A P (pte (mem s) pg)"
begin

text \<open>Evicting a page and entering another one in its place.\<close>

lemma replace_Ok:
  assumes p: "wf_meta p" "queued p" and ok: "vm_ok kend pg ps s" "ready (pte (mem s) pg) p"
    and va: "va \<noteq> NOVA"
  shows "\<exists>i p1 s' j p2. select pg p s = Ok (i, p1, s') \<and> used p i \<and>
     enter va (drop_slot i p1) = Ok (j, p2) \<and> wf_meta p2 \<and> queued p2 \<and>
     pages_in_memory_counter p2 = pages_in_memory_counter p \<and>
     mset (map fp_va (memory_pg_arr p2)) + {#slot_va p i#} =
       mset (map fp_va (memory_pg_arr p)) + {#va#} \<and>
     vm_grow kend pg ps s ps s'"
proof -
  obtain i p1 s' P where c: "select pg p s = Ok (i, p1, s')" "used p i" "same_pages p p1"
    "queued (drop_slot i p1)" "vm_grow kend pg ps s ps s'"
    using select_Ok[OF p(2) ok] by blast
  let ?q = "drop_slot i p1"
  have i: "i < length (memory_pg_arr p1)" using c(2,3) by (simp add: used_def same_pages_slot)
  then have "fp_va (memory_pg_arr ?q ! i) = NOVA" "i < length (memory_pg_arr ?q)"
    by (simp_all add: drop_slot_def)
  then obtain j where j: "free_slot ?q = Some j"
    using find_idx_ex[of i "memory_pg_arr ?q" "\<lambda>f. fp_va f = NOVA"]
    unfolding free_slot_def by blast
  obtain p2 where e: "enter va ?q = Ok (j, p2)" "entered j va ?q p2" "queued p2"
    using enter_Ok[OF c(4) j va] by blast
  have "wf_meta ?q"
    using p(1) c(2,3) by (intro wf_meta_drop_slot) (simp_all add: same_pages_wf_meta same_pages_slot)
  then have wf: "wf_meta p2" using e(2) j va by (rule wf_meta_entered)
  have "pages_in_memory_counter p2 = pages_in_memory_counter p"
    using entered_fields(2)[OF e(2)] same_pages_fields(2)[OF c(3)] by (simp add: drop_slot_def)
  moreover have "mset (map fp_va (memory_pg_arr p2)) + {#slot_va p i#} =
      mset (map fp_va (memory_pg_arr p)) + {#va#}"
  proof -
    let ?vs = "map fp_va (memory_pg_arr p)"
    have q: "map fp_va (memory_pg_arr ?q) = ?vs[i := NOVA]"
      using same_pages_fields(5)[OF c(3)] by simp
    have "j < length (memory_pg_arr ?q)" "map fp_va (memory_pg_arr ?q) ! j = NOVA"
      using find_idx_SomeD(1,2)[OF j[unfolded free_slot_def]] by (simp_all del: map_drop_slot)
    then have "j < length ?vs" "?vs[i := NOVA] ! j = NOVA" "i < length ?vs"
      unfolding q using i same_pages_slot(1)[OF c(3)] by simp_all
    then show ?thesis
      using entered_fields(5)[OF e(2)] same_pages_fields(5)[OF c(3)] by (simp add: mset_update)
  qed
  ultimately show ?thesis using c e wf by blast
qed

end

section \<open>The four policies keep the contract\<close>

definition scfifo_queued :: "proc \<Rightarrow> bool" where
  "scfifo_queued p \<longleftrightarrow> (\<exists>xs. fifo p xs \<and> set xs = {i. used p i})"

definition aq_queued :: "proc \<Rightarrow> bool" where
  "aq_queued p \<longleftrightarrow> (\<exists>xs. aqueue p xs \<and> set xs = {i. used p i})"

lemma set_without_nth:
  assumes "distinct xs" "k < length xs"
  shows "set (drop (Suc k) xs @ take k xs) = set xs - {xs ! k}"
proof -
  define a x b where "a = take k xs" and "x = xs ! k" and "b = drop (Suc k) xs"
  have "xs = a @ x # b" using assms(2) by (simp add: a_def x_def b_def id_take_nth_drop)
  with assms(1) have "set (b @ a) = set xs - {x}" by auto
  then show ?thesis by (simp add: a_def x_def b_def)
qed

lemma second_chance_perm:
  assumes "xs \<noteq> []" "distinct xs"
  shows "fst (second_chance acc xs) \<in> set xs"
    "set (snd (second_chance acc xs)) = set xs - {fst (second_chance acc xs)}"
proof -
  consider "find_idx (\<lambda>i. \<not> acc i) xs = None"
    | k where "find_idx (\<lambda>i. \<not> acc i) xs = Some k" "k < length xs"
    using find_idx_SomeD(1)[of "\<lambda>i. \<not> acc i" xs] by (cases "find_idx (\<lambda>i. \<not> acc i) xs") auto
  then have "fst (second_chance acc xs) \<in> set xs \<and>
      set (snd (second_chance acc xs)) = set xs - {fst (second_chance acc xs)}"
  proof cases
    case 1
    with assms show ?thesis by (cases xs) (auto simp: second_chance_def)
  next
    case 2
    with set_without_nth[OF assms(2) 2(2)] show ?thesis by (simp add: second_chance_def)
  qed
  then show "fst (second_chance acc xs) \<in> set xs"
    "set (snd (second_chance acc xs)) = set xs - {fst (second_chance acc xs)}" by auto
qed

lemma used_drop_slot: "used (drop_slot i p) j \<longleftrightarrow> used p j \<and> j \<noteq> i"
  by (cases "j = i") (auto simp: used_def drop_slot_def nth_upd_at)

lemma fifo_drop_slot: "fifo p xs \<Longrightarrow> i \<notin> set xs \<Longrightarrow> fifo (drop_slot i p) xs"
proof -
  assume q: "fifo p xs" "i \<notin> set xs"
  have ne: "i \<noteq> x" if "x \<in> set xs" for x using q that by auto
  have "chain (next_of (drop_slot i p)) xs = chain (next_of p) xs"
    by (rule chain_cong) (use ne in \<open>simp add: drop_slot_def\<close>)
  with q ne show ?thesis by (auto simp: fifo_def drop_slot_def neq_Nil_conv)
qed

lemma aqueue_drop_slot: "aqueue p xs \<Longrightarrow> i \<notin> set xs \<Longrightarrow> aqueue (drop_slot i p) xs"
proof -
  assume q: "aqueue p xs" "i \<notin> set xs"
  have ne: "i \<noteq> x" if "x \<in> set xs" for x using q that by auto
  have "chain (prev_of (drop_slot i p)) xs = chain (prev_of p) xs"
    by (rule chain_cong) (use ne in \<open>simp add: drop_slot_def\<close>)
  with q ne show ?thesis by (auto simp: aqueue_def drop_slot_def neq_Nil_conv)
qed

lemma ready_resident:
  assumes "ready f p" "set xs = {i. used p i}" "distinct xs"
  shows "resident f p xs" "2 \<le> length xs" "\<exists>k. find_idx (user_slot f p) xs = Some k"
proof -
  show "resident f p xs" using assms by (auto simp: ready_def resident_def)
  show "2 \<le> length xs" using assms distinct_card[OF assms(3)] by (simp add: ready_def)
  obtain i where "i \<in> set xs" "user_slot f p i" using assms by (auto simp: ready_def)
  then show "\<exists>k. find_idx (user_slot f p) xs = Some k"
    by (cases "find_idx (user_slot f p) xs") (auto simp: find_idx_None_iff)
qed

lemma scfifo_select:
  assumes q: "scfifo_queued p" and ok: "vm_ok kend pg ps s" and rd: "ready (pte (mem s) pg) p"
  shows "\<exists>i p' s' P. scfifo_alg pg p s = Ok (i, p', s') \<and> used p i \<and> same_pages p p' \<and>
        scfifo_queued (drop_slot i p') \<and> vm_grow kend pg ps s ps s' \<and>
        pte (mem s') pg = clear_A P (pte (mem s) pg)"
proof -
  obtain xs where xs: "fifo p xs" "set xs = {i. used p i}" using q by (auto simp: scfifo_queued_def)
  then have d: "distinct xs" by (simp add: fifo_def)
  note r = ready_resident[OF rd xs(2) d]
  let ?sc = "second_chance (accessed (pte (mem s) pg) p) xs"
  obtain p' s' where r': "scfifo_alg pg p s = Ok (fst ?sc, p', s')" "fifo p' (snd ?sc)" "same_pages p p'"
    "vm_grow kend pg ps s ps s'"
    "pte (mem s') pg = clear_A (pages_of p (examined (accessed (pte (mem s) pg) p) xs)) (pte (mem s) pg)"
    by (rule scfifo_alg_fifo[OF ok xs(1) r(2,1)])
  have ne: "xs \<noteq> []" using r(2) by auto
  note sc = second_chance_perm[OF ne d, of "accessed (pte (mem s) pg) p"]
  have "fifo (drop_slot (fst ?sc) p') (snd ?sc)" using r'(2) sc(2) by (intro fifo_drop_slot) auto
  moreover have "set (snd ?sc) = {i. used (drop_slot (fst ?sc) p') i}"
    using sc(2) xs(2) same_pages_slot(3)[OF r'(3)] by (auto simp: used_drop_slot)
  ultimately have "scfifo_queued (drop_slot (fst ?sc) p')" by (auto simp: scfifo_queued_def)
  moreover have "used p (fst ?sc)" using sc(1) xs(2) by auto
  ultimately show ?thesis using r' by blast
qed

lemma aq_select:
  assumes q: "aq_queued p" and ok: "vm_ok kend pg ps s" and rd: "ready (pte (mem s) pg) p"
  shows "\<exists>i p' s' P. aq_alg pg p s = Ok (i, p', s') \<and> used p i \<and> same_pages p p' \<and>
        aq_queued (drop_slot i p') \<and> vm_grow kend pg ps s ps s' \<and>
        pte (mem s') pg = clear_A P (pte (mem s) pg)"
proof -
  obtain xs where xs: "aqueue p xs" "set xs = {i. used p i}" using q by (auto simp: aq_queued_def)
  then have d: "distinct xs" by (simp add: aqueue_def)
  note r = ready_resident[OF rd xs(2) d]
  obtain k where k: "find_idx (user_slot (pte (mem s) pg) p) xs = Some k" using r(3) ..
  obtain p' where r': "aq_alg pg p s = Ok (xs ! k, p', s)" "aqueue p' (drop (Suc k) xs @ take k xs)"
    "same_pages p p'"
    by (rule aq_alg_aqueue[OF vm_ok_wf[OF ok] xs(1) r(1) k])
  have kl: "k < length xs" using find_idx_SomeD(1)[OF k] .
  note sc = set_without_nth[OF d kl]
  have "aqueue (drop_slot (xs ! k) p') (drop (Suc k) xs @ take k xs)"
    using r'(2) sc by (intro aqueue_drop_slot) auto
  moreover have "set (drop (Suc k) xs @ take k xs) = {i. used (drop_slot (xs ! k) p') i}"
    using sc xs(2) same_pages_slot(3)[OF r'(3)] by (auto simp: used_drop_slot)
  ultimately have "aq_queued (drop_slot (xs ! k) p')" unfolding aq_queued_def by blast
  moreover have "used p (xs ! k)" using kl xs(2) nth_mem[of k xs] by auto
  ultimately show ?thesis
    using r' vm_grow_refl[OF ok] clear_A_empty[of "pte (mem s) pg"] by metis
qed

lemma free_slotD:
  assumes "free_slot p = Some i"
  shows "i < length (memory_pg_arr p)" "slot_va p i = NOVA" "\<not> used p i"
  using find_idx_SomeD(1,2)[OF assms[unfolded free_slot_def]] by (auto simp: used_def)

lemma used_entered:
  assumes "entered i va p p'" "i < length (memory_pg_arr p)" "va \<noteq> NOVA"
  shows "used p' j \<longleftrightarrow> used p j \<or> j = i"
proof -
  have m: "map fp_va (memory_pg_arr p') = (map fp_va (memory_pg_arr p))[i := va]"
    using assms(1) by (rule entered_fields)
  have l: "length (memory_pg_arr p') = length (memory_pg_arr p)"
    using arg_cong[OF m, of length] by simp
  have "slot_va p' j = (if j = i then va else slot_va p j)" if "j < length (memory_pg_arr p)" for j
    using arg_cong[OF m, of "\<lambda>xs. xs ! j"] that l assms(2) by (simp add: nth_list_update)
  then show ?thesis using l assms(2,3) by (cases "j = i") (auto simp: used_def)
qed

lemma map_va_upd_at:
  "(\<And>f. fp_va (g f) = va) \<Longrightarrow> map fp_va (upd_at i g fs) = (map fp_va fs)[i := va]"
  by (simp add: upd_at_def map_update)

lemma scfifo_enter:
  assumes q: "scfifo_queued p" and i: "free_slot p = Some i" and va: "va \<noteq> NOVA"
  shows "\<exists>p'. update_memoryscfifo pol va p = Ok (i, p') \<and> entered i va p p' \<and> scfifo_queued p'"
proof -
  obtain xs where xs: "fifo p xs" "set xs = {i. used p i}" using q by (auto simp: scfifo_queued_def)
  have il: "i < length (memory_pg_arr p)" "i \<notin> set xs" using free_slotD[OF i] xs(2) by auto
  let ?p1 = "(upd_slot i (\<lambda>f. f\<lparr>fp_va := va, fp_age := default_age pol\<rparr>) p)
     \<lparr>pages_in_memory_counter := pages_in_memory_counter p + 1\<rparr>"
  have "\<exists>p'. update_memoryscfifo pol va p = Ok (i, p') \<and> entered i va p p' \<and> fifo p' (xs @ [i])"
  proof (cases "xs = []")
    case True
    let ?p' = "(upd_slot i (\<lambda>f. f\<lparr>fp_next := None, fp_prev := None\<rparr>) ?p1)
      \<lparr>p_head := Some i, p_tail := Some i\<rparr>"
    have "update_memoryscfifo pol va p = Ok (i, ?p')"
      using xs True i by (simp add: update_memoryscfifo_def queue_checks_def fifo_def Let_def)
    moreover have "entered i va p ?p'"
      by (simp add: entered_def map_upd_at_same map_va_upd_at)
    moreover have "fifo ?p' (xs @ [i])" using True il by (simp add: fifo_def)
    ultimately show ?thesis by blast
  next
    case False
    let ?t = "last xs"
    let ?p' = "upd_slot i (\<lambda>f. f\<lparr>fp_next := None\<rparr>)
      ((upd_slot ?t (\<lambda>f. f\<lparr>fp_next := Some i\<rparr>) ?p1)\<lparr>p_tail := Some i\<rparr>)"
    have t: "?t \<in> set xs" "?t \<noteq> i" using False il by auto
    have tl: "?t < length (memory_pg_arr p)" using xs(1) t by (auto simp: fifo_def)
    have nt: "next_of p ?t = None" using xs(1) False chain_last[of "next_of p"] by (simp add: fifo_def)
    have "update_memoryscfifo pol va p = Ok (i, ?p')"
      using xs False i nt t by (auto simp: update_memoryscfifo_def queue_checks_def fifo_def Let_def)
    moreover have "entered i va p ?p'"
      by (simp add: entered_def map_upd_at_same map_va_upd_at)
    moreover have "fifo ?p' (xs @ [i])"
    proof -
      have "chain ((next_of p)(?t := Some i, i := None)) (xs @ [i])"
        using xs(1) False il by (intro chain_snoc) (auto simp: fifo_def)
      moreover have "next_of ?p' j = ((next_of p)(?t := Some i, i := None)) j" if "j \<in> set (xs @ [i])" for j
        using xs(1) that il tl t by (auto simp: fifo_def nth_upd_at)
      ultimately have "chain (next_of ?p') (xs @ [i])"
        by (subst chain_cong[where nx' = "(next_of p)(?t := Some i, i := None)"]) auto
      moreover have "hd xs \<noteq> i" using False il by (cases xs) auto
      then have "prev_of ?p' (hd xs) = prev_of p (hd xs)"
        using xs(1) False tl by (cases "hd xs = ?t") (simp_all add: fifo_def)
      ultimately show ?thesis using xs(1) False il by (auto simp: fifo_def)
    qed
    ultimately show ?thesis by blast
  qed
  then obtain p' where p': "update_memoryscfifo pol va p = Ok (i, p')" "entered i va p p'" "fifo p' (xs @ [i])"
    by blast
  moreover have "set (xs @ [i]) = {j. used p' j}"
    using xs(2) used_entered[OF p'(2) il(1) va] by auto
  ultimately show ?thesis unfolding scfifo_queued_def by blast
qed

lemma aq_enter:
  assumes q: "aq_queued p" and i: "free_slot p = Some i" and va: "va \<noteq> NOVA"
  shows "\<exists>p'. update_memoryaq pol va p = Ok (i, p') \<and> entered i va p p' \<and> aq_queued p'"
proof -
  obtain xs where xs: "aqueue p xs" "set xs = {i. used p i}" using q by (auto simp: aq_queued_def)
  have il: "i < length (memory_pg_arr p)" "i \<notin> set xs" using free_slotD[OF i] xs(2) by auto
  let ?p1 = "upd_slot i (\<lambda>f. f\<lparr>fp_next := None, fp_prev := None\<rparr>)
    ((upd_slot i (\<lambda>f. f\<lparr>fp_va := va, fp_age := default_age pol\<rparr>) p)
     \<lparr>pages_in_memory_counter := pages_in_memory_counter p + 1\<rparr>)"
  have "\<exists>p'. update_memoryaq pol va p = Ok (i, p') \<and> entered i va p p' \<and> aqueue p' (xs @ [i])"
  proof (cases "xs = []")
    case True
    let ?p' = "?p1\<lparr>p_head := Some i, p_tail := Some i\<rparr>"
    have "update_memoryaq pol va p = Ok (i, ?p')"
      using xs True i by (simp add: update_memoryaq_def queue_checks_def aqueue_def Let_def)
    moreover have "entered i va p ?p'"
      by (simp add: entered_def map_upd_at_same map_va_upd_at)
    moreover have "aqueue ?p' (xs @ [i])" using True il by (simp add: aqueue_def)
    ultimately show ?thesis by blast
  next
    case False
    let ?t = "last xs"
    let ?p' = "(upd_slot ?t (\<lambda>f. f\<lparr>fp_prev := Some i\<rparr>) ?p1)\<lparr>p_head := Some i\<rparr>"
    have t: "?t \<in> set xs" "?t \<noteq> i" using False il by auto
    have tl: "?t < length (memory_pg_arr p)" using xs(1) t by (auto simp: aqueue_def)
    have nt: "prev_of p ?t = None" using xs(1) False chain_last[of "prev_of p"] by (simp add: aqueue_def)
    have "update_memoryaq pol va p = Ok (i, ?p')"
      using xs False i nt t by (auto simp: update_memoryaq_def queue_checks_def aqueue_def Let_def)
    moreover have "entered i va p ?p'"
      by (simp add: entered_def map_upd_at_same map_va_upd_at)
    moreover have "aqueue ?p' (xs @ [i])"
    proof -
      have "chain ((prev_of p)(?t := Some i, i := None)) (xs @ [i])"
        using xs(1) False il by (intro chain_snoc) (auto simp: aqueue_def)
      moreover have "prev_of ?p' j = ((prev_of p)(?t := Some i, i := None)) j" if "j \<in> set (xs @ [i])" for j
        using xs(1) that il tl t by (auto simp: aqueue_def nth_upd_at)
      ultimately have "chain (prev_of ?p') (xs @ [i])"
        by (subst chain_cong[where nx' = "(prev_of p)(?t := Some i, i := None)"]) auto
      moreover have "hd xs \<noteq> i" using False il by (cases xs) auto
      then have "next_of ?p' (hd xs) = next_of p (hd xs)"
        using xs(1) False tl by (cases "hd xs = ?t") (simp_all add: aqueue_def)
      ultimately show ?thesis using xs(1) False il by (auto simp: aqueue_def)
    qed
    ultimately show ?thesis by blast
  qed
  then obtain p' where p': "update_memoryaq pol va p = Ok (i, p')" "entered i va p p'" "aqueue p' (xs @ [i])"
    by blast
  moreover have "set (xs @ [i]) = {j. used p' j}"
    using xs(2) used_entered[OF p'(2) il(1) va] by auto
  ultimately show ?thesis unfolding aq_queued_def by blast
qed

lemma ready_used: "ready f p \<Longrightarrow> used p (SOME u. used p u)"
  by (auto simp: ready_def intro: someI)

lemma age_select:
  assumes "used p u" "\<And>i. sel p = Some i \<Longrightarrow> is_first_min in_use key (memory_pg_arr p) i"
    and "sel p = None \<Longrightarrow> \<forall>f \<in> set (memory_pg_arr p). \<not> in_use f"
  shows "\<exists>i. sel p = Some i \<and> used p i"
proof (cases "sel p")
  case None
  have "memory_pg_arr p ! u \<in> set (memory_pg_arr p)" "in_use (memory_pg_arr p ! u)"
    using assms(1) by (auto simp: used_def in_use_def)
  with None assms(3) show ?thesis by auto
next
  case (Some i)
  with assms(2) show ?thesis by (auto simp: is_first_min_def used_def in_use_def)
qed

lemma enter_entered:
  assumes "free_slot p = Some i"
  shows "entered i va p ((upd_slot i (\<lambda>f. f\<lparr>fp_va := va, fp_age := a, fp_next := None, fp_prev := None\<rparr>) p)
    \<lparr>pages_in_memory_counter := pages_in_memory_counter p + 1\<rparr>)"
  by (simp add: entered_def map_va_upd_at)

interpretation scfifo: replacement_policy "update_memory SCFIFO" "select_page_to_remove SCFIFO"
  scfifo_queued
  by unfold_locales
    (unfold update_memory_def select_page_to_remove_def policy.case, (rule scfifo_enter scfifo_select; assumption)+)

interpretation aqp: replacement_policy "update_memory AQ" "select_page_to_remove AQ" aq_queued
  by unfold_locales
    (unfold update_memory_def select_page_to_remove_def policy.case, (rule aq_enter aq_select; assumption)+)

interpretation nfua: replacement_policy "update_memory NFUA" "select_page_to_remove NFUA" "\<lambda>_. True"
proof unfold_locales
  show "\<exists>p'. update_memory NFUA va p = Ok (i, p') \<and> entered i va p p' \<and> True"
    if "free_slot p = Some i" for p i va
    using that enter_entered[OF that] by (simp add: update_memory_def update_memorynfua_def Let_def)
  fix p kend pg ps and s :: "'a mach"
  assume ok: "vm_ok kend pg ps s" and r: "ready (pte (mem s) pg) p"
  obtain i where "nfu_alg p = Some i" "used p i"
    using age_select[OF r[THEN ready_used], of nfu_alg "\<lambda>f. unat (fp_age f)"]
      first_min_is_first_min[of in_use "\<lambda>f. unat (fp_age f)" "memory_pg_arr p"]
    by (auto simp: nfu_alg_first_min)
  then show "\<exists>i p' s' P. select_page_to_remove NFUA pg p s = Ok (i, p', s') \<and> used p i \<and>
      same_pages p p' \<and> True \<and> vm_grow kend pg ps s ps s' \<and>
      pte (mem s') pg = clear_A P (pte (mem s) pg)"
    using vm_grow_refl[OF ok] clear_A_empty[of "pte (mem s) pg"]
    by (auto simp: select_page_to_remove_def intro!: exI[of _ "{}"])
qed

interpretation lapa: replacement_policy "update_memory LAPA" "select_page_to_remove LAPA" "\<lambda>_. True"
proof unfold_locales
  show "\<exists>p'. update_memory LAPA va p = Ok (i, p') \<and> entered i va p p' \<and> True"
    if "free_slot p = Some i" for p i va
    using that enter_entered[OF that] by (simp add: update_memory_def update_memorylapa_def Let_def)
  fix p kend pg ps and s :: "'a mach"
  assume ok: "vm_ok kend pg ps s" and r: "ready (pte (mem s) pg) p"
  obtain i where "lapa_alg p = Some i" "used p i"
    using age_select[OF r[THEN ready_used], of lapa_alg lapa_key]
      first_min_is_first_min[of in_use lapa_key "memory_pg_arr p"]
    by (auto simp: lapa_alg_first_min)
  then show "\<exists>i p' s' P. select_page_to_remove LAPA pg p s = Ok (i, p', s') \<and> used p i \<and>
      same_pages p p' \<and> True \<and> vm_grow kend pg ps s ps s' \<and>
      pte (mem s') pg = clear_A P (pte (mem s) pg)"
    using vm_grow_refl[OF ok] clear_A_empty[of "pte (mem s) pg"]
    by (auto simp: select_page_to_remove_def intro!: exI[of _ "{}"])
qed

section \<open>Properties\<close>

text \<open>
  C4. Under SCFIFO the victim is the oldest page whose access bit is clear; the older pages, whose
  bits were set, go to the end of the queue with their bits cleared.  When every page was accessed
  the oldest page is evicted after one full turn.  The queue that remains is the one of
  \<open>second_chance\<close>, and only access bits of the page table change.
\<close>

theorem scfifo_second_chance:
  assumes "vm_ok kend pg ps s" "fifo p xs" "2 \<le> length xs" "resident (pte (mem s) pg) p xs"
  shows "\<exists>p' s'. select_page_to_remove SCFIFO pg p s =
      Ok (fst (second_chance (accessed (pte (mem s) pg) p) xs), p', s') \<and>
    fifo p' (snd (second_chance (accessed (pte (mem s) pg) p) xs)) \<and> same_pages p p' \<and>
    pte (mem s') pg =
      clear_A (pages_of p (examined (accessed (pte (mem s) pg) p) xs)) (pte (mem s) pg)"
  by (rule scfifo_alg_fifo[OF assms]) (auto simp: select_page_to_remove_def)

text \<open>
  C7. NFUA evicts a page whose age counter is smallest, read as an unsigned number, and of several
  such pages the one in the lowest slot.  It changes nothing.
\<close>

theorem nfua_evicts_least_age:
  assumes "used p u"
  shows "\<exists>i. select_page_to_remove NFUA pg p s = Ok (i, p, s) \<and> used p i \<and>
    (\<forall>j. used p j \<longrightarrow> fp_age (memory_pg_arr p ! i) \<le> fp_age (memory_pg_arr p ! j) \<and>
       (fp_age (memory_pg_arr p ! i) = fp_age (memory_pg_arr p ! j) \<longrightarrow> i \<le> j))"
proof -
  obtain i where n: "nfu_alg p = Some i" "used p i"
    using age_select[OF assms, of nfu_alg "\<lambda>f. unat (fp_age f)"]
      first_min_is_first_min[of in_use "\<lambda>f. unat (fp_age f)" "memory_pg_arr p"]
    by (auto simp: nfu_alg_first_min)
  have m: "is_first_min in_use (\<lambda>f. unat (fp_age f)) (memory_pg_arr p) i"
    using n(1) unfolding nfu_alg_first_min by (rule first_min_is_first_min)
  have "fp_age (memory_pg_arr p ! i) \<le> fp_age (memory_pg_arr p ! j) \<and>
      (fp_age (memory_pg_arr p ! i) = fp_age (memory_pg_arr p ! j) \<longrightarrow> i \<le> j)" if "used p j" for j
    using m that unfolding is_first_min_def
    by (auto simp: used_def in_use_def word_le_nat_alt not_le[symmetric])
  then show ?thesis using n by (auto simp: select_page_to_remove_def)
qed

text \<open>
  C8. LAPA evicts a page whose age has the fewest one bits, of several such pages one with the
  smallest age, and of those the one in the lowest slot; the ones are counted exactly.
\<close>

theorem lapa_evicts_fewest_accesses:
  assumes "used p u"
  shows "\<exists>i. select_page_to_remove LAPA pg p s = Ok (i, p, s) \<and> used p i \<and>
    (\<forall>j. used p j \<longrightarrow>
       (let n = card {b. bit (fp_age (memory_pg_arr p ! i)) b};
            m = card {b. bit (fp_age (memory_pg_arr p ! j)) b}
        in n < m \<or> n = m \<and> (fp_age (memory_pg_arr p ! i) < fp_age (memory_pg_arr p ! j) \<or>
             fp_age (memory_pg_arr p ! i) = fp_age (memory_pg_arr p ! j) \<and> i \<le> j)))"
proof -
  obtain i where n: "lapa_alg p = Some i" "used p i"
    using age_select[OF assms, of lapa_alg lapa_key]
      first_min_is_first_min[of in_use lapa_key "memory_pg_arr p"]
    by (auto simp: lapa_alg_first_min)
  have m: "is_first_min in_use lapa_key (memory_pg_arr p) i"
    using n(1) unfolding lapa_alg_first_min by (rule first_min_is_first_min)
  have "lapa_key (memory_pg_arr p ! i) < lapa_key (memory_pg_arr p ! j) \<or>
      lapa_key (memory_pg_arr p ! i) = lapa_key (memory_pg_arr p ! j) \<and> i \<le> j" if "used p j" for j
    using m that unfolding is_first_min_def by (auto simp: used_def in_use_def not_le[symmetric])
  moreover have "lapa_key f = lapa_key g \<Longrightarrow> fp_age f = fp_age g" for f g
    using lapa_key_less_iff[of f g] lapa_key_less_iff[of g f] by auto
  ultimately have "\<forall>j. used p j \<longrightarrow> (let n = count_ones (fp_age (memory_pg_arr p ! i));
      m = count_ones (fp_age (memory_pg_arr p ! j))
    in n < m \<or> n = m \<and> (fp_age (memory_pg_arr p ! i) < fp_age (memory_pg_arr p ! j) \<or>
             fp_age (memory_pg_arr p ! i) = fp_age (memory_pg_arr p ! j) \<and> i \<le> j))"
    unfolding lapa_key_less_iff Let_def by metis
  moreover have "select_page_to_remove LAPA pg p s = Ok (i, p, s)"
    using n(1) by (simp add: select_page_to_remove_def)
  ultimately show ?thesis using n(2) unfolding count_ones_card by blast
qed

text \<open>
  C6. AQ evicts the oldest page that the user may access: the pages before it, which the user may
  not access, move to the young end of the queue in their order.
\<close>

theorem aq_evicts_oldest_user_page:
  assumes "vm_ok kend pg ps s" "aqueue p xs" "resident (pte (mem s) pg) p xs"
    and "k < length xs" "user_slot (pte (mem s) pg) p (xs ! k)"
    and "\<forall>j < k. \<not> user_slot (pte (mem s) pg) p (xs ! j)"
  shows "\<exists>p'. select_page_to_remove AQ pg p s = Ok (xs ! k, p', s) \<and>
    aqueue p' (drop (Suc k) xs @ take k xs) \<and> same_pages p p'"
proof -
  have "find_idx (user_slot (pte (mem s) pg) p) xs = Some k"
    using assms(4-6) by (simp add: find_idx_Some_iff)
  from aq_alg_aqueue[OF vm_ok_wf[OF assms(1)] assms(2,3) this] show ?thesis
    by (auto simp: select_page_to_remove_def)
qed

text \<open>
  The examples use a process with three pages in memory, entered in the order of their slots; its
  queue is linked both ways, so it is a queue for SCFIFO (oldest first) and for AQ (read backwards).
\<close>

definition demo_slot :: "nat option \<Rightarrow> nat option \<Rightarrow> uint32 \<Rightarrow> uint32 \<Rightarrow> free_page" where
  "demo_slot n q v a = \<lparr>fp_next = n, fp_prev = q, fp_va = v, fp_age = a\<rparr>"

definition queue_proc :: proc where
  "queue_proc = blank_proc\<lparr>p_pgdir := 0x80300000, pages_in_memory_counter := 3,
     memory_pg_arr := [demo_slot (Some 1) None 0 0x80000000, demo_slot (Some 2) (Some 0) 0x1000 0x30,
        demo_slot None (Some 1) 0x2000 0x41] @ replicate 13 (demo_slot None None NOVA 0),
     p_head := Some 0, p_tail := Some 2\<rparr>"

lemma queue_proc_slots:
  "length (memory_pg_arr queue_proc) = 16" "slot_va queue_proc 0 = 0" "slot_va queue_proc 1 = 0x1000"
  "slot_va queue_proc (Suc 0) = 0x1000" "slot_va queue_proc 2 = 0x2000"
  by (simp_all add: queue_proc_def demo_slot_def)

lemma queue_proc_fifo: "fifo queue_proc [0, 1, 2]" "aqueue queue_proc [2, 1, 0]"
  by (simp_all add: fifo_def aqueue_def queue_proc_def demo_slot_def)

lemma queue_proc_resident:
  "set xs = {0, 1, 2} \<Longrightarrow> resident (pte (mem user_machine) 0x80300000) queue_proc xs"
  by (auto simp: resident_def queue_proc_slots user_machine_pte PDX_def PTX_def present_def
      inj_on_def PTE_ADDR_def)

theorem scfifo_second_chance_witness:
  "\<exists>p' s'. select_page_to_remove SCFIFO 0x80300000 queue_proc user_machine = Ok (2, p', s') \<and>
     fifo p' [0, 1]"
proof -
  have "second_chance (accessed (pte (mem user_machine) 0x80300000) queue_proc) [0, 1, 2] = (2, [0, 1])"
    by (simp add: second_chance_def accessed_def queue_proc_slots user_machine_pte PDX_def PTX_def)
  then show ?thesis
    using scfifo_second_chance[OF user_ok_vm_ok[OF user_machine_ok] queue_proc_fifo(1) _ queue_proc_resident]
    by auto
qed

lemma queue_proc_uses: "used queue_proc 0" "used queue_proc 1" "used queue_proc 2"
  by (simp_all add: used_def queue_proc_slots)

theorem nfua_evicts_least_age_witness:
  "\<exists>i. select_page_to_remove NFUA 0 queue_proc demo_machine = Ok (i, queue_proc, demo_machine) \<and>
     used queue_proc i \<and> fp_age (memory_pg_arr queue_proc ! i) \<le> 0x30"
  using nfua_evicts_least_age[OF queue_proc_uses(2), of 0 demo_machine] queue_proc_uses(2)
  by (auto simp: queue_proc_def demo_slot_def)

theorem lapa_evicts_fewest_accesses_witness:
  "\<exists>i. select_page_to_remove LAPA 0 queue_proc demo_machine = Ok (i, queue_proc, demo_machine) \<and>
     used queue_proc i \<and> card {b. bit (fp_age (memory_pg_arr queue_proc ! i)) b} \<le> 1"
proof -
  have "fp_age (memory_pg_arr queue_proc ! 0) = 0x80000000" by (simp add: queue_proc_def demo_slot_def)
  moreover have "card {b. bit (0x80000000 :: uint32) b} = 1"
  proof -
    have "count_ones 0x80000000 = 1" by code_simp
    then show ?thesis by (simp only: count_ones_card)
  qed
  moreover obtain i where
    "select_page_to_remove LAPA 0 queue_proc demo_machine = Ok (i, queue_proc, demo_machine)"
    "used queue_proc i"
    "card {b. bit (fp_age (memory_pg_arr queue_proc ! i)) b}
       \<le> card {b. bit (fp_age (memory_pg_arr queue_proc ! 0)) b}"
    using lapa_evicts_fewest_accesses[OF queue_proc_uses(1), of 0 demo_machine] queue_proc_uses(1)
    unfolding Let_def by (metis less_imp_le order_refl)
  ultimately show ?thesis by metis
qed

theorem aq_evicts_oldest_user_page_witness:
  "\<exists>p'. select_page_to_remove AQ 0x80300000 queue_proc user_machine = Ok (2, p', user_machine) \<and>
     aqueue p' [1, 0]"
proof -
  have "user_slot (pte (mem user_machine) 0x80300000) queue_proc 2"
    by (simp add: user_slot_def queue_proc_slots user_machine_pte PDX_def PTX_def)
  then show ?thesis
    using aq_evicts_oldest_user_page[OF user_ok_vm_ok[OF user_machine_ok] queue_proc_fifo(2)
        queue_proc_resident, of 0] by auto
qed

definition pol_queued :: "policy \<Rightarrow> proc \<Rightarrow> bool" where
  "pol_queued pol p \<longleftrightarrow>
     (case pol of SCFIFO \<Rightarrow> scfifo_queued p | AQ \<Rightarrow> aq_queued p | _ \<Rightarrow> True)"

text \<open>
  C5. Under every paging policy, evicting the selected page and entering another one succeeds
  without a panic and keeps the metadata well formed: the slot counter is unchanged and correct,
  the queue is again a queue of exactly the slots in use, and the pages in memory are the old ones
  with the victim replaced by the new page.
\<close>

theorem replacement_keeps_metadata:
  assumes "pol \<noteq> NONE" "wf_meta p" "pol_queued pol p" "vm_ok kend pg ps s"
    and "ready (pte (mem s) pg) p" "va \<noteq> NOVA"
  shows "\<exists>i p1 s' j p2. select_page_to_remove pol pg p s = Ok (i, p1, s') \<and> used p i \<and>
     update_memory pol va (drop_slot i p1) = Ok (j, p2) \<and> wf_meta p2 \<and> pol_queued pol p2 \<and>
     pages_in_memory_counter p2 = pages_in_memory_counter p \<and>
     mset (map fp_va (memory_pg_arr p2)) + {#slot_va p i#} =
       mset (map fp_va (memory_pg_arr p)) + {#va#} \<and>
     vm_grow kend pg ps s ps s'"
proof (cases pol)
  case SCFIFO
  then show ?thesis using scfifo.replace_Ok[OF assms(2) _ assms(4-6)] assms(3)
    by (simp only: pol_queued_def policy.case)
next
  case NFUA
  then show ?thesis using nfua.replace_Ok[OF assms(2) _ assms(4-6)]
    by (simp only: pol_queued_def policy.case simp_thms)
next
  case LAPA
  then show ?thesis using lapa.replace_Ok[OF assms(2) _ assms(4-6)]
    by (simp only: pol_queued_def policy.case simp_thms)
next
  case AQ
  then show ?thesis using aqp.replace_Ok[OF assms(2) _ assms(4-6)] assms(3)
    by (simp only: pol_queued_def policy.case)
qed (use assms(1) in simp)

lemma queue_proc_used: "{i. used queue_proc i} = {0, 1, 2}"
proof -
  have "\<not> used queue_proc i" if "3 \<le> i" for i
    using that by (auto simp: used_def queue_proc_def demo_slot_def nth_append)
  moreover have "used queue_proc i" if "i \<in> {0, 1, 2}" for i
    using that by (auto simp: used_def queue_proc_slots)
  moreover have "i < 3 \<longleftrightarrow> i \<in> {0, 1, 2}" for i :: nat by auto
  ultimately show ?thesis by (auto simp: not_less[symmetric])
qed

theorem replacement_keeps_metadata_witness:
  "\<exists>i p1 s' j p2. select_page_to_remove SCFIFO 0x80300000 queue_proc user_machine = Ok (i, p1, s') \<and>
     update_memory SCFIFO 0x3000 (drop_slot i p1) = Ok (j, p2) \<and> pages_in_memory_counter p2 = 3"
proof -
  have "wf_meta queue_proc"
    by (simp add: wf_meta_def queue_proc_def blank_proc_def demo_slot_def count_if_def)
  moreover have "pol_queued SCFIFO queue_proc"
    using queue_proc_fifo(1) queue_proc_used by (auto simp: pol_queued_def scfifo_queued_def)
  moreover have "ready (pte (mem user_machine) 0x80300000) queue_proc"
  proof -
    have u: "used queue_proc i \<longleftrightarrow> i \<in> {0, 1, 2}" for i using queue_proc_used by blast
    have "user_slot (pte (mem user_machine) 0x80300000) queue_proc 0"
      by (simp add: user_slot_def queue_proc_slots user_machine_pte PDX_def PTX_def)
    then show ?thesis
      using queue_proc_resident[of "[0, 1, 2]"] unfolding ready_def resident_def queue_proc_used
      by (auto simp: u)
  qed
  moreover have "pages_in_memory_counter queue_proc = 3" by (simp add: queue_proc_def)
  ultimately show ?thesis
    using replacement_keeps_metadata[of SCFIFO queue_proc, OF _ _ _ user_ok_vm_ok[OF user_machine_ok], of "0x3000"]
    by auto
qed

end
