(* ===== verification/Kernel.thy ===== *)
theory Kernel
  imports Policies
begin

text \<open>
  The state of the kernel: what src/buf.h, src/log.c, src/fs.h, src/file.h, src/pipe.c,
  src/console.c and src/proc.c keep in global variables, on top of the memory and the page
  allocator.  Pointers to table entries are indices, the null pointer is \<open>None\<close>.

  The operations run one kernel thread.  A spin lock therefore does nothing here (src/spinlock.c is
  modelled by itself in theory \<open>Spinlock\<close>); a sleep lock is part of the state, and a thread that
  would wait for one, or for any other event, stops with \<open>Sleeping\<close>: what follows depends on
  the other threads.  \<open>wakeup\<close> is modelled, so a releasing thread makes the waiting processes
  runnable.  The disk is the one of src/memide.c, an array of blocks.
\<close>

abbreviation (input) BSIZE :: nat where "BSIZE \<equiv> 512"
abbreviation (input) NBUF :: nat where "NBUF \<equiv> 30"
abbreviation (input) LOGSIZE :: nat where "LOGSIZE \<equiv> 30"
abbreviation (input) MAXOPBLOCKS :: nat where "MAXOPBLOCKS \<equiv> 10"
abbreviation (input) NINODE :: nat where "NINODE \<equiv> 50"
abbreviation (input) NFILE :: nat where "NFILE \<equiv> 100"
abbreviation (input) NDEV :: nat where "NDEV \<equiv> 10"
abbreviation (input) ROOTDEV :: uint32 where "ROOTDEV \<equiv> 1"
abbreviation (input) NDIRECT :: nat where "NDIRECT \<equiv> 12"
abbreviation (input) NINDIRECT :: nat where "NINDIRECT \<equiv> 128"
abbreviation (input) MAXFILE :: nat where "MAXFILE \<equiv> 140"

type_synonym int16 = "16 word"
type_synonym block = "byte list"

section \<open>Data\<close>

record sleeplock =
  sl_locked :: bool
  sl_pid :: int

text \<open>The two bits of \<open>flags\<close>, \<open>B_VALID\<close> and \<open>B_DIRTY\<close>, are two fields.\<close>

record buf =
  b_valid :: bool
  b_dirty :: bool
  b_dev :: uint32
  b_blockno :: uint32
  b_lock :: sleeplock
  b_refcnt :: uint32
  b_data :: block

record logheader =
  lh_n :: int
  lh_block :: "uint32 list"

record log_info =
  log_start :: uint32
  log_size :: int
  log_outstanding :: int
  log_committing :: bool
  log_dev :: uint32
  log_lh :: logheader

record superblock =
  sb_size :: uint32
  sb_nblocks :: uint32
  sb_ninodes :: uint32
  sb_nlog :: uint32
  sb_logstart :: uint32
  sb_inodestart :: uint32
  sb_bmapstart :: uint32

record inode =
  i_dev :: uint32
  i_inum :: uint32
  i_ref :: int
  i_lock :: sleeplock
  i_valid :: bool
  i_type :: int16
  i_major :: int16
  i_minor :: int16
  i_nlink :: int16
  i_size :: uint32
  i_addrs :: "uint32 list"

datatype filetype = FD_NONE | FD_PIPE | FD_INODE

text \<open>\<open>f_pipe\<close> is the address of the page that holds the pipe, 0 for none.\<close>

record file_struct =
  f_type :: filetype
  f_ref :: int
  f_readable :: byte
  f_writable :: byte
  f_pipe :: uint32
  f_ip :: "nat option"
  f_off :: uint32

record pipe =
  pi_data :: "byte list"
  pi_nread :: uint32
  pi_nwrite :: uint32
  pi_readopen :: bool
  pi_writeopen :: bool

text \<open>The input line buffer of the console, the screen and the bytes sent to the serial port.\<close>

record console =
  in_buf :: "byte list"
  in_r :: uint32
  in_w :: uint32
  in_e :: uint32
  crt :: "int16 list"
  crt_pos :: int
  uart :: bool
  uart_out :: "byte list"
  panicked :: bool
  kbd_shift :: uint32

section \<open>The kernel\<close>

text \<open>
  \<open>lru\<close> is the circular list of buffers, from \<open>bcache.head.next\<close> (most recently used) to
  \<open>bcache.head.prev\<close>.  \<open>disk_writes\<close> is a history variable: the blocks written to the disk,
  in order; no operation reads it.  \<open>devsw\<close> tells which major device numbers have their
  functions installed (the only functions are those of the console).  \<open>swapbuff\<close> is the static
  buffer \<open>buff\<close> of src/vm.c.
\<close>

record kernel = machine +
  procs :: "proc list"
  cur :: "nat option"
  nextpid :: int
  initproc :: "nat option"
  ticks :: uint32
  kpgdir :: uint32
  bufs :: "buf list"
  lru :: "nat list"
  disk :: "uint32 \<Rightarrow> block"
  disksize :: uint32
  disk_writes :: "(uint32 \<times> block) list"
  log_st :: log_info
  sb :: superblock
  icache :: "inode list"
  ftable :: "file_struct list"
  pipes :: "uint32 \<Rightarrow> pipe"
  devsw :: "bool list"
  cons :: console
  swapbuff :: "byte list"

section \<open>The running process, sleep locks\<close>

definition myproc :: "kernel \<Rightarrow> proc option" where
  "myproc s = map_option (\<lambda>i. procs s ! i) (cur s)"

definition wakeup1 :: "chan \<Rightarrow> kernel \<Rightarrow> kernel" where
  "wakeup1 c s = s\<lparr>procs := map (\<lambda>p.
     if p_state p = SLEEPING \<and> p_chan p = Some c then p\<lparr>p_state := RUNNABLE\<rparr> else p) (procs s)\<rparr>"

definition wakeup :: "chan \<Rightarrow> kernel \<Rightarrow> kernel" where
  "wakeup c s = wakeup1 c s"

definition initsleeplock :: sleeplock where
  "initsleeplock = \<lparr>sl_locked = False, sl_pid = 0\<rparr>"

text \<open>\<open>sleep\<close> is called while the lock is held: the caller stops.\<close>

definition acquiresleep :: "sleeplock \<Rightarrow> kernel \<Rightarrow> sleeplock res" where
  "acquiresleep lk s =
     (if sl_locked lk then Stop Sleeping
      else case myproc s of
             None \<Rightarrow> Stop NullDeref
           | Some p \<Rightarrow> Ok (lk\<lparr>sl_locked := True, sl_pid := p_pid p\<rparr>))"

definition releasesleep :: "chan \<Rightarrow> sleeplock \<Rightarrow> kernel \<Rightarrow> sleeplock \<times> kernel" where
  "releasesleep c lk s = (lk\<lparr>sl_locked := False, sl_pid := 0\<rparr>, wakeup c s)"

definition holdingsleep :: "sleeplock \<Rightarrow> bool" where
  "holdingsleep lk = sl_locked lk"

section \<open>A concrete kernel\<close>

text \<open>
  A state on which the theorems of the following theories are applied: \<open>init\<close> and the shell
  sleep, process 3 runs, no block is cached, and the disk of 1000 blocks is all zero.
\<close>

definition demo_procs :: "proc list" where
  "demo_procs = [
     blank_proc\<lparr>p_pid := 1, p_state := SLEEPING, p_chan := Some (ChanProc 0)\<rparr>,
     blank_proc\<lparr>p_pid := 2, p_state := SLEEPING, p_chan := Some (ChanProc 1), p_parent := Some 0\<rparr>,
     blank_proc\<lparr>p_pid := 3, p_state := RUNNING, p_parent := Some 1, p_sz := 0x3000,
       p_pgdir := 0x80300000, p_kstack := 0x80500000\<rparr>, blank_proc]"

definition demo_buf :: buf where
  "demo_buf = \<lparr>b_valid = False, b_dirty = False, b_dev = 0, b_blockno = 0, b_lock = initsleeplock,
     b_refcnt = 0, b_data = replicate BSIZE 0\<rparr>"

definition demo_console :: console where
  "demo_console = \<lparr>in_buf = replicate 128 0, in_r = 0, in_w = 0, in_e = 0, crt = replicate 2000 0,
     crt_pos = 0, uart = False, uart_out = [], panicked = False, kbd_shift = 0\<rparr>"

definition demo_kernel :: kernel where
  "demo_kernel = \<lparr>mem = mem user_machine, kmem = kmem user_machine,
     page_counter = page_counter user_machine, total_free_pages = total_free_pages user_machine,
     procs = demo_procs, cur = Some 2, nextpid = 4, initproc = Some 0, ticks = 0, kpgdir = 0,
     bufs = replicate NBUF demo_buf, lru = [0..<NBUF], disk = (\<lambda>_. replicate BSIZE 0),
     disksize = 1000, disk_writes = [],
     log_st = \<lparr>log_start = 2, log_size = 30, log_outstanding = 0, log_committing = False, log_dev = 1,
       log_lh = \<lparr>lh_n = 0, lh_block = replicate LOGSIZE 0\<rparr>\<rparr>,
     sb = \<lparr>sb_size = 1000, sb_nblocks = 941, sb_ninodes = 200, sb_nlog = 30, sb_logstart = 2,
       sb_inodestart = 32, sb_bmapstart = 58\<rparr>,
     icache = [], ftable = [],
     pipes = (\<lambda>_. \<lparr>pi_data = replicate 512 0, pi_nread = 0, pi_nwrite = 0, pi_readopen = True,
       pi_writeopen = True\<rparr>),
     devsw = replicate NDEV False, cons = demo_console, swapbuff = []\<rparr>"

end
