(* ===== verification/Bio.thy ===== *)
theory Bio
  imports Kernel
begin

text \<open>
  The buffer cache of src/bio.c over the disk of src/memide.c.  A buffer is named by its index in
  \<open>bcache.buf\<close>.  The specification of the cache is the content of every disk block as a reader
  sees it (\<open>view\<close>): \<open>bread\<close> returns it and leaves it alone, whatever the cache has to evict.
\<close>

abbreviation upd_buf :: "nat \<Rightarrow> (buf \<Rightarrow> buf) \<Rightarrow> kernel \<Rightarrow> kernel" where
  "upd_buf i f s \<equiv> s\<lparr>bufs := upd_at i f (bufs s)\<rparr>"

definition ideinit :: "(uint32 \<Rightarrow> block) \<Rightarrow> uint32 \<Rightarrow> kernel \<Rightarrow> kernel" where
  "ideinit fs_img fs_img_size s = s\<lparr>disk := fs_img, disksize := fs_img_size div 512\<rparr>"

definition iderw :: "nat \<Rightarrow> kernel \<Rightarrow> kernel res" where
  "iderw i s =
     (let b = bufs s ! i in
      if \<not> holdingsleep (b_lock b) then Stop (Panic ''iderw: buf not locked'')
      else if b_valid b \<and> \<not> b_dirty b then Stop (Panic ''iderw: nothing to do'')
      else if b_dev b \<noteq> 1 then Stop (Panic ''iderw: request not for disk 1'')
      else if b_blockno b \<ge> disksize s then Stop (Panic ''iderw: block out of range'')
      else let s = (if b_dirty b
                    then (upd_buf i (\<lambda>b. b\<lparr>b_dirty := False\<rparr>) s)
                           \<lparr>disk := (disk s)(b_blockno b := b_data b),
                            disk_writes := disk_writes s @ [(b_blockno b, b_data b)]\<rparr>
                    else upd_buf i (\<lambda>b. b\<lparr>b_data := disk s (b_blockno b)\<rparr>) s)
           in Ok (upd_buf i (\<lambda>b. b\<lparr>b_valid := True\<rparr>) s))"

text \<open>Every buffer is put in front of the list: the last one is the most recently used.\<close>

definition binit :: "kernel \<Rightarrow> kernel" where
  "binit s = foldl (\<lambda>s i. (upd_buf i (\<lambda>b. b\<lparr>b_lock := initsleeplock\<rparr>) s)\<lparr>lru := i # lru s\<rparr>)
     (s\<lparr>lru := []\<rparr>) [0..<NBUF]"

definition lock_buf :: "nat \<Rightarrow> kernel \<Rightarrow> kernel res" where
  "lock_buf i s = andthen (acquiresleep (b_lock (bufs s ! i)) s)
     (\<lambda>lk. Ok (upd_buf i (\<lambda>b. b\<lparr>b_lock := lk\<rparr>) s))"

definition bget :: "uint32 \<Rightarrow> uint32 \<Rightarrow> kernel \<Rightarrow> (nat \<times> kernel) res" where
  "bget dev blockno s =
     (case find (\<lambda>i. b_dev (bufs s ! i) = dev \<and> b_blockno (bufs s ! i) = blockno) (lru s) of
        Some i \<Rightarrow>
          andthen (lock_buf i (upd_buf i (\<lambda>b. b\<lparr>b_refcnt := b_refcnt b + 1\<rparr>) s)) (\<lambda>s. Ok (i, s))
      | None \<Rightarrow>
          case find (\<lambda>i. b_refcnt (bufs s ! i) = 0 \<and> \<not> b_dirty (bufs s ! i)) (rev (lru s)) of
            Some i \<Rightarrow>
              andthen (lock_buf i (upd_buf i (\<lambda>b. b\<lparr>b_dev := dev, b_blockno := blockno,
                b_valid := False, b_dirty := False, b_refcnt := 1\<rparr>) s)) (\<lambda>s. Ok (i, s))
          | None \<Rightarrow> Stop (Panic ''bget: no buffers''))"

definition bread :: "uint32 \<Rightarrow> uint32 \<Rightarrow> kernel \<Rightarrow> (nat \<times> kernel) res" where
  "bread dev blockno s =
     andthen (bget dev blockno s) (\<lambda>(i, s).
       if \<not> b_valid (bufs s ! i) then andthen (iderw i s) (\<lambda>s. Ok (i, s)) else Ok (i, s))"

definition bwrite :: "nat \<Rightarrow> kernel \<Rightarrow> kernel res" where
  "bwrite i s =
     (if \<not> holdingsleep (b_lock (bufs s ! i)) then Stop (Panic ''bwrite'')
      else iderw i (upd_buf i (\<lambda>b. b\<lparr>b_dirty := True\<rparr>) s))"

definition brelse :: "nat \<Rightarrow> kernel \<Rightarrow> kernel res" where
  "brelse i s =
     (if \<not> holdingsleep (b_lock (bufs s ! i)) then Stop (Panic ''brelse'')
      else let (lk, s) = releasesleep (ChanBuf i) (b_lock (bufs s ! i)) s;
               s = upd_buf i (\<lambda>b. b\<lparr>b_lock := lk\<rparr>) s;
               s = upd_buf i (\<lambda>b. b\<lparr>b_refcnt := b_refcnt b - 1\<rparr>) s
           in Ok (if b_refcnt (bufs s ! i) = 0
                  then s\<lparr>lru := i # remove1 i (lru s)\<rparr> else s))"

text \<open>The source writes \<open>b->data\<close> in place; \<open>set_data\<close> stands for such an assignment.\<close>

abbreviation bdata :: "kernel \<Rightarrow> nat \<Rightarrow> block" where
  "bdata s i \<equiv> b_data (bufs s ! i)"

abbreviation set_data :: "nat \<Rightarrow> block \<Rightarrow> kernel \<Rightarrow> kernel" where
  "set_data i d s \<equiv> upd_buf i (\<lambda>b. b\<lparr>b_data := d\<rparr>) s"

section \<open>The invariant and the abstraction\<close>

definition cached :: "kernel \<Rightarrow> uint32 \<Rightarrow> nat option" where
  "cached s b = find_idx (\<lambda>u. b_dev u = 1 \<and> b_blockno u = b \<and> b_valid u) (bufs s)"

definition view :: "kernel \<Rightarrow> uint32 \<Rightarrow> block" where
  "view s b = (case cached s b of Some i \<Rightarrow> bdata s i | None \<Rightarrow> disk s b)"

definition buf_ok :: "kernel \<Rightarrow> buf \<Rightarrow> bool" where
  "buf_ok s b \<longleftrightarrow> length (b_data b) = BSIZE \<and>
     b_refcnt b = (if sl_locked (b_lock b) then 1 else 0) \<and>
     (b_dev b \<noteq> 1 \<longrightarrow> \<not> b_valid b \<and> \<not> b_dirty b \<and> \<not> sl_locked (b_lock b)) \<and>
     (b_dev b = 1 \<longrightarrow> b_blockno b < disksize s) \<and>
     (b_dirty b \<longrightarrow> b_valid b) \<and> (sl_locked (b_lock b) \<longrightarrow> b_valid b) \<and>
     (b_valid b \<and> \<not> b_dirty b \<longrightarrow> b_data b = disk s (b_blockno b))"

definition bcache_ok :: "kernel \<Rightarrow> bool" where
  "bcache_ok s \<longleftrightarrow> length (bufs s) = NBUF \<and> distinct (lru s) \<and> set (lru s) = {..<NBUF} \<and>
     (\<forall>b < disksize s. length (disk s b) = BSIZE) \<and>
     (\<forall>i < NBUF. buf_ok s (bufs s ! i)) \<and>
     (\<forall>i < NBUF. \<forall>j < NBUF. b_dev (bufs s ! i) = 1 \<longrightarrow> b_dev (bufs s ! j) = 1 \<longrightarrow>
        b_blockno (bufs s ! i) = b_blockno (bufs s ! j) \<longrightarrow> i = j)"

text \<open>The blocks whose buffers are locked, and the blocks whose buffers are modified.\<close>

definition held :: "kernel \<Rightarrow> uint32 set" where
  "held s = {b_blockno u | u. u \<in> set (bufs s) \<and> sl_locked (b_lock u)}"

definition dirty :: "kernel \<Rightarrow> uint32 set" where
  "dirty s = {b_blockno u | u. u \<in> set (bufs s) \<and> b_dirty u}"

text \<open>The caller holds buffer \<open>i\<close>, which is that of block \<open>b\<close>.\<close>

definition holds :: "kernel \<Rightarrow> nat \<Rightarrow> uint32 \<Rightarrow> bool" where
  "holds s i b \<longleftrightarrow> i < NBUF \<and> b_dev (bufs s ! i) = 1 \<and> b_blockno (bufs s ! i) = b \<and>
     sl_locked (b_lock (bufs s ! i))"

text \<open>What the operations of the cache may change besides it: sleeping processes wake up.\<close>

definition wakes :: "proc list \<Rightarrow> proc list \<Rightarrow> bool" where
  "wakes = list_all2 (\<lambda>p q. q = p \<or> p_state p = SLEEPING \<and> q = p\<lparr>p_state := RUNNABLE\<rparr>)"

definition cache_frame :: "kernel \<Rightarrow> kernel \<Rightarrow> bool" where
  "cache_frame s s' \<longleftrightarrow> wakes (procs s) (procs s') \<and>
     s' = s\<lparr>procs := procs s', bufs := bufs s', lru := lru s', disk := disk s',
            disk_writes := disk_writes s', log_st := log_st s'\<rparr>"

lemma wakes_refl [simp]: "wakes ps ps"
  by (simp add: wakes_def list_all2_same)

lemma wakes_trans: "wakes ps qs \<Longrightarrow> wakes qs rs \<Longrightarrow> wakes ps rs"
  unfolding wakes_def by (erule (1) list_all2_trans[rotated]) auto

lemma wakes_wakeup [simp]: "wakes (procs s) (procs (wakeup c s))"
  by (auto simp: wakes_def wakeup_def wakeup1_def list_all2_conv_all_nth)

lemma wakes_length: "wakes ps qs \<Longrightarrow> length qs = length ps"
  by (auto simp: wakes_def dest: list_all2_lengthD)

lemma wakes_nth:
  "wakes ps qs \<Longrightarrow> i < length ps \<Longrightarrow> p_state (ps ! i) \<noteq> SLEEPING \<Longrightarrow> qs ! i = ps ! i"
  by (auto simp: wakes_def list_all2_conv_all_nth)

lemma cache_frame_refl [simp]: "cache_frame s s"
  by (simp add: cache_frame_def)

lemma cache_frame_trans: "cache_frame s s' \<Longrightarrow> cache_frame s' s'' \<Longrightarrow> cache_frame s s''"
proof -
  assume a: "cache_frame s s'" "cache_frame s' s''"
  then have w: "wakes (procs s) (procs s'')" by (auto simp: cache_frame_def dest: wakes_trans)
  have "s' = s\<lparr>procs := procs s', bufs := bufs s', lru := lru s', disk := disk s',
      disk_writes := disk_writes s', log_st := log_st s'\<rparr>"
    using a(1) by (simp add: cache_frame_def)
  moreover have "s'' = s'\<lparr>procs := procs s'', bufs := bufs s'', lru := lru s'', disk := disk s'',
      disk_writes := disk_writes s'', log_st := log_st s''\<rparr>"
    using a(2) by (simp add: cache_frame_def)
  ultimately have "s'' = s\<lparr>procs := procs s'', bufs := bufs s'', lru := lru s'', disk := disk s'',
      disk_writes := disk_writes s'', log_st := log_st s''\<rparr>"
    by (cases s, cases s', cases s'') simp
  with w show ?thesis unfolding cache_frame_def by blast
qed

lemma cache_frameD:
  assumes "cache_frame s s'"
  shows "mem s' = mem s" "kmem s' = kmem s" "page_counter s' = page_counter s"
    "total_free_pages s' = total_free_pages s" "cur s' = cur s" "nextpid s' = nextpid s"
    "initproc s' = initproc s" "ticks s' = ticks s" "kpgdir s' = kpgdir s"
    "disksize s' = disksize s" "sb s' = sb s" "icache s' = icache s" "ftable s' = ftable s"
    "pipes s' = pipes s" "devsw s' = devsw s" "cons s' = cons s"
proof -
  define ps bs l d dw lg where "ps = procs s'" "bs = bufs s'" "l = lru s'" "d = disk s'"
    "dw = disk_writes s'" "lg = log_st s'"
  then have s': "s' = s\<lparr>procs := ps, bufs := bs, lru := l, disk := d, disk_writes := dw, log_st := lg\<rparr>"
    using assms by (simp add: cache_frame_def)
  show "mem s' = mem s" "kmem s' = kmem s" "page_counter s' = page_counter s"
    "total_free_pages s' = total_free_pages s" "cur s' = cur s" "nextpid s' = nextpid s"
    "initproc s' = initproc s" "ticks s' = ticks s" "kpgdir s' = kpgdir s"
    "disksize s' = disksize s" "sb s' = sb s" "icache s' = icache s" "ftable s' = ftable s"
    "pipes s' = pipes s" "devsw s' = devsw s" "cons s' = cons s"
    unfolding s' by simp_all
qed

text \<open>The caller is a running process.\<close>

definition in_proc :: "kernel \<Rightarrow> bool" where
  "in_proc s \<longleftrightarrow> (\<exists>c < length (procs s). cur s = Some c \<and> p_state (procs s ! c) = RUNNING)"

lemma in_proc_frame:
  assumes "cache_frame s s'" "in_proc s"
  shows "in_proc s'" "myproc s' = myproc s"
proof -
  have w: "wakes (procs s) (procs s')" using assms(1) unfolding cache_frame_def by blast
  obtain c where c: "c < length (procs s)" "cur s = Some c" "p_state (procs s ! c) = RUNNING"
    using assms(2) by (auto simp: in_proc_def)
  then have "procs s' ! c = procs s ! c" "cur s' = Some c" "length (procs s') = length (procs s)"
    using wakes_nth[OF w c(1)] wakes_length[OF w] cache_frameD(5)[OF assms(1)] by auto
  then show "in_proc s'" "myproc s' = myproc s" using c by (auto simp: in_proc_def myproc_def)
qed

section \<open>Views\<close>

lemma cached_iff:
  assumes "bcache_ok s"
  shows "cached s b = Some i \<longleftrightarrow> i < NBUF \<and> b_dev (bufs s ! i) = 1 \<and>
    b_blockno (bufs s ! i) = b \<and> b_valid (bufs s ! i)"
proof -
  have u: "i = j" if "i < NBUF" "b_dev (bufs s ! i) = 1" "b_blockno (bufs s ! i) = b"
    "j < NBUF" "b_dev (bufs s ! j) = 1" "b_blockno (bufs s ! j) = b" for i j
    using assms that unfolding bcache_ok_def by blast
  have l: "length (bufs s) = NBUF" using assms by (simp add: bcache_ok_def)
  show ?thesis
    unfolding cached_def find_idx_Some_iff l using u[of i] by (auto dest: order.strict_trans)
qed

lemma view_buf:
  "bcache_ok s \<Longrightarrow> i < NBUF \<Longrightarrow> b_dev (bufs s ! i) = 1 \<Longrightarrow> b_valid (bufs s ! i) \<Longrightarrow>
    view s (b_blockno (bufs s ! i)) = bdata s i"
  using cached_iff[of s "b_blockno (bufs s ! i)" i] by (simp add: view_def)

lemma bcache_buf_ok: "bcache_ok s \<Longrightarrow> i < NBUF \<Longrightarrow> buf_ok s (bufs s ! i)"
  by (simp add: bcache_ok_def)

lemma view_clean:
  assumes "bcache_ok s" "b \<notin> dirty s"
  shows "view s b = disk s b"
proof (cases "cached s b")
  case (Some i)
  then have i: "i < NBUF" "b_dev (bufs s ! i) = 1" "b_blockno (bufs s ! i) = b" "b_valid (bufs s ! i)"
    using cached_iff[OF assms(1)] by auto
  moreover have "i < length (bufs s)" using assms(1) i(1) by (simp add: bcache_ok_def)
  ultimately have "\<not> b_dirty (bufs s ! i)" using assms(2) by (auto simp: dirty_def)
  then show ?thesis using bcache_buf_ok[OF assms(1) i(1)] i Some by (simp add: buf_ok_def view_def)
qed (simp add: view_def)

lemma in_dirty: "bcache_ok s \<Longrightarrow> b \<in> dirty s \<longleftrightarrow> (\<exists>i < NBUF. b_dirty (bufs s ! i) \<and> b_blockno (bufs s ! i) = b)"
  by (auto simp: dirty_def bcache_ok_def in_set_conv_nth)

lemma in_held: "bcache_ok s \<Longrightarrow> b \<in> held s \<longleftrightarrow>
    (\<exists>i < NBUF. sl_locked (b_lock (bufs s ! i)) \<and> b_blockno (bufs s ! i) = b)"
  by (auto simp: held_def bcache_ok_def in_set_conv_nth)

lemma held_eqI:
  assumes "bcache_ok s" "bcache_ok s'"
    and "\<And>j. j < NBUF \<Longrightarrow> sl_locked (b_lock (bufs s' ! j)) = sl_locked (b_lock (bufs s ! j)) \<and>
      b_blockno (bufs s' ! j) = b_blockno (bufs s ! j)"
  shows "held s' = held s"
proof -
  have "c \<in> held s' \<longleftrightarrow> c \<in> held s" for c
    unfolding in_held[OF assms(1)] in_held[OF assms(2)] using assms(3) by metis
  then show ?thesis by blast
qed

lemma view_length: "bcache_ok s \<Longrightarrow> b < disksize s \<Longrightarrow> length (view s b) = BSIZE"
proof (cases "cached s b")
  case (Some i)
  assume "bcache_ok s"
  then show ?thesis using Some cached_iff[of s b i] bcache_buf_ok[of s i] by (simp add: view_def buf_ok_def)
qed (simp add: view_def bcache_ok_def)

lemma holds_data: "bcache_ok s \<Longrightarrow> holds s i b \<Longrightarrow> bdata s i = view s b"
  using view_buf[of s i] bcache_buf_ok[of s i] by (auto simp: holds_def buf_ok_def)

lemma holds_held: "bcache_ok s \<Longrightarrow> holds s i b \<Longrightarrow> b \<in> held s"
  by (auto simp: in_held holds_def)

lemma holds_inj: "bcache_ok s \<Longrightarrow> holds s i b \<Longrightarrow> holds s j b \<Longrightarrow> i = j"
  by (simp add: holds_def bcache_ok_def)

lemma view_eqI:
  assumes ok: "bcache_ok s" "bcache_ok s'" and d: "disk s' = disk s"
    and e: "\<forall>j < NBUF. b_dirty (bufs s' ! j) = b_dirty (bufs s ! j) \<and> (b_dirty (bufs s ! j) \<longrightarrow>
      b_blockno (bufs s' ! j) = b_blockno (bufs s ! j) \<and> bdata s' j = bdata s j)"
  shows "view s' = view s" "dirty s' = dirty s"
proof -
  have "b \<in> dirty s' \<longleftrightarrow> b \<in> dirty s" for b
    unfolding in_dirty[OF ok(1)] in_dirty[OF ok(2)] using e by metis
  then show dd: "dirty s' = dirty s" by blast
  show "view s' = view s"
  proof
    fix b show "view s' b = view s b"
    proof (cases "b \<in> dirty s")
      case True
      then obtain i where i: "i < NBUF" "b_dirty (bufs s ! i)" "b_blockno (bufs s ! i) = b"
        by (auto simp: in_dirty[OF ok(1)])
      then have "b_dirty (bufs s' ! i)" "b_blockno (bufs s' ! i) = b" "bdata s' i = bdata s i"
        using e by auto
      then show ?thesis
        using i view_buf[OF ok(1) i(1)] view_buf[OF ok(2) i(1)]
          bcache_buf_ok[OF ok(1) i(1)] bcache_buf_ok[OF ok(2) i(1)] by (auto simp: buf_ok_def)
    next
      case False
      then show ?thesis using view_clean[OF ok(1)] view_clean[OF ok(2)] d dd by simp
    qed
  qed
qed

lemma bcache_ok_put:
  assumes ok: "bcache_ok s" and i: "i < NBUF" and u: "buf_ok s u"
    and un: "\<forall>j < NBUF. j \<noteq> i \<longrightarrow> b_dev (bufs s ! j) = 1 \<longrightarrow> b_dev u = 1 \<longrightarrow>
      b_blockno (bufs s ! j) \<noteq> b_blockno u"
  shows "bcache_ok (s\<lparr>bufs := (bufs s)[i := u]\<rparr>)"
  using ok i u un by (simp add: bcache_ok_def buf_ok_def nth_list_update) metis

section \<open>Reading a block\<close>

lemma lock_buf_Ok:
  assumes "in_proc s" "i < length (bufs s)" "\<not> sl_locked (b_lock (bufs s ! i))"
  obtains lk where "lock_buf i s = Ok (upd_buf i (\<lambda>b. b\<lparr>b_lock := lk\<rparr>) s)" "sl_locked lk"
  using assms by (auto simp: lock_buf_def acquiresleep_def in_proc_def myproc_def)

lemma unlocked_clean_exists:
  assumes ok: "bcache_ok s" and c: "card (held s \<union> dirty s) < NBUF"
  shows "\<exists>i < NBUF. \<not> sl_locked (b_lock (bufs s ! i)) \<and> \<not> b_dirty (bufs s ! i)"
proof (rule ccontr)
  assume "\<not> ?thesis"
  then have a: "sl_locked (b_lock (bufs s ! i)) \<or> b_dirty (bufs s ! i)" if "i < NBUF" for i
    using that by auto
  have "b_dev (bufs s ! i) = 1" if "i < NBUF" for i
    using a[OF that] bcache_buf_ok[OF ok that] by (auto simp: buf_ok_def)
  then have "inj_on (\<lambda>i. b_blockno (bufs s ! i)) {..<NBUF}"
    using ok by (auto simp: bcache_ok_def inj_on_def)
  moreover have "b_blockno (bufs s ! i) \<in> held s \<union> dirty s" if "i < NBUF" for i
    using a[OF that] that unfolding Un_iff in_held[OF ok] in_dirty[OF ok] by blast
  then have "(\<lambda>i. b_blockno (bufs s ! i)) ` {..<NBUF} \<subseteq> held s \<union> dirty s" by blast
  moreover have "finite (held s \<union> dirty s)" by simp
  ultimately have "card {..<NBUF} \<le> card (held s \<union> dirty s)" by (metis card_inj_on_le)
  with c show False by simp
qed

lemma bget_cached:
  assumes ok: "bcache_ok s" and pr: "in_proc s"
    and i: "find (\<lambda>i. b_dev (bufs s ! i) = 1 \<and> b_blockno (bufs s ! i) = b) (lru s) = Some i"
    and h: "b \<notin> held s"
  obtains lk where "bget 1 b s = Ok (i, upd_buf i (\<lambda>u. u\<lparr>b_refcnt := 1, b_lock := lk\<rparr>) s)"
    "sl_locked lk" "i < NBUF" "b_dev (bufs s ! i) = 1" "b_blockno (bufs s ! i) = b"
    "\<not> sl_locked (b_lock (bufs s ! i))"
proof -
  have f: "i < NBUF" "b_dev (bufs s ! i) = 1" "b_blockno (bufs s ! i) = b" "length (bufs s) = NBUF"
    using i ok by (auto simp: find_Some_iff bcache_ok_def)
  then have nl: "\<not> sl_locked (b_lock (bufs s ! i))" using h in_held[OF ok] by auto
  then have r: "b_refcnt (bufs s ! i) = 0" using bcache_buf_ok[OF ok f(1)] by (simp add: buf_ok_def)
  let ?s = "upd_buf i (\<lambda>b. b\<lparr>b_refcnt := b_refcnt b + 1\<rparr>) s"
  have "in_proc ?s" using pr by (simp add: in_proc_def)
  then obtain lk where lk: "lock_buf i ?s = Ok (upd_buf i (\<lambda>b. b\<lparr>b_lock := lk\<rparr>) ?s)" "sl_locked lk"
    using lock_buf_Ok[of ?s i] f nl by auto
  show thesis
    using that[of lk] i lk f nl r by (simp add: bget_def upd_at_def)
qed

lemma bget_recycled:
  assumes ok: "bcache_ok s" and pr: "in_proc s"
    and i: "find (\<lambda>i. b_dev (bufs s ! i) = 1 \<and> b_blockno (bufs s ! i) = b) (lru s) = None"
    and c: "card (held s \<union> dirty s) < NBUF"
  obtains i lk where "bget 1 b s = Ok (i, upd_buf i (\<lambda>u. u\<lparr>b_dev := 1, b_blockno := b,
      b_valid := False, b_dirty := False, b_refcnt := 1, b_lock := lk\<rparr>) s)"
    "sl_locked lk" "i < NBUF" "\<not> sl_locked (b_lock (bufs s ! i))" "\<not> b_dirty (bufs s ! i)"
proof -
  have l: "length (bufs s) = NBUF" "set (lru s) = {..<NBUF}" using ok by (auto simp: bcache_ok_def)
  have rc: "b_refcnt (bufs s ! i) = 0 \<longleftrightarrow> \<not> sl_locked (b_lock (bufs s ! i))" if "i < NBUF" for i
    using bcache_buf_ok[OF ok that] by (auto simp: buf_ok_def)
  have "find (\<lambda>i. b_refcnt (bufs s ! i) = 0 \<and> \<not> b_dirty (bufs s ! i)) (rev (lru s)) \<noteq> None"
    using unlocked_clean_exists[OF ok c] rc l(2) by (auto simp: find_None_iff)
  then obtain j where j: "find (\<lambda>i. b_refcnt (bufs s ! i) = 0 \<and> \<not> b_dirty (bufs s ! i)) (rev (lru s)) = Some j"
    by auto
  then have jj: "j \<in> set (rev (lru s))" "b_refcnt (bufs s ! j) = 0" "\<not> b_dirty (bufs s ! j)"
    by (auto simp: find_Some_iff in_set_conv_nth simp del: set_rev)
  then have f: "j < NBUF" "\<not> sl_locked (b_lock (bufs s ! j))" using l rc by auto
  let ?s = "upd_buf j (\<lambda>u. u\<lparr>b_dev := 1, b_blockno := b, b_valid := False, b_dirty := False, b_refcnt := 1\<rparr>) s"
  have "in_proc ?s" using pr by (simp add: in_proc_def)
  then obtain lk where lk: "lock_buf j ?s = Ok (upd_buf j (\<lambda>b. b\<lparr>b_lock := lk\<rparr>) ?s)" "sl_locked lk"
    using lock_buf_Ok[of ?s j] f l by auto
  show thesis
    using that[of j lk] i j lk f l jj by (simp add: bget_def upd_at_def)
qed

text \<open>
  What \<open>bread\<close> does to the state: it puts a locked, valid buffer with the block in one slot.
\<close>

definition read_slot :: "kernel \<Rightarrow> uint32 \<Rightarrow> nat \<Rightarrow> buf \<Rightarrow> bool" where
  "read_slot s b i u \<longleftrightarrow> i < NBUF \<and> buf_ok s u \<and> b_dev u = 1 \<and> b_blockno u = b \<and>
     sl_locked (b_lock u) \<and> \<not> sl_locked (b_lock (bufs s ! i)) \<and>
     b_dirty u = b_dirty (bufs s ! i) \<and>
     (b_dirty u \<longrightarrow> b_blockno (bufs s ! i) = b \<and> b_data u = bdata s i) \<and>
     (\<forall>j < NBUF. j \<noteq> i \<longrightarrow> b_dev (bufs s ! j) = 1 \<longrightarrow> b_blockno (bufs s ! j) \<noteq> b)"

lemma bread_slot:
  assumes ok: "bcache_ok s" and pr: "in_proc s" and b: "b < disksize s" "b \<notin> held s"
    and c: "b \<in> dirty s \<or> card (held s \<union> dirty s) < NBUF"
  obtains i u where "bread 1 b s = Ok (i, s\<lparr>bufs := (bufs s)[i := u]\<rparr>)" "read_slot s b i u"
proof (cases "find (\<lambda>i. b_dev (bufs s ! i) = 1 \<and> b_blockno (bufs s ! i) = b) (lru s)")
  case (Some i)
  from bget_cached[OF ok pr Some b(2)] obtain lk where
    g: "bget 1 b s = Ok (i, upd_buf i (\<lambda>u. u\<lparr>b_refcnt := 1, b_lock := lk\<rparr>) s)"
    and i: "sl_locked lk" "i < NBUF" "b_dev (bufs s ! i) = 1" "b_blockno (bufs s ! i) = b"
      "\<not> sl_locked (b_lock (bufs s ! i))" by blast
  have l: "length (bufs s) = NBUF" "length (disk s b) = BSIZE" using ok b by (auto simp: bcache_ok_def)
  have o: "buf_ok s (bufs s ! i)" by (rule bcache_buf_ok[OF ok i(2)])
  have un: "\<forall>j < NBUF. j \<noteq> i \<longrightarrow> b_dev (bufs s ! j) = 1 \<longrightarrow> b_blockno (bufs s ! j) \<noteq> b"
    using ok i(2-4) unfolding bcache_ok_def by blast
  let ?u = "(bufs s ! i)\<lparr>b_refcnt := 1, b_lock := lk\<rparr>"
  let ?v = "?u\<lparr>b_data := disk s b, b_valid := True\<rparr>"
  show thesis
  proof (cases "b_valid (bufs s ! i)")
    case True
    then show thesis
      using that[of i ?u] g i o l un by (simp add: bread_def upd_at_def read_slot_def buf_ok_def)
  next
    case False
    then show thesis
      using that[of i ?v] g i o l un b
      by (simp add: bread_def upd_at_def read_slot_def buf_ok_def iderw_def holdingsleep_def Let_def not_le)
  qed
next
  case None
  have l: "length (bufs s) = NBUF" "length (disk s b) = BSIZE" using ok b by (auto simp: bcache_ok_def)
  have un: "\<forall>j < NBUF. b_dev (bufs s ! j) = 1 \<longrightarrow> b_blockno (bufs s ! j) \<noteq> b"
    using None ok by (auto simp: find_None_iff bcache_ok_def)
  have "b \<notin> dirty s"
    using un bcache_buf_ok[OF ok] by (auto simp: in_dirty[OF ok] buf_ok_def)
  with c have "card (held s \<union> dirty s) < NBUF" by blast
  from bget_recycled[OF ok pr None this] obtain i lk where
    g: "bget 1 b s = Ok (i, upd_buf i (\<lambda>u. u\<lparr>b_dev := 1, b_blockno := b,
      b_valid := False, b_dirty := False, b_refcnt := 1, b_lock := lk\<rparr>) s)"
    and i: "sl_locked lk" "i < NBUF" "\<not> sl_locked (b_lock (bufs s ! i))" "\<not> b_dirty (bufs s ! i)"
    by blast
  let ?u = "(bufs s ! i)\<lparr>b_dev := 1, b_blockno := b, b_dirty := False, b_refcnt := 1, b_lock := lk,
    b_data := disk s b, b_valid := True\<rparr>"
  show thesis
    using that[of i ?u] g i l un b
    by (simp add: bread_def upd_at_def read_slot_def buf_ok_def iderw_def holdingsleep_def Let_def not_le)
qed

lemma read_slot_put:
  assumes ok: "bcache_ok s" and r: "read_slot s b i u"
  defines "s' \<equiv> s\<lparr>bufs := (bufs s)[i := u]\<rparr>"
  shows "bcache_ok s'" "holds s' i b" "view s' = view s" "dirty s' = dirty s"
    "held s' = insert b (held s)" "holds s j c \<Longrightarrow> holds s' j c" "cache_frame s s'"
proof -
  have l: "length (bufs s) = NBUF" using ok by (simp add: bcache_ok_def)
  show ok': "bcache_ok s'"
    unfolding s'_def by (rule bcache_ok_put[OF ok]) (use r in \<open>auto simp: read_slot_def\<close>)
  show "holds s' i b" using r l by (auto simp: s'_def holds_def read_slot_def)
  show "holds s j c \<Longrightarrow> holds s' j c"
    using r l by (cases "j = i") (auto simp: s'_def holds_def read_slot_def)
  have "\<forall>j < NBUF. b_dirty (bufs s' ! j) = b_dirty (bufs s ! j) \<and> (b_dirty (bufs s ! j) \<longrightarrow>
      b_blockno (bufs s' ! j) = b_blockno (bufs s ! j) \<and> bdata s' j = bdata s j)"
    using r l by (auto simp: s'_def read_slot_def nth_list_update)
  from view_eqI[OF ok ok' _ this] show "view s' = view s" "dirty s' = dirty s"
    by (simp_all add: s'_def)
  have "c \<in> held s' \<longleftrightarrow> c \<in> insert b (held s)" for c
    unfolding insert_iff in_held[OF ok] in_held[OF ok'] using r l
    by (auto simp: s'_def read_slot_def nth_list_update)
  then show "held s' = insert b (held s)" by blast
  show "cache_frame s s'" by (simp add: cache_frame_def s'_def)
qed

lemma in_proc_simp: "procs s' = procs s \<Longrightarrow> cur s' = cur s \<Longrightarrow> in_proc s' = in_proc s"
  by (simp add: in_proc_def)

text \<open>The operations of the cache keep the disk and the log apart from what they say.\<close>

definition disk_frame :: "kernel \<Rightarrow> kernel \<Rightarrow> bool" where
  "disk_frame s s' \<longleftrightarrow> cache_frame s s' \<and> disk s' = disk s \<and> disk_writes s' = disk_writes s \<and>
     log_st s' = log_st s"

lemma disk_frame_refl [simp]: "disk_frame s s"
  by (simp add: disk_frame_def)

lemma disk_frame_trans: "disk_frame s s' \<Longrightarrow> disk_frame s' s'' \<Longrightarrow> disk_frame s s''"
  by (auto simp: disk_frame_def intro: cache_frame_trans)

lemma bread_Ok:
  assumes "bcache_ok s" "in_proc s" "b < disksize s" "b \<notin> held s"
    "b \<in> dirty s \<or> card (held s \<union> dirty s) < NBUF"
  obtains i s' where "bread 1 b s = Ok (i, s')" "bcache_ok s'" "in_proc s'" "holds s' i b"
    "view s' = view s" "dirty s' = dirty s" "held s' = insert b (held s)" "disk_frame s s'"
    "\<forall>j c. holds s j c \<longrightarrow> holds s' j c"
proof -
  obtain i u where r: "bread 1 b s = Ok (i, s\<lparr>bufs := (bufs s)[i := u]\<rparr>)" "read_slot s b i u"
    using bread_slot[OF assms] by blast
  show thesis
    using that[OF r(1)] read_slot_put[OF assms(1) r(2)] assms(2)
    by (simp add: disk_frame_def in_proc_def)
qed

section \<open>Writing and releasing a buffer\<close>

text \<open>A change of a held buffer that leaves its place alone.\<close>

lemma holds_put:
  assumes ok: "bcache_ok s" and h: "holds s i b"
    and u: "b_dev (g (bufs s ! i)) = 1" "b_blockno (g (bufs s ! i)) = b" "sl_locked (b_lock (g (bufs s ! i)))"
  defines "s' \<equiv> upd_buf i g s"
  shows "holds s' j c \<longleftrightarrow> holds s j c" "buf_ok s (g (bufs s ! i)) \<Longrightarrow> bcache_ok s'"
    "bcache_ok s' \<Longrightarrow> held s' = held s"
proof -
  have l: "length (bufs s) = NBUF" "i < NBUF" using ok h by (auto simp: bcache_ok_def holds_def)
  show "holds s' j c \<longleftrightarrow> holds s j c"
    using l h u by (cases "j = i") (auto simp: s'_def holds_def)
  have un: "\<forall>j < NBUF. j \<noteq> i \<longrightarrow> b_dev (bufs s ! j) = 1 \<longrightarrow> b_blockno (bufs s ! j) \<noteq> b"
    using ok h unfolding bcache_ok_def holds_def by blast
  show "bcache_ok s'" if "buf_ok s (g (bufs s ! i))"
    unfolding s'_def upd_at_def by (rule bcache_ok_put[OF ok l(2) that]) (use un u in auto)
  show "held s' = held s" if "bcache_ok s'"
    by (rule held_eqI[OF ok that]) (use l h u in \<open>auto simp: s'_def nth_upd_at holds_def\<close>)
qed

text \<open>\<open>b->data\<close> is assigned and the buffer marked \<open>B_DIRTY\<close>, as \<open>log_write\<close> does.\<close>

lemma mark_dirty_Ok:
  assumes ok: "bcache_ok s" and h: "holds s i b" and d: "length d = BSIZE"
  defines "s' \<equiv> upd_buf i (\<lambda>u. u\<lparr>b_data := d, b_dirty := True\<rparr>) s"
  shows "bcache_ok s'" "view s' = (view s)(b := d)" "dirty s' = insert b (dirty s)"
    "held s' = held s" "holds s' j c \<longleftrightarrow> holds s j c"
proof -
  have l: "length (bufs s) = NBUF" "i < NBUF" "b_dev (bufs s ! i) = 1" "b_blockno (bufs s ! i) = b"
    "sl_locked (b_lock (bufs s ! i))" using ok h by (auto simp: bcache_ok_def holds_def)
  note p = holds_put[OF ok h, of "\<lambda>u. u\<lparr>b_data := d, b_dirty := True\<rparr>", folded s'_def]
  show ok': "bcache_ok s'"
    using p(2) l d bcache_buf_ok[OF ok l(2)] by (simp add: buf_ok_def)
  show "held s' = held s" "holds s' j c \<longleftrightarrow> holds s j c" using p(1,3) ok' l by simp_all
  have "b_dirty (bufs s' ! j) \<longleftrightarrow> j = i \<or> b_dirty (bufs s ! j)"
    "b_blockno (bufs s' ! j) = b_blockno (bufs s ! j)" if "j < NBUF" for j
    using that l by (auto simp: s'_def nth_upd_at)
  then have "c \<in> dirty s' \<longleftrightarrow> c \<in> insert b (dirty s)" for c
    unfolding insert_iff in_dirty[OF ok] in_dirty[OF ok'] using l by metis
  then show "dirty s' = insert b (dirty s)" by blast
  show "view s' = (view s)(b := d)"
  proof
    fix c show "view s' c = ((view s)(b := d)) c"
    proof (cases "c = b")
      case True
      then show ?thesis using view_buf[OF ok' l(2)] l bcache_buf_ok[OF ok l(2)]
        by (auto simp: s'_def buf_ok_def)
    next
      case False
      have "cached s' c = cached s c"
      proof -
        have "cached s' c = Some j \<longleftrightarrow> cached s c = Some j" for j
          unfolding cached_iff[OF ok] cached_iff[OF ok'] using l False
          by (cases "j = i") (auto simp: s'_def)
        then show ?thesis by (metis option.exhaust)
      qed
      moreover have "cached s c \<noteq> Some i" using cached_iff[OF ok, of c i] l False by auto
      ultimately show ?thesis using False l
        by (auto simp: view_def s'_def split: option.splits)
    qed
  qed
qed

lemma bwrite_Ok:
  assumes ok: "bcache_ok s" and h: "holds s i b" and d: "length d = BSIZE" and pr: "in_proc s"
  obtains s' where "bwrite i (set_data i d s) = Ok s'" "bcache_ok s'" "in_proc s'"
    "view s' = (view s)(b := d)" "dirty s' = dirty s - {b}" "held s' = held s"
    "disk s' = (disk s)(b := d)" "disk_writes s' = disk_writes s @ [(b, d)]"
    "log_st s' = log_st s" "cache_frame s s'" "\<forall>j c. holds s' j c \<longleftrightarrow> holds s j c"
proof -
  have l: "length (bufs s) = NBUF" "i < NBUF" "b_dev (bufs s ! i) = 1" "b_blockno (bufs s ! i) = b"
    "sl_locked (b_lock (bufs s ! i))" using ok h by (auto simp: bcache_ok_def holds_def)
  have bd: "b < disksize s" using bcache_buf_ok[OF ok l(2)] l by (simp add: buf_ok_def)
  define u where "u = (bufs s ! i)\<lparr>b_data := d, b_dirty := False, b_valid := True\<rparr>"
  define s1 where "s1 = s\<lparr>bufs := (bufs s)[i := u]\<rparr>"
  define s' where "s' = s1\<lparr>disk := (disk s)(b := d), disk_writes := disk_writes s @ [(b, d)]\<rparr>"
  have r: "bwrite i (set_data i d s) = Ok s'"
    using l bd by (simp add: bwrite_def iderw_def holdingsleep_def Let_def not_le s'_def s1_def u_def upd_at_def)
  have un: "\<forall>j < NBUF. j \<noteq> i \<longrightarrow> b_dev (bufs s ! j) = 1 \<longrightarrow> b_blockno (bufs s ! j) \<noteq> b"
    using ok h unfolding bcache_ok_def holds_def by blast
  have bk: "bufs s' ! j = (if j = i then u else bufs s ! j)" if "j < NBUF" for j
    using that l by (simp add: s'_def s1_def)
  have "buf_ok s' (bufs s' ! j)" if "j < NBUF" for j
    using bcache_buf_ok[OF ok that] that un l d bd
    by (cases "j = i") (auto simp: bk buf_ok_def u_def s'_def s1_def)
  moreover have "length (disk s' c) = BSIZE" if "c < disksize s'" for c
    using ok that d by (auto simp: s'_def s1_def bcache_ok_def)
  moreover have "i' = j" if "i' < NBUF" "j < NBUF" "b_dev (bufs s' ! i') = 1"
    "b_dev (bufs s' ! j) = 1" "b_blockno (bufs s' ! i') = b_blockno (bufs s' ! j)" for i' j
  proof -
    have k: "b_dev (bufs s' ! k) = b_dev (bufs s ! k)" "b_blockno (bufs s' ! k) = b_blockno (bufs s ! k)"
      if "k < NBUF" for k using that l by (auto simp: bk u_def)
    then show ?thesis using that ok unfolding bcache_ok_def by metis
  qed
  ultimately have ok': "bcache_ok s'"
    using ok by (simp add: bcache_ok_def s'_def s1_def)
  have hh: "holds s' j c \<longleftrightarrow> holds s j c" for j c
    using l h by (cases "j = i") (auto simp: holds_def s'_def s1_def u_def)
  have he: "held s' = held s" by (rule held_eqI[OF ok ok']) (auto simp: bk u_def)
  have dj: "b_dirty (bufs s' ! j) \<longleftrightarrow> j \<noteq> i \<and> b_dirty (bufs s ! j)"
    "b_blockno (bufs s' ! j) = b_blockno (bufs s ! j)" if "j < NBUF" for j
    using that l by (auto simp: bk u_def)
  have "b_blockno (bufs s ! j) \<noteq> b" if "j < NBUF" "j \<noteq> i" "b_dirty (bufs s ! j)" for j
    using un that bcache_buf_ok[OF ok that(1)] by (auto simp: buf_ok_def)
  then have dm: "c \<in> dirty s' \<longleftrightarrow> c \<in> dirty s - {b}" for c
    unfolding Diff_iff in_dirty[OF ok] in_dirty[OF ok'] using l dj by (metis (no_types, lifting) singleton_iff)
  then have di: "dirty s' = dirty s - {b}" by blast
  have v: "view s' c = ((view s)(b := d)) c" for c
  proof (cases "c \<in> dirty s'")
    case True
    then obtain j where j: "j < NBUF" "j \<noteq> i" "b_dirty (bufs s ! j)" "b_blockno (bufs s ! j) = c" "c \<noteq> b"
      using dm[of c] dj in_dirty[OF ok', of c] by auto
    then have "b_dev (bufs s ! j) = 1" "b_valid (bufs s ! j)"
      using bcache_buf_ok[OF ok j(1)] by (auto simp: buf_ok_def)
    then show ?thesis using view_buf[OF ok j(1)] view_buf[OF ok' j(1)] j by (simp add: bk)
  next
    case False
    then show ?thesis using view_clean[OF ok'] view_clean[OF ok] dm by (auto simp: s'_def)
  qed
  have "disk s' = (disk s)(b := d)" "disk_writes s' = disk_writes s @ [(b, d)]"
    "log_st s' = log_st s" "cache_frame s s'" "in_proc s'"
    using pr by (simp_all add: s'_def s1_def cache_frame_def in_proc_def)
  then show thesis using that[OF r ok' _ ext[OF v] di he] hh by blast
qed

lemma brelse_Ok:
  assumes ok: "bcache_ok s" and h: "holds s i b" and pr: "in_proc s"
  obtains s' where "brelse i s = Ok s'" "bcache_ok s'" "in_proc s'" "view s' = view s"
    "dirty s' = dirty s" "held s' = held s - {b}" "disk_frame s s'"
    "\<forall>j c. holds s' j c \<longleftrightarrow> holds s j c \<and> j \<noteq> i"
proof -
  have l: "length (bufs s) = NBUF" "i < NBUF" "b_dev (bufs s ! i) = 1" "b_blockno (bufs s ! i) = b"
    "sl_locked (b_lock (bufs s ! i))" using ok h by (auto simp: bcache_ok_def holds_def)
  have rc: "b_refcnt (bufs s ! i) = 1" using bcache_buf_ok[OF ok l(2)] l by (simp add: buf_ok_def)
  define u where "u = (bufs s ! i)\<lparr>b_lock := (b_lock (bufs s ! i))\<lparr>sl_locked := False, sl_pid := 0\<rparr>, b_refcnt := 0\<rparr>"
  define s' where "s' = s\<lparr>bufs := (bufs s)[i := u], procs := procs (wakeup (ChanBuf i) s),
    lru := i # remove1 i (lru s)\<rparr>"
  have r: "brelse i s = Ok s'"
    using l rc by (simp add: brelse_def holdingsleep_def releasesleep_def wakeup_def wakeup1_def
        s'_def u_def upd_at_def)
  have bk: "bufs s' ! j = (if j = i then u else bufs s ! j)" if "j < NBUF" for j
    using that l by (simp add: s'_def)
  have un: "\<forall>j < NBUF. j \<noteq> i \<longrightarrow> b_dev (bufs s ! j) = 1 \<longrightarrow> b_blockno (bufs s ! j) \<noteq> b"
    using ok h unfolding bcache_ok_def holds_def by blast
  have "bcache_ok (s\<lparr>bufs := (bufs s)[i := u]\<rparr>)"
    by (rule bcache_ok_put[OF ok l(2)])
      (use un l bcache_buf_ok[OF ok l(2)] in \<open>auto simp: buf_ok_def u_def\<close>)
  moreover have "distinct (lru s')" "set (lru s') = {..<NBUF}"
    using ok l(2) by (auto simp: s'_def bcache_ok_def)
  ultimately have ok': "bcache_ok s'" by (simp add: bcache_ok_def buf_ok_def s'_def)
  have "\<forall>j < NBUF. b_dirty (bufs s' ! j) = b_dirty (bufs s ! j) \<and> (b_dirty (bufs s ! j) \<longrightarrow>
      b_blockno (bufs s' ! j) = b_blockno (bufs s ! j) \<and> bdata s' j = bdata s j)"
    by (auto simp: bk u_def)
  from view_eqI[OF ok ok' _ this] have v: "view s' = view s" "dirty s' = dirty s"
    by (simp_all add: s'_def)
  have hj: "holds s' j c \<longleftrightarrow> holds s j c \<and> j \<noteq> i" for j c
    by (cases "j = i") (auto simp: holds_def bk u_def)
  have "sl_locked (b_lock (bufs s' ! j)) \<longleftrightarrow> j \<noteq> i \<and> sl_locked (b_lock (bufs s ! j))"
    "b_blockno (bufs s' ! j) = b_blockno (bufs s ! j)" if "j < NBUF" for j
    using that by (auto simp: bk u_def)
  moreover have "b_blockno (bufs s ! j) \<noteq> b" if "j < NBUF" "j \<noteq> i" "sl_locked (b_lock (bufs s ! j))" for j
    using un that bcache_buf_ok[OF ok that(1)] by (auto simp: buf_ok_def)
  ultimately have "c \<in> held s' \<longleftrightarrow> c \<in> held s - {b}" for c
    unfolding Diff_iff in_held[OF ok] in_held[OF ok'] using l by auto
  then have he: "held s' = held s - {b}" by blast
  have fr: "disk_frame s s'" by (simp add: disk_frame_def cache_frame_def s'_def)
  then have "in_proc s'" using in_proc_frame pr by (auto simp: disk_frame_def)
  then show thesis using that[OF r ok' _ v he fr] hj by blast
qed

end
