(* ===== verification/Bytes.thy ===== *)
theory Bytes
  imports Memory
begin

text \<open>
  Structures stored in blocks of bytes.  The source casts \<open>b->data\<close> to a pointer to a structure
  and reads and writes its fields; here the fields are read from, and stored into, a list of bytes
  at their offsets, in the byte order of the x86.
\<close>

definition le32 :: "uint32 \<Rightarrow> byte list" where
  "le32 w = [ucast w, ucast (drop_bit 8 w), ucast (drop_bit 16 w), ucast (drop_bit 24 w)]"

definition of_le32 :: "byte list \<Rightarrow> uint32" where
  "of_le32 bs = ucast (bs ! 0) OR push_bit 8 (ucast (bs ! 1))
     OR push_bit 16 (ucast (bs ! 2)) OR push_bit 24 (ucast (bs ! 3))"

definition le16 :: "16 word \<Rightarrow> byte list" where
  "le16 w = [ucast w, ucast (drop_bit 8 w)]"

definition of_le16 :: "byte list \<Rightarrow> 16 word" where
  "of_le16 bs = ucast (bs ! 0) OR push_bit 8 (ucast (bs ! 1))"

text \<open>\<open>memmove\<close> into a block at an offset, and out of it.\<close>

definition put_bytes :: "byte list \<Rightarrow> nat \<Rightarrow> byte list \<Rightarrow> byte list" where
  "put_bytes d off bs = take off d @ bs @ drop (off + length bs) d"

definition get_bytes :: "byte list \<Rightarrow> nat \<Rightarrow> nat \<Rightarrow> byte list" where
  "get_bytes d off n = take n (drop off d)"

definition get32 :: "byte list \<Rightarrow> nat \<Rightarrow> uint32" where
  "get32 d off = of_le32 (get_bytes d off 4)"

definition put32 :: "byte list \<Rightarrow> nat \<Rightarrow> uint32 \<Rightarrow> byte list" where
  "put32 d off w = put_bytes d off (le32 w)"

definition get16 :: "byte list \<Rightarrow> nat \<Rightarrow> 16 word" where
  "get16 d off = of_le16 (get_bytes d off 2)"

definition put16 :: "byte list \<Rightarrow> nat \<Rightarrow> 16 word \<Rightarrow> byte list" where
  "put16 d off w = put_bytes d off (le16 w)"

lemma length_le [simp]: "length (le32 w) = 4" "length (le16 h) = 2"
  by (simp_all add: le32_def le16_def)

lemma of_le32_le32 [simp]: "of_le32 (le32 w) = w"
  by (simp add: of_le32_def le32_def join_bytes)

lemma of_le16_le16 [simp]: "of_le16 (le16 w) = w"
proof (rule bit_word_eqI)
  fix n assume "n < LENGTH(16)"
  then show "bit (of_le16 (le16 w)) n = bit w n"
    by (cases "n < 8") (auto simp: of_le16_def le16_def bit_simps)
qed

lemma length_put_bytes [simp]: "off + length bs \<le> length d \<Longrightarrow> length (put_bytes d off bs) = length d"
  by (simp add: put_bytes_def)

lemma length_put [simp]:
  "off + 4 \<le> length d \<Longrightarrow> length (put32 d off w) = length d"
  "off + 2 \<le> length d \<Longrightarrow> length (put16 d off h) = length d"
  by (simp_all add: put32_def put16_def)

lemma length_get_bytes [simp]: "off + n \<le> length d \<Longrightarrow> length (get_bytes d off n) = n"
  by (simp add: get_bytes_def)

lemma get_put_bytes_same [simp]:
  "off + length bs \<le> length d \<Longrightarrow> n = length bs \<Longrightarrow> get_bytes (put_bytes d off bs) off n = bs"
  by (simp add: get_bytes_def put_bytes_def)

lemma nth_put_bytes:
  "off + length bs \<le> length d \<Longrightarrow> i < length d \<Longrightarrow>
    put_bytes d off bs ! i = (if off \<le> i \<and> i < off + length bs then bs ! (i - off) else d ! i)"
  by (auto simp: put_bytes_def nth_append)

lemma nth_get_bytes: "off + n \<le> length d \<Longrightarrow> i < n \<Longrightarrow> get_bytes d off n ! i = d ! (off + i)"
  by (simp add: get_bytes_def)

lemma get_put_bytes_other:
  "off + length bs \<le> length d \<Longrightarrow> o' + n \<le> length d \<Longrightarrow> o' + n \<le> off \<or> off + length bs \<le> o' \<Longrightarrow>
    get_bytes (put_bytes d off bs) o' n = get_bytes d o' n"
  by (rule nth_equalityI) (auto simp: nth_get_bytes nth_put_bytes)

lemma get_put32 [simp]:
  "off + 4 \<le> length d \<Longrightarrow> get32 (put32 d off w) off = w"
  "off + 4 \<le> length d \<Longrightarrow> o' + 4 \<le> length d \<Longrightarrow> o' + 4 \<le> off \<or> off + 4 \<le> o' \<Longrightarrow>
     get32 (put32 d off w) o' = get32 d o'"
  "off + 2 \<le> length d \<Longrightarrow> o' + 4 \<le> length d \<Longrightarrow> o' + 4 \<le> off \<or> off + 2 \<le> o' \<Longrightarrow>
     get32 (put16 d off h) o' = get32 d o'"
  by (simp_all add: get32_def put32_def put16_def get_put_bytes_other)

lemma get_put16 [simp]:
  "off + 2 \<le> length d \<Longrightarrow> get16 (put16 d off h) off = h"
  "off + 2 \<le> length d \<Longrightarrow> o' + 2 \<le> length d \<Longrightarrow> o' + 2 \<le> off \<or> off + 2 \<le> o' \<Longrightarrow>
     get16 (put16 d off h) o' = get16 d o'"
  "off + 4 \<le> length d \<Longrightarrow> o' + 2 \<le> length d \<Longrightarrow> o' + 2 \<le> off \<or> off + 4 \<le> o' \<Longrightarrow>
     get16 (put32 d off w) o' = get16 d o'"
  by (simp_all add: get16_def put32_def put16_def get_put_bytes_other)

end
