(* ===== verification/Log.thy ===== *)
theory Log
  imports Bio Bytes
begin

text \<open>
  The redo log of src/log.c.  The header block on disk holds the number of logged blocks at offset 0
  and their block numbers after it; \<open>log_st\<close> is the variable \<open>log\<close>.  \<open>readsb\<close> of src/fs.c,
  which \<open>initlog\<close> calls, is here too.
\<close>

section \<open>Operations\<close>

definition get_sb :: "block \<Rightarrow> superblock" where
  "get_sb d = \<lparr>sb_size = get32 d 0, sb_nblocks = get32 d 4, sb_ninodes = get32 d 8,
     sb_nlog = get32 d 12, sb_logstart = get32 d 16, sb_inodestart = get32 d 20,
     sb_bmapstart = get32 d 24\<rparr>"

definition readsb :: "uint32 \<Rightarrow> kernel \<Rightarrow> (superblock \<times> kernel) res" where
  "readsb dev s =
     andthen (bread dev 1 s) (\<lambda>(i, s).
       let x = get_sb (bdata s i) in andthen (brelse i s) (\<lambda>s. Ok (x, s)))"

abbreviation upd_log :: "(log_info \<Rightarrow> log_info) \<Rightarrow> kernel \<Rightarrow> kernel" where
  "upd_log f s \<equiv> s\<lparr>log_st := f (log_st s)\<rparr>"

abbreviation upd_lh :: "(logheader \<Rightarrow> logheader) \<Rightarrow> kernel \<Rightarrow> kernel" where
  "upd_lh f s \<equiv> upd_log (\<lambda>l. l\<lparr>log_lh := f (log_lh l)\<rparr>) s"

abbreviation lhn :: "kernel \<Rightarrow> int" where
  "lhn s \<equiv> lh_n (log_lh (log_st s))"

abbreviation lhblock :: "kernel \<Rightarrow> uint32 list" where
  "lhblock s \<equiv> lh_block (log_lh (log_st s))"

text \<open>The body of the loop of \<open>install_trans\<close>.\<close>

definition install_one :: "nat \<Rightarrow> kernel \<Rightarrow> kernel res" where
  "install_one tail s =
     andthen (bread (log_dev (log_st s)) (log_start (log_st s) + of_nat tail + 1) s) (\<lambda>(lbuf, s).
     andthen (bread (log_dev (log_st s)) (lhblock s ! tail) s) (\<lambda>(dbuf, s).
     andthen (bwrite dbuf (set_data dbuf (bdata s lbuf) s)) (\<lambda>s.
     andthen (brelse lbuf s) (\<lambda>s. brelse dbuf s))))"

definition install_trans :: "kernel \<Rightarrow> kernel res" where
  "install_trans s = for_each [0..<nat (lhn s)] install_one s"

text \<open>A header that claims more than \<open>LOGSIZE\<close> blocks would be copied past the end of the array.\<close>

definition read_head :: "kernel \<Rightarrow> kernel res" where
  "read_head s =
     andthen (bread (log_dev (log_st s)) (log_start (log_st s)) s) (\<lambda>(i, s).
       let lh = bdata s i; n = sint (get32 lh 0) in
       if n > int LOGSIZE then Stop OutOfRange
       else brelse i (upd_lh (\<lambda>h. h\<lparr>lh_n := n,
              lh_block := map (\<lambda>k. get32 lh (4 + 4 * k)) [0..<nat n] @ drop (nat n) (lh_block h)\<rparr>) s))"

definition put_head :: "int \<Rightarrow> uint32 list \<Rightarrow> block \<Rightarrow> block" where
  "put_head n bs d = foldl (\<lambda>d k. put32 d (4 + 4 * k) (bs ! k)) (put32 d 0 (word_of_int n)) [0..<nat n]"

definition write_head :: "kernel \<Rightarrow> kernel res" where
  "write_head s =
     andthen (bread (log_dev (log_st s)) (log_start (log_st s)) s) (\<lambda>(i, s).
       if lhn s > int LOGSIZE then Stop OutOfRange
       else andthen (bwrite i (set_data i (put_head (lhn s) (lhblock s) (bdata s i)) s)) (brelse i))"

definition recover_from_log :: "kernel \<Rightarrow> kernel res" where
  "recover_from_log s =
     andthen (read_head s) (\<lambda>s.
     andthen (install_trans s) (\<lambda>s.
     write_head (upd_lh (\<lambda>h. h\<lparr>lh_n := 0\<rparr>) s)))"

definition initlog :: "uint32 \<Rightarrow> kernel \<Rightarrow> kernel res" where
  "initlog dev s =
     (if 4 + 4 * LOGSIZE \<ge> BSIZE then Stop (Panic ''initlog: too big logheader'')
      else andthen (readsb dev s) (\<lambda>(x, s).
        recover_from_log (upd_log (\<lambda>l. l\<lparr>log_start := sb_logstart x, log_size := sint (sb_nlog x),
          log_dev := dev\<rparr>) s)))"

definition begin_op :: "kernel \<Rightarrow> kernel res" where
  "begin_op s =
     (if log_committing (log_st s) then Stop Sleeping
      else if lhn s + (log_outstanding (log_st s) + 1) * int MAXOPBLOCKS > int LOGSIZE then Stop Sleeping
      else Ok (upd_log (\<lambda>l. l\<lparr>log_outstanding := log_outstanding l + 1\<rparr>) s))"

definition write_log_one :: "nat \<Rightarrow> kernel \<Rightarrow> kernel res" where
  "write_log_one tail s =
     andthen (bread (log_dev (log_st s)) (log_start (log_st s) + of_nat tail + 1) s) (\<lambda>(to, s).
     andthen (bread (log_dev (log_st s)) (lhblock s ! tail) s) (\<lambda>(from, s).
     andthen (bwrite to (set_data to (bdata s from) s)) (\<lambda>s.
     andthen (brelse from s) (\<lambda>s. brelse to s))))"

definition write_log :: "kernel \<Rightarrow> kernel res" where
  "write_log s = for_each [0..<nat (lhn s)] write_log_one s"

definition commit :: "kernel \<Rightarrow> kernel res" where
  "commit s =
     (if lhn s > 0 then
        andthen (write_log s) (\<lambda>s.
        andthen (write_head s) (\<lambda>s.
        andthen (install_trans s) (\<lambda>s.
        write_head (upd_lh (\<lambda>h. h\<lparr>lh_n := 0\<rparr>) s))))
      else Ok s)"

definition end_op :: "kernel \<Rightarrow> kernel res" where
  "end_op s =
     (let s = upd_log (\<lambda>l. l\<lparr>log_outstanding := log_outstanding l - 1\<rparr>) s in
      if log_committing (log_st s) then Stop (Panic ''log.committing'')
      else if log_outstanding (log_st s) = 0 then
        andthen (commit (upd_log (\<lambda>l. l\<lparr>log_committing := True\<rparr>) s)) (\<lambda>s.
          Ok (wakeup ChanLog (upd_log (\<lambda>l. l\<lparr>log_committing := False\<rparr>) s)))
      else Ok (wakeup ChanLog s))"

definition log_write :: "nat \<Rightarrow> kernel \<Rightarrow> kernel res" where
  "log_write b s =
     (if lhn s \<ge> int LOGSIZE \<or> lhn s \<ge> log_size (log_st s) - 1
      then Stop (Panic ''too big a transaction'')
      else if log_outstanding (log_st s) < 1 then Stop (Panic ''log_write outside of trans'')
      else let bno = b_blockno (bufs s ! b);
               n = nat (lhn s);
               i = (case find_idx (\<lambda>x. x = bno) (take n (lhblock s)) of Some i \<Rightarrow> i | None \<Rightarrow> n);
               s = upd_lh (\<lambda>h. h\<lparr>lh_block := (lh_block h)[i := bno]\<rparr>) s;
               s = (if i = n then upd_lh (\<lambda>h. h\<lparr>lh_n := lh_n h + 1\<rparr>) s else s)
           in Ok (upd_buf b (\<lambda>u. u\<lparr>b_dirty := True\<rparr>) s))"

section \<open>The invariant of the log\<close>

text \<open>The blocks of the transaction, in the order in which they were first written.\<close>

definition logged :: "kernel \<Rightarrow> uint32 list" where
  "logged s = take (nat (lhn s)) (lhblock s)"

text \<open>The \<open>LOGSIZE\<close> blocks of the log on disk, the header first.\<close>

definition log_area :: "kernel \<Rightarrow> uint32 set" where
  "log_area s = {log_start (log_st s) + of_nat k | k. k < LOGSIZE}"

definition log_ok :: "kernel \<Rightarrow> bool" where
  "log_ok s \<longleftrightarrow> bcache_ok s \<and> in_proc s \<and> log_dev (log_st s) = 1 \<and>
     unat (log_start (log_st s)) + LOGSIZE \<le> unat (disksize s) \<and>
     0 \<le> lhn s \<and> lhn s < int LOGSIZE \<and> length (lhblock s) = LOGSIZE \<and>
     distinct (logged s) \<and> set (logged s) \<inter> log_area s = {} \<and>
     (\<forall>b \<in> set (logged s). b < disksize s) \<and> dirty s = set (logged s) \<and>
     get32 (disk s (log_start (log_st s))) 0 = 0"

lemma log_st_cache [simp]:
  "view (s\<lparr>log_st := l\<rparr>) = view s" "dirty (s\<lparr>log_st := l\<rparr>) = dirty s"
  "held (s\<lparr>log_st := l\<rparr>) = held s" "bcache_ok (s\<lparr>log_st := l\<rparr>) = bcache_ok s"
  "in_proc (s\<lparr>log_st := l\<rparr>) = in_proc s" "holds (s\<lparr>log_st := l\<rparr>) i b = holds s i b"
  "cache_frame s (s\<lparr>log_st := l\<rparr>)"
  by (auto simp: fun_eq_iff view_def cached_def dirty_def held_def bcache_ok_def buf_ok_def
      in_proc_def holds_def cache_frame_def split: option.splits)

section \<open>Sequences of disk writes\<close>

definition apply_writes :: "(uint32 \<times> block) list \<Rightarrow> (uint32 \<Rightarrow> block) \<Rightarrow> uint32 \<Rightarrow> block" where
  "apply_writes ws d = foldl (\<lambda>d (b, x). d(b := x)) d ws"

lemma apply_writes_Nil [simp]: "apply_writes [] d = d"
  by (simp add: apply_writes_def)

lemma apply_writes_append [simp]: "apply_writes (ws @ vs) d = apply_writes vs (apply_writes ws d)"
  by (simp add: apply_writes_def)

lemma apply_writes_Cons [simp]: "apply_writes (w # ws) d = apply_writes ws (d(fst w := snd w))"
  by (simp add: apply_writes_def case_prod_beta)

lemma apply_writes_other: "b \<notin> fst ` set ws \<Longrightarrow> apply_writes ws d b = d b"
  by (induction ws arbitrary: d) auto

lemma apply_writes_same:
  "inj_on g {..<n} \<Longrightarrow> k < n \<Longrightarrow> apply_writes (map (\<lambda>k. (g k, h k)) [0..<n]) d (g k) = h k"
proof (induction n)
  case (Suc n)
  have "g k \<noteq> g n" if "k \<noteq> n" using inj_onD[OF Suc.prems(1), of k n] Suc.prems(2) that by auto
  moreover have "inj_on g {..<n}" using Suc.prems(1) by (rule inj_on_subset) auto
  ultimately show ?case using Suc.IH Suc.prems(2) by (cases "k = n") simp_all
qed simp

text \<open>
  From \<open>s\<close> to \<open>s'\<close> the disk has received exactly the writes \<open>ws\<close>; the cache agrees.
\<close>

definition wrote :: "(uint32 \<times> block) list \<Rightarrow> kernel \<Rightarrow> kernel \<Rightarrow> bool" where
  "wrote ws s s' \<longleftrightarrow> cache_frame s s' \<and> bcache_ok s' \<and> in_proc s' \<and>
     view s' = apply_writes ws (view s) \<and> disk s' = apply_writes ws (disk s) \<and>
     disk_writes s' = disk_writes s @ ws \<and> dirty s' = dirty s - fst ` set ws \<and>
     log_st s' = log_st s"

lemma wrote_trans: "wrote ws s s' \<Longrightarrow> wrote vs s' s'' \<Longrightarrow> wrote (ws @ vs) s s''"
  unfolding wrote_def by (auto intro: cache_frame_trans)

lemma wroteD:
  assumes "wrote ws s s'"
  shows "cache_frame s s'" "bcache_ok s'" "in_proc s'" "view s' = apply_writes ws (view s)"
    "disk s' = apply_writes ws (disk s)" "disk_writes s' = disk_writes s @ ws"
    "dirty s' = dirty s - fst ` set ws" "log_st s' = log_st s" "disksize s' = disksize s"
  using assms cache_frameD(10)[of s s'] by (simp_all add: wrote_def)

text \<open>The end of the two copy loops: block \<open>b\<close> is copied over block \<open>a\<close>.\<close>

lemma copy_tail:
  assumes ok: "bcache_ok s" "in_proc s" and h: "holds s i a" "holds s j b" and ab: "a \<noteq> b"
  obtains s' where
    "andthen (bwrite i (set_data i (bdata s j) s)) (\<lambda>s. andthen (brelse j s) (brelse i)) = Ok s'"
    "wrote [(a, view s b)] s s'" "held s' = held s - {a, b}"
proof -
  have d: "bdata s j = view s b" using holds_data[OF ok(1) h(2)] .
  have "b < disksize s" using bcache_buf_ok[OF ok(1), of j] h(2) by (auto simp: holds_def buf_ok_def)
  then have l: "length (view s b) = BSIZE" by (rule view_length[OF ok(1)])
  have ij: "i \<noteq> j" using h ab by (auto simp: holds_def)
  obtain s1 where s1: "bwrite i (set_data i (view s b) s) = Ok s1" "bcache_ok s1" "in_proc s1"
    "view s1 = (view s)(a := view s b)" "dirty s1 = dirty s - {a}" "held s1 = held s"
    "disk s1 = (disk s)(a := view s b)" "disk_writes s1 = disk_writes s @ [(a, view s b)]"
    "log_st s1 = log_st s" "cache_frame s s1" "\<forall>j c. holds s1 j c \<longleftrightarrow> holds s j c"
    by (rule bwrite_Ok[OF ok(1) h(1) l ok(2)])
  obtain s2 where s2: "brelse j s1 = Ok s2" "bcache_ok s2" "in_proc s2" "view s2 = view s1"
    "dirty s2 = dirty s1" "held s2 = held s1 - {b}" "disk_frame s1 s2"
    "\<forall>k c. holds s2 k c \<longleftrightarrow> holds s1 k c \<and> k \<noteq> j"
    by (rule brelse_Ok[OF s1(2) s1(11)[rule_format, THEN iffD2, OF h(2)] s1(3)])
  have "holds s2 i a" using s1(11) s2(8) h(1) ij by blast
  then obtain s3 where s3: "brelse i s2 = Ok s3" "bcache_ok s3" "in_proc s3" "view s3 = view s2"
    "dirty s3 = dirty s2" "held s3 = held s2 - {a}" "disk_frame s2 s3"
    "\<forall>k c. holds s3 k c \<longleftrightarrow> holds s2 k c \<and> k \<noteq> i"
    by (rule brelse_Ok[OF s2(2) _ s2(3)])
  have "cache_frame s s3"
    using cache_frame_trans[OF s1(10)] cache_frame_trans[of s1 s2 s3] s2(7) s3(7)
    unfolding disk_frame_def by blast
  moreover have "disk s3 = disk s1" "disk_writes s3 = disk_writes s1" "log_st s3 = log_st s1"
    using s2(7) s3(7) by (simp_all add: disk_frame_def)
  ultimately have "wrote [(a, view s b)] s s3"
    unfolding wrote_def using s1(4,5,7-9) s2(4,5) s3(2-5) by simp
  moreover have "held s3 = held s - {a, b}" using s1(6) s2(6) s3(6) by auto
  ultimately show thesis using that[of s3] s1(1) s2(1) s3(1) by (simp add: d)
qed

lemma read_two:
  assumes ok: "bcache_ok s" "in_proc s" and a: "a < disksize s" "a \<notin> held s"
    "a \<in> dirty s \<or> card (held s \<union> dirty s) < NBUF"
    and b: "b < disksize s" "b \<notin> held s" "b \<noteq> a"
    "b \<in> dirty s \<or> card (insert a (held s) \<union> dirty s) < NBUF"
  obtains i j s' s'' where "bread 1 a s = Ok (i, s')" "bread 1 b s' = Ok (j, s'')"
    "bcache_ok s''" "in_proc s''" "holds s'' i a" "holds s'' j b" "view s'' = view s"
    "dirty s'' = dirty s" "held s'' = insert b (insert a (held s))" "disk_frame s s''"
    "log_st s' = log_st s"
proof -
  obtain i s' where s': "bread 1 a s = Ok (i, s')" "bcache_ok s'" "in_proc s'" "holds s' i a"
    "view s' = view s" "dirty s' = dirty s" "held s' = insert a (held s)" "disk_frame s s'"
    "\<forall>j c. holds s j c \<longrightarrow> holds s' j c"
    by (rule bread_Ok[OF ok a])
  have b': "b < disksize s'" "b \<notin> held s'" "b \<in> dirty s' \<or> card (held s' \<union> dirty s') < NBUF"
    using s'(6-8) b cache_frameD(10)[of s s'] by (simp_all add: disk_frame_def)
  from bread_Ok[OF s'(2,3) b'] obtain j s'' where s'': "bread 1 b s' = Ok (j, s'')" "bcache_ok s''" "in_proc s''"
    "holds s'' j b" "view s'' = view s'" "dirty s'' = dirty s'" "held s'' = insert b (held s')"
    "disk_frame s' s''" "\<forall>j c. holds s' j c \<longrightarrow> holds s'' j c"
    .
  have "holds s'' i a" using s''(9) s'(4) by blast
  moreover have "view s'' = view s" "dirty s'' = dirty s" "held s'' = insert b (insert a (held s))"
    using s'(5-7) s''(5-7) by simp_all
  moreover have "log_st s' = log_st s" using s'(8) by (simp add: disk_frame_def)
  ultimately show thesis
    using that[OF s'(1) s''(1,2,3) _ s''(4) _ _ _ disk_frame_trans[OF s'(8) s''(8)]] by simp
qed

lemma write_log_one_Ok:
  assumes ok: "bcache_ok s" "in_proc s" "held s = {}" "log_dev (log_st s) = 1" "card (dirty s) < NBUF"
    and a: "a = log_start (log_st s) + of_nat t + 1" "a < disksize s"
    and b: "b = lhblock s ! t" "b < disksize s" "b \<in> dirty s" "a \<noteq> b"
  shows "\<exists>s'. write_log_one t s = Ok s' \<and> wrote [(a, view s b)] s s' \<and> held s' = {}"
proof -
  obtain i j s1 s2 where r: "bread 1 a s = Ok (i, s1)" "bread 1 b s1 = Ok (j, s2)"
    "bcache_ok s2" "in_proc s2" "holds s2 i a" "holds s2 j b" "view s2 = view s"
    "dirty s2 = dirty s" "held s2 = insert b (insert a (held s))" "disk_frame s s2" "log_st s1 = log_st s"
    by (rule read_two[OF ok(1,2) a(2) _ _ b(2)]) (use ok b in auto)
  obtain s3 where t: "andthen (bwrite i (set_data i (bdata s2 j) s2)) (\<lambda>s. andthen (brelse j s) (brelse i)) = Ok s3"
    "wrote [(a, view s2 b)] s2 s3" "held s3 = held s2 - {a, b}"
    by (rule copy_tail[OF r(3-6) b(4)])
  have "write_log_one t s = Ok s3"
    using t(1) r(1,2,11) ok(4) a(1) b(1) by (simp add: write_log_one_def)
  moreover have "wrote [(a, view s b)] s s3"
    using t(2) r(7,8,10) cache_frame_trans[of s s2 s3] unfolding wrote_def disk_frame_def by simp
  ultimately show ?thesis using t(3) r(9) ok(3) by auto
qed

lemma install_one_Ok:
  assumes ok: "bcache_ok s" "in_proc s" "held s = {}" "log_dev (log_st s) = 1" "card (dirty s) < NBUF"
    and b: "b = log_start (log_st s) + of_nat t + 1" "b < disksize s"
    and a: "a = lhblock s ! t" "a < disksize s" "a \<in> dirty s \<or> card (insert b (dirty s)) < NBUF" "a \<noteq> b"
  shows "\<exists>s'. install_one t s = Ok s' \<and> wrote [(a, view s b)] s s' \<and> held s' = {}"
proof -
  obtain i j s1 s2 where r: "bread 1 b s = Ok (j, s1)" "bread 1 a s1 = Ok (i, s2)"
    "bcache_ok s2" "in_proc s2" "holds s2 j b" "holds s2 i a" "view s2 = view s"
    "dirty s2 = dirty s" "held s2 = insert a (insert b (held s))" "disk_frame s s2" "log_st s1 = log_st s"
    by (rule read_two[OF ok(1,2) b(2) _ _ a(2)]) (use ok a in auto)
  obtain s3 where t: "andthen (bwrite i (set_data i (bdata s2 j) s2)) (\<lambda>s. andthen (brelse j s) (brelse i)) = Ok s3"
    "wrote [(a, view s2 b)] s2 s3" "held s3 = held s2 - {a, b}"
    by (rule copy_tail[OF r(3,4,6,5) a(4)])
  have "install_one t s = Ok s3"
    using t(1) r(1,2,11) ok(4) a(1) b(1) by (simp add: install_one_def)
  moreover have "wrote [(a, view s b)] s s3"
    using t(2) r(7,8,10) cache_frame_trans[of s s2 s3] unfolding wrote_def disk_frame_def by simp
  ultimately show ?thesis using t(3) r(9) ok(3) by auto
qed

lemma write_head_Ok:
  assumes ok: "bcache_ok s" "in_proc s" "held s = {}" "log_dev (log_st s) = 1" "card (dirty s) < NBUF"
    and n: "lhn s \<le> int LOGSIZE" and a: "a = log_start (log_st s)" "a < disksize s"
    and l: "length (put_head (lhn s) (lhblock s) (view s a)) = BSIZE"
  shows "\<exists>s'. write_head s = Ok s' \<and> wrote [(a, put_head (lhn s) (lhblock s) (view s a))] s s' \<and> held s' = {}"
proof -
  obtain i s1 where r: "bread 1 a s = Ok (i, s1)" "bcache_ok s1" "in_proc s1" "holds s1 i a"
    "view s1 = view s" "dirty s1 = dirty s" "held s1 = insert a (held s)" "disk_frame s s1"
    "\<forall>j c. holds s j c \<longrightarrow> holds s1 j c"
    by (rule bread_Ok[OF ok(1,2) a(2)]) (use ok in auto)
  have f: "disk s1 = disk s" "disk_writes s1 = disk_writes s" "log_st s1 = log_st s" "cache_frame s s1"
    using r(8) by (simp_all add: disk_frame_def)
  define d where "d = put_head (lhn s) (lhblock s) (view s a)"
  have l: "length d = BSIZE" using l by (simp add: d_def)
  obtain s2 where w: "bwrite i (set_data i d s1) = Ok s2" "bcache_ok s2" "in_proc s2"
    "view s2 = (view s1)(a := d)" "dirty s2 = dirty s1 - {a}" "held s2 = held s1"
    "disk s2 = (disk s1)(a := d)" "disk_writes s2 = disk_writes s1 @ [(a, d)]"
    "log_st s2 = log_st s1" "cache_frame s1 s2" "\<forall>j c. holds s2 j c \<longleftrightarrow> holds s1 j c"
    by (rule bwrite_Ok[OF r(2,4) l r(3)])
  have "holds s2 i a" using w(11) r(4) by blast
  then obtain s3 where e: "brelse i s2 = Ok s3" "bcache_ok s3" "in_proc s3" "view s3 = view s2"
    "dirty s3 = dirty s2" "held s3 = held s2 - {a}" "disk_frame s2 s3"
    "\<forall>k c. holds s3 k c \<longleftrightarrow> holds s2 k c \<and> k \<noteq> i"
    by (rule brelse_Ok[OF w(2) _ w(3)])
  have g: "disk s3 = disk s2" "disk_writes s3 = disk_writes s2" "log_st s3 = log_st s2" "cache_frame s2 s3"
    using e(7) by (simp_all add: disk_frame_def)
  have "bdata s1 i = view s a" using holds_data[OF r(2,4)] r(5) by simp
  then have "write_head s = Ok s3"
    using r(1) w(1) e(1) f(3) ok(4) a(1) n by (simp add: write_head_def d_def)
  moreover have "wrote [(a, d)] s s3"
    using cache_frame_trans[OF cache_frame_trans[OF f(4) w(10)] g(4)] e(2-5) g w r f
    unfolding wrote_def by simp
  ultimately show ?thesis using e(6) w(6) r(7) ok(3) by (auto simp: d_def)
qed

section \<open>Committing a transaction\<close>

abbreviation log_block :: "kernel \<Rightarrow> nat \<Rightarrow> uint32" where
  "log_block s k \<equiv> log_start (log_st s) + of_nat k + 1"

lemma unat_of_nat_small: "k < 2 ^ 32 \<Longrightarrow> unat (of_nat k :: uint32) = k"
  by (simp add: unat_of_nat)

lemma log_area_block:
  assumes "unat (log_start (log_st s)) + LOGSIZE \<le> unat (disksize s)" "k < LOGSIZE"
  shows "unat (log_start (log_st s) + of_nat k) = unat (log_start (log_st s)) + k"
    "log_start (log_st s) + of_nat k < disksize s"
proof -
  have "unat (log_start (log_st s)) + k < 2 ^ 32"
    using assms unat_uint32_less[of "disksize s"] by simp
  then show u: "unat (log_start (log_st s) + of_nat k) = unat (log_start (log_st s)) + k"
    using assms(2) by (simp add: unat_word_ariths unat_of_nat_small)
  show "log_start (log_st s) + of_nat k < disksize s"
    using assms unfolding word_less_nat_alt u by simp
qed

lemma log_okD:
  assumes "log_ok s"
  shows "bcache_ok s" "in_proc s" "log_dev (log_st s) = 1" "lhn s = int (nat (lhn s))"
    "nat (lhn s) < LOGSIZE" "length (lhblock s) = LOGSIZE" "card (dirty s) = nat (lhn s)"
    "get32 (disk s (log_start (log_st s))) 0 = 0"
    "unat (log_start (log_st s)) + LOGSIZE \<le> unat (disksize s)"
proof -
  have "distinct (logged s)" "dirty s = set (logged s)" "length (logged s) = nat (lhn s)"
    using assms by (auto simp: log_ok_def logged_def)
  then show "card (dirty s) = nat (lhn s)" by (simp add: distinct_card)
qed (use assms in \<open>auto simp: log_ok_def\<close>)

lemma log_block_area: "k + 1 < LOGSIZE \<Longrightarrow> log_block s k \<in> log_area s"
  unfolding log_area_def by (auto intro!: exI[of _ "k + 1"])

lemma log_start_area: "log_start (log_st s) \<in> log_area s"
  unfolding log_area_def by (auto intro!: exI[of _ 0])

lemma logged_block:
  assumes "log_ok s" "k < nat (lhn s)"
  shows "lhblock s ! k \<in> dirty s" "lhblock s ! k < disksize s" "lhblock s ! k \<notin> log_area s"
    "log_block s k < disksize s" "log_block s k \<in> log_area s" "log_block s k \<noteq> log_start (log_st s)"
proof -
  have "lhblock s ! k \<in> set (logged s)"
    using assms log_okD(5,6)[OF assms(1)] by (auto simp: logged_def in_set_conv_nth)
  then show "lhblock s ! k \<in> dirty s" "lhblock s ! k < disksize s" "lhblock s ! k \<notin> log_area s"
    using assms(1) by (auto simp: log_ok_def)
  have k: "k + 1 < LOGSIZE" using assms(2) log_okD(5)[OF assms(1)] by simp
  show "log_block s k \<in> log_area s" by (rule log_block_area[OF k])
  have e: "log_block s k = log_start (log_st s) + of_nat (k + 1)" by simp
  show "log_block s k < disksize s"
    unfolding e by (rule log_area_block(2)[OF log_okD(9)[OF assms(1)] k])
  have "unat (log_block s k) \<noteq> unat (log_start (log_st s))"
    unfolding e log_area_block(1)[OF log_okD(9)[OF assms(1)] k] by simp
  then show "log_block s k \<noteq> log_start (log_st s)" by metis
qed

lemma logged_inj:
  assumes "log_ok s"
  shows "inj_on (\<lambda>k. lhblock s ! k) {..<nat (lhn s)}" "inj_on (log_block s) {..<nat (lhn s)}"
proof -
  have d: "distinct (logged s)" "length (logged s) = nat (lhn s)"
    using assms by (auto simp: log_ok_def logged_def)
  show "inj_on (\<lambda>k. lhblock s ! k) {..<nat (lhn s)}"
  proof (rule inj_onI)
    fix i j assume "i \<in> {..<nat (lhn s)}" "j \<in> {..<nat (lhn s)}" "lhblock s ! i = lhblock s ! j"
    then show "i = j" using nth_eq_iff_index_eq[OF d(1), of i j] d(2) by (simp add: logged_def)
  qed
  show "inj_on (log_block s) {..<nat (lhn s)}"
  proof (rule inj_onI)
    fix i j assume ij: "i \<in> {..<nat (lhn s)}" "j \<in> {..<nat (lhn s)}" "log_block s i = log_block s j"
    then have "(of_nat i :: uint32) = of_nat j" by simp
    moreover have "i < 2 ^ 32" "j < 2 ^ 32" using ij log_okD(5)[OF assms] by auto
    ultimately show "i = j" by (metis unat_of_nat_small)
  qed
qed

definition log_writes :: "kernel \<Rightarrow> nat \<Rightarrow> (uint32 \<times> block) list" where
  "log_writes s n = map (\<lambda>k. (log_block s k, view s (lhblock s ! k))) [0..<n]"

definition head_write :: "kernel \<Rightarrow> uint32 \<times> block" where
  "head_write s = (log_start (log_st s),
     put_head (lhn s) (lhblock s) (view s (log_start (log_st s))))"

definition home_writes :: "kernel \<Rightarrow> nat \<Rightarrow> (uint32 \<times> block) list" where
  "home_writes s n = map (\<lambda>k. (lhblock s ! k, view s (lhblock s ! k))) [0..<n]"

definition end_write :: "kernel \<Rightarrow> uint32 \<times> block" where
  "end_write s = (log_start (log_st s), put32 (snd (head_write s)) 0 0)"

text \<open>Everything the commit of the transaction of \<open>s\<close> writes to the disk, in order.\<close>

definition commit_writes :: "kernel \<Rightarrow> (uint32 \<times> block) list" where
  "commit_writes s = log_writes s (nat (lhn s)) @ [head_write s] @
     home_writes s (nat (lhn s)) @ [end_write s]"

lemma write_log_Ok:
  assumes ok: "log_ok s" and h: "held s = {}"
  shows "\<exists>s'. write_log s = Ok s' \<and> wrote (log_writes s (nat (lhn s))) s s' \<and> held s' = {}"
proof -
  have "\<exists>s'. for_each [0..<nat (lhn s)] write_log_one s = Ok s' \<and>
      (wrote (log_writes s (length [0..<nat (lhn s)])) s s' \<and> held s' = {})"
  proof (rule for_each_inv)
    show "wrote (log_writes s 0) s s \<and> held s = {}"
      using log_okD[OF ok] h by (simp add: wrote_def log_writes_def)
  next
    fix k t assume k: "k < length [0..<nat (lhn s)]" and w: "wrote (log_writes s k) s t \<and> held t = {}"
    note b = logged_block[OF ok, of k]
    have f: "fst ` set (log_writes s k) \<subseteq> log_area s"
      using k logged_block(5)[OF ok] by (auto simp: log_writes_def)
    have nb: "lhblock s ! k \<notin> fst ` set (log_writes s k)" using b(3) k f by auto
    have dt: "dirty t = dirty s"
      using wroteD(7)[of _ s t] w f ok by (auto simp: log_ok_def)
    have v: "view t (lhblock s ! k) = view s (lhblock s ! k)"
      using wroteD(4)[of _ s t] w apply_writes_other[OF nb] by auto
    have lg: "log_st t = log_st s" "disksize t = disksize s" "bcache_ok t" "in_proc t"
      using w wroteD(8,9,2,3)[of _ s t] by auto
    have "\<exists>s'. write_log_one k t = Ok s' \<and>
        wrote [(log_block s k, view t (lhblock s ! k))] t s' \<and> held s' = {}"
      using b k log_okD(3,5,7)[OF ok] w lg dt
      by (intro write_log_one_Ok) (auto simp del: of_nat_Suc)
    then obtain s' where "write_log_one k t = Ok s'"
      "wrote [(log_block s k, view s (lhblock s ! k))] t s'" "held s' = {}" by (auto simp: v)
    moreover have "log_writes s (Suc k) = log_writes s k @ [(log_block s k, view s (lhblock s ! k))]"
      by (simp add: log_writes_def)
    ultimately show "\<exists>s'. write_log_one ([0..<nat (lhn s)] ! k) t = Ok s' \<and>
        (wrote (log_writes s (Suc k)) s s' \<and> held s' = {})"
      using k w wrote_trans[of "log_writes s k" s t] by auto
  qed
  then show ?thesis by (simp add: write_log_def)
qed

definition installs :: "kernel \<Rightarrow> nat \<Rightarrow> (uint32 \<times> block) list" where
  "installs t n = map (\<lambda>k. (lhblock t ! k, view t (log_block t k))) [0..<n]"

lemma install_trans_Ok:
  assumes t: "held t = {}" "bcache_ok t" "in_proc t" "log_dev (log_st t) = 1" "card (dirty t) < NBUF"
    and n: "nat (lhn t) < LOGSIZE" "unat (log_start (log_st t)) + LOGSIZE \<le> unat (disksize t)"
    and b: "\<forall>k < nat (lhn t). lhblock t ! k < disksize t \<and> lhblock t ! k \<notin> log_area t \<and>
      (lhblock t ! k \<in> dirty t - (\<lambda>j. lhblock t ! j) ` {..<k} \<or> card (insert (log_block t k) (dirty t)) < NBUF)"
  shows "\<exists>s'. install_trans t = Ok s' \<and> wrote (installs t (nat (lhn t))) t s' \<and> held s' = {}"
proof -
  have "\<exists>s'. for_each [0..<nat (lhn t)] install_one t = Ok s' \<and>
      (wrote (installs t (length [0..<nat (lhn t)])) t s' \<and> held s' = {})"
  proof (rule for_each_inv)
    show "wrote (installs t 0) t t \<and> held t = {}" using t by (simp add: wrote_def installs_def)
  next
    fix k r assume k: "k < length [0..<nat (lhn t)]" and w: "wrote (installs t k) t r \<and> held r = {}"
    have f: "fst ` set (installs t k) = (\<lambda>k. lhblock t ! k) ` {..<k}"
      by (simp add: installs_def image_image atLeast0LessThan)
    have la: "log_block t k \<in> log_area t" "log_block t k < disksize t"
      using log_block_area[of k t] log_area_block(2)[OF n(2), of "k + 1"] k n(1)
      by (auto simp: add.assoc add.commute[of 1])
    have nb: "log_block t k \<notin> fst ` set (installs t k)" using b la(1) k unfolding f by auto
    have dr: "dirty r = dirty t - (\<lambda>j. lhblock t ! j) ` {..<k}" using wroteD(7)[of _ t r] w f by auto
    then have "dirty r \<subseteq> dirty t" by blast
    then have c: "card (dirty r) \<le> card (dirty t)"
      "card (insert (log_block t k) (dirty r)) \<le> card (insert (log_block t k) (dirty t))"
      by (auto intro!: card_mono)
    have vr: "view r (log_block t k) = view t (log_block t k)"
      using wroteD(4)[of _ t r] w apply_writes_other[OF nb] by auto
    have lg: "log_st r = log_st t" "disksize r = disksize t" "bcache_ok r" "in_proc r"
      using w wroteD(8,9,2,3)[of _ t r] by auto
    have "\<exists>s'. install_one k r = Ok s' \<and>
        wrote [(lhblock t ! k, view r (log_block t k))] r s' \<and> held s' = {}"
    proof (rule install_one_Ok)
      show "lhblock t ! k \<in> dirty r \<or> card (insert (log_block t k) (dirty r)) < NBUF"
        using b k c(2) unfolding dr by force
      show "lhblock t ! k \<noteq> log_block t k" using b k la(1) by auto
    qed (use w lg t(4,5) c(1) la(2) b k in auto)
    then obtain s' where "install_one k r = Ok s'"
      "wrote [(lhblock t ! k, view t (log_block t k))] r s'" "held s' = {}" by (auto simp: vr)
    moreover have "installs t (Suc k) = installs t k @ [(lhblock t ! k, view t (log_block t k))]"
      by (simp add: installs_def)
    ultimately show "\<exists>s'. install_one ([0..<nat (lhn t)] ! k) r = Ok s' \<and>
        (wrote (installs t (Suc k)) t s' \<and> held s' = {})"
      using k w wrote_trans[of "installs t k" t r] by auto
  qed
  then show ?thesis by (simp add: install_trans_def)
qed

lemma length_put_head:
  assumes "length d = BSIZE" "n \<le> int LOGSIZE"
  shows "length (put_head n bs d) = BSIZE"
proof -
  have *: "length (foldl (\<lambda>d k. put32 d (4 + 4 * k) (bs ! k)) d ks) = BSIZE"
    if "length d = BSIZE" "\<forall>k \<in> set ks. k < LOGSIZE" for d ks
    using that by (induction ks arbitrary: d) auto
  have "\<forall>k \<in> set [0..<nat n]. k < LOGSIZE" "length (put32 d 0 (word_of_int n)) = BSIZE"
    using assms by auto
  from *[OF this(2,1)] show ?thesis unfolding put_head_def .
qed

lemma get_put_head:
  assumes "length d = BSIZE" "0 \<le> n" "n \<le> int LOGSIZE"
  shows "get32 (put_head n bs d) 0 = word_of_int n"
    "k < nat n \<Longrightarrow> get32 (put_head n bs d) (4 + 4 * k) = bs ! k"
proof -
  define p where "p = (\<lambda>(d :: block) k. put32 d (4 + 4 * k) (bs ! k))"
  have *: "length (foldl p d [0..<m]) = BSIZE \<and> get32 (foldl p d [0..<m]) 0 = get32 d 0 \<and>
     (\<forall>k < m. get32 (foldl p d [0..<m]) (4 + 4 * k) = bs ! k)" if "length d = BSIZE" "m \<le> LOGSIZE" for d m
    using that
  proof (induction m)
    case (Suc m)
    then show ?case by (auto simp: p_def less_Suc_eq)
  qed simp
  have "length (put32 d 0 (word_of_int n)) = BSIZE" using assms by simp
  from *[OF this, of "nat n"] assms show "get32 (put_head n bs d) 0 = word_of_int n"
    "k < nat n \<Longrightarrow> get32 (put_head n bs d) (4 + 4 * k) = bs ! k"
    unfolding put_head_def p_def by (auto simp: nat_le_iff)
qed

lemma put_head_0: "put_head 0 bs d = put32 d 0 0"
  by (simp add: put_head_def)

lemma commit_Ok:
  assumes ok: "log_ok s" and h: "held s = {}" and n: "0 < lhn s"
  shows "\<exists>s'. commit s = Ok s' \<and> held s' = {} \<and> dirty s' = {} \<and> bcache_ok s' \<and> in_proc s' \<and>
    cache_frame s s' \<and> disk s' = apply_writes (commit_writes s) (disk s) \<and>
    view s' = apply_writes (commit_writes s) (view s) \<and>
    disk_writes s' = disk_writes s @ commit_writes s \<and>
    log_st s' = (log_st s)\<lparr>log_lh := (log_lh (log_st s))\<lparr>lh_n := 0\<rparr>\<rparr>"
proof -
  let ?st = "log_start (log_st s)" and ?n = "nat (lhn s)"
  note d = log_okD[OF ok]
  have st: "?st < disksize s" using log_area_block(2)[OF d(9), of 0] by simp
  have lst: "length (view s ?st) = BSIZE" by (rule view_length[OF d(1) st])
  obtain s1 where s1: "write_log s = Ok s1" "wrote (log_writes s ?n) s s1" "held s1 = {}"
    using write_log_Ok[OF ok h] by blast
  note w1 = wroteD[OF s1(2)]
  have a1: "fst ` set (log_writes s ?n) \<subseteq> log_area s" "?st \<notin> fst ` set (log_writes s ?n)"
    using logged_block(5,6)[OF ok] by (auto simp: log_writes_def)
  have ds: "dirty s \<inter> log_area s = {}" using ok by (auto simp: log_ok_def)
  then have dt1: "dirty s1 = dirty s" using w1(7) a1 by auto
  have v1: "view s1 ?st = view s ?st" using w1(4) apply_writes_other[OF a1(2)] by simp
  have "\<exists>s2. write_head s1 = Ok s2 \<and> wrote [(?st, put_head (lhn s1) (lhblock s1) (view s1 ?st))] s1 s2 \<and> held s2 = {}"
    by (rule write_head_Ok) (use w1 s1 d dt1 st v1 lst in \<open>auto intro: length_put_head\<close>)
  then obtain s2 where s2: "write_head s1 = Ok s2" "wrote [head_write s] s1 s2" "held s2 = {}"
    by (auto simp: head_write_def v1 w1(8))
  note w2 = wroteD[OF s2(2)]
  have "?st \<notin> dirty s" using ds log_start_area[of s] by auto
  then have dt2: "dirty s2 = dirty s" using w2(7) dt1 by (simp add: head_write_def)
  have v2: "view s2 (log_block s k) = view s (lhblock s ! k)" if "k < ?n" for k
    using that logged_block(6)[OF ok that] apply_writes_same[OF logged_inj(2)[OF ok] that]
    by (simp add: w2(4) w1(4) head_write_def log_writes_def)
  obtain s3 where s3: "install_trans s2 = Ok s3" "wrote (home_writes s ?n) s2 s3" "held s3 = {}"
  proof -
    have "installs s2 ?n = home_writes s ?n"
      using v2 w2(8) w1(8) by (auto simp: installs_def home_writes_def)
    moreover have "lhblock s ! k \<notin> (\<lambda>j. lhblock s ! j) ` {..<k}" if "k < ?n" for k
      using inj_onD[OF logged_inj(1)[OF ok], of k] that by fastforce
    then have "\<exists>s'. install_trans s2 = Ok s' \<and> wrote (installs s2 (nat (lhn s2))) s2 s' \<and> held s' = {}"
      using logged_block(1-3)[OF ok] w2(8,9) w1(8,9) d dt2
      by (intro install_trans_Ok[OF s2(3) w2(2,3)]) (auto simp: log_area_def)
    ultimately show thesis using that w2(8) w1(8) by auto
  qed
  note w3 = wroteD[OF s3(2)]
  have f3: "fst ` set (home_writes s ?n) = dirty s"
  proof -
    have "dirty s = set (logged s)" using ok by (simp add: log_ok_def)
    also have "\<dots> = (\<lambda>k. lhblock s ! k) ` {..<?n}"
      using d(5,6) by (simp add: logged_def nth_image[symmetric] atLeast0LessThan)
    finally show ?thesis by (simp add: home_writes_def image_image atLeast0LessThan)
  qed
  then have dt3: "dirty s3 = {}" using w3(7) dt2 by simp
  let ?t = "upd_lh (\<lambda>h. h\<lparr>lh_n := 0\<rparr>) s3"
  have vt: "view ?t = view s3" "dirty ?t = {}" "held ?t = {}" "bcache_ok ?t" "in_proc ?t" "cache_frame s3 ?t"
    using w3(2,3) dt3 s3(3) by simp_all
  have v3: "view s3 ?st = snd (head_write s)"
    using apply_writes_other[of ?st "home_writes s ?n"] \<open>?st \<notin> dirty s\<close> f3
    by (simp add: w3(4) w2(4) head_write_def)
  have lh: "length (snd (head_write s)) = BSIZE"
    using d(5) lst by (auto simp: head_write_def intro: length_put_head)
  have "\<exists>s4. write_head ?t = Ok s4 \<and> wrote [(?st, put_head (lhn ?t) (lhblock ?t) (view ?t ?st))] ?t s4 \<and> held s4 = {}"
  proof (rule write_head_Ok)
    have "length (view ?t ?st) = BSIZE" using lh v3 vt(1) by simp
    then show "length (put_head (lhn ?t) (lhblock ?t) (view ?t ?st)) = BSIZE"
      by (rule length_put_head) simp
  qed (use vt(2-5) w3(8,9) w2(8,9) w1(8,9) d(3) st in simp_all)
  then obtain s4 where s4: "write_head ?t = Ok s4" "wrote [end_write s] ?t s4" "held s4 = {}"
    by (auto simp: end_write_def put_head_0 v3 vt(1))
  note w4 = wroteD[OF s4(2)]
  have "commit s = Ok s4" using s1(1) s2(1) s3(1) s4(1) n by (simp add: commit_def)
  moreover have "cache_frame s s4"
    using w1(1) w2(1) w3(1) vt(6) w4(1) by (blast intro: cache_frame_trans)
  ultimately show ?thesis
    using s4(3) w4(2-8) vt(1,2) w3(4-6,8) w2(4-6,8) w1(4-6,8) by (simp add: commit_writes_def)
qed

section \<open>Inside a transaction\<close>

definition in_tx :: "kernel \<Rightarrow> bool" where
  "in_tx s \<longleftrightarrow> log_ok s \<and> 1 \<le> log_outstanding (log_st s) \<and> int LOGSIZE \<le> log_size (log_st s)"

text \<open>The parts of the log that only \<open>initlog\<close>, \<open>begin_op\<close> and \<open>end_op\<close> change.\<close>

definition tx_frame :: "kernel \<Rightarrow> kernel \<Rightarrow> bool" where
  "tx_frame s s' \<longleftrightarrow> cache_frame s s' \<and> disk s' = disk s \<and> disk_writes s' = disk_writes s \<and>
     log_st s' = (log_st s)\<lparr>log_lh := log_lh (log_st s')\<rparr>"

lemma tx_frame_refl [simp]: "tx_frame s s"
  by (simp add: tx_frame_def)

lemma tx_frame_trans: "tx_frame s s' \<Longrightarrow> tx_frame s' s'' \<Longrightarrow> tx_frame s s''"
proof -
  assume a: "tx_frame s s'" "tx_frame s' s''"
  have l: "log_st s' = (log_st s)\<lparr>log_lh := log_lh (log_st s')\<rparr>"
    "log_st s'' = (log_st s')\<lparr>log_lh := log_lh (log_st s'')\<rparr>" using a by (simp_all add: tx_frame_def)
  have "(log_st s')\<lparr>log_lh := log_lh (log_st s'')\<rparr> = (log_st s)\<lparr>log_lh := log_lh (log_st s'')\<rparr>"
    by (subst l(1)) simp
  then have "log_st s'' = (log_st s)\<lparr>log_lh := log_lh (log_st s'')\<rparr>" using l(2) by simp
  then show ?thesis using a cache_frame_trans[of s s' s''] unfolding tx_frame_def by simp
qed

lemma disk_tx_frame: "disk_frame s s' \<Longrightarrow> tx_frame s s'"
  by (simp add: disk_frame_def tx_frame_def)

lemma tx_frameD:
  assumes "tx_frame s s'"
  shows "cache_frame s s'" "disk s' = disk s" "log_start (log_st s') = log_start (log_st s)"
    "log_size (log_st s') = log_size (log_st s)"
    "log_outstanding (log_st s') = log_outstanding (log_st s)"
    "log_committing (log_st s') = log_committing (log_st s)"
    "log_dev (log_st s') = log_dev (log_st s)" "log_area s' = log_area s"
    "disksize s' = disksize s" "icache s' = icache s" "sb s' = sb s"
proof -
  have l: "log_st s' = (log_st s)\<lparr>log_lh := log_lh (log_st s')\<rparr>" using assms by (simp add: tx_frame_def)
  show st: "log_start (log_st s') = log_start (log_st s)"
    "log_size (log_st s') = log_size (log_st s)"
    "log_outstanding (log_st s') = log_outstanding (log_st s)"
    "log_committing (log_st s') = log_committing (log_st s)"
    "log_dev (log_st s') = log_dev (log_st s)" by (subst l, simp)+
  show "log_area s' = log_area s" using st(1) by (simp add: log_area_def)
  show c: "cache_frame s s'" "disk s' = disk s" using assms by (simp_all add: tx_frame_def)
  show "disksize s' = disksize s" "icache s' = icache s" "sb s' = sb s" using cache_frameD(10-12)[OF c(1)] by simp_all
qed

lemma log_ok_frame:
  assumes "log_ok s" "disk_frame s s'" "bcache_ok s'" "in_proc s'" "dirty s' = dirty s"
  shows "log_ok s'"
proof -
  have f: "log_st s' = log_st s" "disk s' = disk s" "disksize s' = disksize s"
    using assms(2) cache_frameD(10)[of s s'] by (simp_all add: disk_frame_def)
  then show ?thesis using assms(1,3-5) unfolding log_ok_def logged_def log_area_def by simp
qed

text \<open>A new block is appended to the transaction, a block of the transaction is absorbed.\<close>

definition log_add :: "uint32 \<Rightarrow> logheader \<Rightarrow> logheader" where
  "log_add b h =
     (let n = nat (lh_n h) in
      if b \<in> set (take n (lh_block h)) then h
      else h\<lparr>lh_block := (lh_block h)[n := b], lh_n := lh_n h + 1\<rparr>)"

lemma log_write_eq:
  assumes "0 \<le> lhn s" "lhn s < int LOGSIZE - 1" "int LOGSIZE \<le> log_size (log_st s)"
    "1 \<le> log_outstanding (log_st s)" "length (lhblock s) = LOGSIZE" "b = b_blockno (bufs s ! i)"
  shows "log_write i s = Ok (upd_buf i (\<lambda>u. u\<lparr>b_dirty := True\<rparr>) (upd_lh (log_add b) s))"
proof (cases "find_idx (\<lambda>x. x = b) (take (nat (lhn s)) (lhblock s))")
  case None
  then have "b \<notin> set (take (nat (lhn s)) (lhblock s))" by (auto simp: find_idx_None_iff)
  then show ?thesis using assms None by (simp add: log_write_def Let_def log_add_def)
next
  case (Some j)
  then have j: "j < nat (lhn s)" "lhblock s ! j = b" "b \<in> set (take (nat (lhn s)) (lhblock s))"
    using assms(2,5) by (auto simp: find_idx_Some_iff in_set_conv_nth)
  then have "(lhblock s)[j := b] = lhblock s" using list_update_id[of "lhblock s" j] by simp
  then show ?thesis using assms Some j by (simp add: log_write_def Let_def log_add_def)
qed

lemma log_add_logged:
  assumes "0 \<le> lh_n h" "lh_n h < int LOGSIZE - 1" "length (lh_block h) = LOGSIZE"
    "distinct (take (nat (lh_n h)) (lh_block h))"
  shows "set (take (nat (lh_n (log_add b h))) (lh_block (log_add b h))) =
      insert b (set (take (nat (lh_n h)) (lh_block h)))"
    "distinct (take (nat (lh_n (log_add b h))) (lh_block (log_add b h)))"
    "length (lh_block (log_add b h)) = LOGSIZE" "0 \<le> lh_n (log_add b h)"
    "lh_n (log_add b h) < int LOGSIZE"
proof -
  have n: "nat (lh_n h + 1) = Suc (nat (lh_n h))" "nat (lh_n h) < length (lh_block h)"
    using assms by auto
  then have "take (nat (lh_n h + 1)) ((lh_block h)[nat (lh_n h) := b]) = take (nat (lh_n h)) (lh_block h) @ [b]"
    by (simp add: take_Suc_conv_app_nth)
  then show "set (take (nat (lh_n (log_add b h))) (lh_block (log_add b h))) =
      insert b (set (take (nat (lh_n h)) (lh_block h)))"
    "distinct (take (nat (lh_n (log_add b h))) (lh_block (log_add b h)))"
    "length (lh_block (log_add b h)) = LOGSIZE" "0 \<le> lh_n (log_add b h)"
    "lh_n (log_add b h) < int LOGSIZE"
    using assms by (auto simp: log_add_def Let_def)
qed

lemma log_write_Ok:
  assumes tx: "in_tx s" and h: "holds s i b" and d: "length d = BSIZE"
    and b: "b \<notin> log_area s" and c: "card (dirty s) < LOGSIZE - 1"
  obtains s' where "log_write i (set_data i d s) = Ok s'" "in_tx s'" "view s' = (view s)(b := d)"
    "dirty s' = insert b (dirty s)" "held s' = held s" "tx_frame s s'"
    "\<forall>j c. holds s' j c \<longleftrightarrow> holds s j c"
proof -
  have ok: "log_ok s" using tx by (simp add: in_tx_def)
  note lk = log_okD[OF ok]
  have n: "0 \<le> lhn s" "lhn s < int LOGSIZE - 1" using ok c lk(7) by (auto simp: log_ok_def)
  have i: "i < NBUF" "length (bufs s) = NBUF" "b_blockno (bufs s ! i) = b" "b < disksize s"
    using h lk(1) bcache_buf_ok[OF lk(1), of i] by (auto simp: holds_def bcache_ok_def buf_ok_def)
  define t where "t = upd_buf i (\<lambda>u. u\<lparr>b_data := d, b_dirty := True\<rparr>) s"
  define s' where "s' = upd_lh (log_add b) t"
  have "log_write i (set_data i d s) = Ok s'"
    using log_write_eq[of "set_data i d s" b i] n lk(6) tx i
    by (simp add: in_tx_def s'_def t_def upd_at_def)
  moreover note m = mark_dirty_Ok[OF lk(1) h d, folded t_def]
  have v: "view s' = (view s)(b := d)" "dirty s' = insert b (dirty s)" "held s' = held s" "bcache_ok s'"
    "in_proc s'" "\<forall>j c. holds s' j c \<longleftrightarrow> holds s j c"
    using m lk(2) by (simp_all add: s'_def t_def in_proc_def)
  moreover have fr: "tx_frame s s'" by (simp add: tx_frame_def cache_frame_def s'_def t_def)
  moreover have "in_tx s'"
  proof -
    have lst: "log_st s' = (log_st s)\<lparr>log_lh := log_add b (log_lh (log_st s))\<rparr>"
      by (simp add: s'_def t_def)
    have "distinct (logged s)" "set (logged s) = dirty s" using ok by (auto simp: log_ok_def)
    then have a: "set (logged s') = insert b (dirty s)" "distinct (logged s')" "length (lhblock s') = LOGSIZE"
      "0 \<le> lhn s'" "lhn s' < int LOGSIZE"
      using log_add_logged[of "log_lh (log_st s)" b] n lk(6) by (simp_all add: lst logged_def)
    have "dirty s \<inter> log_area s = {}" "\<forall>c \<in> dirty s. c < disksize s" using ok by (auto simp: log_ok_def)
    then have "log_ok s'"
      using a v tx_frameD[OF fr] lk(3,8,9) b i(4) unfolding log_ok_def by auto
    then show ?thesis using tx tx_frameD(4,5)[OF fr] by (simp add: in_tx_def)
  qed
  ultimately show thesis using that by blast
qed

section \<open>Recovery\<close>

text \<open>The machine after a restart: nothing is cached yet that the disk does not hold.\<close>

definition booted :: "kernel \<Rightarrow> bool" where
  "booted r \<longleftrightarrow> bcache_ok r \<and> in_proc r \<and> held r = {} \<and> dirty r = {} \<and> log_dev (log_st r) = 1 \<and>
     length (lhblock r) = LOGSIZE \<and>
     unat (log_start (log_st r)) + LOGSIZE \<le> unat (disksize r)"

text \<open>What the header on the disk says.\<close>

definition head_n :: "kernel \<Rightarrow> int" where
  "head_n r = sint (get32 (disk r (log_start (log_st r))) 0)"

definition head_block :: "kernel \<Rightarrow> nat \<Rightarrow> uint32" where
  "head_block r k = get32 (disk r (log_start (log_st r))) (4 + 4 * k)"

definition recovery_writes :: "kernel \<Rightarrow> (uint32 \<times> block) list" where
  "recovery_writes r = map (\<lambda>k. (head_block r k, disk r (log_block r k))) [0..<nat (head_n r)] @
     [(log_start (log_st r), put32 (disk r (log_start (log_st r))) 0 0)]"

lemma read_head_Ok:
  assumes r: "booted r" and n: "0 \<le> head_n r" "head_n r < int LOGSIZE"
  obtains r' where "read_head r = Ok r'" "bcache_ok r'" "in_proc r'" "held r' = {}" "dirty r' = {}"
    "view r' = disk r" "disk r' = disk r" "disk_writes r' = disk_writes r" "cache_frame r r'"
    "lhn r' = head_n r" "\<forall>k < nat (head_n r). lhblock r' ! k = head_block r k"
    "log_start (log_st r') = log_start (log_st r)" "log_dev (log_st r') = 1"
    "length (lhblock r') = LOGSIZE"
proof -
  let ?st = "log_start (log_st r)"
  have b: "bcache_ok r" "in_proc r" "?st < disksize r"
    using r log_area_block(2)[of r 0] by (auto simp: booted_def)
  have v0: "view r = disk r" using view_clean[OF b(1)] r by (auto simp: booted_def)
  obtain i s1 where s1: "bread 1 ?st r = Ok (i, s1)" "bcache_ok s1" "in_proc s1" "holds s1 i ?st"
    "view s1 = view r" "dirty s1 = dirty r" "held s1 = insert ?st (held r)" "disk_frame r s1"
    "\<forall>j c. holds r j c \<longrightarrow> holds s1 j c"
    by (rule bread_Ok[OF b]) (use r in \<open>auto simp: booted_def\<close>)
  have f1: "disk s1 = disk r" "disk_writes s1 = disk_writes r" "log_st s1 = log_st r" "cache_frame r s1"
    using s1(8) by (simp_all add: disk_frame_def)
  have dat: "bdata s1 i = disk r ?st" using holds_data[OF s1(2,4)] s1(5) v0 by simp
  define t where "t = upd_lh (\<lambda>h. h\<lparr>lh_n := head_n r, lh_block :=
    map (head_block r) [0..<nat (head_n r)] @ drop (nat (head_n r)) (lh_block h)\<rparr>) s1"
  have "bcache_ok t" "holds t i ?st" "in_proc t" using s1(2-4) by (simp_all add: t_def)
  then obtain s2 where s2: "brelse i t = Ok s2" "bcache_ok s2" "in_proc s2" "view s2 = view t"
    "dirty s2 = dirty t" "held s2 = held t - {?st}" "disk_frame t s2"
    "\<forall>k c. holds s2 k c \<longleftrightarrow> holds t k c \<and> k \<noteq> i"
    by (rule brelse_Ok)
  have f2: "disk s2 = disk t" "disk_writes s2 = disk_writes t" "log_st s2 = log_st t" "cache_frame t s2"
    using s2(7) by (simp_all add: disk_frame_def)
  have "log_dev (log_st r) = 1" "length (lhblock r) = LOGSIZE" using r by (auto simp: booted_def)
  then have "read_head r = Ok s2"
    using s1(1) s2(1) dat n f1(3)
    by (simp add: read_head_def Let_def t_def head_n_def[symmetric] head_block_def[abs_def])
  moreover have "cache_frame r s2"
    using cache_frame_trans[OF cache_frame_trans[OF f1(4)] f2(4)] by (simp add: t_def)
  moreover have "lhn s2 = head_n r" "\<forall>k < nat (head_n r). lhblock s2 ! k = head_block r k"
    "log_start (log_st s2) = ?st" "log_dev (log_st s2) = 1" "length (lhblock s2) = LOGSIZE"
    using f1(3) f2(3) n r by (auto simp: t_def nth_append booted_def)
  moreover have "held s2 = {}" "dirty s2 = {}" "view s2 = disk r" "disk s2 = disk r"
    "disk_writes s2 = disk_writes r"
    using s1(5-7) s2(4-6) f1(1,2) f2(1,2) v0 r by (auto simp: t_def booted_def)
  ultimately show thesis using that s2(2,3) by blast
qed

lemma recover_from_log_Ok:
  assumes r: "booted r" and n: "0 \<le> head_n r" "head_n r < int LOGSIZE"
    and b: "\<forall>k < nat (head_n r). head_block r k < disksize r \<and> head_block r k \<notin> log_area r"
  shows "\<exists>r'. recover_from_log r = Ok r' \<and> disk r' = apply_writes (recovery_writes r) (disk r) \<and>
    disk_writes r' = disk_writes r @ recovery_writes r \<and> view r' = disk r' \<and>
    bcache_ok r' \<and> in_proc r' \<and> held r' = {} \<and> dirty r' = {} \<and> lhn r' = 0 \<and>
    log_start (log_st r') = log_start (log_st r) \<and> cache_frame r r'"
proof -
  let ?st = "log_start (log_st r)"
  have bo: "unat ?st + LOGSIZE \<le> unat (disksize r)" using r by (simp add: booted_def)
  obtain r1 where r1: "read_head r = Ok r1" "bcache_ok r1" "in_proc r1" "held r1 = {}" "dirty r1 = {}"
    "view r1 = disk r" "disk r1 = disk r" "disk_writes r1 = disk_writes r" "cache_frame r r1"
    "lhn r1 = head_n r" "\<forall>k < nat (head_n r). lhblock r1 ! k = head_block r k"
    "log_start (log_st r1) = ?st" "log_dev (log_st r1) = 1" "length (lhblock r1) = LOGSIZE"
    by (rule read_head_Ok[OF r n])
  have ds: "disksize r1 = disksize r" using cache_frameD(10)[OF r1(9)] .
  have "\<exists>r2. install_trans r1 = Ok r2 \<and> wrote (installs r1 (nat (lhn r1))) r1 r2 \<and> held r2 = {}"
    using r1 ds bo b n by (intro install_trans_Ok) (auto simp: log_area_def)
  moreover define ws where "ws = map (\<lambda>k. (head_block r k, disk r (log_block r k))) [0..<nat (head_n r)]"
  have "installs r1 (nat (lhn r1)) = ws"
    using r1(6,10-12) by (auto simp: installs_def ws_def)
  ultimately obtain r2 where r2: "install_trans r1 = Ok r2" "wrote ws r1 r2" "held r2 = {}" by auto
  note w2 = wroteD[OF r2(2)]
  have "?st \<notin> fst ` set ws" using b log_start_area[of r] by (auto simp: ws_def)
  then have v2: "view r2 ?st = disk r ?st" using w2(4) r1(6) by (simp add: apply_writes_other)
  let ?t = "upd_lh (\<lambda>h. h\<lparr>lh_n := 0\<rparr>) r2"
  have "\<exists>r3. write_head ?t = Ok r3 \<and> wrote [(?st, put_head (lhn ?t) (lhblock ?t) (view ?t ?st))] ?t r3 \<and> held r3 = {}"
  proof (rule write_head_Ok)
    have "?st < disksize r" using log_area_block(2)[OF bo, of 0] by simp
    then show st: "?st < disksize ?t" using w2(9) ds by simp
    have "length (view ?t ?st) = BSIZE" by (rule view_length) (use w2(2) st in simp_all)
    then show "length (put_head (lhn ?t) (lhblock ?t) (view ?t ?st)) = BSIZE"
      by (rule length_put_head) simp
  qed (use w2(2,3,7,8) r2(3) r1(5,12,13) in simp_all)
  then obtain r3 where r3: "write_head ?t = Ok r3" "wrote [(?st, put32 (disk r ?st) 0 0)] ?t r3" "held r3 = {}"
    by (auto simp: put_head_0 v2)
  note w3 = wroteD[OF r3(2)]
  have "cache_frame r2 ?t" by simp
  then have fr: "cache_frame r r3" using r1(9) w2(1) w3(1) by (blast intro: cache_frame_trans)
  have "recover_from_log r = Ok r3"
    using r1(1) r2(1) r3(1) by (simp add: recover_from_log_def)
  moreover have "disk r3 = apply_writes (recovery_writes r) (disk r)"
    "disk_writes r3 = disk_writes r @ recovery_writes r" "view r3 = disk r3" "dirty r3 = {}"
    using w3(4-7) w2(4-7) r1(5-8) by (simp_all add: recovery_writes_def ws_def)
  ultimately show ?thesis using w3(2,3,8) w2(8) r1(12) r3(3) fr by auto
qed

section \<open>Crash safety\<close>

lemma home_writes_dirty: "log_ok s \<Longrightarrow> fst ` set (home_writes s (nat (lhn s))) = dirty s"
proof -
  assume ok: "log_ok s"
  then have "dirty s = set (logged s)" by (simp add: log_ok_def)
  also have "\<dots> = (\<lambda>k. lhblock s ! k) ` {..<nat (lhn s)}"
    using log_okD(5,6)[OF ok] by (simp add: logged_def nth_image[symmetric] atLeast0LessThan)
  finally show ?thesis by (simp add: home_writes_def image_image atLeast0LessThan)
qed

lemma apply_home_writes:
  assumes "log_ok s"
  shows "apply_writes (home_writes s (nat (lhn s))) f b = (if b \<in> dirty s then view s b else f b)"
proof (cases "b \<in> dirty s")
  case True
  then obtain k where "k < nat (lhn s)" "b = lhblock s ! k"
    using home_writes_dirty[OF assms, symmetric] by (auto simp: home_writes_def)
  then show ?thesis
    using True apply_writes_same[OF logged_inj(1)[OF assms]] by (simp add: home_writes_def)
next
  case False
  then show ?thesis using apply_writes_other home_writes_dirty[OF assms] by metis
qed

lemma commit_disk:
  assumes "log_ok s" "b \<notin> log_area s"
  shows "apply_writes (commit_writes s) (disk s) b = view s b"
    "apply_writes (commit_writes s) (view s) b = view s b"
proof -
  have "b \<notin> fst ` set (log_writes s (nat (lhn s)))"
    using logged_block(5)[OF assms(1)] assms(2) by (auto simp: log_writes_def)
  moreover have "b \<noteq> log_start (log_st s)" using assms(2) log_start_area by auto
  ultimately show "apply_writes (commit_writes s) (disk s) b = view s b"
    "apply_writes (commit_writes s) (view s) b = view s b"
    using view_clean[OF log_okD(1)[OF assms(1)], of b]
    by (auto simp: commit_writes_def apply_home_writes[OF assms(1)] head_write_def end_write_def
        apply_writes_other)
qed

section \<open>Beginning and ending a transaction\<close>

text \<open>No transaction is in progress: everything is on the disk.\<close>

definition quiet :: "kernel \<Rightarrow> bool" where
  "quiet s \<longleftrightarrow> log_ok s \<and> lhn s = 0 \<and> log_outstanding (log_st s) = 0 \<and>
     \<not> log_committing (log_st s) \<and> int LOGSIZE \<le> log_size (log_st s) \<and> held s = {}"

lemma quietD:
  assumes "quiet s"
  shows "log_ok s" "dirty s = {}" "held s = {}" "view s = disk s"
proof -
  show "log_ok s" "held s = {}" using assms by (auto simp: quiet_def)
  then show "dirty s = {}" using assms by (simp add: quiet_def log_ok_def logged_def)
  then show "view s = disk s" using view_clean[OF log_okD(1)[OF \<open>log_ok s\<close>]] by auto
qed

lemma log_ok_upd_log:
  "log_ok s \<Longrightarrow> log_lh l = log_lh (log_st s) \<Longrightarrow> log_start l = log_start (log_st s) \<Longrightarrow>
    log_dev l = log_dev (log_st s) \<Longrightarrow> log_ok (s\<lparr>log_st := l\<rparr>)"
  unfolding log_ok_def by (simp add: logged_def log_area_def)

lemma begin_op_Ok:
  assumes "quiet s"
  obtains s' where "begin_op s = Ok s'" "in_tx s'" "log_outstanding (log_st s') = 1"
    "\<not> log_committing (log_st s')" "view s' = view s" "dirty s' = {}" "held s' = {}"
    "disk s' = disk s" "disk_writes s' = disk_writes s" "cache_frame s s'" "procs s' = procs s"
    "log_area s' = log_area s"
proof -
  let ?s = "upd_log (\<lambda>l. l\<lparr>log_outstanding := log_outstanding l + 1\<rparr>) s"
  have "begin_op s = Ok ?s" using assms by (simp add: begin_op_def quiet_def)
  moreover have "in_tx ?s" using assms log_ok_upd_log[of s] by (simp add: in_tx_def quiet_def)
  ultimately show thesis using that[of ?s] assms quietD[OF assms] by (simp add: quiet_def log_area_def)
qed

lemma wakeup_cache [simp]:
  "view (wakeup c s) = view s" "dirty (wakeup c s) = dirty s" "held (wakeup c s) = held s"
  "bcache_ok (wakeup c s) = bcache_ok s" "disk (wakeup c s) = disk s"
  "disk_writes (wakeup c s) = disk_writes s" "log_st (wakeup c s) = log_st s"
  "disksize (wakeup c s) = disksize s" "cache_frame s (wakeup c s)"
  using wakes_wakeup[of s c]
  by (auto simp: wakeup_def wakeup1_def fun_eq_iff view_def cached_def dirty_def held_def bcache_ok_def
      buf_ok_def cache_frame_def split: option.splits)

lemma log_ok_wakeup: "log_ok s \<Longrightarrow> log_ok (wakeup c s)"
  using in_proc_frame(1)[of s "wakeup c s"] by (simp add: log_ok_def logged_def log_area_def)

lemma log_ok_committed:
  assumes ok: "log_ok s" and s': "bcache_ok s'" "in_proc s'" "dirty s' = {}" "cache_frame s s'"
    and l: "log_st s' = (log_st s)\<lparr>log_lh := (log_lh (log_st s))\<lparr>lh_n := 0\<rparr>\<rparr>"
    and z: "get32 (disk s' (log_start (log_st s))) 0 = 0"
  shows "log_ok s'"
  using s'(1-3) z log_okD(3,6,9)[OF ok] cache_frameD(10)[OF s'(4)]
  by (simp add: log_ok_def l logged_def)

lemma head_write_get:
  assumes "log_ok s"
  shows "get32 (snd (head_write s)) 0 = word_of_int (lhn s)"
    "k < nat (lhn s) \<Longrightarrow> get32 (snd (head_write s)) (4 + 4 * k) = lhblock s ! k"
    "get32 (snd (end_write s)) 0 = 0"
proof -
  have st: "log_start (log_st s) < disksize s" using log_area_block(2)[OF log_okD(9)[OF assms], of 0] by simp
  have l: "length (view s (log_start (log_st s))) = BSIZE"
    by (rule view_length[OF log_okD(1)[OF assms] st])
  have n: "0 \<le> lhn s" "lhn s \<le> int LOGSIZE" using log_okD(5)[OF assms] assms by (auto simp: log_ok_def)
  show "get32 (snd (head_write s)) 0 = word_of_int (lhn s)"
    "k < nat (lhn s) \<Longrightarrow> get32 (snd (head_write s)) (4 + 4 * k) = lhblock s ! k"
    using get_put_head[OF l n] by (auto simp: head_write_def)
  show "get32 (snd (end_write s)) 0 = 0"
    using length_put_head[OF l n(2)] by (simp add: end_write_def head_write_def)
qed

lemma end_op_Ok:
  assumes tx: "in_tx s" "log_outstanding (log_st s) = 1" "\<not> log_committing (log_st s)" "held s = {}"
  obtains s' where "end_op s = Ok s'" "quiet s'" "cache_frame s s'" "log_area s' = log_area s"
    "\<forall>b. b \<notin> log_area s \<longrightarrow> view s' b = view s b"
proof -
  let ?t = "upd_log (\<lambda>l. l\<lparr>log_outstanding := 0, log_committing := True\<rparr>) s"
  have ok: "log_ok ?t" "held ?t = {}" using tx log_ok_upd_log[of s] by (simp_all add: in_tx_def)
  have area: "log_area ?t = log_area s" by (simp add: log_area_def)
  have "\<exists>t'. commit ?t = Ok t' \<and> log_ok t' \<and> dirty t' = {} \<and> held t' = {} \<and> cache_frame ?t t' \<and>
      log_st t' = (log_st ?t)\<lparr>log_lh := (log_lh (log_st ?t))\<lparr>lh_n := 0\<rparr>\<rparr> \<and>
      (\<forall>b. b \<notin> log_area s \<longrightarrow> view t' b = view s b)"
  proof (cases "0 < lhn ?t")
    case True
    obtain t' where t': "commit ?t = Ok t'" "held t' = {}" "dirty t' = {}" "bcache_ok t'" "in_proc t'"
      "cache_frame ?t t'" "disk t' = apply_writes (commit_writes ?t) (disk ?t)"
      "view t' = apply_writes (commit_writes ?t) (view ?t)"
      "log_st t' = (log_st ?t)\<lparr>log_lh := (log_lh (log_st ?t))\<lparr>lh_n := 0\<rparr>\<rparr>"
      using commit_Ok[OF ok True] by blast
    have "disk t' (log_start (log_st ?t)) = snd (end_write ?t)"
      by (simp add: t'(7) commit_writes_def end_write_def)
    then have "get32 (disk t' (log_start (log_st ?t))) 0 = 0" using head_write_get(3)[OF ok(1)] by simp
    then have "log_ok t'" by (rule log_ok_committed[OF ok(1) t'(4,5,3,6,9)])
    then show ?thesis using t' commit_disk(2)[OF ok(1)] area by auto
  next
    case False
    then have n: "lhn s = 0" using ok by (simp add: log_ok_def)
    then have "dirty ?t = {}" using ok(1) by (simp add: log_ok_def logged_def)
    then show ?thesis using False ok n by (auto simp: commit_def intro!: exI[of _ ?t])
  qed
  then obtain t' where t': "commit ?t = Ok t'" "log_ok t'" "dirty t' = {}" "held t' = {}" "cache_frame ?t t'"
    "log_st t' = (log_st ?t)\<lparr>log_lh := (log_lh (log_st ?t))\<lparr>lh_n := 0\<rparr>\<rparr>"
    "\<forall>b. b \<notin> log_area s \<longrightarrow> view t' b = view s b" by blast
  let ?u = "upd_log (\<lambda>l. l\<lparr>log_committing := False\<rparr>) t'"
  have "end_op s = Ok (wakeup ChanLog ?u)" using tx t'(1) by (simp add: end_op_def)
  moreover have "quiet (wakeup ChanLog ?u)"
    using log_ok_wakeup[OF log_ok_upd_log[OF t'(2)]] t'(4,6) tx(1) by (simp add: quiet_def in_tx_def)
  moreover have "cache_frame s (wakeup ChanLog ?u)"
    by (rule cache_frame_trans[OF cache_frame_trans[OF log_st_cache(7) t'(5)]])
      (rule cache_frame_trans[OF log_st_cache(7) wakeup_cache(9)])
  moreover have "log_area (wakeup ChanLog ?u) = log_area s" using t'(6) by (simp add: log_area_def)
  ultimately show thesis using that t'(7) by simp
qed

lemma sint_small: "0 \<le> n \<Longrightarrow> n < 2 ^ 31 \<Longrightarrow> sint (word_of_int n :: uint32) = n"
  by (simp add: sint_sbintrunc' signed_take_bit_int_eq_self_iff)

text \<open>The disk after a crash at the \<open>k\<close>-th write, as the header on it is read.\<close>

lemma crash_early:
  assumes "log_ok s" "k \<le> nat (lhn s)"
  defines "d \<equiv> apply_writes (take k (commit_writes s)) (disk s)"
  shows "get32 (d (log_start (log_st s))) 0 = 0" "b \<notin> log_area s \<Longrightarrow> d b = disk s b"
proof -
  have t: "take k (commit_writes s) = take k (log_writes s (nat (lhn s)))"
    using assms(2) by (simp add: commit_writes_def log_writes_def)
  have f: "fst ` set (take k (log_writes s (nat (lhn s)))) \<subseteq> log_block s ` {..<nat (lhn s)}"
    by (auto simp: log_writes_def dest!: in_set_takeD)
  have "log_start (log_st s) \<notin> log_block s ` {..<nat (lhn s)}"
    using logged_block(6)[OF assms(1)] by force
  then have "d (log_start (log_st s)) = disk s (log_start (log_st s))"
    unfolding d_def t using f by (intro apply_writes_other) blast
  then show "get32 (d (log_start (log_st s))) 0 = 0" using log_okD(8)[OF assms(1)] by simp
  show "d b = disk s b" if "b \<notin> log_area s"
    unfolding d_def t using f that logged_block(5)[OF assms(1)] by (intro apply_writes_other) fastforce
qed

lemma crash_late:
  assumes ok: "log_ok s" and k: "nat (lhn s) < k" "k < length (commit_writes s)"
  defines "d \<equiv> apply_writes (take k (commit_writes s)) (disk s)"
  shows "d (log_start (log_st s)) = snd (head_write s)"
    "j < nat (lhn s) \<Longrightarrow> d (log_block s j) = view s (lhblock s ! j)"
    "b \<notin> log_area s \<Longrightarrow> b \<notin> dirty s \<Longrightarrow> d b = view s b"
proof -
  let ?n = "nat (lhn s)" and ?st = "log_start (log_st s)"
  define M where "M = take (k - ?n - 1) (home_writes s ?n)"
  have t: "take k (commit_writes s) = log_writes s ?n @ [head_write s] @ M"
    using k by (simp add: commit_writes_def log_writes_def home_writes_def M_def take_Cons')
  have f: "fst ` set M \<subseteq> dirty s"
    using home_writes_dirty[OF ok] unfolding M_def by (metis image_mono set_take_subset)
  have ds: "dirty s \<inter> log_area s = {}" using ok by (auto simp: log_ok_def)
  have M: "apply_writes M g b = g b" if "b \<notin> dirty s" for g b
    using apply_writes_other[of b M g] f that by blast
  have st: "?st \<notin> dirty s" using ds log_start_area by blast
  then show "d ?st = snd (head_write s)"
    unfolding d_def t by (simp add: M head_write_def)
  show "d (log_block s j) = view s (lhblock s ! j)" if j: "j < ?n"
  proof -
    have "log_block s j \<notin> dirty s" "log_block s j \<noteq> ?st" using logged_block(5,6)[OF ok j] ds by auto
    then show ?thesis
      unfolding d_def t using apply_writes_same[OF logged_inj(2)[OF ok] j]
      by (simp add: M head_write_def log_writes_def)
  qed
  show "d b = view s b" if b: "b \<notin> log_area s" "b \<notin> dirty s"
  proof -
    have "b \<noteq> ?st" "b \<notin> fst ` set (log_writes s ?n)"
      using b log_start_area[of s] logged_block(5)[OF ok] by (auto simp: log_writes_def)
    then show ?thesis
      unfolding d_def t using view_clean[OF log_okD(1)[OF ok] b(2)] b
      by (simp add: M head_write_def apply_writes_other)
  qed
qed

lemma recovered_disk:
  assumes r: "booted r" and s: "log_ok s" and e: "log_start (log_st r) = log_start (log_st s)"
    "disksize r = disksize s"
  shows "head_n r = 0 \<Longrightarrow> \<exists>r'. recover_from_log r = Ok r' \<and>
      (\<forall>b. b \<notin> log_area s \<longrightarrow> disk r' b = disk r b)"
    "disk r (log_start (log_st s)) = snd (head_write s) \<Longrightarrow>
      \<forall>j < nat (lhn s). disk r (log_block s j) = view s (lhblock s ! j) \<Longrightarrow>
      \<exists>r'. recover_from_log r = Ok r' \<and>
        (\<forall>b. b \<notin> log_area s \<longrightarrow> disk r' b = (if b \<in> dirty s then view s b else disk r b))"
proof -
  have area: "log_area r = log_area s" using e(1) by (simp add: log_area_def)
  show "\<exists>r'. recover_from_log r = Ok r' \<and> (\<forall>b. b \<notin> log_area s \<longrightarrow> disk r' b = disk r b)"
    if "head_n r = 0"
  proof -
    have "recovery_writes r = [(log_start (log_st s), put32 (disk r (log_start (log_st s))) 0 0)]"
      using that e(1) by (simp add: recovery_writes_def)
    then show ?thesis
      using recover_from_log_Ok[OF r] that log_start_area[of s] by auto
  qed
  assume h: "disk r (log_start (log_st s)) = snd (head_write s)"
    and l: "\<forall>j < nat (lhn s). disk r (log_block s j) = view s (lhblock s ! j)"
  have hn: "head_n r = lhn s" "\<forall>j < nat (lhn s). head_block r j = lhblock s ! j"
  proof -
    have "sint (word_of_int (lhn s) :: uint32) = lhn s" by (rule sint_small) (use s in \<open>auto simp: log_ok_def\<close>)
    then show "head_n r = lhn s" using h e(1) head_write_get(1)[OF s] by (simp add: head_n_def)
    show "\<forall>j < nat (lhn s). head_block r j = lhblock s ! j"
      using h e(1) head_write_get(2)[OF s] by (simp add: head_block_def)
  qed
  have "recovery_writes r = home_writes s (nat (lhn s)) @
      [(log_start (log_st s), put32 (snd (head_write s)) 0 0)]"
    using hn l h e(1) by (auto simp: recovery_writes_def home_writes_def)
  moreover have "\<exists>r'. recover_from_log r = Ok r' \<and> disk r' = apply_writes (recovery_writes r) (disk r)"
    using recover_from_log_Ok[OF r] hn log_okD(4,5)[OF s] logged_block(2,3)[OF s] area e(2) by auto
  ultimately show "\<exists>r'. recover_from_log r = Ok r' \<and>
        (\<forall>b. b \<notin> log_area s \<longrightarrow> disk r' b = (if b \<in> dirty s then view s b else disk r b))"
    using log_start_area[of s] by (auto simp: apply_home_writes[OF s])
qed

text \<open>
  C3. A transaction is atomic with respect to crashes.  Committing a transaction succeeds and sends
  the disk a sequence of block writes.  Cut this sequence off anywhere, restart the machine on the
  disk as it is then and run the recovery: the recovery succeeds, and outside the log every block of
  the disk is as before the transaction if the header had not been written, and as the transaction
  wants it otherwise.  Without a crash the disk holds the transaction at the end.
\<close>

theorem commit_crash_atomic:
  assumes "log_ok s" "held s = {}" "0 < lhn s"
  shows "\<exists>s' ws. commit s = Ok s' \<and> disk_writes s' = disk_writes s @ ws \<and>
    (\<forall>b. b \<notin> log_area s \<longrightarrow> disk s' b = view s b) \<and>
    (\<forall>k r. k \<le> length ws \<and> booted r \<and> log_start (log_st r) = log_start (log_st s) \<and>
       disksize r = disksize s \<and> disk r = apply_writes (take k ws) (disk s) \<longrightarrow>
       (\<exists>r'. recover_from_log r = Ok r' \<and>
         (\<forall>b. b \<notin> log_area s \<longrightarrow>
            disk r' b = (if k \<le> nat (lhn s) then disk s b else view s b))))"
proof -
  obtain s' where s': "commit s = Ok s'" "disk s' = apply_writes (commit_writes s) (disk s)"
    "disk_writes s' = disk_writes s @ commit_writes s" using commit_Ok[OF assms] by blast
  have "\<exists>r'. recover_from_log r = Ok r' \<and>
      (\<forall>b. b \<notin> log_area s \<longrightarrow> disk r' b = (if k \<le> nat (lhn s) then disk s b else view s b))"
    if k: "k \<le> length (commit_writes s)" and r: "booted r"
      "log_start (log_st r) = log_start (log_st s)" "disksize r = disksize s"
      "disk r = apply_writes (take k (commit_writes s)) (disk s)" for k r
  proof -
    note rec = recovered_disk[OF r(1) assms(1) r(2,3)]
    consider "k \<le> nat (lhn s)" | "nat (lhn s) < k" "k < length (commit_writes s)"
      | "nat (lhn s) < k" "k = length (commit_writes s)" using k by linarith
    then show ?thesis
    proof cases
      case 1
      from crash_early[OF assms(1) this, folded r(4)] have "head_n r = 0"
        using r(2) by (simp add: head_n_def)
      from rec(1)[OF this] show ?thesis
        using crash_early(2)[OF assms(1) 1, folded r(4)] 1 by auto
    next
      case 2
      note c = crash_late[OF assms(1) 2, folded r(4)]
      from rec(2)[OF c(1)] c(2) obtain r' where "recover_from_log r = Ok r'"
        "\<forall>b. b \<notin> log_area s \<longrightarrow> disk r' b = (if b \<in> dirty s then view s b else disk r b)" by blast
      then show ?thesis using c(3) 2(1) by auto
    next
      case 3
      have "disk r (log_start (log_st s)) = snd (end_write s)"
        using r(4) 3(2) by (simp add: commit_writes_def end_write_def)
      then have "head_n r = 0" using r(2) head_write_get(3)[OF assms(1)] by (simp add: head_n_def)
      from rec(1)[OF this] show ?thesis
        using commit_disk(1)[OF assms(1)] r(4) 3 by auto
    qed
  qed
  then show ?thesis using s' commit_disk(1)[OF assms(1)] by auto
qed

section \<open>Examples\<close>

text \<open>The example kernel with a transaction that has written block 100, and the same kernel idle.\<close>

definition demo_tx :: kernel where
  "demo_tx = (upd_buf 0 (\<lambda>b. b\<lparr>b_valid := True, b_dirty := True, b_dev := 1, b_blockno := 100,
       b_data := replicate BSIZE 1\<rparr>) demo_kernel)
     \<lparr>log_st := (log_st demo_kernel)\<lparr>log_outstanding := 1,
       log_lh := \<lparr>lh_n = 1, lh_block = 100 # replicate 29 0\<rparr>\<rparr>\<rparr>"

lemma demo_buf [simp]:
  "\<not> b_valid demo_buf" "\<not> b_dirty demo_buf" "b_dev demo_buf = 0" "\<not> sl_locked (b_lock demo_buf)"
  "b_refcnt demo_buf = 0" "length (b_data demo_buf) = BSIZE"
  by (simp_all add: demo_buf_def initsleeplock_def)

lemma demo_tx_bufs:
  "bufs demo_tx = demo_buf\<lparr>b_valid := True, b_dirty := True, b_dev := 1, b_blockno := 100,
     b_data := replicate BSIZE 1\<rparr> # replicate 29 demo_buf"
  by (simp add: demo_tx_def demo_kernel_def upd_at_def numeral_eq_Suc)

lemma demo_tx_view: "view demo_tx 100 = replicate BSIZE 1"
  by (simp add: view_def cached_def demo_tx_bufs)

lemma demo_tx_cache: "held demo_tx = {}" "dirty demo_tx = {100}"
proof -
  show "held demo_tx = {}" by (auto simp: held_def demo_tx_bufs)
  have "demo_buf\<lparr>b_valid := True, b_dirty := True, b_dev := 1, b_blockno := 100,
     b_data := replicate BSIZE 1\<rparr> \<in> set (bufs demo_tx)" by (simp add: demo_tx_bufs)
  then have "100 \<in> dirty demo_tx" unfolding dirty_def by force
  moreover have "dirty demo_tx \<subseteq> {100}" by (auto simp: dirty_def demo_tx_bufs)
  ultimately show "dirty demo_tx = {100}" by blast
qed

lemma demo_in_proc: "in_proc demo_kernel" "in_proc demo_tx"
  by (auto simp: in_proc_def demo_tx_def demo_kernel_def demo_procs_def blank_proc_def)

lemma demo_bcache_ok: "bcache_ok demo_kernel" "bcache_ok demo_tx"
proof -
  show "bcache_ok demo_kernel"
    by (auto simp: bcache_ok_def demo_kernel_def buf_ok_def)
  have n: "bufs demo_tx ! i = (if i = 0 then demo_buf\<lparr>b_valid := True, b_dirty := True, b_dev := 1,
      b_blockno := 100, b_data := replicate BSIZE 1\<rparr> else demo_buf)" if "i < NBUF" for i
    using that by (auto simp: demo_tx_bufs nth_Cons' )
  show "bcache_ok demo_tx"
    by (auto simp: bcache_ok_def buf_ok_def n) (auto simp: demo_tx_def demo_kernel_def)
qed

lemma demo_log: "log_area demo_tx = {2 + of_nat k | k. k < LOGSIZE}" "logged demo_tx = [100]"
  by (simp_all add: log_area_def logged_def demo_tx_def demo_kernel_def)

lemma demo_not_log: "(100 :: uint32) \<notin> log_area demo_tx"
proof -
  have "unat (2 + of_nat k :: uint32) = 2 + k" if "k < LOGSIZE" for k
    using that by (simp add: unat_word_ariths unat_of_nat_small)
  moreover have "unat (100 :: uint32) = 100" by simp
  ultimately show ?thesis by (fastforce simp: demo_log)
qed

lemma demo_tx_simps [simp]:
  "disksize demo_tx = 1000" "disk demo_tx b = replicate BSIZE 0"
  "log_st demo_tx = (log_st demo_kernel)\<lparr>log_outstanding := 1,
     log_lh := \<lparr>lh_n = 1, lh_block = 100 # replicate 29 0\<rparr>\<rparr>"
  by (simp_all add: demo_tx_def demo_kernel_def)

lemma demo_kernel_log [simp]:
  "log_st demo_kernel = \<lparr>log_start = 2, log_size = 30, log_outstanding = 0, log_committing = False,
     log_dev = 1, log_lh = \<lparr>lh_n = 0, lh_block = replicate LOGSIZE 0\<rparr>\<rparr>"
  by (simp add: demo_kernel_def)

lemma demo_log_ok: "log_ok demo_tx"
proof -
  have "get32 (replicate BSIZE 0) 0 = (0 :: uint32)"
    by (simp add: get32_def of_le32_def get_bytes_def numeral_eq_Suc)
  then show ?thesis
    unfolding log_ok_def using demo_bcache_ok(2) demo_in_proc(2) demo_tx_cache demo_not_log
    by (simp add: demo_log(2))
qed

theorem commit_crash_atomic_witness:
  "\<exists>s'. commit demo_tx = Ok s' \<and> disk s' 100 = replicate BSIZE 1 \<and> disk demo_tx 100 = replicate BSIZE 0"
  using commit_crash_atomic[OF demo_log_ok demo_tx_cache(1)] demo_not_log demo_tx_view by auto

text \<open>
  C20. Ending an operation succeeds.  If other operations are outstanding nothing is written to the
  disk, and the blocks read as before.  The last operation commits: then every block outside the log
  is on the disk as the cache held it, no block is modified any more and the log is empty, so that
  the next operation can begin.
\<close>

theorem end_op_durable:
  assumes "in_tx s" "\<not> log_committing (log_st s)" "held s = {}"
  shows "\<exists>s'. end_op s = Ok s' \<and> log_outstanding (log_st s') = log_outstanding (log_st s) - 1 \<and>
    (\<forall>b. b \<notin> log_area s \<longrightarrow> view s' b = view s b) \<and>
    (if log_outstanding (log_st s) = 1
     then quiet s' \<and> lhn s' = 0 \<and> (\<forall>b. b \<notin> log_area s \<longrightarrow> disk s' b = view s b)
     else in_tx s' \<and> disk s' = disk s \<and> disk_writes s' = disk_writes s)"
proof (cases "log_outstanding (log_st s) = 1")
  case True
  obtain s' where s': "end_op s = Ok s'" "quiet s'" "cache_frame s s'" "log_area s' = log_area s"
    "\<forall>b. b \<notin> log_area s \<longrightarrow> view s' b = view s b" by (rule end_op_Ok[OF assms(1) True assms(2,3)])
  then show ?thesis using True quietD(4)[OF s'(2)] by (auto simp: quiet_def)
next
  case False
  let ?t = "upd_log (\<lambda>l. l\<lparr>log_outstanding := log_outstanding l - 1\<rparr>) s"
  have o: "2 \<le> log_outstanding (log_st s)" "log_ok s" "int LOGSIZE \<le> log_size (log_st s)"
    using assms(1) False by (auto simp: in_tx_def)
  then have "end_op s = Ok (wakeup ChanLog ?t)" using assms(2) by (simp add: end_op_def Let_def)
  moreover have "in_tx (wakeup ChanLog ?t)"
    using log_ok_wakeup[OF log_ok_upd_log[OF o(2)]] o by (simp add: in_tx_def)
  ultimately show ?thesis using False by simp
qed

theorem end_op_durable_witness:
  "\<exists>s'. end_op demo_tx = Ok s' \<and> quiet s' \<and> disk s' 100 = replicate BSIZE 1"
proof -
  have "in_tx demo_tx" using demo_log_ok by (simp add: in_tx_def)
  then show ?thesis using end_op_durable[of demo_tx] demo_not_log demo_tx_view demo_tx_cache by auto
qed

end
