(* ===== verification/Tx.thy ===== *)
theory Tx
  imports Log
begin

text \<open>
  The interface between the file system and the buffer cache with its log, as a locale: inside a
  transaction a client gets hold of a block, replaces its data, and lets it go.  The clients are the
  operations of src/fs.c on the free map, the inodes and the data blocks.  The interpretation at the
  end is \<open>bread\<close>, \<open>log_write\<close> and \<open>brelse\<close> of the model.
\<close>

text \<open>
  \<open>inv n H s\<close>: a transaction is open that may still write \<open>n\<close> times, and \<open>H\<close> is the set of
  the blocks that are held; \<open>has s i b\<close>: the handle \<open>i\<close> is for block \<open>b\<close>; \<open>content\<close> is
  what the blocks hold, \<open>blocks\<close> are those that a transaction may touch, and \<open>frame\<close> relates
  two states with equal client state.
\<close>

locale block_reader =
  fixes get :: "uint32 \<Rightarrow> 's \<Rightarrow> (nat \<times> 's) res"
    and release :: "nat \<Rightarrow> 's \<Rightarrow> 's res"
    and data :: "'s \<Rightarrow> nat \<Rightarrow> block"
    and content :: "'s \<Rightarrow> uint32 \<Rightarrow> block"
    and blocks :: "'s \<Rightarrow> uint32 set"
    and inv :: "nat \<Rightarrow> uint32 set \<Rightarrow> 's \<Rightarrow> bool"
    and has :: "'s \<Rightarrow> nat \<Rightarrow> uint32 \<Rightarrow> bool"
    and frame :: "'s \<Rightarrow> 's \<Rightarrow> bool"
  assumes get_ok: "inv n H s \<Longrightarrow> b \<in> blocks s \<Longrightarrow> b \<notin> H \<Longrightarrow> card H \<le> n \<Longrightarrow>
      \<exists>i s'. get b s = Ok (i, s') \<and> inv n (insert b H) s' \<and> has s' i b \<and> content s' = content s \<and>
        frame s s' \<and> (\<forall>j c. has s j c \<longrightarrow> has s' j c)"
    and release_ok: "inv n H s \<Longrightarrow> has s i b \<Longrightarrow>
      \<exists>s'. release i s = Ok s' \<and> inv n (H - {b}) s' \<and> content s' = content s \<and> frame s s' \<and>
        (\<forall>j c. has s' j c \<longleftrightarrow> has s j c \<and> j \<noteq> i)"
    and has_data: "inv n H s \<Longrightarrow> has s i b \<Longrightarrow> data s i = content s b"
    and has_held: "inv n H s \<Longrightarrow> has s i b \<Longrightarrow> b \<in> H"
    and has_block: "has s i b \<Longrightarrow> has s i c \<Longrightarrow> b = c"
    and block_size: "inv n H s \<Longrightarrow> b \<in> blocks s \<Longrightarrow> length (content s b) = BSIZE"
    and frame_refl: "frame s s"
    and frame_trans: "frame s t \<Longrightarrow> frame t u \<Longrightarrow> frame s u"
    and frame_blocks: "frame s s' \<Longrightarrow> blocks s' = blocks s"
    and fewer: "inv n H s \<Longrightarrow> m \<le> n \<Longrightarrow> inv m H s"
begin

text \<open>Look at a block and let it go.\<close>

lemma read_block:
  assumes s: "inv n H s" "b \<in> blocks s" "b \<notin> H" "card H \<le> n"
  obtains i s1 s2 where "get b s = Ok (i, s1)" "data s1 i = content s b" "frame s s1"
    "content s1 = content s" "inv n (insert b H) s1" "has s1 i b" "release i s1 = Ok s2" "inv n H s2"
    "content s2 = content s" "frame s s2" "\<forall>j c. has s j c \<longrightarrow> has s2 j c"
proof -
  obtain i s1 where g: "get b s = Ok (i, s1)" "inv n (insert b H) s1" "has s1 i b" "content s1 = content s"
    "frame s s1" "\<forall>j c. has s j c \<longrightarrow> has s1 j c" using get_ok[OF s] by blast
  obtain s2 where r: "release i s1 = Ok s2" "inv n (insert b H - {b}) s2" "content s2 = content s1"
    "frame s1 s2" "\<forall>j c. has s2 j c \<longleftrightarrow> has s1 j c \<and> j \<noteq> i" using release_ok[OF g(2,3)] by blast
  have "has s2 j c" if "has s j c" for j c
  proof -
    have "c \<noteq> b" using has_held[OF s(1) that] s(3) by blast
    then have "j \<noteq> i" using has_block[of s1 i] g(3,6) that by blast
    then show ?thesis using that g(6) r(5) by blast
  qed
  moreover have "frame s s2" using g(5) r(4) frame_trans by blast
  ultimately show thesis
    using that[OF g(1) _ g(5,4,2,3) r(1)] has_data[OF g(2,3)] g(4) r(2,3) s(3) by simp
qed

end

text \<open>A block store is a block reader with an operation that replaces the data of a block.\<close>

locale block_store = block_reader get release data content blocks inv has frame
  for get :: "uint32 \<Rightarrow> 's \<Rightarrow> (nat \<times> 's) res"
    and release :: "nat \<Rightarrow> 's \<Rightarrow> 's res"
    and data :: "'s \<Rightarrow> nat \<Rightarrow> block"
    and content :: "'s \<Rightarrow> uint32 \<Rightarrow> block"
    and blocks :: "'s \<Rightarrow> uint32 set"
    and inv :: "nat \<Rightarrow> uint32 set \<Rightarrow> 's \<Rightarrow> bool"
    and has :: "'s \<Rightarrow> nat \<Rightarrow> uint32 \<Rightarrow> bool"
    and frame :: "'s \<Rightarrow> 's \<Rightarrow> bool" +
  fixes put :: "nat \<Rightarrow> block \<Rightarrow> 's \<Rightarrow> 's res"
  assumes put_ok: "inv (Suc n) H s \<Longrightarrow> has s i b \<Longrightarrow> b \<in> blocks s \<Longrightarrow> length d = BSIZE \<Longrightarrow>
      \<exists>s'. put i d s = Ok s' \<and> inv n H s' \<and> content s' = (content s)(b := d) \<and> frame s s' \<and>
        (\<forall>j c. has s' j c \<longleftrightarrow> has s j c)"
begin

text \<open>Get a block, write it, and let it go.\<close>

lemma update_block:
  assumes s: "inv (Suc n) H s" "b \<in> blocks s" "b \<notin> H" "card H \<le> Suc n" "length (f (content s b)) = BSIZE"
  obtains i s1 s2 s' where "get b s = Ok (i, s1)" "data s1 i = content s b" "frame s s1"
    "put i (f (content s b)) s1 = Ok s2" "release i s2 = Ok s'" "inv n H s'"
    "content s' = (content s)(b := f (content s b))" "frame s s'" "\<forall>j c. has s j c \<longrightarrow> has s' j c"
proof -
  obtain i s1 where g: "get b s = Ok (i, s1)" "inv (Suc n) (insert b H) s1" "has s1 i b"
    "content s1 = content s" "frame s s1" "\<forall>j c. has s j c \<longrightarrow> has s1 j c" using get_ok[OF s(1-4)] by blast
  have b: "b \<in> blocks s1" using frame_blocks[OF g(5)] s(2) by simp
  obtain s2 where p: "put i (f (content s b)) s1 = Ok s2" "inv n (insert b H) s2"
    "content s2 = (content s1)(b := f (content s b))" "frame s1 s2" "\<forall>j c. has s2 j c \<longleftrightarrow> has s1 j c"
    using put_ok[OF g(2,3) b s(5)] by blast
  have h2: "has s2 i b" using p(5) g(3) by blast
  obtain s' where r: "release i s2 = Ok s'" "inv n (insert b H - {b}) s'" "content s' = content s2"
    "frame s2 s'" "\<forall>j c. has s' j c \<longleftrightarrow> has s2 j c \<and> j \<noteq> i" using release_ok[OF p(2) h2] by blast
  have "has s' j c" if "has s j c" for j c
  proof -
    have "c \<noteq> b" using has_held[OF s(1) that] s(3) by blast
    then have "j \<noteq> i" using has_block[of s1 i] g(3,6) that by blast
    then show ?thesis using that g(6) p(5) r(5) by blast
  qed
  moreover have "frame s s'" using g(5) p(4) r(4) frame_trans by blast
  ultimately show thesis
    using that[OF g(1) _ g(5) p(1) r(1)] has_data[OF g(2,3)] g(4) r(2,3) p(3) s(3) by simp
qed

end

section \<open>The cache as a block reader\<close>

lemma finite_dirty [simp]: "finite (dirty s)" "finite (held s)"
  by (simp_all add: dirty_def held_def)

definition rd_ok :: "nat \<Rightarrow> uint32 set \<Rightarrow> kernel \<Rightarrow> bool" where
  "rd_ok n H s \<longleftrightarrow> bcache_ok s \<and> in_proc s \<and> held s = H \<and> card (dirty s) + n \<le> LOGSIZE - 1"

definition rd_blocks :: "kernel \<Rightarrow> uint32 set" where
  "rd_blocks s = {b. b < disksize s}"

lemma rd_get:
  assumes "rd_ok n H s" "b \<in> rd_blocks s" "b \<notin> H" "card H \<le> n"
  shows "\<exists>i s'. bread 1 b s = Ok (i, s') \<and> rd_ok n (insert b H) s' \<and> holds s' i b \<and> view s' = view s \<and>
    disk_frame s s' \<and> (\<forall>j c. holds s j c \<longrightarrow> holds s' j c)"
proof -
  have h: "bcache_ok s" "in_proc s" "held s = H" "b < disksize s" "b \<notin> held s"
    using assms by (auto simp: rd_ok_def rd_blocks_def)
  have "card (held s \<union> dirty s) \<le> card H + card (dirty s)" using card_Un_le[of "held s" "dirty s"] h(3) by simp
  then have c: "card (held s \<union> dirty s) < NBUF" using assms(1,4) by (simp add: rd_ok_def)
  obtain i s' where r: "bread 1 b s = Ok (i, s')" "bcache_ok s'" "in_proc s'" "holds s' i b"
    "view s' = view s" "dirty s' = dirty s" "held s' = insert b (held s)" "disk_frame s s'"
    "\<forall>j c. holds s j c \<longrightarrow> holds s' j c"
    by (rule bread_Ok[OF h(1,2,4,5) disjI2[OF c]])
  then show ?thesis using assms(1) by (auto simp: rd_ok_def)
qed

lemma rd_release:
  assumes "rd_ok n H s" "holds s i b"
  shows "\<exists>s'. brelse i s = Ok s' \<and> rd_ok n (H - {b}) s' \<and> view s' = view s \<and> disk_frame s s' \<and>
    (\<forall>j c. holds s' j c \<longleftrightarrow> holds s j c \<and> j \<noteq> i)"
proof -
  have h: "bcache_ok s" "in_proc s" "held s = H" using assms by (auto simp: rd_ok_def)
  obtain s' where r: "brelse i s = Ok s'" "bcache_ok s'" "in_proc s'" "view s' = view s"
    "dirty s' = dirty s" "held s' = held s - {b}" "disk_frame s s'"
    "\<forall>j c. holds s' j c \<longleftrightarrow> holds s j c \<and> j \<noteq> i"
    by (rule brelse_Ok[OF h(1) assms(2) h(2)])
  then show ?thesis using assms(1) by (auto simp: rd_ok_def)
qed

interpretation rd: block_reader "bread 1" brelse bdata view rd_blocks rd_ok holds disk_frame
proof (rule block_reader.intro)
  fix n m i :: nat and H :: "uint32 set" and s s' u :: kernel and b c :: uint32
  show "b = c" if "holds s i b" "holds s i c" using that by (simp add: holds_def)
  show "length (view s b) = BSIZE" if "rd_ok n H s" "b \<in> rd_blocks s"
    using that view_length by (simp add: rd_ok_def rd_blocks_def)
  show "rd_ok m H s" if "rd_ok n H s" "m \<le> n" using that by (simp add: rd_ok_def)
  show "rd_blocks s' = rd_blocks s" if "disk_frame s s'"
    using that cache_frameD(10)[of s s'] by (simp add: rd_blocks_def disk_frame_def)
  show "bdata s i = view s b" if "rd_ok n H s" "holds s i b" using that holds_data by (simp add: rd_ok_def)
  show "b \<in> H" if "rd_ok n H s" "holds s i b" using that holds_held by (auto simp: rd_ok_def)
qed (rule rd_get rd_release disk_frame_refl disk_frame_trans; assumption)+

section \<open>The log as a block store\<close>

definition tx_ok :: "nat \<Rightarrow> uint32 set \<Rightarrow> kernel \<Rightarrow> bool" where
  "tx_ok n H s \<longleftrightarrow> in_tx s \<and> held s = H \<and> card (dirty s) + n \<le> LOGSIZE - 1"

definition tx_blocks :: "kernel \<Rightarrow> uint32 set" where
  "tx_blocks s = {b. b < disksize s} - log_area s"

abbreviation tx_put :: "nat \<Rightarrow> block \<Rightarrow> kernel \<Rightarrow> kernel res" where
  "tx_put i d s \<equiv> log_write i (set_data i d s)"

lemma disk_frame_tx: "disk_frame s s' \<Longrightarrow> tx_frame s s'"
  by (simp add: disk_frame_def tx_frame_def)

lemma log_ok_disk_frame:
  assumes "log_ok s" "disk_frame s s'" "bcache_ok s'" "in_proc s'" "dirty s' = dirty s"
  shows "log_ok s'"
proof -
  have "log_st s' = log_st s" "disk s' = disk s" using assms(2) by (auto simp: disk_frame_def)
  moreover have "disksize s' = disksize s" using tx_frameD(9)[OF disk_frame_tx[OF assms(2)]] .
  ultimately show ?thesis using assms by (simp add: log_ok_def logged_def log_area_def)
qed

lemma tx_ok_bcache: "tx_ok n H s \<Longrightarrow> bcache_ok s" "tx_ok n H s \<Longrightarrow> in_proc s"
  by (auto simp: tx_ok_def in_tx_def log_ok_def)

lemma tx_ok_disk_frame:
  assumes "tx_ok n H s" "disk_frame s s'" "bcache_ok s'" "in_proc s'" "dirty s' = dirty s" "held s' = H'"
  shows "tx_ok n H' s'"
proof -
  have "log_st s' = log_st s" using assms(2) by (auto simp: disk_frame_def)
  then show ?thesis
    using assms log_ok_disk_frame[OF _ assms(2-5)] by (simp add: tx_ok_def in_tx_def)
qed

lemma tx_get:
  assumes "tx_ok n H s" "b \<in> tx_blocks s" "b \<notin> H" "card H \<le> n"
  shows "\<exists>i s'. bread 1 b s = Ok (i, s') \<and> tx_ok n (insert b H) s' \<and> holds s' i b \<and> view s' = view s \<and>
    tx_frame s s' \<and> (\<forall>j c. holds s j c \<longrightarrow> holds s' j c)"
proof -
  have h: "held s = H" "b < disksize s" "b \<notin> held s" using assms by (auto simp: tx_ok_def tx_blocks_def)
  have "card (held s \<union> dirty s) \<le> card H + card (dirty s)" using card_Un_le[of "held s" "dirty s"] h(1) by simp
  then have c: "card (held s \<union> dirty s) < NBUF" using assms(1,4) by (simp add: tx_ok_def)
  obtain i s' where r: "bread 1 b s = Ok (i, s')" "bcache_ok s'" "in_proc s'" "holds s' i b"
    "view s' = view s" "dirty s' = dirty s" "held s' = insert b (held s)" "disk_frame s s'"
    "\<forall>j c. holds s j c \<longrightarrow> holds s' j c"
    by (rule bread_Ok[OF tx_ok_bcache[OF assms(1)] h(2,3) disjI2[OF c]])
  have "tx_ok n (insert b H) s'" by (rule tx_ok_disk_frame[OF assms(1) r(8,2,3,6)]) (simp add: r(7) h(1))
  then show ?thesis using r disk_frame_tx by blast
qed

lemma tx_release:
  assumes "tx_ok n H s" "holds s i b"
  shows "\<exists>s'. brelse i s = Ok s' \<and> tx_ok n (H - {b}) s' \<and> view s' = view s \<and> tx_frame s s' \<and>
    (\<forall>j c. holds s' j c \<longleftrightarrow> holds s j c \<and> j \<noteq> i)"
proof -
  obtain s' where r: "brelse i s = Ok s'" "bcache_ok s'" "in_proc s'" "view s' = view s"
    "dirty s' = dirty s" "held s' = held s - {b}" "disk_frame s s'"
    "\<forall>j c. holds s' j c \<longleftrightarrow> holds s j c \<and> j \<noteq> i"
    by (rule brelse_Ok[OF tx_ok_bcache(1)[OF assms(1)] assms(2) tx_ok_bcache(2)[OF assms(1)]])
  have "held s = H" using assms(1) by (simp add: tx_ok_def)
  then have "tx_ok n (H - {b}) s'" using tx_ok_disk_frame[OF assms(1) r(7,2,3,5)] r(6) by simp
  then show ?thesis using r disk_frame_tx by blast
qed

lemma tx_put:
  assumes "tx_ok (Suc n) H s" "holds s i b" "b \<in> tx_blocks s" "length d = BSIZE"
  shows "\<exists>s'. tx_put i d s = Ok s' \<and> tx_ok n H s' \<and> view s' = (view s)(b := d) \<and> tx_frame s s' \<and>
    (\<forall>j c. holds s' j c \<longleftrightarrow> holds s j c)"
proof -
  have t: "in_tx s" "b \<notin> log_area s" "card (dirty s) < LOGSIZE - 1"
    using assms by (auto simp: tx_ok_def tx_blocks_def)
  obtain s' where r: "tx_put i d s = Ok s'" "in_tx s'" "view s' = (view s)(b := d)"
    "dirty s' = insert b (dirty s)" "held s' = held s" "tx_frame s s'"
    "\<forall>j c. holds s' j c \<longleftrightarrow> holds s j c"
    by (rule log_write_Ok[OF t(1) assms(2,4) t(2,3)])
  have "card (dirty s') \<le> Suc (card (dirty s))" using r(4) by (simp add: card_insert_if)
  then have "tx_ok n H s'" using assms(1) r(2,5) by (simp add: tx_ok_def)
  then show ?thesis using r by blast
qed

interpretation lt: block_store "bread 1" brelse bdata view tx_blocks tx_ok holds tx_frame tx_put
proof (intro block_store.intro block_reader.intro block_store_axioms.intro)
  fix n m i :: nat and H :: "uint32 set" and s s' u :: kernel and b c :: uint32 and d :: block
  show "b = c" if "holds s i b" "holds s i c" using that by (simp add: holds_def)
  show "length (view s b) = BSIZE" if "tx_ok n H s" "b \<in> tx_blocks s"
    using that view_length[OF tx_ok_bcache(1)] by (simp add: tx_blocks_def)
  show "tx_ok m H s" if "tx_ok n H s" "m \<le> n" using that by (simp add: tx_ok_def)
  show "tx_blocks s' = tx_blocks s" if "tx_frame s s'"
    using tx_frameD(8,9)[OF that] by (simp add: tx_blocks_def)
  show "bdata s i = view s b" if "tx_ok n H s" "holds s i b"
    using holds_data[OF tx_ok_bcache(1)] that .
  show "b \<in> H" if "tx_ok n H s" "holds s i b"
    using holds_held[OF tx_ok_bcache(1)] that by (auto simp: tx_ok_def)
qed (rule tx_get tx_put tx_release tx_frame_refl tx_frame_trans; assumption)+

end
