(* ===== verification/Inode.thy ===== *)
theory Inode
  imports Tx
begin

text \<open>
  Blocks and inodes: the first half of src/fs.c, up to \<open>stati\<close>.  An in-memory inode is named by
  its index in \<open>icache.inode\<close>.
\<close>

section \<open>Blocks\<close>

abbreviation (input) BPB :: nat where "BPB \<equiv> 4096"
abbreviation (input) IPB :: nat where "IPB \<equiv> 8"

definition BBLOCK :: "uint32 \<Rightarrow> superblock \<Rightarrow> uint32" where
  "BBLOCK b x = b div 4096 + sb_bmapstart x"

definition IBLOCK :: "uint32 \<Rightarrow> superblock \<Rightarrow> uint32" where
  "IBLOCK i x = i div 8 + sb_inodestart x"

definition bzero :: "uint32 \<Rightarrow> uint32 \<Rightarrow> kernel \<Rightarrow> kernel res" where
  "bzero dev bno s =
     andthen (bread dev bno s) (\<lambda>(bp, s).
     andthen (log_write bp (set_data bp (replicate BSIZE 0) s)) (brelse bp))"

text \<open>Bit \<open>bi\<close> of a block of the free map.\<close>

definition bm_test :: "block \<Rightarrow> nat \<Rightarrow> bool" where
  "bm_test d bi \<longleftrightarrow> d ! (bi div 8) AND push_bit (bi mod 8) 1 \<noteq> 0"

definition bm_set :: "block \<Rightarrow> nat \<Rightarrow> block" where
  "bm_set d bi = d[bi div 8 := d ! (bi div 8) OR push_bit (bi mod 8) 1]"

definition bm_clear :: "block \<Rightarrow> nat \<Rightarrow> block" where
  "bm_clear d bi = d[bi div 8 := d ! (bi div 8) AND NOT (push_bit (bi mod 8) 1)]"

text \<open>
  The loop of \<open>balloc\<close> over the blocks of the free map; \<open>b\<close> is the number of the first block
  that a block of the map describes.
\<close>

fun balloc_loop :: "uint32 \<Rightarrow> nat list \<Rightarrow> kernel \<Rightarrow> (uint32 \<times> kernel) res" where
  "balloc_loop dev [] s = Stop (Panic ''balloc: out of blocks'')"
| "balloc_loop dev (b # bs) s =
     andthen (bread dev (BBLOCK (of_nat b) (sb s)) s) (\<lambda>(bp, s).
       case find (\<lambda>bi. \<not> bm_test (bdata s bp) bi) [0..<min BPB (unat (sb_size (sb s)) - b)] of
         Some bi \<Rightarrow>
           andthen (log_write bp (set_data bp (bm_set (bdata s bp) bi) s)) (\<lambda>s.
           andthen (brelse bp s) (\<lambda>s.
           andthen (bzero dev (of_nat (b + bi)) s) (\<lambda>s. Ok (of_nat (b + bi), s))))
       | None \<Rightarrow> andthen (brelse bp s) (balloc_loop dev bs))"

definition balloc :: "uint32 \<Rightarrow> kernel \<Rightarrow> (uint32 \<times> kernel) res" where
  "balloc dev s =
     balloc_loop dev (map (\<lambda>k. k * BPB) [0..<(unat (sb_size (sb s)) + BPB - 1) div BPB]) s"

definition bfree :: "uint32 \<Rightarrow> uint32 \<Rightarrow> kernel \<Rightarrow> kernel res" where
  "bfree dev b s =
     andthen (readsb dev s) (\<lambda>(x, s).
     let s = s\<lparr>sb := x\<rparr> in
     andthen (bread dev (BBLOCK b (sb s)) s) (\<lambda>(bp, s).
     let bi = unat b mod BPB in
     if \<not> bm_test (bdata s bp) bi then Stop (Panic ''freeing free block'')
     else andthen (log_write bp (set_data bp (bm_clear (bdata s bp) bi) s)) (brelse bp)))"

section \<open>Inodes\<close>

abbreviation ino :: "kernel \<Rightarrow> nat \<Rightarrow> inode" where
  "ino s ip \<equiv> icache s ! ip"

abbreviation upd_inode :: "nat \<Rightarrow> (inode \<Rightarrow> inode) \<Rightarrow> kernel \<Rightarrow> kernel" where
  "upd_inode ip f s \<equiv> s\<lparr>icache := upd_at ip f (icache s)\<rparr>"

text \<open>The fields of the \<open>struct dinode\<close> at an offset of a block.\<close>

definition get_dinode :: "block \<Rightarrow> nat \<Rightarrow> inode \<Rightarrow> inode" where
  "get_dinode d off ip = ip\<lparr>i_type := get16 d off, i_major := get16 d (off + 2),
     i_minor := get16 d (off + 4), i_nlink := get16 d (off + 6), i_size := get32 d (off + 8),
     i_addrs := map (\<lambda>k. get32 d (off + 12 + 4 * k)) [0..<NDIRECT + 1]\<rparr>"

definition put_dinode :: "block \<Rightarrow> nat \<Rightarrow> inode \<Rightarrow> block" where
  "put_dinode d off ip =
     foldl (\<lambda>d k. put32 d (off + 12 + 4 * k) (i_addrs ip ! k))
       (put32 (put16 (put16 (put16 (put16 d off (i_type ip)) (off + 2) (i_major ip))
          (off + 4) (i_minor ip)) (off + 6) (i_nlink ip)) (off + 8) (i_size ip))
       [0..<NDIRECT + 1]"

definition inode_off :: "uint32 \<Rightarrow> nat" where
  "inode_off inum = 64 * (unat inum mod IPB)"

definition iget :: "uint32 \<Rightarrow> uint32 \<Rightarrow> kernel \<Rightarrow> (nat \<times> kernel) res" where
  "iget dev inum s =
     (case find_idx (\<lambda>ip. i_ref ip > 0 \<and> i_dev ip = dev \<and> i_inum ip = inum) (icache s) of
        Some ip \<Rightarrow> Ok (ip, upd_inode ip (\<lambda>x. x\<lparr>i_ref := i_ref x + 1\<rparr>) s)
      | None \<Rightarrow>
          case find_idx (\<lambda>ip. i_ref ip = 0) (icache s) of
            None \<Rightarrow> Stop (Panic ''iget: no inodes'')
          | Some ip \<Rightarrow> Ok (ip, upd_inode ip (\<lambda>x. x\<lparr>i_dev := dev, i_inum := inum, i_ref := 1,
                             i_valid := False\<rparr>) s))"

fun ialloc_loop :: "uint32 \<Rightarrow> int16 \<Rightarrow> nat list \<Rightarrow> kernel \<Rightarrow> (nat \<times> kernel) res" where
  "ialloc_loop dev type [] s = Stop (Panic ''ialloc: no inodes'')"
| "ialloc_loop dev type (inum # inums) s =
     andthen (bread dev (IBLOCK (of_nat inum) (sb s)) s) (\<lambda>(bp, s).
       let off = inode_off (of_nat inum) in
       if get16 (bdata s bp) off = 0 then
         andthen (log_write bp
           (set_data bp (put16 (put_bytes (bdata s bp) off (replicate 64 0)) off type) s)) (\<lambda>s.
         andthen (brelse bp s) (iget dev (of_nat inum)))
       else andthen (brelse bp s) (ialloc_loop dev type inums))"

definition ialloc :: "uint32 \<Rightarrow> int16 \<Rightarrow> kernel \<Rightarrow> (nat \<times> kernel) res" where
  "ialloc dev type s = ialloc_loop dev type [1..<unat (sb_ninodes (sb s))] s"

definition iupdate :: "nat \<Rightarrow> kernel \<Rightarrow> kernel res" where
  "iupdate ip s =
     andthen (bread (i_dev (ino s ip)) (IBLOCK (i_inum (ino s ip)) (sb s)) s) (\<lambda>(bp, s).
     andthen (log_write bp (set_data bp
       (put_dinode (bdata s bp) (inode_off (i_inum (ino s ip))) (ino s ip)) s)) (brelse bp))"

definition idup :: "nat \<Rightarrow> kernel \<Rightarrow> nat \<times> kernel" where
  "idup ip s = (ip, upd_inode ip (\<lambda>x. x\<lparr>i_ref := i_ref x + 1\<rparr>) s)"

definition lock_inode :: "nat \<Rightarrow> kernel \<Rightarrow> kernel res" where
  "lock_inode ip s = andthen (acquiresleep (i_lock (ino s ip)) s)
     (\<lambda>lk. Ok (upd_inode ip (\<lambda>x. x\<lparr>i_lock := lk\<rparr>) s))"

definition unlock_inode :: "nat \<Rightarrow> kernel \<Rightarrow> kernel" where
  "unlock_inode ip s =
     (let (lk, s) = releasesleep (ChanInode ip) (i_lock (ino s ip)) s
      in upd_inode ip (\<lambda>x. x\<lparr>i_lock := lk\<rparr>) s)"

definition ilock :: "nat option \<Rightarrow> kernel \<Rightarrow> kernel res" where
  "ilock p s =
     (case p of
        None \<Rightarrow> Stop (Panic ''ilock'')
      | Some ip \<Rightarrow>
        if i_ref (ino s ip) < 1 then Stop (Panic ''ilock'')
        else andthen (lock_inode ip s) (\<lambda>s.
          if i_valid (ino s ip) then Ok s
          else andthen (bread (i_dev (ino s ip)) (IBLOCK (i_inum (ino s ip)) (sb s)) s) (\<lambda>(bp, s).
               let d = bdata s bp;
                   s = upd_inode ip (\<lambda>x. get_dinode d (inode_off (i_inum x)) x) s
               in andthen (brelse bp s) (\<lambda>s.
                  let s = upd_inode ip (\<lambda>x. x\<lparr>i_valid := True\<rparr>) s in
                  if i_type (ino s ip) = 0 then Stop (Panic ''ilock: no type'') else Ok s))))"

definition iunlock :: "nat option \<Rightarrow> kernel \<Rightarrow> kernel res" where
  "iunlock p s =
     (case p of
        None \<Rightarrow> Stop (Panic ''iunlock'')
      | Some ip \<Rightarrow>
        if \<not> holdingsleep (i_lock (ino s ip)) \<or> i_ref (ino s ip) < 1 then Stop (Panic ''iunlock'')
        else Ok (unlock_inode ip s))"

section \<open>The blocks of a file\<close>

abbreviation set_addr :: "nat \<Rightarrow> nat \<Rightarrow> uint32 \<Rightarrow> kernel \<Rightarrow> kernel" where
  "set_addr ip k a s \<equiv> upd_inode ip (\<lambda>x. x\<lparr>i_addrs := (i_addrs x)[k := a]\<rparr>) s"

text \<open>The address in \<open>ip->addrs[k]\<close>, allocated when it is 0.\<close>

definition bmap_addr :: "nat \<Rightarrow> nat \<Rightarrow> kernel \<Rightarrow> (uint32 \<times> kernel) res" where
  "bmap_addr ip k s =
     (let addr = i_addrs (ino s ip) ! k in
      if addr = 0 then andthen (balloc (i_dev (ino s ip)) s) (\<lambda>(addr, s). Ok (addr, set_addr ip k addr s))
      else Ok (addr, s))"

text \<open>The address in entry \<open>bn\<close> of the block of indirect addresses, allocated when it is 0.\<close>

definition bmap_entry :: "nat \<Rightarrow> uint32 \<Rightarrow> nat \<Rightarrow> kernel \<Rightarrow> (uint32 \<times> kernel) res" where
  "bmap_entry ip addr bn s =
     andthen (bread (i_dev (ino s ip)) addr s) (\<lambda>(bp, s).
     let addr = get32 (bdata s bp) (4 * bn) in
     if addr = 0 then
       andthen (balloc (i_dev (ino s ip)) s) (\<lambda>(addr, s).
       andthen (log_write bp (set_data bp (put32 (bdata s bp) (4 * bn) addr) s)) (\<lambda>s.
       andthen (brelse bp s) (\<lambda>s. Ok (addr, s))))
     else andthen (brelse bp s) (\<lambda>s. Ok (addr, s)))"

definition bmap :: "nat \<Rightarrow> uint32 \<Rightarrow> kernel \<Rightarrow> (uint32 \<times> kernel) res" where
  "bmap ip bn s =
     (if unat bn < NDIRECT then bmap_addr ip (unat bn) s
      else let bn = bn - 12 in
      if unat bn < NINDIRECT then
        andthen (bmap_addr ip NDIRECT s) (\<lambda>(addr, s). bmap_entry ip addr (unat bn) s)
      else Stop (Panic ''bmap: out of range''))"

definition itrunc_direct :: "nat \<Rightarrow> nat \<Rightarrow> kernel \<Rightarrow> kernel res" where
  "itrunc_direct ip i s =
     (let a = i_addrs (ino s ip) ! i in
      if a \<noteq> 0 then andthen (bfree (i_dev (ino s ip)) a s) (\<lambda>s. Ok (set_addr ip i 0 s)) else Ok s)"

definition itrunc_indirect :: "nat \<Rightarrow> nat \<Rightarrow> nat \<Rightarrow> kernel \<Rightarrow> kernel res" where
  "itrunc_indirect ip bp j s =
     (let a = get32 (bdata s bp) (4 * j) in
      if a \<noteq> 0 then bfree (i_dev (ino s ip)) a s else Ok s)"

definition itrunc :: "nat \<Rightarrow> kernel \<Rightarrow> kernel res" where
  "itrunc ip s =
     andthen (for_each [0..<NDIRECT] (itrunc_direct ip) s) (\<lambda>s.
     andthen
       (let a = i_addrs (ino s ip) ! NDIRECT in
        if a \<noteq> 0 then
          andthen (bread (i_dev (ino s ip)) a s) (\<lambda>(bp, s).
          andthen (for_each [0..<NINDIRECT] (itrunc_indirect ip bp) s) (\<lambda>s.
          andthen (brelse bp s) (\<lambda>s.
          andthen (bfree (i_dev (ino s ip)) (i_addrs (ino s ip) ! NDIRECT) s) (\<lambda>s.
          Ok (set_addr ip NDIRECT 0 s)))))
        else Ok s) (\<lambda>s.
     iupdate ip (upd_inode ip (\<lambda>x. x\<lparr>i_size := 0\<rparr>) s)))"

definition iput :: "nat \<Rightarrow> kernel \<Rightarrow> kernel res" where
  "iput ip s =
     andthen (lock_inode ip s) (\<lambda>s.
     andthen
       (if i_valid (ino s ip) \<and> i_nlink (ino s ip) = 0 \<and> i_ref (ino s ip) = 1 then
          andthen (itrunc ip s) (\<lambda>s.
          andthen (iupdate ip (upd_inode ip (\<lambda>x. x\<lparr>i_type := 0\<rparr>) s)) (\<lambda>s.
          Ok (upd_inode ip (\<lambda>x. x\<lparr>i_valid := False\<rparr>) s)))
        else Ok s) (\<lambda>s.
     Ok (upd_inode ip (\<lambda>x. x\<lparr>i_ref := i_ref x - 1\<rparr>) (unlock_inode ip s))))"

definition iunlockput :: "nat \<Rightarrow> kernel \<Rightarrow> kernel res" where
  "iunlockput ip s = andthen (iunlock (Some ip) s) (iput ip)"

record stat =
  st_type :: int16
  st_dev :: uint32
  st_ino :: uint32
  st_nlink :: int16
  st_size :: uint32

definition stati :: "nat \<Rightarrow> kernel \<Rightarrow> stat" where
  "stati ip s = \<lparr>st_type = i_type (ino s ip), st_dev = i_dev (ino s ip), st_ino = i_inum (ino s ip),
     st_nlink = i_nlink (ino s ip), st_size = i_size (ino s ip)\<rparr>"

end
