(* ===== verification/Console.thy ===== *)
theory Console
  imports Inode
begin

text \<open>
  The console of src/console.c: formatted output to the screen and the serial port (with
  \<open>uartputc\<close> of src/uart.c), the line discipline of the input, and the read and write functions
  of the console device.  The cursor position, which the source keeps in two registers of the
  display adapter, is \<open>crt_pos\<close>; the bytes sent to the serial port are collected in
  \<open>uart_out\<close>.  The screen cells beyond the last line are not part of the model.
\<close>

abbreviation (input) BACKSPACE :: int where "BACKSPACE \<equiv> 0x100"
abbreviation (input) INPUT_BUF :: nat where "INPUT_BUF \<equiv> 128"

abbreviation upd_cons :: "(console \<Rightarrow> console) \<Rightarrow> kernel \<Rightarrow> kernel" where
  "upd_cons f s \<equiv> s\<lparr>cons := f (cons s)\<rparr>"

section \<open>Output\<close>

definition uartputc :: "int \<Rightarrow> kernel \<Rightarrow> kernel" where
  "uartputc c s = (if \<not> uart (cons s) then s
     else upd_cons (\<lambda>k. k\<lparr>uart_out := uart_out k @ [word_of_int c]\<rparr>) s)"

definition cga_cell :: "int \<Rightarrow> int16" where
  "cga_cell c = (word_of_int c AND 0xFF) OR 0x700"

text \<open>The screen moves up a line and the rest of it, from the cursor on, is cleared.\<close>

definition cga_scroll :: "int \<Rightarrow> int16 list \<Rightarrow> int16 list" where
  "cga_scroll pos cells =
     (let moved = take (23 * 80) (drop 80 cells) @ drop (23 * 80) cells
      in take (nat pos) moved @ replicate (24 * 80 - nat pos) 0 @ drop (max (nat pos) (24 * 80)) moved)"

definition cgaputc :: "int \<Rightarrow> kernel \<Rightarrow> kernel res" where
  "cgaputc c s =
     (let pos = crt_pos (cons s);
          (pos, s) = (if c = 10 then (pos + (80 - pos mod 80), s)
                      else if c = BACKSPACE then (if pos > 0 then pos - 1 else pos, s)
                      else (pos + 1, upd_cons (\<lambda>k. k\<lparr>crt := (crt k)[nat pos := cga_cell c]\<rparr>) s))
      in if pos < 0 \<or> pos > 25 * 80 then Stop (Panic ''pos under/overflow'')
         else let (pos, s) = (if pos div 80 \<ge> 24
                              then (pos - 80, upd_cons (\<lambda>k. k\<lparr>crt := cga_scroll (pos - 80) (crt k)\<rparr>) s)
                              else (pos, s))
              in Ok (upd_cons (\<lambda>k. k\<lparr>crt_pos := pos, crt := (crt k)[nat pos := cga_cell 32]\<rparr>) s))"

definition consputc :: "int \<Rightarrow> kernel \<Rightarrow> kernel res" where
  "consputc c s =
     (if panicked (cons s) then Stop Diverges
      else let s = (if c = BACKSPACE then uartputc 8 (uartputc 32 (uartputc 8 s)) else uartputc c s)
           in cgaputc c s)"

definition hexdigit :: "nat \<Rightarrow> byte" where
  "hexdigit d = of_nat (if d < 10 then 48 + d else 87 + d)"

text \<open>The digits of a number, least significant first, as the loop of \<open>printint\<close> stores them.\<close>

function digits_rev :: "nat \<Rightarrow> nat \<Rightarrow> byte list" where
  "digits_rev base x =
     hexdigit (x mod base) # (if x div base \<noteq> 0 \<and> 1 < base then digits_rev base (x div base) else [])"
  by pat_completeness auto
termination
  by (relation "measure (\<lambda>(base, x). x)") (auto intro!: div_less_dividend intro: Nat.gr0I)

declare digits_rev.simps [simp del]

definition int_text :: "uint32 \<Rightarrow> nat \<Rightarrow> bool \<Rightarrow> byte list" where
  "int_text xx base sign =
     (let neg = sign \<and> sint xx < 0;
          x = (if neg then - xx else xx)
      in (if neg then [45] else []) @ rev (digits_rev base (unat x)))"

definition put_text :: "byte list \<Rightarrow> kernel \<Rightarrow> kernel res" where
  "put_text bs s = for_each bs (\<lambda>b. consputc (uint b)) s"

definition printint :: "uint32 \<Rightarrow> nat \<Rightarrow> bool \<Rightarrow> kernel \<Rightarrow> kernel res" where
  "printint xx base sign s = put_text (int_text xx base sign) s"

text \<open>
  The arguments of \<open>cprintf\<close>: a word, or a string (\<open>None\<close> is the null pointer).  An argument
  that is missing or of the other kind is read from the stack as it is there: the model stops.
\<close>

datatype fmtarg = Num uint32 | Str "byte list option"

fun cprintf :: "byte list \<Rightarrow> fmtarg list \<Rightarrow> kernel \<Rightarrow> kernel res" where
  "cprintf [] as s = Ok s"
| "cprintf (c # cs) as s =
     (if c \<noteq> 37 then andthen (consputc (uint c) s) (cprintf cs as)
      else case cs of
        [] \<Rightarrow> Ok s
      | d # ds \<Rightarrow>
        if d = 100 then
          (case as of Num n # as \<Rightarrow> andthen (printint n 10 True s) (cprintf ds as) | _ \<Rightarrow> Stop OutOfRange)
        else if d = 120 \<or> d = 112 then
          (case as of Num n # as \<Rightarrow> andthen (printint n 16 False s) (cprintf ds as) | _ \<Rightarrow> Stop OutOfRange)
        else if d = 115 then
          (case as of
             Str (Some t) # as \<Rightarrow> andthen (put_text t s) (cprintf ds as)
           | Str None # as \<Rightarrow>
               andthen (put_text [40, 110, 117, 108, 108, 41] s) (cprintf ds as)
           | _ \<Rightarrow> Stop OutOfRange)
        else if d = 37 then andthen (consputc 37 s) (cprintf ds as)
        else andthen (consputc 37 s) (\<lambda>s. andthen (consputc (uint d) s) (cprintf ds as)))"

definition say :: "string \<Rightarrow> fmtarg list \<Rightarrow> kernel \<Rightarrow> kernel res" where
  "say msg as s = cprintf (map of_char msg) as s"

section \<open>Input\<close>

definition input_char :: "console \<Rightarrow> uint32 \<Rightarrow> byte" where
  "input_char k i = in_buf k ! (unat i mod INPUT_BUF)"

definition input_same :: "kernel \<Rightarrow> kernel \<Rightarrow> bool" where
  "input_same s s' \<longleftrightarrow> in_buf (cons s') = in_buf (cons s) \<and> in_r (cons s') = in_r (cons s) \<and>
     in_w (cons s') = in_w (cons s) \<and> in_e (cons s') = in_e (cons s)"

lemma consputc_input: "consputc c s = Ok s' \<Longrightarrow> input_same s s'"
  by (auto simp: consputc_def cgaputc_def uartputc_def input_same_def Let_def split: if_splits)

text \<open>\<open>Control-U\<close> deletes the line that is being edited.\<close>

function kill_line :: "kernel \<Rightarrow> kernel res" where
  "kill_line s =
     (if in_e (cons s) \<noteq> in_w (cons s) \<and> input_char (cons s) (in_e (cons s) - 1) \<noteq> 10
      then andthen (consputc BACKSPACE (upd_cons (\<lambda>k. k\<lparr>in_e := in_e k - 1\<rparr>) s)) kill_line
      else Ok s)"
  by pat_completeness auto
termination
proof (relation "measure (\<lambda>s. unat (in_e (cons s) - in_w (cons s)))")
  fix s s' assume a: "in_e (cons s) \<noteq> in_w (cons s) \<and> input_char (cons s) (in_e (cons s) - 1) \<noteq> 10"
    and "consputc BACKSPACE (upd_cons (\<lambda>k. k\<lparr>in_e := in_e k - 1\<rparr>) s) = Ok s'"
  from consputc_input[OF this(2)] have e: "in_e (cons s') = in_e (cons s) - 1" "in_w (cons s') = in_w (cons s)"
    by (simp_all add: input_same_def)
  have "unat (in_e (cons s) - in_w (cons s) - 1) < unat (in_e (cons s) - in_w (cons s))"
    using a unat_minus_one[of "in_e (cons s) - in_w (cons s)"] by (simp add: unat_gt_0)
  moreover have "in_e (cons s') - in_w (cons s') = in_e (cons s) - in_w (cons s) - 1"
    unfolding e by (simp add: algebra_simps)
  ultimately show "(s', s) \<in> measure (\<lambda>s. unat (in_e (cons s) - in_w (cons s)))" by simp
qed simp

declare kill_line.simps [simp del]

text \<open>
  One character of the input; the flag is \<open>doprocdump\<close>.  \<open>getc\<close> returned \<open>c\<close>, which is
  not negative; 16, 21 and 8 are Control-P, Control-U and Control-H.
\<close>

definition console_char :: "int \<Rightarrow> bool \<Rightarrow> kernel \<Rightarrow> (bool \<times> kernel) res" where
  "console_char c dump s =
     (if c = 16 then Ok (True, s)
      else if c = 21 then andthen (kill_line s) (\<lambda>s. Ok (dump, s))
      else if c = 8 \<or> c = 127 then
        if in_e (cons s) \<noteq> in_w (cons s) then
          andthen (consputc BACKSPACE (upd_cons (\<lambda>k. k\<lparr>in_e := in_e k - 1\<rparr>) s)) (\<lambda>s. Ok (dump, s))
        else Ok (dump, s)
      else if c \<noteq> 0 \<and> unat (in_e (cons s) - in_r (cons s)) < INPUT_BUF then
        let c = (if c = 13 then 10 else c);
            s = upd_cons (\<lambda>k. k\<lparr>in_buf := (in_buf k)[unat (in_e k) mod INPUT_BUF := word_of_int c],
                                in_e := in_e k + 1\<rparr>) s
        in andthen (consputc c s) (\<lambda>s.
             if c = 10 \<or> c = 4 \<or> in_e (cons s) = in_r (cons s) + 128
             then Ok (dump, wakeup ChanInput (upd_cons (\<lambda>k. k\<lparr>in_w := in_e k\<rparr>) s))
             else Ok (dump, s))
      else Ok (dump, s))"

text \<open>
  The interrupt handler for the characters \<open>cs\<close> that \<open>getc\<close> returns before it has none left.
  The result tells whether \<open>procdump\<close> is called at the end, which prints the process table.
\<close>

definition consoleintr :: "int list \<Rightarrow> kernel \<Rightarrow> (bool \<times> kernel) res" where
  "consoleintr cs s = for_each cs (\<lambda>c (dump, s). console_char c dump s) (False, s)"

text \<open>
  The loop of \<open>consoleread\<close>: \<open>n\<close> bytes are still wanted.  The result holds the bytes stored
  through \<open>dst\<close>, and whether the process has been killed while it would have to wait.
\<close>

fun consoleread_loop :: "nat \<Rightarrow> nat \<Rightarrow> kernel \<Rightarrow> (bool \<times> byte list \<times> kernel) res" where
  "consoleread_loop 0 target s = Ok (False, [], s)"
| "consoleread_loop (Suc n) target s =
     (if in_r (cons s) = in_w (cons s) then
        case myproc s of
          None \<Rightarrow> Stop NullDeref
        | Some p \<Rightarrow> if p_killed p then Ok (True, [], s) else Stop Sleeping
      else
        let c = input_char (cons s) (in_r (cons s));
            s = upd_cons (\<lambda>k. k\<lparr>in_r := in_r k + 1\<rparr>) s
        in if c = 4 then
             Ok (False, [], if Suc n < target then upd_cons (\<lambda>k. k\<lparr>in_r := in_r k - 1\<rparr>) s else s)
           else if c = 10 then Ok (False, [c], s)
           else andthen (consoleread_loop n target s) (\<lambda>(killed, bs, s). Ok (killed, c # bs, s)))"

text \<open>\<open>consoleread\<close> and \<open>consolewrite\<close>; a read yields its return value and the bytes stored.\<close>

definition consoleread :: "nat \<Rightarrow> int \<Rightarrow> kernel \<Rightarrow> (int \<times> byte list \<times> kernel) res" where
  "consoleread ip n s =
     andthen (iunlock (Some ip) s) (\<lambda>s.
     andthen (consoleread_loop (nat n) (nat n) s) (\<lambda>(killed, bs, s).
     andthen (ilock (Some ip) s) (\<lambda>s. Ok (if killed then - 1 else int (length bs), bs, s))))"

definition consolewrite :: "nat \<Rightarrow> byte list \<Rightarrow> kernel \<Rightarrow> (int \<times> kernel) res" where
  "consolewrite ip buf s =
     andthen (iunlock (Some ip) s) (\<lambda>s.
     andthen (for_each buf (\<lambda>b. consputc (uint b)) s) (\<lambda>s.
     andthen (ilock (Some ip) s) (\<lambda>s. Ok (int (length buf), s))))"

definition consoleinit :: "kernel \<Rightarrow> kernel" where
  "consoleinit s = s\<lparr>devsw := (devsw s)[1 := True]\<rparr>"

end
