(* ===== verification/Fs.thy ===== *)
theory Fs
  imports Console
begin

text \<open>
  Files, directories and paths: the second half of src/fs.c.  \<open>readi\<close> yields its return value
  and the bytes it stores through \<open>dst\<close>; the bytes \<open>writei\<close> reads from \<open>src\<close> are a list.
  A path is the list of its characters, without the terminating 0.
\<close>

abbreviation (input) T_DIR :: int16 where "T_DIR \<equiv> 1"
abbreviation (input) T_FILE :: int16 where "T_FILE \<equiv> 2"
abbreviation (input) T_DEV :: int16 where "T_DEV \<equiv> 3"
abbreviation (input) DIRSIZ :: nat where "DIRSIZ \<equiv> 14"
abbreviation (input) ROOTINO :: uint32 where "ROOTINO \<equiv> 1"

definition iinit :: "uint32 \<Rightarrow> kernel \<Rightarrow> kernel res" where
  "iinit dev s =
     (let s = s\<lparr>icache := map (\<lambda>ip. ip\<lparr>i_lock := initsleeplock\<rparr>) (icache s)\<rparr> in
      andthen (readsb dev s) (\<lambda>(x, s).
        say (''sb: size %d nblocks %d ninodes %d nlog %d logstart %d inodestart %d bmap start %d'' @ [CHR 0x0A])
          [Num (sb_size x), Num (sb_nblocks x), Num (sb_ninodes x), Num (sb_nlog x),
           Num (sb_logstart x), Num (sb_inodestart x), Num (sb_bmapstart x)] (s\<lparr>sb := x\<rparr>)))"

section \<open>Reading and writing\<close>

text \<open>The device functions are there when the major number is in range and they are installed.\<close>

definition has_dev :: "int16 \<Rightarrow> kernel \<Rightarrow> bool" where
  "has_dev major s \<longleftrightarrow> \<not> (sint major < 0 \<or> sint major \<ge> int NDEV \<or> \<not> devsw s ! nat (sint major))"

definition chunk :: "uint32 \<Rightarrow> nat \<Rightarrow> nat" where
  "chunk off rest = min rest (BSIZE - unat off mod BSIZE)"

lemma chunk_pos [simp]: "0 < rest \<Longrightarrow> 0 < chunk off rest"
  by (simp add: chunk_def)

lemma chunk_le: "chunk off rest \<le> rest"
  by (simp add: chunk_def)

function readi_loop :: "nat \<Rightarrow> uint32 \<Rightarrow> nat \<Rightarrow> kernel \<Rightarrow> (byte list \<times> kernel) res" where
  "readi_loop ip off rest s =
     (if rest = 0 then Ok ([], s)
      else andthen (bmap ip (off div 512) s) (\<lambda>(addr, s).
           andthen (bread (i_dev (ino s ip)) addr s) (\<lambda>(bp, s).
           let m = chunk off rest; bs = get_bytes (bdata s bp) (unat off mod BSIZE) m in
           andthen (brelse bp s) (\<lambda>s.
           andthen (readi_loop ip (off + of_nat m) (rest - m) s) (\<lambda>(cs, s). Ok (bs @ cs, s))))))"
  by pat_completeness auto
termination
  by (relation "measure (\<lambda>(ip, off, rest, s). rest)") auto

declare readi_loop.simps [simp del]

definition readi :: "nat \<Rightarrow> uint32 \<Rightarrow> uint32 \<Rightarrow> kernel \<Rightarrow> (int \<times> byte list \<times> kernel) res" where
  "readi ip off n s =
     (if i_type (ino s ip) = T_DEV then
        if \<not> has_dev (i_major (ino s ip)) s then Ok (- 1, [], s) else consoleread ip (sint n) s
      else if off > i_size (ino s ip) \<or> off + n < off then Ok (- 1, [], s)
      else let n = (if off + n > i_size (ino s ip) then i_size (ino s ip) - off else n) in
           andthen (readi_loop ip off (unat n) s) (\<lambda>(bs, s). Ok (sint n, bs, s)))"

function writei_loop :: "nat \<Rightarrow> byte list \<Rightarrow> uint32 \<Rightarrow> kernel \<Rightarrow> (uint32 \<times> kernel) res" where
  "writei_loop ip src off s =
     (if src = [] then Ok (off, s)
      else andthen (bmap ip (off div 512) s) (\<lambda>(addr, s).
           andthen (bread (i_dev (ino s ip)) addr s) (\<lambda>(bp, s).
           let m = chunk off (length src) in
           andthen (log_write bp
             (set_data bp (put_bytes (bdata s bp) (unat off mod BSIZE) (take m src)) s)) (\<lambda>s.
           andthen (brelse bp s) (\<lambda>s.
           writei_loop ip (drop m src) (off + of_nat m) s)))))"
  by pat_completeness auto
termination
  by (relation "measure (\<lambda>(ip, src, off, s). length src)") auto

declare writei_loop.simps [simp del]

definition writei :: "nat \<Rightarrow> byte list \<Rightarrow> uint32 \<Rightarrow> kernel \<Rightarrow> (int \<times> kernel) res" where
  "writei ip src off s =
     (let n = of_nat (length src) :: uint32 in
      if i_type (ino s ip) = T_DEV then
        if \<not> has_dev (i_major (ino s ip)) s then Ok (- 1, s) else consolewrite ip src s
      else if off > i_size (ino s ip) \<or> off + n < off then Ok (- 1, s)
      else if off + n > of_nat (MAXFILE * BSIZE) then Ok (- 1, s)
      else andthen (writei_loop ip src off s) (\<lambda>(off, s).
           andthen (if n > 0 \<and> off > i_size (ino s ip)
                    then iupdate ip (upd_inode ip (\<lambda>x. x\<lparr>i_size := off\<rparr>) s) else Ok s) (\<lambda>s.
           Ok (sint n, s))))"

section \<open>Directories\<close>

definition namecmp :: "byte list \<Rightarrow> byte list \<Rightarrow> int" where
  "namecmp s t = strncmp (seq s) (seq t) DIRSIZ"

definition de_inum :: "byte list \<Rightarrow> int16" where
  "de_inum de = get16 de 0"

definition de_name :: "byte list \<Rightarrow> byte list" where
  "de_name de = get_bytes de 2 DIRSIZ"

text \<open>The offsets of the directory entries below the size of the directory.\<close>

definition de_offsets :: "uint32 \<Rightarrow> uint32 list" where
  "de_offsets sz = map (\<lambda>k. of_nat (16 * k)) [0..<(unat sz + 15) div 16]"

fun dirlookup_loop ::
  "nat \<Rightarrow> byte list \<Rightarrow> uint32 list \<Rightarrow> kernel \<Rightarrow> ((nat \<times> uint32) option \<times> kernel) res" where
  "dirlookup_loop dp name [] s = Ok (None, s)"
| "dirlookup_loop dp name (off # offs) s =
     andthen (readi dp off 16 s) (\<lambda>(r, de, s).
       if r \<noteq> 16 then Stop (Panic ''dirlookup read'')
       else if de_inum de = 0 then dirlookup_loop dp name offs s
       else if namecmp name (de_name de) = 0 then
         andthen (iget (i_dev (ino s dp)) (ucast (de_inum de)) s) (\<lambda>(ip, s). Ok (Some (ip, off), s))
       else dirlookup_loop dp name offs s)"

definition dirlookup :: "nat \<Rightarrow> byte list \<Rightarrow> kernel \<Rightarrow> ((nat \<times> uint32) option \<times> kernel) res" where
  "dirlookup dp name s =
     (if i_type (ino s dp) \<noteq> T_DIR then Stop (Panic ''dirlookup not DIR'')
      else dirlookup_loop dp name (de_offsets (i_size (ino s dp))) s)"

text \<open>The offset of the first empty entry, or the end of the directory.\<close>

fun empty_dirent :: "nat \<Rightarrow> uint32 list \<Rightarrow> uint32 \<Rightarrow> kernel \<Rightarrow> (uint32 \<times> kernel) res" where
  "empty_dirent dp [] end_off s = Ok (end_off, s)"
| "empty_dirent dp (off # offs) end_off s =
     andthen (readi dp off 16 s) (\<lambda>(r, de, s).
       if r \<noteq> 16 then Stop (Panic ''dirlink read'')
       else if de_inum de = 0 then Ok (off, s)
       else empty_dirent dp offs end_off s)"

definition dirlink :: "nat \<Rightarrow> byte list \<Rightarrow> uint32 \<Rightarrow> kernel \<Rightarrow> (int \<times> kernel) res" where
  "dirlink dp name inum s =
     andthen (dirlookup dp name s) (\<lambda>(r, s).
       case r of
         Some (ip, _) \<Rightarrow> andthen (iput ip s) (\<lambda>s. Ok (- 1, s))
       | None \<Rightarrow>
         let offs = de_offsets (i_size (ino s dp)) in
         andthen (empty_dirent dp offs (of_nat (16 * length offs)) s) (\<lambda>(off, s).
         let de = le16 (ucast inum) @ strncpy (seq name) DIRSIZ in
         andthen (writei dp de off s) (\<lambda>(r, s).
           if r \<noteq> 16 then Stop (Panic ''dirlink'') else Ok (0, s))))"

section \<open>Paths\<close>

abbreviation (input) slash :: byte where "slash \<equiv> 47"

text \<open>
  The path after the first element, and the element, cut off after \<open>DIRSIZ\<close> characters.  An
  element of exactly \<open>DIRSIZ\<close> characters is stored without a 0 after it, as the routines that
  compare and copy names expect.
\<close>

definition skipelem :: "byte list \<Rightarrow> (byte list \<times> byte list) option" where
  "skipelem path =
     (let path = dropWhile (\<lambda>c. c = slash) path in
      if path = [] then None
      else Some (dropWhile (\<lambda>c. c = slash) (dropWhile (\<lambda>c. c \<noteq> slash) path),
                 take DIRSIZ (takeWhile (\<lambda>c. c \<noteq> slash) path)))"

lemma skipelem_shorter: "skipelem path = Some (rest, name) \<Longrightarrow> length rest < length path"
proof -
  assume a: "skipelem path = Some (rest, name)"
  let ?p = "dropWhile (\<lambda>c. c = slash) path"
  have p: "?p \<noteq> []" "rest = dropWhile (\<lambda>c. c = slash) (dropWhile (\<lambda>c. c \<noteq> slash) ?p)"
    using a by (auto simp: skipelem_def Let_def split: if_splits)
  have "hd ?p \<noteq> slash" using hd_dropWhile[OF p(1)] by simp
  then have "length (dropWhile (\<lambda>c. c \<noteq> slash) ?p) < length ?p"
    using p(1) by (cases ?p) (simp_all add: length_dropWhile_le le_imp_less_Suc)
  then show ?thesis
    using length_dropWhile_le[of "\<lambda>c. c = slash" path] p(2)
      length_dropWhile_le[of "\<lambda>c. c = slash" "dropWhile (\<lambda>c. c \<noteq> slash) ?p"] by simp
qed

text \<open>
  The loop of \<open>namex\<close> at the inode \<open>ip\<close>.  The result is the inode, if any, and the last element
  that \<open>skipelem\<close> has copied to \<open>name\<close>.
\<close>

function namex_loop ::
  "byte list \<Rightarrow> bool \<Rightarrow> byte list \<Rightarrow> nat \<Rightarrow> kernel \<Rightarrow> (nat option \<times> byte list \<times> kernel) res" where
  "namex_loop path parent name ip s =
     (case skipelem path of
        None \<Rightarrow> if parent then andthen (iput ip s) (\<lambda>s. Ok (None, name, s)) else Ok (Some ip, name, s)
      | Some (path, name) \<Rightarrow>
        andthen (ilock (Some ip) s) (\<lambda>s.
        if i_type (ino s ip) \<noteq> T_DIR then andthen (iunlockput ip s) (\<lambda>s. Ok (None, name, s))
        else if parent \<and> path = [] then
          andthen (iunlock (Some ip) s) (\<lambda>s. Ok (Some ip, name, s))
        else andthen (dirlookup ip name s) (\<lambda>(r, s).
          case r of
            None \<Rightarrow> andthen (iunlockput ip s) (\<lambda>s. Ok (None, name, s))
          | Some (next, _) \<Rightarrow> andthen (iunlockput ip s) (namex_loop path parent name next))))"
  by pat_completeness auto
termination
  by (relation "measure (\<lambda>(path, parent, name, ip, s). length path)") (auto dest: skipelem_shorter)

declare namex_loop.simps [simp del]

definition namex :: "byte list \<Rightarrow> bool \<Rightarrow> kernel \<Rightarrow> (nat option \<times> byte list \<times> kernel) res" where
  "namex path parent s =
     andthen (if path \<noteq> [] \<and> hd path = slash then iget ROOTDEV ROOTINO s
              else case myproc s of
                     None \<Rightarrow> Stop NullDeref
                   | Some p \<Rightarrow> case p_cwd p of None \<Rightarrow> Stop NullDeref | Some d \<Rightarrow> Ok (idup d s))
       (\<lambda>(ip, s). namex_loop path parent [] ip s)"

definition namei :: "byte list \<Rightarrow> kernel \<Rightarrow> (nat option \<times> kernel) res" where
  "namei path s = andthen (namex path False s) (\<lambda>(ip, _, s). Ok (ip, s))"

definition nameiparent :: "byte list \<Rightarrow> kernel \<Rightarrow> (nat option \<times> byte list \<times> kernel) res" where
  "nameiparent path s = namex path True s"

text \<open>The decimal digits that \<open>itoa\<close> stores; \<open>i\<close> is not the least \<open>int\<close>.\<close>

definition itoa :: "int \<Rightarrow> byte list" where
  "itoa i = (if i < 0 then [45] else []) @ rev (digits_rev 10 (nat \<bar>i\<bar>))"

end
