(* ===== verification/Pipe.thy ===== *)
theory Pipe
  imports Fs
begin

text \<open>
  Pipes, src/pipe.c.  A pipe is named by the address of the page that holds it; \<open>pipes\<close> gives
  the structure in that page.  The bytes written are a list; a read yields its return value and the
  bytes stored.  \<open>pipealloc\<close>, which allocates open files, is in theory \<open>File\<close>.
\<close>

abbreviation (input) PIPESIZE :: nat where "PIPESIZE \<equiv> 512"

abbreviation upd_pipe :: "uint32 \<Rightarrow> (pipe \<Rightarrow> pipe) \<Rightarrow> kernel \<Rightarrow> kernel" where
  "upd_pipe p f s \<equiv> s\<lparr>pipes := (pipes s)(p := f (pipes s p))\<rparr>"

definition pipeclose :: "uint32 \<Rightarrow> uint32 \<Rightarrow> bool \<Rightarrow> kernel \<Rightarrow> kernel res" where
  "pipeclose kend p writable s =
     (let s = (if writable then wakeup (ChanPipeRead p) (upd_pipe p (\<lambda>x. x\<lparr>pi_writeopen := False\<rparr>) s)
               else wakeup (ChanPipeWrite p) (upd_pipe p (\<lambda>x. x\<lparr>pi_readopen := False\<rparr>) s))
      in if \<not> pi_readopen (pipes s p) \<and> \<not> pi_writeopen (pipes s p) then kfree kend p s else Ok s)"

text \<open>
  The loop of \<open>pipewrite\<close> up to its end or to the point where it finds the pipe full: the bytes
  that are left to write, and the pipe.
\<close>

definition pipe_put :: "byte \<Rightarrow> pipe \<Rightarrow> pipe" where
  "pipe_put b x = x\<lparr>pi_data := (pi_data x)[unat (pi_nwrite x) mod PIPESIZE := b], pi_nwrite := pi_nwrite x + 1\<rparr>"

fun pipe_fill :: "byte list \<Rightarrow> pipe \<Rightarrow> byte list \<times> pipe" where
  "pipe_fill [] x = ([], x)"
| "pipe_fill (b # bs) x =
     (if pi_nwrite x = pi_nread x + 512 then (b # bs, x) else pipe_fill bs (pipe_put b x))"

text \<open>A writer that finds the pipe full gives up when nobody reads or it is killed; else it sleeps.\<close>

definition pipewrite :: "uint32 \<Rightarrow> byte list \<Rightarrow> kernel \<Rightarrow> (int \<times> kernel) res" where
  "pipewrite p bs s =
     (let (rest, x) = pipe_fill bs (pipes s p); s = s\<lparr>pipes := (pipes s)(p := x)\<rparr> in
      if rest = [] then Ok (int (length bs), wakeup (ChanPipeRead p) s)
      else if \<not> pi_readopen x then Ok (- 1, s)
      else case myproc s of
             None \<Rightarrow> Stop NullDeref
           | Some q \<Rightarrow> if p_killed q then Ok (- 1, s) else Stop Sleeping)"

text \<open>The copying loop of \<open>piperead\<close>: the bytes it copies, at most \<open>n\<close>, and the pipe.\<close>

fun pipe_drain :: "nat \<Rightarrow> pipe \<Rightarrow> byte list \<times> pipe" where
  "pipe_drain 0 x = ([], x)"
| "pipe_drain (Suc n) x =
     (if pi_nread x = pi_nwrite x then ([], x)
      else let (bs, y) = pipe_drain n (x\<lparr>pi_nread := pi_nread x + 1\<rparr>)
           in (pi_data x ! (unat (pi_nread x) mod PIPESIZE) # bs, y))"

definition piperead :: "uint32 \<Rightarrow> int \<Rightarrow> kernel \<Rightarrow> (int \<times> byte list \<times> kernel) res" where
  "piperead p n s =
     (if pi_nread (pipes s p) = pi_nwrite (pipes s p) \<and> pi_writeopen (pipes s p) then
        case myproc s of
          None \<Rightarrow> Stop NullDeref
        | Some q \<Rightarrow> if p_killed q then Ok (- 1, [], s) else Stop Sleeping
      else let (bs, x) = pipe_drain (nat n) (pipes s p)
           in Ok (int (length bs), bs, wakeup (ChanPipeWrite p) (s\<lparr>pipes := (pipes s)(p := x)\<rparr>)))"

end
