(* ===== verification/File.thy ===== *)
theory File
  imports Pipe
begin

text \<open>
  The table of open files, src/file.c, and \<open>pipealloc\<close> of src/pipe.c.  An open file is named by
  its index in \<open>ftable.file\<close>.  \<open>kend\<close> is the end of the kernel, which \<open>kfree\<close> checks.
\<close>

abbreviation upd_file :: "nat \<Rightarrow> (file_struct \<Rightarrow> file_struct) \<Rightarrow> kernel \<Rightarrow> kernel" where
  "upd_file f g s \<equiv> s\<lparr>ftable := upd_at f g (ftable s)\<rparr>"

abbreviation fil :: "kernel \<Rightarrow> nat \<Rightarrow> file_struct" where
  "fil s f \<equiv> ftable s ! f"

definition filealloc :: "kernel \<Rightarrow> nat option \<times> kernel" where
  "filealloc s =
     (case find_idx (\<lambda>f. f_ref f = 0) (ftable s) of
        None \<Rightarrow> (None, s)
      | Some f \<Rightarrow> (Some f, upd_file f (\<lambda>x. x\<lparr>f_ref := 1\<rparr>) s))"

definition filedup :: "nat \<Rightarrow> kernel \<Rightarrow> (nat \<times> kernel) res" where
  "filedup f s =
     (if f_ref (fil s f) < 1 then Stop (Panic ''filedup'')
      else Ok (f, upd_file f (\<lambda>x. x\<lparr>f_ref := f_ref x + 1\<rparr>) s))"

definition fileclose :: "uint32 \<Rightarrow> nat \<Rightarrow> kernel \<Rightarrow> kernel res" where
  "fileclose kend f s =
     (if f_ref (fil s f) < 1 then Stop (Panic ''fileclose'')
      else let s = upd_file f (\<lambda>x. x\<lparr>f_ref := f_ref x - 1\<rparr>) s in
      if f_ref (fil s f) > 0 then Ok s
      else let ff = fil s f;
               s = upd_file f (\<lambda>x. x\<lparr>f_ref := 0, f_type := FD_NONE\<rparr>) s
           in case f_type ff of
                FD_PIPE \<Rightarrow> pipeclose kend (f_pipe ff) (f_writable ff \<noteq> 0) s
              | FD_INODE \<Rightarrow>
                  andthen (begin_op s) (\<lambda>s.
                  case f_ip ff of
                    None \<Rightarrow> Stop NullDeref
                  | Some ip \<Rightarrow> andthen (iput ip s) end_op)
              | FD_NONE \<Rightarrow> Ok s)"

definition filestat :: "nat \<Rightarrow> kernel \<Rightarrow> (stat option \<times> kernel) res" where
  "filestat f s =
     (if f_type (fil s f) = FD_INODE then
        andthen (ilock (f_ip (fil s f)) s) (\<lambda>s.
        case f_ip (fil s f) of
          None \<Rightarrow> Stop NullDeref
        | Some ip \<Rightarrow> let st = stati ip s in andthen (iunlock (Some ip) s) (\<lambda>s. Ok (Some st, s)))
      else Ok (None, s))"

definition fileread :: "nat \<Rightarrow> int \<Rightarrow> kernel \<Rightarrow> (int \<times> byte list \<times> kernel) res" where
  "fileread f n s =
     (if f_readable (fil s f) = 0 then Ok (- 1, [], s)
      else case f_type (fil s f) of
        FD_PIPE \<Rightarrow> piperead (f_pipe (fil s f)) n s
      | FD_INODE \<Rightarrow>
          andthen (ilock (f_ip (fil s f)) s) (\<lambda>s.
          case f_ip (fil s f) of
            None \<Rightarrow> Stop NullDeref
          | Some ip \<Rightarrow>
              andthen (readi ip (f_off (fil s f)) (word_of_int n) s) (\<lambda>(r, bs, s).
              let s = (if r > 0 then upd_file f (\<lambda>x. x\<lparr>f_off := f_off x + word_of_int r\<rparr>) s else s) in
              andthen (iunlock (Some ip) s) (\<lambda>s. Ok (r, bs, s))))
      | FD_NONE \<Rightarrow> Stop (Panic ''fileread''))"

text \<open>
  \<open>((MAXOPBLOCKS-1-1-2) / 2) * 512\<close> bytes are written in one transaction.
\<close>

abbreviation (input) max_write :: nat where "max_write \<equiv> 1536"

definition filewrite_tx :: "nat \<Rightarrow> byte list \<Rightarrow> kernel \<Rightarrow> (int \<times> kernel) res" where
  "filewrite_tx f bs s =
     andthen (begin_op s) (\<lambda>s.
     andthen (ilock (f_ip (fil s f)) s) (\<lambda>s.
     case f_ip (fil s f) of
       None \<Rightarrow> Stop NullDeref
     | Some ip \<Rightarrow>
         andthen (writei ip bs (f_off (fil s f)) s) (\<lambda>(r, s).
         let s = (if r > 0 then upd_file f (\<lambda>x. x\<lparr>f_off := f_off x + word_of_int r\<rparr>) s else s) in
         andthen (iunlock (Some ip) s) (\<lambda>s.
         andthen (end_op s) (\<lambda>s. Ok (r, s))))))"

text \<open>The loop of \<open>filewrite\<close>; its result tells whether everything has been written.\<close>

function filewrite_loop :: "nat \<Rightarrow> byte list \<Rightarrow> kernel \<Rightarrow> (bool \<times> kernel) res" where
  "filewrite_loop f src s =
     (if src = [] then Ok (True, s)
      else let n1 = min (length src) max_write in
           andthen (filewrite_tx f (take n1 src) s) (\<lambda>(r, s).
             if r < 0 then Ok (False, s)
             else if r \<noteq> int n1 then Stop (Panic ''short filewrite'')
             else filewrite_loop f (drop n1 src) s))"
  by pat_completeness auto
termination
  by (relation "measure (\<lambda>(f, src, s). length src)") auto

declare filewrite_loop.simps [simp del]

definition filewrite :: "nat \<Rightarrow> byte list \<Rightarrow> kernel \<Rightarrow> (int \<times> kernel) res" where
  "filewrite f src s =
     (if f_writable (fil s f) = 0 then Ok (- 1, s)
      else case f_type (fil s f) of
        FD_PIPE \<Rightarrow> pipewrite (f_pipe (fil s f)) src s
      | FD_INODE \<Rightarrow> andthen (filewrite_loop f src s) (\<lambda>(all, s).
          Ok (if all then int (length src) else - 1, s))
      | FD_NONE \<Rightarrow> Stop (Panic ''filewrite''))"

text \<open>
  The two ends of a new pipe, \<open>None\<close> when it cannot be made; what has been allocated is given
  back then.
\<close>

definition close_opt :: "uint32 \<Rightarrow> nat option \<Rightarrow> kernel \<Rightarrow> kernel res" where
  "close_opt kend f s = (case f of None \<Rightarrow> Ok s | Some f \<Rightarrow> fileclose kend f s)"

definition pipealloc :: "uint32 \<Rightarrow> kernel \<Rightarrow> ((nat \<times> nat) option \<times> kernel) res" where
  "pipealloc kend s =
     (let (f0, s) = filealloc s;
          (f1, s) = (if f0 = None then (None, s) else filealloc s);
          (p, s) = (if f0 = None \<or> f1 = None then (0, s) else kalloc s)
      in case (f0, f1) of
           (Some r, Some w) \<Rightarrow>
             if p \<noteq> 0 then
               let s = upd_pipe p (\<lambda>x. x\<lparr>pi_readopen := True, pi_writeopen := True,
                                         pi_nwrite := 0, pi_nread := 0\<rparr>) s;
                   s = upd_file r (\<lambda>x. x\<lparr>f_type := FD_PIPE, f_readable := 1, f_writable := 0,
                                         f_pipe := p\<rparr>) s;
                   s = upd_file w (\<lambda>x. x\<lparr>f_type := FD_PIPE, f_readable := 0, f_writable := 1,
                                         f_pipe := p\<rparr>) s
               in Ok (Some (r, w), s)
             else andthen (fileclose kend r s) (\<lambda>s. andthen (fileclose kend w s) (\<lambda>s. Ok (None, s)))
         | _ \<Rightarrow> andthen (close_opt kend f0 s) (\<lambda>s. andthen (close_opt kend f1 s) (\<lambda>s. Ok (None, s))))"

end
