(* ===== verification/SwapFile.thy ===== *)
theory SwapFile
  imports File
begin

text \<open>
  Creating and unlinking files (\<open>create\<close>, \<open>isdirempty\<close> and the body of \<open>sys_unlink\<close> of
  src/sysfile.c) and the swap file of a process, which the end of src/fs.c builds on them.  A process
  is named by its index in the process table.
\<close>

abbreviation upd_proc :: "nat \<Rightarrow> (proc \<Rightarrow> proc) \<Rightarrow> kernel \<Rightarrow> kernel" where
  "upd_proc i f s \<equiv> s\<lparr>procs := upd_at i f (procs s)\<rparr>"

section \<open>Creating and unlinking\<close>

fun isdirempty_loop :: "nat \<Rightarrow> uint32 list \<Rightarrow> kernel \<Rightarrow> (bool \<times> kernel) res" where
  "isdirempty_loop dp [] s = Ok (True, s)"
| "isdirempty_loop dp (off # offs) s =
     andthen (readi dp off 16 s) (\<lambda>(r, de, s).
       if r \<noteq> 16 then Stop (Panic ''isdirempty: readi'')
       else if de_inum de \<noteq> 0 then Ok (False, s)
       else isdirempty_loop dp offs s)"

definition isdirempty :: "nat \<Rightarrow> kernel \<Rightarrow> (bool \<times> kernel) res" where
  "isdirempty dp s = isdirempty_loop dp (drop 2 (de_offsets (i_size (ino s dp)))) s"

definition name_dot :: "byte list" where
  "name_dot = [46]"

definition name_dotdot :: "byte list" where
  "name_dotdot = [46, 46]"

text \<open>The code at the label \<open>bad\<close>.\<close>

definition unlink_bad :: "nat \<Rightarrow> kernel \<Rightarrow> (int \<times> kernel) res" where
  "unlink_bad dp s = andthen (iunlockput dp s) (\<lambda>s. andthen (end_op s) (\<lambda>s. Ok (- 1, s)))"

text \<open>What follows when the entry at \<open>off\<close> names \<open>ip\<close>, which is locked.\<close>

definition unlink_entry :: "nat \<Rightarrow> nat \<Rightarrow> uint32 \<Rightarrow> kernel \<Rightarrow> (int \<times> kernel) res" where
  "unlink_entry dp ip off s =
     andthen (writei dp (replicate 16 0) off s) (\<lambda>(r, s).
     if r \<noteq> 16 then Stop (Panic ''unlink: writei'')
     else andthen (if i_type (ino s ip) = T_DIR
                   then iupdate dp (upd_inode dp (\<lambda>x. x\<lparr>i_nlink := i_nlink x - 1\<rparr>) s)
                   else Ok s) (\<lambda>s.
          andthen (iunlockput dp s) (\<lambda>s.
          andthen (iupdate ip (upd_inode ip (\<lambda>x. x\<lparr>i_nlink := i_nlink x - 1\<rparr>) s)) (\<lambda>s.
          andthen (iunlockput ip s) (\<lambda>s.
          andthen (end_op s) (\<lambda>s. Ok (0, s)))))))"

text \<open>\<open>sys_unlink\<close> from \<open>begin_op\<close> on; \<open>removeSwapFile\<close> has the same code.\<close>

definition unlink_path :: "byte list \<Rightarrow> kernel \<Rightarrow> (int \<times> kernel) res" where
  "unlink_path path s =
     andthen (begin_op s) (\<lambda>s.
     andthen (nameiparent path s) (\<lambda>(dp, name, s).
     case dp of
       None \<Rightarrow> andthen (end_op s) (\<lambda>s. Ok (- 1, s))
     | Some dp \<Rightarrow>
       andthen (ilock (Some dp) s) (\<lambda>s.
       if namecmp name name_dot = 0 \<or> namecmp name name_dotdot = 0 then unlink_bad dp s
       else andthen (dirlookup dp name s) (\<lambda>(r, s).
         case r of
           None \<Rightarrow> unlink_bad dp s
         | Some (ip, off) \<Rightarrow>
           andthen (ilock (Some ip) s) (\<lambda>s.
           if sint (i_nlink (ino s ip)) < 1 then Stop (Panic ''unlink: nlink < 1'')
           else andthen (if i_type (ino s ip) = T_DIR then isdirempty ip s else Ok (True, s)) (\<lambda>(e, s).
             if \<not> e then andthen (iunlockput ip s) (unlink_bad dp)
             else unlink_entry dp ip off s))))))"

text \<open>The second half of \<open>create\<close>: a new inode is made and entered in the directory.\<close>

definition create_new :: "nat \<Rightarrow> byte list \<Rightarrow> int16 \<Rightarrow> int16 \<Rightarrow> int16 \<Rightarrow> kernel \<Rightarrow> (nat option \<times> kernel) res" where
  "create_new dp name type major minor s =
     andthen (ialloc (i_dev (ino s dp)) type s) (\<lambda>(ip, s).
     andthen (ilock (Some ip) s) (\<lambda>s.
     andthen (iupdate ip (upd_inode ip (\<lambda>x. x\<lparr>i_major := major, i_minor := minor, i_nlink := 1\<rparr>) s)) (\<lambda>s.
     andthen
       (if type = T_DIR then
          andthen (iupdate dp (upd_inode dp (\<lambda>x. x\<lparr>i_nlink := i_nlink x + 1\<rparr>) s)) (\<lambda>s.
          andthen (dirlink ip name_dot (i_inum (ino s ip)) s) (\<lambda>(r, s).
          if r < 0 then Stop (Panic ''create dots'')
          else andthen (dirlink ip name_dotdot (i_inum (ino s dp)) s) (\<lambda>(r, s).
               if r < 0 then Stop (Panic ''create dots'') else Ok s)))
        else Ok s) (\<lambda>s.
     andthen (dirlink dp name (i_inum (ino s ip)) s) (\<lambda>(r, s).
     if r < 0 then Stop (Panic ''create: dirlink'')
     else andthen (iunlockput dp s) (\<lambda>s. Ok (Some ip, s)))))))"

definition create :: "byte list \<Rightarrow> int16 \<Rightarrow> int16 \<Rightarrow> int16 \<Rightarrow> kernel \<Rightarrow> (nat option \<times> kernel) res" where
  "create path type major minor s =
     andthen (nameiparent path s) (\<lambda>(dp, name, s).
     case dp of
       None \<Rightarrow> Ok (None, s)
     | Some dp \<Rightarrow>
       andthen (ilock (Some dp) s) (\<lambda>s.
       andthen (dirlookup dp name s) (\<lambda>(r, s).
       case r of
         Some (ip, _) \<Rightarrow>
           andthen (iunlockput dp s) (\<lambda>s.
           andthen (ilock (Some ip) s) (\<lambda>s.
           if type = T_FILE \<and> i_type (ino s ip) = T_FILE then Ok (Some ip, s)
           else andthen (iunlockput ip s) (\<lambda>s. Ok (None, s))))
       | None \<Rightarrow> create_new dp name type major minor s)))"

section \<open>The swap file\<close>

text \<open>The name \<open>/.swap<pid>\<close>; the array for it has \<open>DIGITS\<close> bytes.\<close>

abbreviation (input) DIGITS :: nat where "DIGITS \<equiv> 14"

definition swap_path :: "int \<Rightarrow> byte list" where
  "swap_path pid = [47, 46, 115, 119, 97, 112] @ itoa pid"

definition swap_path_fits :: "int \<Rightarrow> bool" where
  "swap_path_fits pid \<longleftrightarrow> length (swap_path pid) < DIGITS"

definition createSwapFile :: "nat \<Rightarrow> kernel \<Rightarrow> (int \<times> kernel) res" where
  "createSwapFile p s =
     (let path = swap_path (p_pid (procs s ! p)) in
      if \<not> swap_path_fits (p_pid (procs s ! p)) then Stop OutOfRange
      else andthen (begin_op s) (\<lambda>s.
           andthen (create path T_FILE 0 0 s) (\<lambda>(ip, s).
           andthen (iunlock ip s) (\<lambda>s.
           let (f, s) = filealloc s;
               s = upd_proc p (\<lambda>x. x\<lparr>p_swapFile := f\<rparr>) s
           in case f of
                None \<Rightarrow> Stop (Panic ''no slot for files on /store'')
              | Some f \<Rightarrow>
                let s = upd_file f (\<lambda>x. x\<lparr>f_ip := ip, f_type := FD_INODE, f_off := 0,
                                         f_readable := 1, f_writable := 2\<rparr>) s
                in andthen (end_op s) (\<lambda>s. Ok (0, s))))))"

definition removeSwapFile :: "uint32 \<Rightarrow> nat \<Rightarrow> kernel \<Rightarrow> (int \<times> kernel) res" where
  "removeSwapFile kend p s =
     (let path = swap_path (p_pid (procs s ! p)) in
      if \<not> swap_path_fits (p_pid (procs s ! p)) then Stop OutOfRange
      else case p_swapFile (procs s ! p) of
             None \<Rightarrow> Ok (- 1, s)
           | Some f \<Rightarrow> andthen (fileclose kend f s) (unlink_path path))"

definition writeToSwapFile :: "nat \<Rightarrow> byte list \<Rightarrow> uint32 \<Rightarrow> kernel \<Rightarrow> (int \<times> kernel) res" where
  "writeToSwapFile p buffer placeOnFile s =
     (case p_swapFile (procs s ! p) of
        None \<Rightarrow> Stop NullDeref
      | Some f \<Rightarrow> filewrite f buffer (upd_file f (\<lambda>x. x\<lparr>f_off := placeOnFile\<rparr>) s))"

definition readFromSwapFile :: "nat \<Rightarrow> uint32 \<Rightarrow> uint32 \<Rightarrow> kernel \<Rightarrow> (int \<times> byte list \<times> kernel) res" where
  "readFromSwapFile p placeOnFile sz s =
     (case p_swapFile (procs s ! p) of
        None \<Rightarrow> Stop NullDeref
      | Some f \<Rightarrow> fileread f (sint sz) (upd_file f (\<lambda>x. x\<lparr>f_off := placeOnFile\<rparr>) s))"

definition copySwapFile :: "nat \<Rightarrow> nat \<Rightarrow> kernel \<Rightarrow> kernel res" where
  "copySwapFile fromP toP s =
     (if p_pid (procs s ! fromP) < 3 then Ok s
      else for_each [0..<MAX_PSYC_PAGES] (\<lambda>i s.
        if dk_va (disk_pg_arr (procs s ! fromP) ! i) \<noteq> NOVA then
          andthen (readFromSwapFile fromP (PGSIZE * of_nat i) PGSIZE s) (\<lambda>(r, buff, s).
          if r \<noteq> 4096 then Stop (Panic ''CopySwapFile error'')
          else andthen (writeToSwapFile toP buff (PGSIZE * of_nat i) s) (\<lambda>(r, s).
               if r \<noteq> 4096 then Stop (Panic ''CopySwapFile error'') else Ok s))
        else Ok s) s)"

end
