(* ===== verification/Paging.thy ===== *)
theory Paging
  imports SwapFile
begin

text \<open>
  The rest of src/vm.c: moving pages between memory and the swap file, growing, shrinking, copying
  and freeing address spaces.  \<open>kend\<close> and \<open>kdata\<close> are the linker symbols \<open>end\<close> and
  \<open>data\<close>, \<open>pol\<close> is the policy the kernel is compiled with.  A process is named by its index
  in the process table.

  The kernel copies a page of user memory to the swap file, and back when there is a free slot,
  through its user address, with the page table of the running process; \<open>page_frame\<close> is the frame
  that this table gives, or the page fault.
\<close>

section \<open>Access to user memory\<close>

definition page_frame :: "uint32 \<Rightarrow> uint32 \<Rightarrow> 'a mach \<Rightarrow> uint32 res" where
  "page_frame pgdir va s =
     (let ptep = fst (walkpgdir pgdir va False s) in
      if ptep = 0 \<or> \<not> present (ld32 (mem s) ptep) then Stop (PageFault va)
      else Ok (P2V (PTE_ADDR (ld32 (mem s) ptep))))"

definition user_page_bytes :: "uint32 \<Rightarrow> uint32 \<Rightarrow> 'a mach \<Rightarrow> byte list res" where
  "user_page_bytes pgdir va s =
     andthen (page_frame pgdir va s) (\<lambda>f. Ok (load_bytes (mem s) f (unat PGSIZE)))"

definition my_pgdir :: "kernel \<Rightarrow> uint32 res" where
  "my_pgdir s = (case myproc s of None \<Rightarrow> Stop NullDeref | Some p \<Rightarrow> Ok (p_pgdir p))"

section \<open>Between memory and swap file\<close>

definition set_proc :: "nat \<Rightarrow> proc \<Rightarrow> kernel \<Rightarrow> kernel" where
  "set_proc p q s = s\<lparr>procs := (procs s)[p := q]\<rparr>"

definition enter_page :: "policy \<Rightarrow> nat \<Rightarrow> uint32 \<Rightarrow> kernel \<Rightarrow> kernel res" where
  "enter_page pol p va s =
     andthen (update_memory pol va (procs s ! p)) (\<lambda>(_, q). Ok (set_proc p q s))"

definition disk_slot :: "uint32 \<Rightarrow> proc \<Rightarrow> nat option" where
  "disk_slot va p = find_idx (\<lambda>d. dk_va d = va) (disk_pg_arr p)"

abbreviation upd_disk :: "nat \<Rightarrow> (disk_info \<Rightarrow> disk_info) \<Rightarrow> proc \<Rightarrow> proc" where
  "upd_disk i f p \<equiv> p\<lparr>disk_pg_arr := upd_at i f (disk_pg_arr p)\<rparr>"

text \<open>The bytes are those stored at \<open>buffer\<close>.\<close>

definition readPageFromFile :: "policy \<Rightarrow> nat \<Rightarrow> uint32 \<Rightarrow> kernel \<Rightarrow> (int \<times> byte list \<times> kernel) res" where
  "readPageFromFile pol p user_address s =
     (case disk_slot user_address (procs s ! p) of
        None \<Rightarrow> Ok (- 2, [], s)
      | Some i \<Rightarrow>
        andthen (readFromSwapFile p (of_nat i * PGSIZE) PGSIZE s) (\<lambda>(read, bs, s).
        let s = upd_proc p (\<lambda>q. (upd_disk i (\<lambda>d. d\<lparr>dk_va := NOVA\<rparr>) q)
                  \<lparr>pages_in_swapfile_counter := pages_in_swapfile_counter q - 1\<rparr>) s in
        if read = - 1 then Stop (Panic ''failled to read from  swapfile'')
        else andthen (enter_page pol p user_address s) (\<lambda>s. Ok (read, bs, s))))"

definition writePageToFile :: "nat \<Rightarrow> uint32 \<Rightarrow> kernel \<Rightarrow> (int \<times> kernel) res" where
  "writePageToFile p userPageVAddr s =
     (case disk_slot NOVA (procs s ! p) of
        None \<Rightarrow> Ok (- 2, s)
      | Some i \<Rightarrow>
        andthen (my_pgdir s) (\<lambda>pg.
        andthen (user_page_bytes pg userPageVAddr s) (\<lambda>bs.
        andthen (writeToSwapFile p bs (PGSIZE * of_nat i) s) (\<lambda>(res, s).
        if res = - 1 then Ok (- 1, s)
        else Ok (res, upd_proc p (\<lambda>q. (upd_disk i (\<lambda>d. d\<lparr>dk_va := userPageVAddr\<rparr>) q)
               \<lparr>pages_in_swapfile_counter := pages_in_swapfile_counter q + 1,
                pagedout := pagedout q + 1\<rparr>) s)))))"

text \<open>\<open>select_page_to_remove(p)\<close>; the slot is then cleared.\<close>

definition take_victim :: "policy \<Rightarrow> nat \<Rightarrow> kernel \<Rightarrow> (nat \<times> kernel) res" where
  "take_victim pol p s =
     andthen (my_pgdir s) (\<lambda>pg.
     andthen (select_page_to_remove pol pg (procs s ! p) s) (\<lambda>(i, q, s). Ok (i, set_proc p q s)))"

abbreviation drop_page :: "nat \<Rightarrow> proc \<Rightarrow> proc" where
  "drop_page i q \<equiv> (upd_slot i (\<lambda>f. f\<lparr>fp_va := NOVA\<rparr>) q)
     \<lparr>pages_in_memory_counter := pages_in_memory_counter q - 1\<rparr>"

definition getPageFromFile :: "uint32 \<Rightarrow> policy \<Rightarrow> uint32 \<Rightarrow> kernel \<Rightarrow> (int \<times> kernel) res" where
  "getPageFromFile kend pol fault_address s =
     (case cur s of
        None \<Rightarrow> Ok (0, s)
      | Some p \<Rightarrow>
        let userPageVAddr = PGROUNDDOWN fault_address;
            (newPg, s) = kalloc s
        in if newPg = 0 then Stop NullDeref
        else let s = s\<lparr>mem := memset (mem s) newPg 0 PGSIZE\<rparr>; pg = p_pgdir (procs s ! p) in
        if pages_in_memory_counter (procs s ! p) \<ge> int MAX_PSYC_PAGES then
          andthen (take_victim pol p s) (\<lambda>(i, s).
          let va = slot_va (procs s ! p) i; s = upd_proc p (drop_page i) s in
          andthen (fixPagedInPTE userPageVAddr (V2P newPg) pg s) (\<lambda>s.
          andthen (readPageFromFile pol p userPageVAddr s) (\<lambda>(_, bs, s).
          let s = s\<lparr>swapbuff := put_bytes (swapbuff s) 0 bs\<rparr>;
              outPagePAddr = getPagePAddr va pg s;
              s = s\<lparr>mem := store_bytes (mem s) newPg (swapbuff s)\<rparr>
          in andthen (writePageToFile p va s) (\<lambda>(_, s).
             andthen (fixPagedOutPTE pg va False s) (\<lambda>s.
             andthen (kfree kend (P2V outPagePAddr) s) (\<lambda>s. Ok (1, s)))))))
        else
          andthen (fixPagedInPTE userPageVAddr (V2P newPg) pg s) (\<lambda>s.
          andthen (readPageFromFile pol p userPageVAddr s) (\<lambda>(_, bs, s).
          andthen (page_frame pg userPageVAddr s) (\<lambda>f.
          Ok (1, s\<lparr>mem := store_bytes (mem s) f bs\<rparr>)))))"

definition insert_to_disk :: "uint32 \<Rightarrow> nat \<Rightarrow> nat \<Rightarrow> nat \<Rightarrow> kernel \<Rightarrow> kernel res" where
  "insert_to_disk kend p i tmp s =
     (let va = slot_va (procs s ! p) tmp; pg = p_pgdir (procs s ! p);
          s = upd_proc p (\<lambda>q. (upd_disk i (\<lambda>d. d\<lparr>dk_va := va\<rparr>) q)
                \<lparr>pages_in_swapfile_counter := pages_in_swapfile_counter q + 1,
                 pagedout := pagedout q + 1\<rparr>) s
      in andthen (my_pgdir s) (\<lambda>mypg.
         andthen (user_page_bytes mypg (PTE_ADDR va) s) (\<lambda>bs.
         andthen (writeToSwapFile p bs (of_nat i * PGSIZE) s) (\<lambda>(r, s).
         if r \<le> 0 then Stop (Panic ''failled to write to swapfile'')
         else let pte1 = fst (walkpgdir pg va False s) in
         if pte1 = 0 then Stop NullDeref
         else if ld32 (mem s) pte1 = 0 then Stop (Panic ''pte1 is empty'')
         else let s = upd_proc p (drop_page tmp) s in
         andthen (kfree kend (PTE_ADDR (P2V (ld32 (mem s) pte1))) s) (\<lambda>s.
         Ok (s\<lparr>mem := st32 (mem s) pte1 (PTE_W OR PTE_U OR PTE_PG)\<rparr>))))))"

definition moveram_to_disk :: "uint32 \<Rightarrow> policy \<Rightarrow> nat \<Rightarrow> kernel \<Rightarrow> kernel res" where
  "moveram_to_disk kend pol p s =
     (case disk_slot NOVA (procs s ! p) of
        None \<Rightarrow> Stop (Panic ''disk full'')
      | Some i \<Rightarrow>
        if pol = SCFIFO \<and> (p_head (procs s ! p) = None \<or> p_tail (procs s ! p) = None)
        then Stop (Panic ''head or tail null'')
        else andthen (take_victim pol p s) (\<lambda>(tmp, s). insert_to_disk kend p i tmp s))"

section \<open>Shrinking and freeing\<close>

lemma word_up_measure: "a < b \<Longrightarrow> 4294967296 - unat b < 4294967296 - unat (a :: uint32)"
  using unat_uint32_less[of b] by (simp add: word_less_nat_alt)

text \<open>The metadata loop of \<open>deallocuvm\<close> for a page in memory, at slot \<open>i\<close>.\<close>

definition forget_ram :: "policy \<Rightarrow> uint32 \<Rightarrow> uint32 \<Rightarrow> nat \<Rightarrow> nat \<times> proc \<Rightarrow> nat \<times> proc" where
  "forget_ram pol pgdir a i = (\<lambda>(found, p).
     if slot_va p i = a then
       let p = (case fp_next (memory_pg_arr p ! i) of None \<Rightarrow> p
                | Some n \<Rightarrow> upd_slot n (\<lambda>g. g\<lparr>fp_prev := fp_prev (memory_pg_arr p ! i)\<rparr>) p);
           p = (case fp_prev (memory_pg_arr p ! i) of None \<Rightarrow> p
                | Some n \<Rightarrow> upd_slot n (\<lambda>g. g\<lparr>fp_next := fp_next (memory_pg_arr p ! i)\<rparr>) p);
           p = (if p_head p = Some i then p\<lparr>p_head := fp_next (memory_pg_arr p ! i)\<rparr> else p);
           p = (if p_tail p = Some i then p\<lparr>p_tail := fp_prev (memory_pg_arr p ! i)\<rparr> else p);
           p = upd_slot i (\<lambda>g. g\<lparr>fp_next := None, fp_prev := None, fp_age := default_age pol,
                                 fp_va := NOVA\<rparr>) p;
           p = (if p_pgdir p = pgdir
                then p\<lparr>pages_in_memory_counter := pages_in_memory_counter p - 1\<rparr> else p)
       in (found + 1, p)
     else (found, p))"

text \<open>The same for a page in the swap file.\<close>

definition forget_disk :: "uint32 \<Rightarrow> uint32 \<Rightarrow> nat \<Rightarrow> nat \<times> proc \<Rightarrow> nat \<times> proc" where
  "forget_disk pgdir a i = (\<lambda>(found, p).
     if dk_va (disk_pg_arr p ! i) = a then
       let p = upd_disk i (\<lambda>d. d\<lparr>dk_va := NOVA, dk_location := - 1\<rparr>) p;
           p = (if p_pgdir p = pgdir
                then p\<lparr>pages_in_swapfile_counter := pages_in_swapfile_counter p - 1\<rparr> else p)
       in (found + 1, p)
     else (found, p))"

text \<open>Either loop runs over all slots of the running process.\<close>

definition forget_all :: "(nat \<Rightarrow> nat \<times> proc \<Rightarrow> nat \<times> proc) \<Rightarrow> kernel \<Rightarrow> (nat \<times> kernel) res" where
  "forget_all forget s =
     (case cur s of
        None \<Rightarrow> Stop NullDeref
      | Some c \<Rightarrow>
        let (found, q) = foldl (\<lambda>x i. forget i x) (0, procs s ! c) [0..<MAX_PSYC_PAGES]
        in Ok (found, set_proc c q s))"

text \<open>One page of the loop of \<open>deallocuvm\<close>, whose entry is at \<open>pte\<close>.\<close>

definition dealloc_page :: "uint32 \<Rightarrow> policy \<Rightarrow> uint32 \<Rightarrow> uint32 \<Rightarrow> uint32 \<Rightarrow> kernel \<Rightarrow> kernel res" where
  "dealloc_page kend pol pgdir a ptep s =
     andthen
       (if ld32 (mem s) ptep AND PTE_P \<noteq> 0 then
          let pa = PTE_ADDR (ld32 (mem s) ptep) in
          if pa = 0 then Stop (Panic ''kfree_deallocuvm'')
          else andthen (if pol = NONE then Ok (0, s) else forget_all (forget_ram pol pgdir a) s) (\<lambda>(found, s).
               andthen (kfree kend (P2V pa) s) (\<lambda>s. Ok (found, s\<lparr>mem := st32 (mem s) ptep 0\<rparr>)))
        else if pol \<noteq> NONE \<and> ld32 (mem s) ptep AND PTE_PG \<noteq> 0 then
          forget_all (forget_disk pgdir a) (s\<lparr>mem := st32 (mem s) ptep 0\<rparr>)
        else Ok (0, s))
       (\<lambda>(found, s).
          if found > 1 then
            andthen (say (''found= %d '' @ [CHR 0x0A]) [Num (of_nat found)] s) (\<lambda>_.
              Stop (Panic ''found same virtual address more then once in the data strucure''))
          else Ok s)"

text \<open>
  The loop from address \<open>a\<close> on.  A missing page table is skipped as a whole.  When the address
  wraps around it is again below \<open>oldsz\<close>, and the loop does not end.
\<close>

function dealloc_loop :: "uint32 \<Rightarrow> policy \<Rightarrow> uint32 \<Rightarrow> uint32 \<Rightarrow> uint32 \<Rightarrow> kernel \<Rightarrow> kernel res" where
  "dealloc_loop kend pol pgdir a oldsz s =
     (if a < oldsz then
        let ptep = fst (walkpgdir pgdir a False s) in
        if ptep = 0 then
          let a' = PGADDR (PDX a + 1) 0 0 in
          if a' \<le> a then Stop Diverges else dealloc_loop kend pol pgdir a' oldsz s
        else andthen (dealloc_page kend pol pgdir a ptep s) (\<lambda>s.
          if a + PGSIZE \<le> a then Stop Diverges else dealloc_loop kend pol pgdir (a + PGSIZE) oldsz s)
      else Ok s)"
  by pat_completeness auto
termination
  by (relation "measure (\<lambda>(kend, pol, pgdir, a, oldsz, s). 4294967296 - unat a)")
    (auto simp: not_le intro!: word_up_measure)

declare dealloc_loop.simps [simp del]

definition deallocuvm :: "uint32 \<Rightarrow> policy \<Rightarrow> uint32 \<Rightarrow> uint32 \<Rightarrow> uint32 \<Rightarrow> kernel \<Rightarrow> (uint32 \<times> kernel) res" where
  "deallocuvm kend pol pgdir oldsz newsz s =
     (if newsz \<ge> oldsz then Ok (oldsz, s)
      else andthen (dealloc_loop kend pol pgdir (PGROUNDUP newsz) oldsz s) (\<lambda>s. Ok (newsz, s)))"

definition freevm :: "uint32 \<Rightarrow> policy \<Rightarrow> uint32 \<Rightarrow> kernel \<Rightarrow> kernel res" where
  "freevm kend pol pgdir s =
     (if pgdir = 0 then Stop (Panic ''freevm: no pgdir'')
      else andthen (deallocuvm kend pol pgdir KERNBASE 0 s) (\<lambda>(_, s).
           andthen (for_each [0..<NPDENTRIES] (\<lambda>i s.
             let e = ld32 (mem s) (entry pgdir (of_nat i)) in
             if e AND PTE_P \<noteq> 0 then kfree kend (P2V (PTE_ADDR e)) s else Ok s) s) (\<lambda>s.
           kfree kend pgdir s)))"

section \<open>The kernel part of an address space\<close>

definition kmap :: "uint32 \<Rightarrow> (uint32 \<times> uint32 \<times> uint32 \<times> uint32) list" where
  "kmap kdata =
     [(KERNBASE, 0, EXTMEM, PTE_W), (KERNLINK, V2P KERNLINK, V2P kdata, 0),
      (kdata, V2P kdata, PHYSTOP, PTE_W), (DEVSPACE, DEVSPACE, 0, PTE_W)]"

fun map_kernel :: "(uint32 \<times> uint32 \<times> uint32 \<times> uint32) list \<Rightarrow> uint32 \<Rightarrow> kernel \<Rightarrow> (int \<times> kernel) res" where
  "map_kernel [] pgdir s = Ok (0, s)"
| "map_kernel ((virt, phys_start, phys_end, perm) # ks) pgdir s =
     andthen (mappages pgdir virt (phys_end - phys_start) phys_start perm s) (\<lambda>(r, s).
       if r < 0 then Ok (- 1, s) else map_kernel ks pgdir s)"

definition setupkvm :: "uint32 \<Rightarrow> uint32 \<Rightarrow> policy \<Rightarrow> kernel \<Rightarrow> (uint32 \<times> kernel) res" where
  "setupkvm kend kdata pol s =
     (let (pgdir, s) = kalloc s in
      if pgdir = 0 then Ok (0, s)
      else let s = s\<lparr>mem := memset (mem s) pgdir 0 PGSIZE\<rparr> in
      if P2V PHYSTOP > DEVSPACE then Stop (Panic ''PHYSTOP too high'')
      else andthen (map_kernel (kmap kdata) pgdir s) (\<lambda>(r, s).
        if r < 0 then andthen (freevm kend pol pgdir s) (\<lambda>s. Ok (0, s)) else Ok (pgdir, s)))"

definition kvmalloc :: "uint32 \<Rightarrow> uint32 \<Rightarrow> policy \<Rightarrow> kernel \<Rightarrow> kernel res" where
  "kvmalloc kend kdata pol s =
     andthen (setupkvm kend kdata pol s) (\<lambda>(pgdir, s). Ok (s\<lparr>kpgdir := pgdir\<rparr>))"

text \<open>\<open>switchuvm\<close> loads the task state segment and the page directory; only its checks show here.\<close>

definition switchuvm :: "nat option \<Rightarrow> kernel \<Rightarrow> kernel res" where
  "switchuvm p s =
     (case p of
        None \<Rightarrow> Stop (Panic ''switchuvm: no process'')
      | Some p \<Rightarrow>
        if p_kstack (procs s ! p) = 0 then Stop (Panic ''switchuvm: no kstack'')
        else if p_pgdir (procs s ! p) = 0 then Stop (Panic ''switchuvm: no pgdir'')
        else Ok s)"

section \<open>Growing\<close>

text \<open>
  The loop of \<open>oldallocuvm\<close> from address \<open>a\<close> on.  Below \<open>KERNBASE\<close> the address does not
  wrap around.
\<close>

definition newline :: string where
  "newline = [CHR 0x0A]"

function oldalloc_loop ::
  "uint32 \<Rightarrow> policy \<Rightarrow> uint32 \<Rightarrow> uint32 \<Rightarrow> uint32 \<Rightarrow> uint32 \<Rightarrow> kernel \<Rightarrow> (uint32 \<times> kernel) res" where
  "oldalloc_loop kend pol pgdir a oldsz newsz s =
     (if a < newsz then
        let (pg, s) = kalloc s in
        if pg = 0 then
          andthen (say (''allocuvm out of memory'' @ newline) [] s) (\<lambda>s.
          andthen (deallocuvm kend pol pgdir newsz oldsz s) (\<lambda>(_, s). Ok (0, s)))
        else let s = s\<lparr>mem := memset (mem s) pg 0 PGSIZE\<rparr> in
        andthen (mappages pgdir a PGSIZE (V2P pg) (PTE_W OR PTE_U) s) (\<lambda>(r, s).
        if r < 0 then
          andthen (say (''allocuvm out of memory (2)'' @ newline) [] s) (\<lambda>s.
          andthen (deallocuvm kend pol pgdir newsz oldsz s) (\<lambda>(_, s).
          andthen (kfree kend pg s) (\<lambda>s. Ok (0, s))))
        else if a + PGSIZE \<le> a then Stop Diverges
        else oldalloc_loop kend pol pgdir (a + PGSIZE) oldsz newsz s)
      else Ok (newsz, s))"
  by pat_completeness auto
termination
  by (relation "measure (\<lambda>(kend, pol, pgdir, a, oldsz, newsz, s). 4294967296 - unat a)")
    (auto simp: not_le intro!: word_up_measure)

declare oldalloc_loop.simps [simp del]

definition oldallocuvm ::
  "uint32 \<Rightarrow> policy \<Rightarrow> uint32 \<Rightarrow> uint32 \<Rightarrow> uint32 \<Rightarrow> kernel \<Rightarrow> (uint32 \<times> kernel) res" where
  "oldallocuvm kend pol pgdir oldsz newsz s =
     (if newsz \<ge> KERNBASE then Ok (0, s)
      else if newsz < oldsz then Ok (oldsz, s)
      else oldalloc_loop kend pol pgdir (PGROUNDUP oldsz) oldsz newsz s)"

text \<open>What \<open>allocuvm\<close> does with the metadata of process \<open>p\<close> for the new page at \<open>a\<close>.\<close>

definition enter_new_page :: "uint32 \<Rightarrow> policy \<Rightarrow> nat \<Rightarrow> uint32 \<Rightarrow> kernel \<Rightarrow> kernel res" where
  "enter_new_page kend pol p a s =
     (if pages_in_memory_counter (procs s ! p) \<ge> int MAX_PSYC_PAGES then
        if pages_in_swapfile_counter (procs s ! p) \<ge> int MAX_PSYC_PAGES then
          andthen (say (''pages in swap file counter is %d  pages in memory counter is %d '' @ newline)
            [Num (word_of_int (pages_in_swapfile_counter (procs s ! p))),
             Num (word_of_int (pages_in_memory_counter (procs s ! p)))] s) (\<lambda>_.
          Stop (Panic ''swap file and ram full should have detected before starting to allocate memmory''))
        else andthen (moveram_to_disk kend pol p s) (enter_page pol p a)
      else enter_page pol p a s)"

function alloc_loop ::
  "uint32 \<Rightarrow> policy \<Rightarrow> nat \<Rightarrow> uint32 \<Rightarrow> uint32 \<Rightarrow> uint32 \<Rightarrow> uint32 \<Rightarrow> kernel \<Rightarrow> (uint32 \<times> kernel) res" where
  "alloc_loop kend pol p pgdir a oldsz newsz s =
     (if a < newsz then
        let (pg, s) = kalloc s in
        if pg = 0 then
          andthen (say (''allocuvm out of memory'' @ newline) [] s) (\<lambda>s.
          andthen (deallocuvm kend pol pgdir newsz oldsz s) (\<lambda>(_, s). Ok (0, s)))
        else let s = s\<lparr>mem := memset (mem s) pg 0 PGSIZE\<rparr> in
        andthen (mappages pgdir a PGSIZE (V2P pg) (PTE_W OR PTE_U) s) (\<lambda>(r, s).
        if r < 0 then
          andthen (say (''allocuvm out of memory (2)'' @ newline) [] s) (\<lambda>s.
          andthen (deallocuvm kend pol pgdir newsz oldsz s) (\<lambda>(_, s).
          andthen (kfree kend pg s) (\<lambda>s. Ok (0, s))))
        else andthen (enter_new_page kend pol p a s) (\<lambda>s.
          if a + PGSIZE \<le> a then Stop Diverges
          else alloc_loop kend pol p pgdir (a + PGSIZE) oldsz newsz s))
      else Ok (newsz, s))"
  by pat_completeness auto
termination
  by (relation "measure (\<lambda>(kend, pol, p, pgdir, a, oldsz, newsz, s). 4294967296 - unat a)")
    (auto simp: not_le intro!: word_up_measure)

declare alloc_loop.simps [simp del]

text \<open>
  The processes 1 (\<open>init\<close>) and its children (the shell) are not paged.  A process without a
  parent is a null pointer here.
\<close>

definition unpaged :: "kernel \<Rightarrow> bool res" where
  "unpaged s =
     (case myproc s of
        None \<Rightarrow> Ok False
      | Some p \<Rightarrow>
        if p_pid p = 1 then Ok True
        else case p_parent p of
               None \<Rightarrow> Stop NullDeref
             | Some q \<Rightarrow> Ok (p_pid (procs s ! q) = 1))"

definition allocuvm ::
  "uint32 \<Rightarrow> policy \<Rightarrow> uint32 \<Rightarrow> uint32 \<Rightarrow> uint32 \<Rightarrow> kernel \<Rightarrow> (uint32 \<times> kernel) res" where
  "allocuvm kend pol pgdir oldsz newsz s =
     (if pol = NONE then oldallocuvm kend pol pgdir oldsz newsz s
      else andthen (unpaged s) (\<lambda>u.
        if u then oldallocuvm kend pol pgdir oldsz newsz s
        else if newsz \<ge> KERNBASE then Ok (0, s)
        else if newsz < oldsz then Ok (oldsz, s)
        else if PGROUNDUP newsz div PGSIZE > of_nat MAX_TOTAL_PAGES then
          andthen (say (''proc is too big'' @ newline) [] s) (\<lambda>s. Ok (0, s))
        else case cur s of
               None \<Rightarrow> if PGROUNDUP oldsz < newsz then Stop NullDeref else Ok (newsz, s)
             | Some p \<Rightarrow> alloc_loop kend pol p pgdir (PGROUNDUP oldsz) oldsz newsz s))"

section \<open>Copying and loading\<close>

text \<open>One turn of the loop of \<open>copyuvm\<close>, for the page at \<open>i\<close>; the result is whether it goes on.\<close>

definition copy_page :: "uint32 \<Rightarrow> uint32 \<Rightarrow> uint32 \<Rightarrow> 'a mach \<Rightarrow> (bool \<times> 'a mach) res" where
  "copy_page pgdir d i s =
     (let ptep = fst (walkpgdir pgdir i False s) in
      if ptep = 0 then Stop (Panic ''copyuvm: pte should exist'')
      else let e = ld32 (mem s) ptep in
      if e AND PTE_P = 0 \<and> e AND PTE_PG = 0 then Stop (Panic ''copyuvm: page not present'')
      else if e AND PTE_PG \<noteq> 0 then andthen (fixPagedOutPTE d i False s) (\<lambda>s. Ok (True, s))
      else let (pg, s) = kalloc s in
           if pg = 0 then Ok (False, s)
           else let s = s\<lparr>mem := memmove (mem s) pg (P2V (PTE_ADDR e)) PGSIZE\<rparr> in
           andthen (mappages d i PGSIZE (V2P pg) (PTE_FLAGS e) s) (\<lambda>(r, s). Ok (\<not> r < 0, s)))"

text \<open>The loop for the pages with the given numbers.\<close>

fun copy_loop :: "uint32 \<Rightarrow> uint32 \<Rightarrow> nat list \<Rightarrow> 'a mach \<Rightarrow> (bool \<times> 'a mach) res" where
  "copy_loop pgdir d [] s = Ok (True, s)"
| "copy_loop pgdir d (k # ks) s =
     andthen (copy_page pgdir d (of_nat k * PGSIZE) s) (\<lambda>(c, s).
       if c then copy_loop pgdir d ks s else Ok (False, s))"

definition copyuvm :: "uint32 \<Rightarrow> uint32 \<Rightarrow> policy \<Rightarrow> uint32 \<Rightarrow> uint32 \<Rightarrow> kernel \<Rightarrow> (uint32 \<times> kernel) res" where
  "copyuvm kend kdata pol pgdir sz s =
     andthen (setupkvm kend kdata pol s) (\<lambda>(d, s).
     if d = 0 then Ok (0, s)
     else andthen (copy_loop pgdir d [0..<(unat sz + 4095) div 4096] s) (\<lambda>(c, s).
       if c then Ok (d, s) else andthen (freevm kend pol d s) (\<lambda>s. Ok (0, s))))"

fun load_loop :: "uint32 \<Rightarrow> uint32 \<Rightarrow> nat \<Rightarrow> uint32 \<Rightarrow> uint32 \<Rightarrow> nat list \<Rightarrow> kernel \<Rightarrow> (int \<times> kernel) res" where
  "load_loop pgdir addr ip offset sz [] s = Ok (0, s)"
| "load_loop pgdir addr ip offset sz (k # ks) s =
     (let i = of_nat k * PGSIZE;
          ptep = fst (walkpgdir pgdir (addr + i) False s) in
      if ptep = 0 then Stop (Panic ''loaduvm: address should exist'')
      else let pa = PTE_ADDR (ld32 (mem s) ptep);
               n = (if sz - i < PGSIZE then sz - i else PGSIZE)
           in andthen (readi ip (offset + i) n s) (\<lambda>(r, bs, s).
              let s = s\<lparr>mem := store_bytes (mem s) (P2V pa) bs\<rparr> in
              if r \<noteq> int (unat n) then Ok (- 1, s)
              else load_loop pgdir addr ip offset sz ks s))"

definition loaduvm :: "uint32 \<Rightarrow> uint32 \<Rightarrow> nat \<Rightarrow> uint32 \<Rightarrow> uint32 \<Rightarrow> kernel \<Rightarrow> (int \<times> kernel) res" where
  "loaduvm pgdir addr ip offset sz s =
     (if unat addr mod unat PGSIZE \<noteq> 0 then Stop (Panic ''loaduvm: addr must be page aligned'')
      else load_loop pgdir addr ip offset sz [0..<(unat sz + 4095) div 4096] s)"

end
