(* ===== verification/Proc.thy ===== *)
theory Proc
  imports Paging
begin

text \<open>
  Processes, src/proc.c.  A process is named by its index in \<open>ptable.proc\<close>.  \<open>kend\<close>,
  \<open>kdata\<close>, \<open>forkret\<close> and \<open>trapret\<close> are linker symbols, \<open>pol\<close> the paging policy.

  Switching between kernel threads is not a function of the state of one thread: \<open>sched\<close> is
  modelled by the state in which it is entered (\<open>exit\<close>, \<open>yield\<close> and \<open>sleep\<close> end there), and
  one turn of \<open>scheduler\<close> by what it does before (\<open>sched_run\<close>) and after
  (\<open>sched_back\<close>) the process has run.  \<open>cur\<close> is the field \<open>proc\<close> of the CPU that executes;
  theory \<open>ProcTable\<close> runs several CPUs on one process table.  The trap frame and the saved context of a process, which
  lie on its kernel stack, are fields of the process.
\<close>

section \<open>User memory, by bytes\<close>

definition ld_user :: "uint32 \<Rightarrow> uint32 \<Rightarrow> 'a mach \<Rightarrow> byte res" where
  "ld_user pgdir va s = andthen (page_frame pgdir va s) (\<lambda>f. Ok (mem s (f + PTE_FLAGS va)))"

fun ld_user_bytes :: "uint32 \<Rightarrow> uint32 \<Rightarrow> nat \<Rightarrow> 'a mach \<Rightarrow> byte list res" where
  "ld_user_bytes pgdir va 0 s = Ok []"
| "ld_user_bytes pgdir va (Suc n) s =
     andthen (ld_user pgdir va s) (\<lambda>b. andthen (ld_user_bytes pgdir (va + 1) n s) (\<lambda>bs. Ok (b # bs)))"

definition ld_user32 :: "uint32 \<Rightarrow> uint32 \<Rightarrow> 'a mach \<Rightarrow> uint32 res" where
  "ld_user32 pgdir va s = andthen (ld_user_bytes pgdir va 4 s) (\<lambda>bs. Ok (of_le32 bs))"

definition st_user :: "uint32 \<Rightarrow> uint32 \<Rightarrow> byte \<Rightarrow> 'a mach \<Rightarrow> 'a mach res" where
  "st_user pgdir va b s =
     andthen (page_frame pgdir va s) (\<lambda>f. Ok (s\<lparr>mem := (mem s)(f + PTE_FLAGS va := b)\<rparr>))"

fun st_user_bytes :: "uint32 \<Rightarrow> uint32 \<Rightarrow> byte list \<Rightarrow> 'a mach \<Rightarrow> 'a mach res" where
  "st_user_bytes pgdir va [] s = Ok s"
| "st_user_bytes pgdir va (b # bs) s = andthen (st_user pgdir va b s) (st_user_bytes pgdir (va + 1) bs)"

section \<open>Creating processes\<close>

text \<open>
  \<open>allocproc\<close> lays out the kernel stack: the trap frame (76 bytes) at its top, then the return
  address \<open>trapret\<close>, then the context.
\<close>

definition fresh_meta :: "policy \<Rightarrow> proc \<Rightarrow> proc" where
  "fresh_meta pol p =
     (if pol = NONE then p
      else p\<lparr>pagedout := 0, pages_in_memory_counter := 0, pages_in_swapfile_counter := 0,
             fault_counter := 0,
             disk_pg_arr := map (\<lambda>_. \<lparr>dk_va = NOVA, dk_location = - 1\<rparr>) [0..<MAX_PSYC_PAGES],
             memory_pg_arr := map (\<lambda>_. \<lparr>fp_next = None, fp_prev = None, fp_va = NOVA,
               fp_age = default_age pol\<rparr>) [0..<MAX_PSYC_PAGES],
             p_head := None, p_tail := None\<rparr>)"

text \<open>\<open>nextpid++\<close>: an \<open>int\<close> has 32 bits and is taken to wrap around.\<close>

definition inc_int :: "int \<Rightarrow> int" where
  "inc_int n = (n + 1 + 2 ^ 31) mod 2 ^ 32 - 2 ^ 31"

definition allocproc :: "uint32 \<Rightarrow> uint32 \<Rightarrow> policy \<Rightarrow> kernel \<Rightarrow> nat option \<times> kernel" where
  "allocproc forkret trapret pol s =
     (case find_idx (\<lambda>p. p_state p = UNUSED) (procs s) of
        None \<Rightarrow> (None, s)
      | Some i \<Rightarrow>
        let s = (upd_proc i (\<lambda>p. p\<lparr>p_state := EMBRYO, p_pid := nextpid s\<rparr>) s)\<lparr>nextpid := inc_int (nextpid s)\<rparr>;
            (kstack, s) = kalloc s;
            s = upd_proc i (\<lambda>p. p\<lparr>p_kstack := kstack\<rparr>) s
        in if kstack = 0 then (None, upd_proc i (\<lambda>p. p\<lparr>p_state := UNUSED\<rparr>) s)
           else let sp = kstack + KSTACKSIZE - 76 - 4;
                    s = s\<lparr>mem := st32 (mem s) sp trapret\<rparr>
                in (Some i, upd_proc i (\<lambda>p. fresh_meta pol
                     (p\<lparr>p_context := \<lparr>cx_edi = 0, cx_esi = 0, cx_ebx = 0, cx_ebp = 0, cx_eip = forkret\<rparr>\<rparr>)) s))"

abbreviation set_name :: "byte list \<Rightarrow> proc \<Rightarrow> proc" where
  "set_name bs p \<equiv> p\<lparr>p_name := put_bytes (p_name p) 0 (safestrcpy (seq bs) 16)\<rparr>"

text \<open>The trap frame with which the first process enters \<open>initcode\<close>.\<close>

definition init_tf :: trapframe where
  "init_tf = zero_trapframe\<lparr>tf_cs := 0x1B, tf_ds := 0x23, tf_es := 0x23, tf_ss := 0x23,
     tf_eflags := 0x200, tf_esp := PGSIZE, tf_eip := 0\<rparr>"

definition userinit ::
  "uint32 \<Rightarrow> uint32 \<Rightarrow> uint32 \<Rightarrow> uint32 \<Rightarrow> policy \<Rightarrow> uint32 \<Rightarrow> uint32 \<Rightarrow> kernel \<Rightarrow> kernel res" where
  "userinit kend kdata forkret trapret pol initcode initsize s =
     (case allocproc forkret trapret pol s of
        (None, s) \<Rightarrow> Stop NullDeref
      | (Some p, s) \<Rightarrow>
        andthen (setupkvm kend kdata pol (s\<lparr>initproc := Some p\<rparr>)) (\<lambda>(pgdir, s).
        if pgdir = 0 then Stop (Panic ''userinit: out of memory?'')
        else andthen (inituvm pgdir initcode initsize (upd_proc p (\<lambda>x. x\<lparr>p_pgdir := pgdir\<rparr>) s)) (\<lambda>s.
        let s = upd_proc p (\<lambda>x. set_name [105, 110, 105, 116, 99, 111, 100, 101]
                  (x\<lparr>p_sz := PGSIZE, p_tf := init_tf\<rparr>)) s
        in andthen (namei [slash] s) (\<lambda>(ip, s).
           Ok (upd_proc p (\<lambda>x. x\<lparr>p_cwd := ip, p_state := RUNNABLE\<rparr>) s)))))"

definition growproc :: "uint32 \<Rightarrow> policy \<Rightarrow> int \<Rightarrow> kernel \<Rightarrow> (int \<times> kernel) res" where
  "growproc kend pol n s =
     (case cur s of
        None \<Rightarrow> Stop NullDeref
      | Some c \<Rightarrow>
        let sz = p_sz (procs s ! c); pg = p_pgdir (procs s ! c) in
        andthen (if n > 0 then allocuvm kend pol pg sz (sz + word_of_int n) s
                 else if n < 0 then deallocuvm kend pol pg sz (sz + word_of_int n) s
                 else Ok (sz, s)) (\<lambda>(sz', s).
        if n \<noteq> 0 \<and> sz' = 0 then Ok (- 1, s)
        else andthen (switchuvm (Some c) (upd_proc c (\<lambda>p. p\<lparr>p_sz := sz'\<rparr>) s)) (\<lambda>s. Ok (0, s))))"

section \<open>fork\<close>

text \<open>
  \<open>fork\<close> reads the field \<open>va\<close> through the links of the parent's metadata without testing
  them.  A null pointer to a \<open>free_page\<close> has its field \<open>va\<close> at address 8, which belongs to
  the user memory of the parent.
\<close>

definition link_va :: "uint32 \<Rightarrow> proc \<Rightarrow> nat option \<Rightarrow> kernel \<Rightarrow> uint32 res" where
  "link_va pg p link s = (case link of Some j \<Rightarrow> Ok (slot_va p j) | None \<Rightarrow> ld_user32 pg 8 s)"

definition has_va :: "uint32 \<Rightarrow> proc \<Rightarrow> bool" where
  "has_va va p \<longleftrightarrow> (\<exists>f \<in> set (memory_pg_arr p). fp_va f = va)"

text \<open>The double loop that is to copy the links; \<open>p\<close> is the parent, \<open>q\<close> the child.\<close>

definition fork_link :: "uint32 \<Rightarrow> proc \<Rightarrow> nat \<Rightarrow> proc \<times> kernel \<Rightarrow> (proc \<times> kernel) res" where
  "fork_link pg p i = (\<lambda>(q, s).
     andthen (link_va pg p (fp_next (memory_pg_arr p ! i)) s) (\<lambda>nva.
     andthen (link_va pg p (fp_prev (memory_pg_arr p ! i)) s) (\<lambda>pva.
     let q = (if has_va nva q then upd_slot i (\<lambda>f. f\<lparr>fp_next := Some i\<rparr>) q else q);
         q = (if has_va pva q then upd_slot i (\<lambda>f. f\<lparr>fp_prev := Some i\<rparr>) q else q)
     in Ok (q, s))))"

definition last_va :: "uint32 \<Rightarrow> proc \<Rightarrow> nat option \<Rightarrow> nat option" where
  "last_va va q old = foldl (\<lambda>r i. if slot_va q i = va then Some i else r) old [0..<MAX_PSYC_PAGES]"

definition fork_meta :: "uint32 \<Rightarrow> proc \<Rightarrow> proc \<Rightarrow> kernel \<Rightarrow> proc res" where
  "fork_meta pg p q s =
     (let q = q\<lparr>pages_in_swapfile_counter := pages_in_swapfile_counter p,
                pages_in_memory_counter := pages_in_memory_counter p, pagedout := 0, fault_counter := 0,
                memory_pg_arr := map2 (\<lambda>f g. g\<lparr>fp_va := fp_va f, fp_age := fp_age f\<rparr>)
                  (memory_pg_arr p) (memory_pg_arr q),
                disk_pg_arr := disk_pg_arr p\<rparr>
      in andthen (for_each [0..<MAX_PSYC_PAGES] (fork_link pg p) (q, s)) (\<lambda>(q, _).
         andthen (link_va pg p (p_head p) s) (\<lambda>hva.
         andthen (link_va pg p (p_tail p) s) (\<lambda>tva.
         Ok (q\<lparr>p_head := last_va hva q (p_head q), p_tail := last_va tva q (p_tail q)\<rparr>)))))"

definition dup_files :: "nat \<Rightarrow> nat \<Rightarrow> kernel \<Rightarrow> kernel res" where
  "dup_files c np s = for_each [0..<NOFILE] (\<lambda>i s.
     case p_ofile (procs s ! c) ! i of
       None \<Rightarrow> Ok s
     | Some f \<Rightarrow> andthen (filedup f s) (\<lambda>(f, s).
         Ok (upd_proc np (\<lambda>p. p\<lparr>p_ofile := (p_ofile p)[i := Some f]\<rparr>) s))) s"

definition fork ::
  "uint32 \<Rightarrow> uint32 \<Rightarrow> uint32 \<Rightarrow> uint32 \<Rightarrow> policy \<Rightarrow> kernel \<Rightarrow> (int \<times> kernel) res" where
  "fork kend kdata forkret trapret pol s =
     (case cur s of
        None \<Rightarrow> Stop NullDeref
      | Some c \<Rightarrow>
        case allocproc forkret trapret pol s of
          (None, s) \<Rightarrow> Ok (- 1, s)
        | (Some np, s) \<Rightarrow>
          let pg = p_pgdir (procs s ! c) in
          andthen (copyuvm kend kdata pol pg (p_sz (procs s ! c)) s) (\<lambda>(d, s).
          let s = upd_proc np (\<lambda>p. p\<lparr>p_pgdir := d\<rparr>) s in
          if d = 0 then
            andthen (kfree kend (p_kstack (procs s ! np)) s) (\<lambda>s.
            Ok (- 1, upd_proc np (\<lambda>p. p\<lparr>p_kstack := 0, p_state := UNUSED\<rparr>) s))
          else
            let s = upd_proc np (\<lambda>p. p\<lparr>p_sz := p_sz (procs s ! c), p_parent := Some c,
                      p_tf := (p_tf (procs s ! c))\<lparr>tf_eax := 0\<rparr>\<rparr>) s
            in andthen (dup_files c np s) (\<lambda>s.
               case p_cwd (procs s ! c) of
                 None \<Rightarrow> Stop NullDeref
               | Some cwd \<Rightarrow>
                 let (ip, s) = idup cwd s;
                     s = upd_proc np (\<lambda>p. set_name (p_name (procs s ! c)) (p\<lparr>p_cwd := Some ip\<rparr>)) s;
                     pid = p_pid (procs s ! np)
                 in andthen
                      (if pol = NONE then Ok s
                       else andthen (fork_meta pg (procs s ! c) (procs s ! np) s) (\<lambda>q.
                            let s = set_proc np q s in
                            if p_pid (procs s ! c) \<noteq> 1
                            then andthen (createSwapFile np s) (\<lambda>(_, s). copySwapFile c np s)
                            else Ok s)) (\<lambda>s.
                    Ok (pid, upd_proc np (\<lambda>p. p\<lparr>p_state := RUNNABLE\<rparr>) s)))))"

section \<open>exit and wait\<close>

definition close_files :: "uint32 \<Rightarrow> nat \<Rightarrow> kernel \<Rightarrow> kernel res" where
  "close_files kend c s = for_each [0..<NOFILE] (\<lambda>fd s.
     case p_ofile (procs s ! c) ! fd of
       None \<Rightarrow> Ok s
     | Some f \<Rightarrow> andthen (fileclose kend f s) (\<lambda>s.
         Ok (upd_proc c (\<lambda>p. p\<lparr>p_ofile := (p_ofile p)[fd := None]\<rparr>) s))) s"

text \<open>The loop that hands the children of \<open>c\<close> to \<open>init\<close>, for one slot of the table.\<close>

definition adopt :: "nat \<Rightarrow> nat \<Rightarrow> kernel \<Rightarrow> kernel" where
  "adopt c i s =
     (if p_parent (procs s ! i) = Some c then
        let s = upd_proc i (\<lambda>p. p\<lparr>p_parent := initproc s\<rparr>) s
        in if p_state (procs s ! i) = ZOMBIE
           then case initproc s of None \<Rightarrow> s | Some r \<Rightarrow> wakeup1 (ChanProc r) s
           else s
      else s)"

text \<open>The end of \<open>exit\<close>: the parent is woken, the children go to \<open>init\<close>.\<close>

definition exit_finish :: "nat \<Rightarrow> kernel \<Rightarrow> kernel" where
  "exit_finish c s =
     (let s = (case p_parent (procs s ! c) of None \<Rightarrow> s | Some q \<Rightarrow> wakeup1 (ChanProc q) s);
          s = foldl (\<lambda>s i. adopt c i s) s [0..<NPROC]
      in upd_proc c (\<lambda>p. p\<lparr>p_state := ZOMBIE\<rparr>) s)"

text \<open>\<open>exit\<close> up to the call of \<open>sched\<close>, from which it does not return.\<close>

definition exit_proc :: "uint32 \<Rightarrow> policy \<Rightarrow> kernel \<Rightarrow> kernel res" where
  "exit_proc kend pol s =
     (case cur s of
        None \<Rightarrow> Stop NullDeref
      | Some c \<Rightarrow>
        if initproc s = Some c then Stop (Panic ''init exiting'')
        else andthen
          (if pol = NONE \<or> p_pid (procs s ! c) = 1 then Ok s
           else case p_parent (procs s ! c) of
                  None \<Rightarrow> Stop NullDeref
                | Some q \<Rightarrow>
                  if p_pid (procs s ! q) = 1 then Ok s
                  else andthen (removeSwapFile kend c s) (\<lambda>(r, s).
                    if r \<noteq> 0 then Stop (Panic ''failed in delete the swap file at exit'') else Ok s)) (\<lambda>s.
        andthen (close_files kend c s) (\<lambda>s.
        andthen (begin_op s) (\<lambda>s.
        case p_cwd (procs s ! c) of
          None \<Rightarrow> Stop NullDeref
        | Some cwd \<Rightarrow>
          andthen (iput cwd s) (\<lambda>s.
          andthen (end_op s) (\<lambda>s.
          Ok (exit_finish c (upd_proc c (\<lambda>p. p\<lparr>p_cwd := None\<rparr>) s))))))))"

text \<open>What \<open>wait\<close> does with a zombie child.\<close>

definition reap :: "uint32 \<Rightarrow> policy \<Rightarrow> nat \<Rightarrow> kernel \<Rightarrow> (int \<times> kernel) res" where
  "reap kend pol i s =
     (let pid = p_pid (procs s ! i) in
      andthen (kfree kend (p_kstack (procs s ! i)) s) (\<lambda>s.
      andthen (freevm kend pol (p_pgdir (procs s ! i)) (upd_proc i (\<lambda>p. p\<lparr>p_kstack := 0\<rparr>) s)) (\<lambda>s.
      Ok (pid, upd_proc i (\<lambda>p. p\<lparr>p_pid := 0, p_parent := None, p_name := (p_name p)[0 := 0],
                               p_killed := False, p_state := UNUSED\<rparr>) s))))"

definition wait_proc :: "uint32 \<Rightarrow> policy \<Rightarrow> kernel \<Rightarrow> (int \<times> kernel) res" where
  "wait_proc kend pol s =
     (case cur s of
        None \<Rightarrow> Stop NullDeref
      | Some c \<Rightarrow>
        case find_idx (\<lambda>p. p_parent p = Some c \<and> p_state p = ZOMBIE) (procs s) of
          Some i \<Rightarrow> reap kend pol i s
        | None \<Rightarrow>
          if (\<forall>p \<in> set (procs s). p_parent p \<noteq> Some c) \<or> p_killed (procs s ! c) then Ok (- 1, s)
          else Stop Sleeping)"

section \<open>Scheduling\<close>

text \<open>\<open>updateAccessBit_proc\<close> with its copy of \<open>walkpgdir\<close>.\<close>

definition proc_walkpagedir :: "uint32 \<Rightarrow> uint32 \<Rightarrow> bool \<Rightarrow> 'a mach \<Rightarrow> uint32 \<times> 'a mach" where
  "proc_walkpagedir pgdir va alloc s =
     (let pde = entry pgdir (PDX va) in
      if ld32 (mem s) pde AND PTE_P \<noteq> 0
      then (entry (P2V (PTE_ADDR (ld32 (mem s) pde))) (PTX va), s)
      else if \<not> alloc then (0, s)
      else let (pgtab, s) = kalloc s in
           if pgtab = 0 then (0, s)
           else let m = memset (mem s) pgtab 0 PGSIZE;
                    m = st32 m pde (V2P pgtab OR PTE_P OR PTE_W OR PTE_U)
                in (entry pgtab (PTX va), s\<lparr>mem := m\<rparr>))"

definition updateAccessBit_proc :: "uint32 \<Rightarrow> uint32 \<Rightarrow> 'a mach \<Rightarrow> (int \<times> 'a mach) res" where
  "updateAccessBit_proc pgdir va s =
     (let ptep = fst (proc_walkpagedir pgdir va False s) in
      if ptep = 0 then Stop (Panic ''updateAccessBi111t: pte is empty'')
      else if ld32 (mem s) ptep = 0 then Ok (- 2, s)
      else let accessed = ld32 (mem s) ptep AND PTE_A;
               s = s\<lparr>mem := st32 (mem s) ptep (ld32 (mem s) ptep AND NOT PTE_A)\<rparr>
           in Ok (if accessed = 0 then 0 else 1, s))"

text \<open>The aging of NFUA and LAPA for one slot: the age is shifted and the access bit enters at the top.\<close>

definition age_slot :: "nat \<Rightarrow> proc \<times> 'a mach \<Rightarrow> (proc \<times> 'a mach) res" where
  "age_slot i = (\<lambda>(p, s).
     if slot_va p i = NOVA then Ok (p, s)
     else let p = upd_slot i (\<lambda>f. f\<lparr>fp_age := drop_bit 1 (fp_age f)\<rparr>) p in
          andthen (updateAccessBit_proc (p_pgdir p) (slot_va p i) s) (\<lambda>(r, s).
          Ok (if r = 1 then upd_slot i (\<lambda>f. f\<lparr>fp_age := fp_age f OR push_bit 31 1\<rparr>) p else p, s)))"

text \<open>The access bit as the age, for AQ.\<close>

definition aq_slot :: "nat \<Rightarrow> proc \<times> 'a mach \<Rightarrow> (proc \<times> 'a mach) res" where
  "aq_slot i = (\<lambda>(p, s).
     if slot_va p i = NOVA then Ok (p, s)
     else andthen (updateAccessBit_proc (p_pgdir p) (slot_va p i) s) (\<lambda>(r, s).
          Ok (upd_slot i (\<lambda>f. f\<lparr>fp_age := if r = 1 then 1 else 0\<rparr>) p, s)))"

text \<open>An accessed page changes places with the page before it that was not accessed.\<close>

definition aq_swap :: "nat \<Rightarrow> proc \<Rightarrow> proc" where
  "aq_swap i p =
     (case fp_prev (memory_pg_arr p ! i) of
        None \<Rightarrow> p
      | Some j \<Rightarrow>
        let f = memory_pg_arr p ! i; g = memory_pg_arr p ! j in
        if fp_age g = 0 \<and> fp_age f = 1 then
          upd_slot i (\<lambda>x. x\<lparr>fp_va := fp_va g, fp_age := fp_age g\<rparr>)
            (upd_slot j (\<lambda>x. x\<lparr>fp_va := fp_va f, fp_age := fp_age f\<rparr>) p)
        else p)"

partial_function (option) aq_traverse :: "nat option \<Rightarrow> proc \<Rightarrow> proc option" where
  "aq_traverse curpage p =
     (case curpage of
        None \<Rightarrow> Some p
      | Some i \<Rightarrow> let p = aq_swap i p in aq_traverse (fp_next (memory_pg_arr p ! i)) p)"

definition sched_run :: "nat \<Rightarrow> kernel \<Rightarrow> kernel res" where
  "sched_run i s =
     andthen (switchuvm (Some i) (s\<lparr>cur := Some i\<rparr>)) (\<lambda>s. Ok (upd_proc i (\<lambda>p. p\<lparr>p_state := RUNNING\<rparr>) s))"

definition age_pages :: "policy \<Rightarrow> proc \<Rightarrow> 'a mach \<Rightarrow> (proc \<times> 'a mach) res" where
  "age_pages pol p s =
     (if pol = NFUA \<or> pol = LAPA then for_each [0..<MAX_PSYC_PAGES] age_slot (p, s)
      else if pol = AQ then
        andthen (for_each [0..<MAX_PSYC_PAGES] aq_slot (p, s)) (\<lambda>(p, s).
          case aq_traverse (p_head p) p of None \<Rightarrow> Stop Diverges | Some p \<Rightarrow> Ok (p, s))
      else Ok (p, s))"

definition sched_back :: "policy \<Rightarrow> nat \<Rightarrow> kernel \<Rightarrow> kernel res" where
  "sched_back pol i s =
     andthen
       (if pol = NONE \<or> pol = SCFIFO \<or> p_pid (procs s ! i) = 1 then Ok s
        else case p_parent (procs s ! i) of
               None \<Rightarrow> Stop NullDeref
             | Some q \<Rightarrow>
               if p_pid (procs s ! q) = 1 then Ok s
               else andthen (age_pages pol (procs s ! i) s) (\<lambda>(p, s). Ok (set_proc i p s)))
       (\<lambda>s. Ok (s\<lparr>cur := None\<rparr>))"

text \<open>The checks of \<open>sched\<close> on the process; those on locks and interrupts are not modelled.\<close>

definition sched :: "kernel \<Rightarrow> kernel res" where
  "sched s =
     (case myproc s of
        None \<Rightarrow> Stop NullDeref
      | Some p \<Rightarrow> if p_state p = RUNNING then Stop (Panic ''sched running'') else Ok s)"

definition yield :: "kernel \<Rightarrow> kernel res" where
  "yield s =
     (case cur s of
        None \<Rightarrow> Stop NullDeref
      | Some c \<Rightarrow> sched (upd_proc c (\<lambda>p. p\<lparr>p_state := RUNNABLE\<rparr>) s))"

definition sleep :: "chan \<Rightarrow> kernel \<Rightarrow> kernel res" where
  "sleep ch s =
     (case cur s of
        None \<Rightarrow> Stop (Panic ''sleep'')
      | Some c \<Rightarrow> sched (upd_proc c (\<lambda>p. p\<lparr>p_chan := Some ch, p_state := SLEEPING\<rparr>) s))"

text \<open>What \<open>sleep\<close> does when the process runs again.\<close>

definition sleep_resume :: "kernel \<Rightarrow> kernel res" where
  "sleep_resume s =
     (case cur s of
        None \<Rightarrow> Stop NullDeref
      | Some c \<Rightarrow> Ok (upd_proc c (\<lambda>p. p\<lparr>p_chan := None\<rparr>) s))"

definition forkret_run :: "bool \<Rightarrow> kernel \<Rightarrow> kernel res" where
  "forkret_run first s = (if first then andthen (iinit ROOTDEV s) (initlog ROOTDEV) else Ok s)"

definition kill :: "int \<Rightarrow> kernel \<Rightarrow> int \<times> kernel" where
  "kill pid s =
     (case find_idx (\<lambda>p. p_pid p = pid) (procs s) of
        None \<Rightarrow> (- 1, s)
      | Some i \<Rightarrow> (0, upd_proc i (\<lambda>p. p\<lparr>p_killed := True,
          p_state := (if p_state p = SLEEPING then RUNNABLE else p_state p)\<rparr>) s))"

end
