(* ===== verification/Exec.thy ===== *)
theory Exec
  imports Proc
begin

text \<open>
  Loading a program, src/exec.c.  The arguments are the strings that \<open>argv\<close> points to, without
  their terminating 0.  The ELF header and the program headers are read from the bytes of the file
  at the offsets of their fields in src/elf.h.
\<close>

abbreviation (input) MAXARG :: nat where "MAXARG \<equiv> 32"
abbreviation (input) ELF_MAGIC :: uint32 where "ELF_MAGIC \<equiv> 0x464C457F"

record proghdr =
  ph_type :: uint32
  ph_off :: uint32
  ph_vaddr :: uint32
  ph_filesz :: uint32
  ph_memsz :: uint32

definition get_proghdr :: "byte list \<Rightarrow> proghdr" where
  "get_proghdr d = \<lparr>ph_type = get32 d 0, ph_off = get32 d 4, ph_vaddr = get32 d 8,
     ph_filesz = get32 d 16, ph_memsz = get32 d 20\<rparr>"

record elfhdr =
  eh_magic :: uint32
  eh_entry :: uint32
  eh_phoff :: uint32
  eh_phnum :: int16

definition get_elfhdr :: "byte list \<Rightarrow> elfhdr" where
  "get_elfhdr d = \<lparr>eh_magic = get32 d 0, eh_entry = get32 d 24, eh_phoff = get32 d 28,
     eh_phnum = get16 d 44\<rparr>"

text \<open>The metadata is put back as it was when \<open>exec\<close> fails.\<close>

definition restore_meta :: "policy \<Rightarrow> proc \<Rightarrow> proc \<Rightarrow> proc" where
  "restore_meta pol backup p =
     (if pol = NONE then p
      else p\<lparr>pages_in_swapfile_counter := pages_in_swapfile_counter backup,
             pages_in_memory_counter := pages_in_memory_counter backup,
             pagedout := pagedout backup, fault_counter := fault_counter backup,
             memory_pg_arr := memory_pg_arr backup, disk_pg_arr := disk_pg_arr backup,
             p_head := p_head backup, p_tail := p_tail backup\<rparr>)"

text \<open>The code at the label \<open>bad\<close>; \<open>pgdir\<close> may be 0 and \<open>ip\<close> missing.\<close>

definition exec_bad ::
  "uint32 \<Rightarrow> policy \<Rightarrow> nat \<Rightarrow> proc \<Rightarrow> uint32 \<Rightarrow> nat option \<Rightarrow> kernel \<Rightarrow> (int \<times> kernel) res" where
  "exec_bad kend pol c backup pgdir ip s =
     andthen (if pgdir \<noteq> 0 then freevm kend pol pgdir s else Ok s) (\<lambda>s.
     andthen (case ip of None \<Rightarrow> Ok s | Some ip \<Rightarrow> andthen (iunlockput ip s) end_op) (\<lambda>s.
     Ok (- 1, upd_proc c (restore_meta pol backup) s)))"

text \<open>The loop over the program headers; the result is the size, or \<open>None\<close> for \<open>goto bad\<close>.\<close>

fun exec_load ::
  "uint32 \<Rightarrow> policy \<Rightarrow> uint32 \<Rightarrow> nat \<Rightarrow> uint32 list \<Rightarrow> uint32 \<Rightarrow> kernel \<Rightarrow> (uint32 option \<times> kernel) res" where
  "exec_load kend pol pgdir ip [] sz s = Ok (Some sz, s)"
| "exec_load kend pol pgdir ip (off # offs) sz s =
     andthen (readi ip off 32 s) (\<lambda>(r, bs, s).
     if r \<noteq> 32 then Ok (None, s)
     else let ph = get_proghdr bs in
     if ph_type ph \<noteq> 1 then exec_load kend pol pgdir ip offs sz s
     else if ph_memsz ph < ph_filesz ph then Ok (None, s)
     else if ph_vaddr ph + ph_memsz ph < ph_vaddr ph then Ok (None, s)
     else andthen (allocuvm kend pol pgdir sz (ph_vaddr ph + ph_memsz ph) s) (\<lambda>(sz, s).
       if sz = 0 then Ok (None, s)
       else if unat (ph_vaddr ph) mod unat PGSIZE \<noteq> 0 then Ok (None, s)
       else andthen (loaduvm pgdir (ph_vaddr ph) ip (ph_off ph) (ph_filesz ph) s) (\<lambda>(r, s).
         if r < 0 then Ok (None, s) else exec_load kend pol pgdir ip offs sz s)))"

text \<open>
  The loop that pushes the argument strings, from the stack pointer \<open>sp\<close> down.  The result is
  the final stack pointer with the addresses of the strings.
\<close>

fun push_args ::
  "uint32 \<Rightarrow> nat \<Rightarrow> byte list list \<Rightarrow> uint32 \<Rightarrow> kernel \<Rightarrow> ((uint32 \<times> uint32 list) option \<times> kernel) res" where
  "push_args pgdir argc [] sp s = Ok (Some (sp, []), s)"
| "push_args pgdir argc (a # as) sp s =
     (if argc \<ge> MAXARG then Ok (None, s)
      else let sp = (sp - (of_nat (length a) + 1)) AND NOT 3 in
           andthen (copyout pgdir sp (a @ [0]) s) (\<lambda>(r, s).
           if r < 0 then Ok (None, s)
           else andthen (push_args pgdir (argc + 1) as sp s) (\<lambda>(r, s).
             Ok (map_option (\<lambda>(tp, ptrs). (tp, sp # ptrs)) r, s))))"

definition ustack :: "uint32 \<Rightarrow> uint32 list \<Rightarrow> uint32 list" where
  "ustack sp ptrs = [0xFFFFFFFF, of_nat (length ptrs), sp - (of_nat (length ptrs) + 1) * 4] @ ptrs @ [0]"

text \<open>The part of a path after its last slash.\<close>

definition last_elem :: "byte list \<Rightarrow> byte list" where
  "last_elem path = rev (takeWhile (\<lambda>c. c \<noteq> slash) (rev path))"

text \<open>The end of \<open>exec\<close>: the process gets the new address space and the old one is freed.\<close>

definition exec_commit ::
  "uint32 \<Rightarrow> policy \<Rightarrow> nat \<Rightarrow> uint32 \<Rightarrow> uint32 \<Rightarrow> uint32 \<Rightarrow> uint32 \<Rightarrow> kernel \<Rightarrow> (int \<times> kernel) res" where
  "exec_commit kend pol c pgdir sz entry' sp s =
     andthen
       (if pol = NONE \<or> p_pid (procs s ! c) = 1 then Ok s
        else case p_parent (procs s ! c) of
               None \<Rightarrow> Stop NullDeref
             | Some q \<Rightarrow>
               if p_pid (procs s ! q) = 1 then Ok s
               else andthen (removeSwapFile kend c s) (\<lambda>(_, s).
                    andthen (createSwapFile c s) (\<lambda>(_, s). Ok s))) (\<lambda>s.
     let oldpgdir = p_pgdir (procs s ! c);
         s = upd_proc c (\<lambda>p. p\<lparr>p_pgdir := pgdir, p_sz := sz,
               p_tf := (p_tf p)\<lparr>tf_eip := entry', tf_esp := sp\<rparr>\<rparr>) s
     in andthen (switchuvm (Some c) s) (\<lambda>s.
        andthen (freevm kend pol oldpgdir s) (\<lambda>s. Ok (0, s))))"

text \<open>From the allocation of the stack on; \<open>ip\<close> has been released.\<close>

definition exec_stack ::
  "uint32 \<Rightarrow> policy \<Rightarrow> nat \<Rightarrow> proc \<Rightarrow> byte list \<Rightarrow> byte list list \<Rightarrow> uint32 \<Rightarrow> uint32 \<Rightarrow> uint32 \<Rightarrow> kernel
    \<Rightarrow> (int \<times> kernel) res" where
  "exec_stack kend pol c backup path argv pgdir entry' sz s =
     (let sz = PGROUNDUP sz in
      andthen (allocuvm kend pol pgdir sz (sz + 2 * PGSIZE) s) (\<lambda>(sz, s).
      if sz = 0 then exec_bad kend pol c backup pgdir None s
      else andthen (clearpteu pgdir (sz - 2 * PGSIZE) s) (\<lambda>s.
      andthen (push_args pgdir 0 argv sz s) (\<lambda>(r, s).
      case r of
        None \<Rightarrow> exec_bad kend pol c backup pgdir None s
      | Some (tp, ptrs) \<Rightarrow>
        let words = ustack tp ptrs; sp = tp - of_nat (4 * length words) in
        andthen (copyout pgdir sp (concat (map le32 words)) s) (\<lambda>(r, s).
        if r < 0 then exec_bad kend pol c backup pgdir None s
        else exec_commit kend pol c pgdir sz entry' sp
               (upd_proc c (set_name (last_elem path)) s))))))"

definition exec ::
  "uint32 \<Rightarrow> uint32 \<Rightarrow> policy \<Rightarrow> byte list \<Rightarrow> byte list list \<Rightarrow> kernel \<Rightarrow> (int \<times> kernel) res" where
  "exec kend kdata pol path argv s =
     (case cur s of
        None \<Rightarrow> Stop NullDeref
      | Some c \<Rightarrow>
        let backup = procs s ! c in
        andthen (begin_op s) (\<lambda>s.
        andthen (namei path s) (\<lambda>(ip, s).
        case ip of
          None \<Rightarrow> andthen (end_op s) (\<lambda>s.
                  andthen (say (''exec: fail'' @ newline) [] s) (\<lambda>s. Ok (- 1, s)))
        | Some ip \<Rightarrow>
          andthen (ilock (Some ip) s) (\<lambda>s.
          andthen (readi ip 0 52 s) (\<lambda>(r, bs, s).
          let elf = get_elfhdr bs in
          if r \<noteq> 52 \<or> eh_magic elf \<noteq> ELF_MAGIC then exec_bad kend pol c backup 0 (Some ip) s
          else andthen (setupkvm kend kdata pol s) (\<lambda>(pgdir, s).
          if pgdir = 0 then exec_bad kend pol c backup 0 (Some ip) s
          else
            let s = upd_proc c (fresh_meta pol) s;
                offs = map (\<lambda>k. eh_phoff elf + 32 * of_nat k) [0..<unat (eh_phnum elf)]
            in andthen (exec_load kend pol pgdir ip offs 0 s) (\<lambda>(r, s).
               case r of
                 None \<Rightarrow> exec_bad kend pol c backup pgdir (Some ip) s
               | Some sz \<Rightarrow>
                 andthen (iunlockput ip s) (\<lambda>s.
                 andthen (end_op s) (\<lambda>s.
                 exec_stack kend pol c backup path argv pgdir (eh_entry elf) sz s)))))))))"

end
