(* ===== verification/Syscall.thy ===== *)
theory Syscall
  imports Exec
begin

text \<open>
  System calls: src/syscall.c, src/sysproc.c and src/sysfile.c.  The arguments are read from the
  user stack, and buffers from user memory, through the page table of the running process.  A page
  that is not present stops the model with \<open>PageFault\<close>: \<open>trap\<close> does not page in for the
  kernel (theory \<open>Trap\<close>).  A system call returns a value (\<open>Ret\<close>), ends the process (\<open>Ended\<close>),
  or gives the processor up to return 0 later (\<open>Yielded\<close>).
\<close>

text \<open>What the build fixes: linker symbols and the paging policy.\<close>

record env =
  e_kend :: uint32
  e_kdata :: uint32
  e_forkret :: uint32
  e_trapret :: uint32
  e_pol :: policy

datatype outcome = Ret int | Ended | Yielded

section \<open>Arguments\<close>

definition fetchint :: "uint32 \<Rightarrow> kernel \<Rightarrow> uint32 option res" where
  "fetchint addr s =
     (case myproc s of
        None \<Rightarrow> Stop NullDeref
      | Some p \<Rightarrow>
        if addr \<ge> p_sz p \<or> addr + 4 > p_sz p then Ok None
        else andthen (ld_user32 (p_pgdir p) addr s) (\<lambda>w. Ok (Some w)))"

lemma plus_one_above: "(a :: uint32) < ep \<Longrightarrow> a < a + 1"
  using unat_uint32_less[of ep] by (simp add: word_less_nat_alt unat_word_ariths)

text \<open>The characters from \<open>a\<close> to the first 0 below \<open>ep\<close>.\<close>

function fetch_chars :: "uint32 \<Rightarrow> uint32 \<Rightarrow> uint32 \<Rightarrow> kernel \<Rightarrow> byte list option res" where
  "fetch_chars pg a ep s =
     (if a < ep then
        andthen (ld_user pg a s) (\<lambda>b.
        if b = 0 then Ok (Some [])
        else andthen (fetch_chars pg (a + 1) ep s) (\<lambda>r. Ok (map_option (\<lambda>bs. b # bs) r)))
      else Ok None)"
  by pat_completeness auto
termination
  by (relation "measure (\<lambda>(pg, a, ep, s). 4294967296 - unat a)")
    (auto intro!: word_up_measure plus_one_above)

declare fetch_chars.simps [simp del]

definition fetchstr :: "uint32 \<Rightarrow> kernel \<Rightarrow> byte list option res" where
  "fetchstr addr s =
     (case myproc s of
        None \<Rightarrow> Stop NullDeref
      | Some p \<Rightarrow> if addr \<ge> p_sz p then Ok None else fetch_chars (p_pgdir p) addr (p_sz p) s)"

definition argint :: "nat \<Rightarrow> kernel \<Rightarrow> uint32 option res" where
  "argint n s =
     (case myproc s of
        None \<Rightarrow> Stop NullDeref
      | Some p \<Rightarrow> fetchint (tf_esp (p_tf p) + 4 + 4 * of_nat n) s)"

definition argptr :: "nat \<Rightarrow> int \<Rightarrow> kernel \<Rightarrow> uint32 option res" where
  "argptr n sz s =
     andthen (argint n s) (\<lambda>i.
       case i of
         None \<Rightarrow> Ok None
       | Some i \<Rightarrow>
         case myproc s of
           None \<Rightarrow> Stop NullDeref
         | Some p \<Rightarrow>
           if sz < 0 \<or> i \<ge> p_sz p \<or> i + word_of_int sz > p_sz p then Ok None else Ok (Some i))"

definition argstr :: "nat \<Rightarrow> kernel \<Rightarrow> byte list option res" where
  "argstr n s =
     andthen (argint n s) (\<lambda>a. case a of None \<Rightarrow> Ok None | Some a \<Rightarrow> fetchstr a s)"

definition argfd :: "nat \<Rightarrow> kernel \<Rightarrow> (nat \<times> nat) option res" where
  "argfd n s =
     andthen (argint n s) (\<lambda>fd.
       case fd of
         None \<Rightarrow> Ok None
       | Some fd \<Rightarrow>
         if sint fd < 0 \<or> sint fd \<ge> int NOFILE then Ok None
         else case myproc s of
                None \<Rightarrow> Stop NullDeref
              | Some p \<Rightarrow> Ok (map_option (\<lambda>f. (nat (sint fd), f)) (p_ofile p ! nat (sint fd))))"

section \<open>sysproc.c\<close>

definition sys_fork :: "env \<Rightarrow> kernel \<Rightarrow> (outcome \<times> kernel) res" where
  "sys_fork e s = andthen (fork (e_kend e) (e_kdata e) (e_forkret e) (e_trapret e) (e_pol e) s)
     (\<lambda>(r, s). Ok (Ret r, s))"

definition sys_exit :: "env \<Rightarrow> kernel \<Rightarrow> (outcome \<times> kernel) res" where
  "sys_exit e s = andthen (exit_proc (e_kend e) (e_pol e) s) (\<lambda>s. Ok (Ended, s))"

definition sys_wait :: "env \<Rightarrow> kernel \<Rightarrow> (outcome \<times> kernel) res" where
  "sys_wait e s = andthen (wait_proc (e_kend e) (e_pol e) s) (\<lambda>(r, s). Ok (Ret r, s))"

definition sys_kill :: "kernel \<Rightarrow> (outcome \<times> kernel) res" where
  "sys_kill s =
     andthen (argint 0 s) (\<lambda>pid.
       case pid of
         None \<Rightarrow> Ok (Ret (- 1), s)
       | Some pid \<Rightarrow> case kill (sint pid) s of (r, s) \<Rightarrow> Ok (Ret r, s))"

definition sys_getpid :: "kernel \<Rightarrow> (outcome \<times> kernel) res" where
  "sys_getpid s = (case myproc s of None \<Rightarrow> Stop NullDeref | Some p \<Rightarrow> Ok (Ret (p_pid p), s))"

definition sys_sbrk :: "env \<Rightarrow> kernel \<Rightarrow> (outcome \<times> kernel) res" where
  "sys_sbrk e s =
     andthen (argint 0 s) (\<lambda>n.
       case n of
         None \<Rightarrow> Ok (Ret (- 1), s)
       | Some n \<Rightarrow>
         case myproc s of
           None \<Rightarrow> Stop NullDeref
         | Some p \<Rightarrow>
           andthen (growproc (e_kend e) (e_pol e) (sint n) s) (\<lambda>(r, s).
             Ok (Ret (if r < 0 then - 1 else sint (p_sz p)), s)))"

text \<open>A process that has to wait for the clock stops; it may find itself killed before it waits.\<close>

definition sys_sleep :: "kernel \<Rightarrow> (outcome \<times> kernel) res" where
  "sys_sleep s =
     andthen (argint 0 s) (\<lambda>n.
       case n of
         None \<Rightarrow> Ok (Ret (- 1), s)
       | Some n \<Rightarrow>
         if n > 0 then
           case myproc s of
             None \<Rightarrow> Stop NullDeref
           | Some p \<Rightarrow> if p_killed p then Ok (Ret (- 1), s) else Stop Sleeping
         else Ok (Ret 0, s))"

definition sys_uptime :: "kernel \<Rightarrow> (outcome \<times> kernel) res" where
  "sys_uptime s = Ok (Ret (sint (ticks s)), s)"

definition sys_yield :: "kernel \<Rightarrow> (outcome \<times> kernel) res" where
  "sys_yield s = andthen (yield s) (\<lambda>s. Ok (Yielded, s))"

section \<open>sysfile.c\<close>

definition fdalloc :: "nat \<Rightarrow> kernel \<Rightarrow> (int \<times> kernel) res" where
  "fdalloc f s =
     (case cur s of
        None \<Rightarrow> Stop NullDeref
      | Some c \<Rightarrow>
        case find_idx (\<lambda>x. x = None) (take NOFILE (p_ofile (procs s ! c))) of
          None \<Rightarrow> Ok (- 1, s)
        | Some fd \<Rightarrow> Ok (int fd, upd_proc c (\<lambda>p. p\<lparr>p_ofile := (p_ofile p)[fd := Some f]\<rparr>) s))"

text \<open>The calls that fail before they change anything return -1.\<close>

abbreviation fail :: "kernel \<Rightarrow> (outcome \<times> kernel) res" where
  "fail s \<equiv> Ok (Ret (- 1), s)"

definition sys_dup :: "kernel \<Rightarrow> (outcome \<times> kernel) res" where
  "sys_dup s =
     andthen (argfd 0 s) (\<lambda>r.
       case r of
         None \<Rightarrow> fail s
       | Some (_, f) \<Rightarrow>
         andthen (fdalloc f s) (\<lambda>(fd, s).
           if fd < 0 then fail s else andthen (filedup f s) (\<lambda>(_, s). Ok (Ret fd, s))))"

definition sys_read :: "kernel \<Rightarrow> (outcome \<times> kernel) res" where
  "sys_read s =
     andthen (argfd 0 s) (\<lambda>r.
       case r of
         None \<Rightarrow> fail s
       | Some (_, f) \<Rightarrow>
         andthen (argint 2 s) (\<lambda>n.
           case n of
             None \<Rightarrow> fail s
           | Some n \<Rightarrow>
             andthen (argptr 1 (sint n) s) (\<lambda>p.
               case p of
                 None \<Rightarrow> fail s
               | Some p \<Rightarrow>
                 andthen (fileread f (sint n) s) (\<lambda>(r, bs, s).
                 andthen (my_pgdir s) (\<lambda>pg.
                 andthen (st_user_bytes pg p bs s) (\<lambda>s. Ok (Ret r, s)))))))"

definition sys_write :: "kernel \<Rightarrow> (outcome \<times> kernel) res" where
  "sys_write s =
     andthen (argfd 0 s) (\<lambda>r.
       case r of
         None \<Rightarrow> fail s
       | Some (_, f) \<Rightarrow>
         andthen (argint 2 s) (\<lambda>n.
           case n of
             None \<Rightarrow> fail s
           | Some n \<Rightarrow>
             andthen (argptr 1 (sint n) s) (\<lambda>p.
               case p of
                 None \<Rightarrow> fail s
               | Some p \<Rightarrow>
                 if f_writable (fil s f) = 0 then fail s
                 else andthen (my_pgdir s) (\<lambda>pg.
                 andthen (ld_user_bytes pg p (nat (sint n)) s) (\<lambda>bs.
                 andthen (filewrite f bs s) (\<lambda>(r, s). Ok (Ret r, s)))))))"

definition sys_close :: "env \<Rightarrow> kernel \<Rightarrow> (outcome \<times> kernel) res" where
  "sys_close e s =
     andthen (argfd 0 s) (\<lambda>r.
       case (r, cur s) of
         (Some (fd, f), Some c) \<Rightarrow>
           andthen (fileclose (e_kend e) f (upd_proc c (\<lambda>p. p\<lparr>p_ofile := (p_ofile p)[fd := None]\<rparr>) s))
             (\<lambda>s. Ok (Ret 0, s))
       | _ \<Rightarrow> fail s)"

text \<open>The fields of \<open>struct stat\<close> are at the offsets 0, 4, 8, 12 and 16 of its 20 bytes.\<close>

definition put_stat :: "uint32 \<Rightarrow> uint32 \<Rightarrow> stat \<Rightarrow> kernel \<Rightarrow> kernel res" where
  "put_stat pg p st s =
     andthen (st_user_bytes pg (p + 4) (le32 (st_dev st)) s) (\<lambda>s.
     andthen (st_user_bytes pg (p + 8) (le32 (st_ino st)) s) (\<lambda>s.
     andthen (st_user_bytes pg p (le16 (st_type st)) s) (\<lambda>s.
     andthen (st_user_bytes pg (p + 12) (le16 (st_nlink st)) s) (\<lambda>s.
     st_user_bytes pg (p + 16) (le32 (st_size st)) s))))"

definition sys_fstat :: "kernel \<Rightarrow> (outcome \<times> kernel) res" where
  "sys_fstat s =
     andthen (argfd 0 s) (\<lambda>r.
       case r of
         None \<Rightarrow> fail s
       | Some (_, f) \<Rightarrow>
         andthen (argptr 1 20 s) (\<lambda>p.
           case p of
             None \<Rightarrow> fail s
           | Some p \<Rightarrow>
             andthen (filestat f s) (\<lambda>(st, s).
               case st of
                 None \<Rightarrow> fail s
               | Some st \<Rightarrow> andthen (my_pgdir s) (\<lambda>pg.
                   andthen (put_stat pg p st s) (\<lambda>s. Ok (Ret 0, s))))))"

definition sys_link_bad :: "nat \<Rightarrow> kernel \<Rightarrow> (outcome \<times> kernel) res" where
  "sys_link_bad ip s =
     andthen (ilock (Some ip) s) (\<lambda>s.
     andthen (iupdate ip (upd_inode ip (\<lambda>x. x\<lparr>i_nlink := i_nlink x - 1\<rparr>) s)) (\<lambda>s.
     andthen (iunlockput ip s) (\<lambda>s. andthen (end_op s) fail)))"

definition sys_link :: "kernel \<Rightarrow> (outcome \<times> kernel) res" where
  "sys_link s =
     andthen (argstr 0 s) (\<lambda>old.
     andthen (case old of None \<Rightarrow> Ok None | Some _ \<Rightarrow> argstr 1 s) (\<lambda>new.
     case (old, new) of
       (Some old, Some new) \<Rightarrow>
         andthen (begin_op s) (\<lambda>s.
         andthen (namei old s) (\<lambda>(ip, s).
         case ip of
           None \<Rightarrow> andthen (end_op s) fail
         | Some ip \<Rightarrow>
           andthen (ilock (Some ip) s) (\<lambda>s.
           if i_type (ino s ip) = T_DIR then andthen (iunlockput ip s) (\<lambda>s. andthen (end_op s) fail)
           else
             andthen (iupdate ip (upd_inode ip (\<lambda>x. x\<lparr>i_nlink := i_nlink x + 1\<rparr>) s)) (\<lambda>s.
             andthen (iunlock (Some ip) s) (\<lambda>s.
             andthen (nameiparent new s) (\<lambda>(dp, name, s).
             case dp of
               None \<Rightarrow> sys_link_bad ip s
             | Some dp \<Rightarrow>
               andthen (ilock (Some dp) s) (\<lambda>s.
               andthen (if i_dev (ino s dp) \<noteq> i_dev (ino s ip) then Ok (- 1, s)
                        else dirlink dp name (i_inum (ino s ip)) s) (\<lambda>(r, s).
               if r < 0 then andthen (iunlockput dp s) (sys_link_bad ip)
               else andthen (iunlockput dp s) (\<lambda>s.
                    andthen (iput ip s) (\<lambda>s.
                    andthen (end_op s) (\<lambda>s. Ok (Ret 0, s))))))))))))
     | _ \<Rightarrow> fail s))"

definition sys_unlink :: "kernel \<Rightarrow> (outcome \<times> kernel) res" where
  "sys_unlink s =
     andthen (argstr 0 s) (\<lambda>path.
       case path of
         None \<Rightarrow> fail s
       | Some path \<Rightarrow> andthen (unlink_path path s) (\<lambda>(r, s). Ok (Ret r, s)))"

abbreviation (input) O_WRONLY :: uint32 where "O_WRONLY \<equiv> 1"
abbreviation (input) O_RDWR :: uint32 where "O_RDWR \<equiv> 2"
abbreviation (input) O_CREATE :: uint32 where "O_CREATE \<equiv> 0x200"

text \<open>The inode to open, locked, or none.\<close>

definition open_inode :: "byte list \<Rightarrow> uint32 \<Rightarrow> kernel \<Rightarrow> (nat option \<times> kernel) res" where
  "open_inode path omode s =
     (if omode AND O_CREATE \<noteq> 0 then create path T_FILE 0 0 s
      else andthen (namei path s) (\<lambda>(ip, s).
        case ip of
          None \<Rightarrow> Ok (None, s)
        | Some ip \<Rightarrow>
          andthen (ilock (Some ip) s) (\<lambda>s.
          if i_type (ino s ip) = T_DIR \<and> omode \<noteq> 0
          then andthen (iunlockput ip s) (\<lambda>s. Ok (None, s)) else Ok (Some ip, s))))"

definition sys_open :: "env \<Rightarrow> kernel \<Rightarrow> (outcome \<times> kernel) res" where
  "sys_open e s =
     andthen (argstr 0 s) (\<lambda>path.
     andthen (case path of None \<Rightarrow> Ok None | Some _ \<Rightarrow> argint 1 s) (\<lambda>omode.
     case (path, omode) of
       (Some path, Some omode) \<Rightarrow>
         andthen (begin_op s) (\<lambda>s.
         andthen (open_inode path omode s) (\<lambda>(ip, s).
         case ip of
           None \<Rightarrow> andthen (end_op s) fail
         | Some ip \<Rightarrow>
           (case filealloc s of
              (None, s) \<Rightarrow> andthen (iunlockput ip s) (\<lambda>s. andthen (end_op s) fail)
            | (Some f, s) \<Rightarrow>
              andthen (fdalloc f s) (\<lambda>(fd, s).
              if fd < 0 then
                andthen (fileclose (e_kend e) f s) (\<lambda>s.
                andthen (iunlockput ip s) (\<lambda>s. andthen (end_op s) fail))
              else
                andthen (iunlock (Some ip) s) (\<lambda>s.
                andthen (end_op s) (\<lambda>s.
                Ok (Ret fd, upd_file f (\<lambda>x. x\<lparr>f_type := FD_INODE, f_ip := Some ip, f_off := 0,
                  f_readable := (if omode AND O_WRONLY = 0 then 1 else 0),
                  f_writable := (if omode AND O_WRONLY \<noteq> 0 \<or> omode AND O_RDWR \<noteq> 0 then 1 else 0)\<rparr>) s)))))))
     | _ \<Rightarrow> fail s))"

text \<open>The end of \<open>sys_mkdir\<close> and \<open>sys_mknod\<close>.\<close>

definition end_create :: "nat option \<Rightarrow> kernel \<Rightarrow> (outcome \<times> kernel) res" where
  "end_create ip s =
     (case ip of
        None \<Rightarrow> andthen (end_op s) fail
      | Some ip \<Rightarrow> andthen (iunlockput ip s) (\<lambda>s. andthen (end_op s) (\<lambda>s. Ok (Ret 0, s))))"

definition sys_mkdir :: "kernel \<Rightarrow> (outcome \<times> kernel) res" where
  "sys_mkdir s =
     andthen (begin_op s) (\<lambda>s.
     andthen (argstr 0 s) (\<lambda>path.
     case path of
       None \<Rightarrow> andthen (end_op s) fail
     | Some path \<Rightarrow> andthen (create path T_DIR 0 0 s) (\<lambda>(ip, s). end_create ip s)))"

definition sys_mknod :: "kernel \<Rightarrow> (outcome \<times> kernel) res" where
  "sys_mknod s =
     andthen (begin_op s) (\<lambda>s.
     andthen (argstr 0 s) (\<lambda>path.
     andthen (case path of None \<Rightarrow> Ok None | Some _ \<Rightarrow> argint 1 s) (\<lambda>major.
     andthen (case major of None \<Rightarrow> Ok None | Some _ \<Rightarrow> argint 2 s) (\<lambda>minor.
     case (path, major, minor) of
       (Some path, Some major, Some minor) \<Rightarrow>
         andthen (create path T_DEV (ucast major) (ucast minor) s) (\<lambda>(ip, s). end_create ip s)
     | _ \<Rightarrow> andthen (end_op s) fail))))"

definition sys_chdir :: "kernel \<Rightarrow> (outcome \<times> kernel) res" where
  "sys_chdir s =
     (case cur s of
        None \<Rightarrow> Stop NullDeref
      | Some c \<Rightarrow>
        andthen (begin_op s) (\<lambda>s.
        andthen (argstr 0 s) (\<lambda>path.
        andthen (case path of None \<Rightarrow> Ok (None, s) | Some path \<Rightarrow> namei path s) (\<lambda>(ip, s).
        case ip of
          None \<Rightarrow> andthen (end_op s) fail
        | Some ip \<Rightarrow>
          andthen (ilock (Some ip) s) (\<lambda>s.
          if i_type (ino s ip) \<noteq> T_DIR then
            andthen (iunlockput ip s) (\<lambda>s. andthen (end_op s) fail)
          else
            andthen (iunlock (Some ip) s) (\<lambda>s.
            case p_cwd (procs s ! c) of
              None \<Rightarrow> Stop NullDeref
            | Some old \<Rightarrow>
              andthen (iput old s) (\<lambda>s.
              andthen (end_op s) (\<lambda>s.
              Ok (Ret 0, upd_proc c (\<lambda>p. p\<lparr>p_cwd := Some ip\<rparr>) s)))))))))"

text \<open>The loop of \<open>sys_exec\<close> that collects the argument strings from slot \<open>i\<close> on.\<close>

fun fetch_argv :: "nat \<Rightarrow> uint32 \<Rightarrow> nat \<Rightarrow> kernel \<Rightarrow> byte list list option res" where
  "fetch_argv 0 uargv i s = Ok None"
| "fetch_argv (Suc n) uargv i s =
     andthen (fetchint (uargv + 4 * of_nat i) s) (\<lambda>a.
       case a of
         None \<Rightarrow> Ok None
       | Some a \<Rightarrow>
         if a = 0 then Ok (Some [])
         else andthen (fetchstr a s) (\<lambda>str.
           case str of
             None \<Rightarrow> Ok None
           | Some str \<Rightarrow>
             andthen (fetch_argv n uargv (i + 1) s) (\<lambda>r. Ok (map_option (\<lambda>as. str # as) r))))"

definition sys_exec :: "env \<Rightarrow> kernel \<Rightarrow> (outcome \<times> kernel) res" where
  "sys_exec e s =
     andthen (argstr 0 s) (\<lambda>path.
     andthen (case path of None \<Rightarrow> Ok None | Some _ \<Rightarrow> argint 1 s) (\<lambda>uargv.
     case (path, uargv) of
       (Some path, Some uargv) \<Rightarrow>
         andthen (fetch_argv MAXARG uargv 0 s) (\<lambda>argv.
         case argv of
           None \<Rightarrow> fail s
         | Some argv \<Rightarrow>
           andthen (exec (e_kend e) (e_kdata e) (e_pol e) path argv s) (\<lambda>(r, s). Ok (Ret r, s)))
     | _ \<Rightarrow> fail s))"

definition sys_pipe :: "env \<Rightarrow> kernel \<Rightarrow> (outcome \<times> kernel) res" where
  "sys_pipe e s =
     andthen (argptr 0 8 s) (\<lambda>fd.
     case (fd, cur s) of
       (Some fd, Some c) \<Rightarrow>
         andthen (pipealloc (e_kend e) s) (\<lambda>(r, s).
         case r of
           None \<Rightarrow> fail s
         | Some (rd, wr) \<Rightarrow>
           andthen (fdalloc rd s) (\<lambda>(fd0, s).
           andthen (if fd0 < 0 then Ok (- 1, s) else fdalloc wr s) (\<lambda>(fd1, s).
           if fd0 < 0 \<or> fd1 < 0 then
             let s = (if fd0 \<ge> 0 then upd_proc c (\<lambda>p. p\<lparr>p_ofile := (p_ofile p)[nat fd0 := None]\<rparr>) s else s) in
             andthen (fileclose (e_kend e) rd s) (\<lambda>s.
             andthen (fileclose (e_kend e) wr s) fail)
           else
             andthen (my_pgdir s) (\<lambda>pg.
             andthen (st_user_bytes pg fd (le32 (word_of_int fd0)) s) (\<lambda>s.
             andthen (st_user_bytes pg (fd + 4) (le32 (word_of_int fd1)) s) (\<lambda>s. Ok (Ret 0, s)))))))
     | _ \<Rightarrow> fail s)"

section \<open>The dispatcher\<close>

definition call :: "env \<Rightarrow> int \<Rightarrow> kernel \<Rightarrow> (outcome \<times> kernel) res option" where
  "call e num s =
     (if num = 1 then Some (sys_fork e s) else if num = 2 then Some (sys_exit e s)
      else if num = 3 then Some (sys_wait e s) else if num = 4 then Some (sys_pipe e s)
      else if num = 5 then Some (sys_read s) else if num = 6 then Some (sys_kill s)
      else if num = 7 then Some (sys_exec e s) else if num = 8 then Some (sys_fstat s)
      else if num = 9 then Some (sys_chdir s) else if num = 10 then Some (sys_dup s)
      else if num = 11 then Some (sys_getpid s) else if num = 12 then Some (sys_sbrk e s)
      else if num = 13 then Some (sys_sleep s) else if num = 14 then Some (sys_uptime s)
      else if num = 15 then Some (sys_open e s) else if num = 16 then Some (sys_write s)
      else if num = 17 then Some (sys_mknod s) else if num = 18 then Some (sys_unlink s)
      else if num = 19 then Some (sys_link s) else if num = 20 then Some (sys_mkdir s)
      else if num = 21 then Some (sys_close e s) else if num = 22 then Some (sys_yield s)
      else None)"

abbreviation set_eax :: "nat \<Rightarrow> int \<Rightarrow> kernel \<Rightarrow> kernel" where
  "set_eax c r s \<equiv> upd_proc c (\<lambda>p. p\<lparr>p_tf := (p_tf p)\<lparr>tf_eax := word_of_int r\<rparr>\<rparr>) s"

definition syscall :: "env \<Rightarrow> kernel \<Rightarrow> (outcome \<times> kernel) res" where
  "syscall e s =
     (case cur s of
        None \<Rightarrow> Stop NullDeref
      | Some c \<Rightarrow>
        let p = procs s ! c; num = sint (tf_eax (p_tf p)) in
        case call e num s of
          Some r \<Rightarrow> andthen r (\<lambda>(o', s).
            case o' of
              Ret v \<Rightarrow> Ok (Ret v, set_eax c v s)
            | Ended \<Rightarrow> Ok (Ended, s)
            | Yielded \<Rightarrow> Ok (Yielded, set_eax c 0 s))
        | None \<Rightarrow>
            andthen (say (''%d %s: unknown sys call %d'' @ newline)
              [Num (word_of_int (p_pid p)), Str (Some (takeWhile (\<lambda>b. b \<noteq> 0) (p_name p))),
               Num (word_of_int num)] s) (\<lambda>s.
            Ok (Ret (- 1), set_eax c (- 1) s)))"

end
