(* ===== verification/Kbd.thy ===== *)
theory Kbd
  imports Console
begin

text \<open>
  The keyboard driver (src/kbd.c, src/kbd.h) and the input side of the serial port (src/uart.c).
  What the device ports return is an argument: one pair of status and data byte for each call of
  \<open>kbdgetc\<close> or \<open>uartgetc\<close>; after the last pair no data is left.  The static variable
  \<open>shift\<close> is the field \<open>kbd_shift\<close> of the console.
\<close>

section \<open>Tables\<close>

abbreviation (input) SHIFT :: byte where "SHIFT \<equiv> 1"
abbreviation (input) CTL :: byte where "CTL \<equiv> 2"
abbreviation (input) ALT :: byte where "ALT \<equiv> 4"
abbreviation (input) CAPSLOCK :: byte where "CAPSLOCK \<equiv> 8"
abbreviation (input) NUMLOCK :: byte where "NUMLOCK \<equiv> 16"
abbreviation (input) SCROLLLOCK :: byte where "SCROLLLOCK \<equiv> 32"
abbreviation (input) E0ESC :: byte where "E0ESC \<equiv> 64"

text \<open>An array of 256 bytes that starts with \<open>xs\<close> and has the designated elements \<open>ds\<close>.\<close>

definition table :: "byte list \<Rightarrow> (nat \<times> byte) list \<Rightarrow> byte list" where
  "table xs ds = fold (\<lambda>(i, b) t. t[i := b]) ds (xs @ replicate (256 - length xs) 0)"

abbreviation chars :: "string \<Rightarrow> byte list" where
  "chars \<equiv> map of_char"

definition shiftcode :: "byte list" where
  "shiftcode = table [] [(0x1D, CTL), (0x2A, SHIFT), (0x36, SHIFT), (0x38, ALT), (0x9D, CTL), (0xB8, ALT)]"

definition togglecode :: "byte list" where
  "togglecode = table [] [(0x3A, CAPSLOCK), (0x45, NUMLOCK), (0x46, SCROLLLOCK)]"

text \<open>\<open>KEY_UP\<close> and the other cursor keys, which the three maps share.\<close>

definition cursor_keys :: "(nat \<times> byte) list" where
  "cursor_keys = [(0xC8, 0xE2), (0xD0, 0xE3), (0xC9, 0xE6), (0xD1, 0xE7), (0xCB, 0xE4), (0xCD, 0xE5),
     (0x97, 0xE0), (0xCF, 0xE1), (0xD2, 0xE8), (0xD3, 0xE9)]"

definition keypad :: "byte list" where
  "keypad = [0] @ chars '' '' @ replicate 13 0 @ chars ''789-456+1230.'' @ replicate 4 0"

definition normalmap :: "byte list" where
  "normalmap = table
     ([0, 0x1B] @ chars ''1234567890-='' @ [8, 9] @ chars ''qwertyuiop[]'' @ [10, 0] @
      chars ''asdfghjkl;'' @ [39, 96, 0, 92] @ chars ''zxcvbnm,./'' @ [0] @ chars ''*'' @ keypad)
     ((0x9C, 10) # (0xB5, 47) # cursor_keys)"

definition shiftmap :: "byte list" where
  "shiftmap = table
     ([0, 0x1B] @ chars ''!@#$%^&*()_+'' @ [8, 9] @ chars ''QWERTYUIOP{}'' @ [10, 0] @
      chars ''ASDFGHJKL:'' @ [34, 126, 0, 124] @ chars ''ZXCVBNM<>?'' @ [0] @ chars ''*'' @ keypad)
     ((0x9C, 10) # (0xB5, 47) # cursor_keys)"

text \<open>\<open>C(x)\<close> is \<open>x - '@'\<close>; for the slash it is 239 as an unsigned character.\<close>

definition ctlmap :: "byte list" where
  "ctlmap = table
     (replicate 16 0 @ map (\<lambda>c. c - 64) (chars ''QWERTYUIOP'') @ [0, 0, 13, 0] @
      map (\<lambda>c. c - 64) (chars ''ASDFGHJKL'') @ [0, 0, 0, 0, 28] @
      map (\<lambda>c. c - 64) (chars ''ZXCVBNM'') @ [0, 0, 47 - 64, 0, 0])
     ((0x9C, 13) # (0xB5, 47 - 64) # cursor_keys)"

section \<open>kbdgetc\<close>

text \<open>\<open>charcode[shift & (CTL | SHIFT)]\<close>: the control map serves with and without \<open>SHIFT\<close>.\<close>

definition charcode :: "uint32 \<Rightarrow> byte list" where
  "charcode m = (if m = 0 then normalmap else if m = 1 then shiftmap else ctlmap)"

definition caps :: "int \<Rightarrow> int" where
  "caps c = (if 97 \<le> c \<and> c \<le> 122 then c - 32 else if 65 \<le> c \<and> c \<le> 90 then c + 32 else c)"

definition kbdgetc :: "byte \<times> byte \<Rightarrow> uint32 \<Rightarrow> int \<times> uint32" where
  "kbdgetc = (\<lambda>(st, inp) shift.
     if st AND 1 = 0 then (- 1, shift)
     else if inp = 0xE0 then (0, shift OR ucast E0ESC)
     else if inp AND 0x80 \<noteq> 0 then
       let data = (if shift AND ucast E0ESC \<noteq> 0 then inp else inp AND 0x7F)
       in (0, shift AND NOT (ucast (shiftcode ! unat data) OR ucast E0ESC))
     else
       let (data, shift) = (if shift AND ucast E0ESC \<noteq> 0
                            then (inp OR 0x80, shift AND NOT (ucast E0ESC)) else (inp, shift));
           shift = (shift OR ucast (shiftcode ! unat data)) XOR ucast (togglecode ! unat data);
           c = uint (charcode (shift AND 3) ! unat data)
       in (if shift AND ucast CAPSLOCK \<noteq> 0 then caps c else c, shift))"

text \<open>The characters that \<open>consoleintr\<close> gets before \<open>kbdgetc\<close> returns -1.\<close>

fun kbd_input :: "(byte \<times> byte) list \<Rightarrow> uint32 \<Rightarrow> int list \<times> uint32" where
  "kbd_input [] shift = ([], shift)"
| "kbd_input (io # ios) shift =
     (case kbdgetc io shift of (c, shift) \<Rightarrow>
        if c < 0 then ([], shift)
        else case kbd_input ios shift of (cs, shift) \<Rightarrow> (c # cs, shift))"

definition kbdintr :: "(byte \<times> byte) list \<Rightarrow> kernel \<Rightarrow> (bool \<times> kernel) res" where
  "kbdintr io s =
     (case kbd_input io (kbd_shift (cons s)) of (cs, shift) \<Rightarrow>
        consoleintr cs (upd_cons (\<lambda>k. k\<lparr>kbd_shift := shift\<rparr>) s))"

section \<open>The serial port\<close>

text \<open>\<open>uartinit\<close>: \<open>st\<close> is the line status, 0xFF when there is no port.\<close>

definition uartinit :: "byte \<Rightarrow> kernel \<Rightarrow> kernel" where
  "uartinit st s =
     (if st = 0xFF then s
      else foldl (\<lambda>s c. uartputc c s) (upd_cons (\<lambda>k. k\<lparr>uart := True\<rparr>) s)
             (map (\<lambda>c. of_char c) ''xv6...'' @ [10]))"

definition uartgetc :: "byte \<times> byte \<Rightarrow> kernel \<Rightarrow> int" where
  "uartgetc = (\<lambda>(st, inp) s.
     if \<not> uart (cons s) then - 1 else if st AND 1 = 0 then - 1 else uint inp)"

definition uartintr :: "(byte \<times> byte) list \<Rightarrow> kernel \<Rightarrow> (bool \<times> kernel) res" where
  "uartintr io s = consoleintr (takeWhile (\<lambda>c. 0 \<le> c) (map (\<lambda>x. uartgetc x s) io)) s"

end
