(* ===== verification/Trap.thy ===== *)
theory Trap
  imports Syscall Kbd
begin

text \<open>
  Traps: src/trap.c.  What the hardware supplies is the record \<open>hw\<close>: the processor number, the
  register \<open>cr2\<close>, and what the keyboard and serial ports return.  \<open>lapiceoi\<close> has no effect
  on the state; the disk of the model (src/memide.c) raises no interrupt.
\<close>

record hw =
  hw_cpu :: uint32
  hw_cr2 :: uint32
  hw_kbd :: "(byte \<times> byte) list"
  hw_uart :: "(byte \<times> byte) list"

abbreviation (input) T_SYSCALL :: uint32 where "T_SYSCALL \<equiv> 64"
abbreviation (input) T_PGFLT :: uint32 where "T_PGFLT \<equiv> 14"
abbreviation (input) T_IRQ0 :: uint32 where "T_IRQ0 \<equiv> 32"

abbreviation user_mode :: "trapframe \<Rightarrow> bool" where
  "user_mode tf \<equiv> tf_cs tf AND 3 = 3"

abbreviation am_killed :: "kernel \<Rightarrow> bool" where
  "am_killed s \<equiv> (case myproc s of None \<Rightarrow> False | Some p \<Rightarrow> p_killed p)"

text \<open>A copy of \<open>walkpgdir\<close>, which nothing calls.\<close>

definition callwalkpgdir :: "uint32 \<Rightarrow> uint32 \<Rightarrow> bool \<Rightarrow> 'a mach \<Rightarrow> uint32 \<times> 'a mach" where
  "callwalkpgdir pgdir va alloc s =
     (let pde = pgdir + 4 * PDX va in
      if ld32 (mem s) pde AND PTE_P \<noteq> 0
      then (P2V (PTE_ADDR (ld32 (mem s) pde)) + 4 * PTX va, s)
      else if \<not> alloc then (0, s)
      else case kalloc s of (pgtab, s) \<Rightarrow>
        if pgtab = 0 then (0, s)
        else (pgtab + 4 * PTX va,
              s\<lparr>mem := st32 (memset (mem s) pgtab 0 PGSIZE) pde (V2P pgtab OR PTE_P OR PTE_W OR PTE_U)\<rparr>))"

text \<open>
  The clock: a tick, which wakes the processes that wait for one.  A process that called
  \<open>sys_sleep\<close> with \<open>n\<close> ticks at \<open>ticks0\<close> then looks at the clock again.
\<close>

definition clock_tick :: "uint32 \<Rightarrow> kernel \<Rightarrow> kernel" where
  "clock_tick cpu s = (if cpu = 0 then wakeup ChanTicks (s\<lparr>ticks := ticks s + 1\<rparr>) else s)"

definition sleep_again :: "uint32 \<Rightarrow> uint32 \<Rightarrow> kernel \<Rightarrow> (outcome \<times> kernel) res" where
  "sleep_again ticks0 n s =
     (if ticks s - ticks0 < n then
        case myproc s of
          None \<Rightarrow> Stop NullDeref
        | Some p \<Rightarrow> if p_killed p then Ok (Ret (- 1), s) else Stop Sleeping
      else Ok (Ret 0, s))"

text \<open>A trap nobody expects: the kernel's own mistake, or the process is killed.\<close>

definition trap_default :: "hw \<Rightarrow> trapframe \<Rightarrow> kernel \<Rightarrow> kernel res" where
  "trap_default h tf s =
     (case cur s of
        None \<Rightarrow> Stop (Panic ''trap'')
      | Some c \<Rightarrow>
        if tf_cs tf AND 3 = 0 then Stop (Panic ''trap'')
        else
          andthen (say (''pid %d %s: trap %d err %d on cpu %d eip 0x%x addr 0x%x--kill proc'' @ newline)
            [Num (word_of_int (p_pid (procs s ! c))),
             Str (Some (takeWhile (\<lambda>b. b \<noteq> 0) (p_name (procs s ! c)))), Num (tf_trapno tf),
             Num (tf_err tf), Num (hw_cpu h), Num (tf_eip tf), Num (hw_cr2 h)] s) (\<lambda>s.
          Ok (upd_proc c (\<lambda>p. p\<lparr>p_killed := True\<rparr>) s)))"

text \<open>The case \<open>T_PGFLT\<close>, which is compiled in unless the policy is \<open>NONE\<close>.\<close>

definition trap_pgflt :: "env \<Rightarrow> hw \<Rightarrow> trapframe \<Rightarrow> kernel \<Rightarrow> kernel res" where
  "trap_pgflt e h tf s =
     (case cur s of
        None \<Rightarrow> trap_default h tf s
      | Some c \<Rightarrow>
        if user_mode tf then
          andthen (pageIsInFile (hw_cr2 h) (p_pgdir (procs s ! c)) s) (\<lambda>inf.
          if inf \<noteq> 0 then
            andthen (getPageFromFile (e_kend e) (e_pol e) (hw_cr2 h) s) (\<lambda>(r, s).
            if r \<noteq> 0 then Ok (upd_proc c (\<lambda>p. p\<lparr>fault_counter := fault_counter p + 1\<rparr>) s)
            else trap_default h tf s)
          else trap_default h tf s)
        else trap_default h tf s)"

definition trap_switch :: "env \<Rightarrow> hw \<Rightarrow> trapframe \<Rightarrow> kernel \<Rightarrow> kernel res" where
  "trap_switch e h tf s =
     (let n = tf_trapno tf in
      if n = T_IRQ0 then Ok (clock_tick (hw_cpu h) s)
      else if n = T_IRQ0 + 14 \<or> n = T_IRQ0 + 15 then Ok s
      else if n = T_IRQ0 + 1 then andthen (kbdintr (hw_kbd h) s) (\<lambda>(_, s). Ok s)
      else if n = T_IRQ0 + 4 then andthen (uartintr (hw_uart h) s) (\<lambda>(_, s). Ok s)
      else if n = T_IRQ0 + 7 \<or> n = T_IRQ0 + 31 then
        say (''cpu%d: spurious interrupt at %x:%x'' @ newline)
          [Num (hw_cpu h), Num (ucast (tf_cs tf)), Num (tf_eip tf)] s
      else if n = T_PGFLT \<and> e_pol e \<noteq> NONE then trap_pgflt e h tf s
      else trap_default h tf s)"

text \<open>The end of \<open>trap\<close>: what happens when the process may go on, also after a \<open>yield\<close>.\<close>

definition trap_exit :: "env \<Rightarrow> bool \<Rightarrow> kernel \<Rightarrow> (outcome \<times> kernel) res" where
  "trap_exit e must s =
     (if must \<and> am_killed s then andthen (exit_proc (e_kend e) (e_pol e) s) (\<lambda>s. Ok (Ended, s))
      else Ok (Ret 0, s))"

definition trap_syscall :: "env \<Rightarrow> trapframe \<Rightarrow> kernel \<Rightarrow> (outcome \<times> kernel) res" where
  "trap_syscall e tf s =
     (case cur s of
        None \<Rightarrow> Stop NullDeref
      | Some c \<Rightarrow>
        if am_killed s then andthen (exit_proc (e_kend e) (e_pol e) s) (\<lambda>s. Ok (Ended, s))
        else andthen (syscall e (upd_proc c (\<lambda>p. p\<lparr>p_tf := tf\<rparr>) s)) (\<lambda>(r, s).
          case r of Ret v \<Rightarrow> trap_exit e True s | _ \<Rightarrow> Ok (r, s)))"

definition trap :: "env \<Rightarrow> hw \<Rightarrow> trapframe \<Rightarrow> kernel \<Rightarrow> (outcome \<times> kernel) res" where
  "trap e h tf s =
     (if tf_trapno tf = T_SYSCALL then trap_syscall e tf s
      else
        andthen (trap_switch e h tf s) (\<lambda>s.
        andthen (trap_exit e (user_mode tf) s) (\<lambda>(r, s).
        if r = Ended then Ok (Ended, s)
        else case myproc s of
          Some p \<Rightarrow>
            if p_state p = RUNNING \<and> tf_trapno tf = T_IRQ0
            then andthen (yield s) (\<lambda>s. Ok (Yielded, s))
            else trap_exit e (user_mode tf) s
        | None \<Rightarrow> Ok (Ret 0, s))))"

text \<open>The process runs again after \<open>yield\<close>, in \<open>trap\<close> or in \<open>sys_yield\<close>.\<close>

definition trap_resume :: "env \<Rightarrow> trapframe \<Rightarrow> kernel \<Rightarrow> (outcome \<times> kernel) res" where
  "trap_resume e tf s = trap_exit e (tf_trapno tf = T_SYSCALL \<or> user_mode tf) s"

end
