(* ===== verification/FreeMap.thy ===== *)
theory FreeMap
  imports Inode
begin

text \<open>
  Correctness of the allocation of disk blocks (\<open>balloc\<close>, \<open>bfree\<close> and \<open>bzero\<close> of
  src/fs.c) as a client of the block store of theory \<open>Tx\<close>.
\<close>

section \<open>The free map\<close>

lemma bm_test_bit: "bm_test d bi \<longleftrightarrow> bit (d ! (bi div 8)) (bi mod 8)"
  by (simp add: bm_test_def bit_iff_and_push_bit_not_eq_0)

lemma length_bm [simp]: "length (bm_set d bi) = length d" "length (bm_clear d bi) = length d"
  by (simp_all add: bm_set_def bm_clear_def)

lemma bm_test_set:
  assumes "bi < 8 * length d"
  shows "bm_test (bm_set d bi) bj \<longleftrightarrow> bj = bi \<or> bm_test d bj"
proof (cases "bj div 8 = bi div 8")
  case True
  then have "bj = bi \<longleftrightarrow> bj mod 8 = bi mod 8" by (metis div_mult_mod_eq)
  then show ?thesis
    using True assms by (auto simp: bm_test_bit bm_set_def bit_simps)
next
  case False
  then show ?thesis by (auto simp: bm_test_bit bm_set_def)
qed

lemma bm_test_clear:
  assumes "bi < 8 * length d"
  shows "bm_test (bm_clear d bi) bj \<longleftrightarrow> bj \<noteq> bi \<and> bm_test d bj"
proof (cases "bj div 8 = bi div 8")
  case True
  then have "bj = bi \<longleftrightarrow> bj mod 8 = bi mod 8" by (metis div_mult_mod_eq)
  then show ?thesis
    using True assms by (auto simp: bm_test_bit bm_clear_def bit_simps)
next
  case False
  then show ?thesis by (auto simp: bm_test_bit bm_clear_def)
qed

text \<open>
  A block is in use when its bit in the free map is set.  \<open>map_ok\<close>: the blocks of the map may be
  touched by transactions, and so may every free block, which is neither 0 nor a block of the map.
\<close>

definition in_use :: "kernel \<Rightarrow> uint32 \<Rightarrow> bool" where
  "in_use s b \<longleftrightarrow> bm_test (view s (BBLOCK b (sb s))) (unat b mod BPB)"

definition free_block :: "kernel \<Rightarrow> uint32 \<Rightarrow> bool" where
  "free_block s b \<longleftrightarrow> b < sb_size (sb s) \<and> \<not> in_use s b"

definition map_blocks :: "kernel \<Rightarrow> uint32 set" where
  "map_blocks s = {BBLOCK b (sb s) | b. b < sb_size (sb s)}"

definition map_ok :: "kernel \<Rightarrow> bool" where
  "map_ok s \<longleftrightarrow> map_blocks s \<subseteq> tx_blocks s \<and>
     (\<forall>b. free_block s b \<longrightarrow> b \<in> tx_blocks s \<and> b \<notin> map_blocks s \<and> b \<noteq> 0)"

lemma BBLOCK_same:
  "BBLOCK b x = BBLOCK c x \<longleftrightarrow> unat b div BPB = unat c div BPB"
proof -
  have "b div 4096 = c div 4096 \<longleftrightarrow> unat b div BPB = unat c div BPB"
    by (simp add: word_unat_eq_iff unat_div)
  then show ?thesis by (simp add: BBLOCK_def)
qed

lemma BBLOCK_eq_in_block:
  "BBLOCK b x = BBLOCK c x \<Longrightarrow> unat b mod BPB = unat c mod BPB \<Longrightarrow> b = c"
  unfolding BBLOCK_same by (metis div_mult_mod_eq word_unat_eq_iff)

lemma in_use_set:
  assumes "length (view s (BBLOCK a (sb s))) = BSIZE" "view s' = (view s)(BBLOCK a (sb s) := bm_set (view s (BBLOCK a (sb s))) (unat a mod BPB))"
    "sb s' = sb s"
  shows "in_use s' b \<longleftrightarrow> b = a \<or> in_use s b"
  using assms BBLOCK_eq_in_block[of b "sb s" a]
  by (auto simp: in_use_def bm_test_set)


lemma bzero_Ok:
  assumes "tx_ok (Suc n) H s" "b \<in> tx_blocks s" "b \<notin> H" "card H \<le> Suc n"
  obtains s' where "bzero 1 b s = Ok s'" "tx_ok n H s'" "view s' = (view s)(b := replicate BSIZE 0)"
    "tx_frame s s'" "\<forall>j c. holds s j c \<longrightarrow> holds s' j c"
  by (rule lt.update_block[OF assms, of "\<lambda>_. replicate BSIZE 0"]) (simp_all add: bzero_def)

text \<open>Block \<open>a\<close> is marked in use and zeroed.\<close>

definition allocated :: "uint32 \<Rightarrow> kernel \<Rightarrow> kernel \<Rightarrow> bool" where
  "allocated a s s' \<longleftrightarrow> view s' = (view s)(BBLOCK a (sb s) :=
     bm_set (view s (BBLOCK a (sb s))) (unat a mod BPB), a := replicate BSIZE 0)"

lemma unat_in_map:
  assumes "bi < min BPB (unat (sb_size x) - k * BPB)"
  shows "unat (of_nat (k * BPB + bi) :: uint32) = k * BPB + bi" "of_nat (k * BPB + bi) < sb_size x"
    "BBLOCK (of_nat (k * BPB)) x = BBLOCK (of_nat (k * BPB + bi)) x" "(k * BPB + bi) mod BPB = bi"
proof -
  have l: "k * BPB + bi < unat (sb_size x)" using assms by auto
  then have "k * BPB + bi < 2 ^ 32" using unat_uint32_less[of "sb_size x"] by simp
  then show u: "unat (of_nat (k * BPB + bi) :: uint32) = k * BPB + bi" by (rule unat_of_nat_small)
  show "of_nat (k * BPB + bi) < sb_size x" unfolding word_less_nat_alt u by (rule l)
  have "unat (of_nat (k * BPB) :: uint32) = k * BPB"
    using \<open>k * BPB + bi < 2 ^ 32\<close> by (intro unat_of_nat_small) simp
  then show "BBLOCK (of_nat (k * BPB)) x = BBLOCK (of_nat (k * BPB + bi)) x"
    unfolding BBLOCK_same u using assms by simp
  show "(k * BPB + bi) mod BPB = bi" using assms by simp
qed

lemma find_upt:
  "find P [0..<m] = Some i \<Longrightarrow> i < m \<and> P i \<and> (\<forall>j < i. \<not> P j)"
  "find P [0..<m] = None \<Longrightarrow> i < m \<Longrightarrow> \<not> P i"
  by (auto simp: find_Some_iff find_None_iff)

lemma free_block_view:
  assumes "view s' = view s" "sb s' = sb s" "tx_blocks s' = tx_blocks s"
  shows "free_block s' = free_block s" "map_blocks s' = map_blocks s" "map_ok s' = map_ok s"
proof -
  show f: "free_block s' = free_block s" using assms by (simp add: fun_eq_iff free_block_def in_use_def)
  show m: "map_blocks s' = map_blocks s" using assms by (simp add: map_blocks_def)
  show "map_ok s' = map_ok s" unfolding map_ok_def f m assms(3) ..
qed

text \<open>The block that the loop over the free map picks in the \<open>k\<close>-th block of the map.\<close>

lemma balloc_found:
  assumes s: "tx_ok (n + 2) H s" "map_ok s" "card H \<le> n + 1" "map_blocks s \<inter> H = {}"
    "\<forall>b. free_block s b \<longrightarrow> b \<notin> H"
    and f: "find (\<lambda>bi. \<not> bm_test (view s (BBLOCK (of_nat (k * BPB)) (sb s))) bi)
      [0..<min BPB (unat (sb_size (sb s)) - k * BPB)] = Some bi"
    and low: "\<forall>b. free_block s b \<longrightarrow> k * BPB \<le> unat b"
  shows "\<exists>a s'. balloc_loop 1 (k * BPB # bs) s = Ok (a, s') \<and> free_block s a \<and>
    (\<forall>b. free_block s b \<longrightarrow> a \<le> b) \<and> allocated a s s' \<and> tx_ok n H s' \<and> tx_frame s s' \<and>
    (\<forall>j c. holds s j c \<longrightarrow> holds s' j c)"
proof -
  define a :: uint32 where "a = of_nat (k * BPB + bi)"
  note bi = find_upt(1)[OF f]
  have a: "unat a = k * BPB + bi" "a < sb_size (sb s)" "BBLOCK (of_nat (k * BPB)) (sb s) = BBLOCK a (sb s)"
    "unat a mod BPB = bi"
    using unat_in_map[of bi "sb s" k] bi unfolding a_def by simp_all
  let ?B = "BBLOCK a (sb s)"
  have fr: "free_block s a" using a bi by (simp add: free_block_def in_use_def)
  then have ab: "a \<in> tx_blocks s" "a \<notin> map_blocks s" "a \<noteq> 0" "a \<notin> H" using s(2,5) by (auto simp: map_ok_def)
  have B: "?B \<in> map_blocks s" using a(2) by (auto simp: map_blocks_def)
  then have B': "?B \<in> tx_blocks s" "?B \<notin> H" "?B \<noteq> a" using s(2,4) ab(2) by (auto simp: map_ok_def)
  have "length (bm_set (view s ?B) bi) = BSIZE" using lt.block_size[OF s(1) B'(1)] by simp
  moreover have "tx_ok (Suc (n + 1)) H s" "card H \<le> Suc (n + 1)" using s(1,3) by simp_all
  ultimately obtain i s1 s2 s3 where u: "bread 1 ?B s = Ok (i, s1)" "bdata s1 i = view s ?B"
    "tx_frame s s1" "tx_put i (bm_set (view s ?B) bi) s1 = Ok s2" "brelse i s2 = Ok s3" "tx_ok (n + 1) H s3"
    "view s3 = (view s)(?B := bm_set (view s ?B) bi)" "tx_frame s s3" "\<forall>j c. holds s j c \<longrightarrow> holds s3 j c"
    using lt.update_block[of "n + 1" H s ?B "\<lambda>d. bm_set d bi"] B' by metis
  have "tx_ok (Suc n) H s3" "a \<in> tx_blocks s3" "card H \<le> Suc n"
    using u(6) ab(1) lt.frame_blocks[OF u(8)] s(3) by simp_all
  then obtain s' where z: "bzero 1 a s3 = Ok s'" "tx_ok n H s'" "view s' = (view s3)(a := replicate BSIZE 0)"
    "tx_frame s3 s'" "\<forall>j c. holds s3 j c \<longrightarrow> holds s' j c" using bzero_Ok ab(4) by metis
  have sb: "sb s1 = sb s" by (rule tx_frameD(11)[OF u(3)])
  have "balloc_loop 1 (k * BPB # bs) s = Ok (a, s')"
    using u(1,2,4,5) z(1) f a(3) by (simp add: sb a_def)
  moreover have "a \<le> b" if b: "free_block s b" for b
  proof (rule ccontr)
    assume "\<not> a \<le> b"
    then have l: "unat b < k * BPB + bi" "k * BPB \<le> unat b" using a(1) low b by (auto simp: word_le_nat_alt)
    then have e: "unat b div BPB = unat a div BPB" "unat b mod BPB = unat b - k * BPB"
      using a(1) bi by (auto simp: div_nat_eqI mod_nat_eqI)
    then have "BBLOCK b (sb s) = ?B" by (simp add: BBLOCK_same)
    then show False using b bi l e a(3) by (auto simp: free_block_def in_use_def)
  qed
  moreover have "allocated a s s'" using z(3) u(7) a(4) B'(3) by (simp add: allocated_def)
  moreover have "tx_frame s s'" using u(8) z(4) tx_frame_trans by blast
  ultimately show ?thesis using fr z(2,5) u(9) by blast
qed

lemma balloc_loop_Ok:
  assumes "tx_ok (n + 2) H s" "map_ok s" "card H \<le> n + 1" "map_blocks s \<inter> H = {}"
    "\<forall>b. free_block s b \<longrightarrow> b \<notin> H" "free_block s f" "\<forall>b. free_block s b \<longrightarrow> k * BPB \<le> unat b"
    "unat (sb_size (sb s)) \<le> m * BPB"
  shows "\<exists>a s'. balloc_loop 1 (map (\<lambda>k. k * BPB) [k..<m]) s = Ok (a, s') \<and> free_block s a \<and>
    (\<forall>b. free_block s b \<longrightarrow> a \<le> b) \<and> allocated a s s' \<and> tx_ok n H s' \<and> tx_frame s s' \<and>
    (\<forall>j c. holds s j c \<longrightarrow> holds s' j c)"
  using assms
proof (induction "m - k" arbitrary: k s)
  case 0
  then have "unat f < m * BPB" "k * BPB \<le> unat f" by (auto simp: free_block_def word_less_nat_alt)
  then show ?case using 0(1) by simp
next
  case (Suc d)
  let ?B = "BBLOCK (of_nat (k * BPB)) (sb s)"
  let ?find = "find (\<lambda>bi. \<not> bm_test (view s ?B) bi) [0..<min BPB (unat (sb_size (sb s)) - k * BPB)]"
  have up: "[k..<m] = k # [Suc k..<m]" using Suc.hyps(2) by (simp add: upt_conv_Cons)
  show ?case
  proof (cases ?find)
    case (Some bi)
    show ?thesis unfolding up list.map using balloc_found[OF Suc.prems(1-5) Some Suc.prems(7)] .
  next
    case None
    have "unat f < unat (sb_size (sb s))" "k * BPB \<le> unat f"
      using Suc.prems(6,7) by (auto simp: free_block_def word_less_nat_alt)
    then have "0 < min BPB (unat (sb_size (sb s)) - k * BPB)" by simp
    from unat_in_map(2)[OF this] have "?B \<in> map_blocks s" by (auto simp: map_blocks_def)
    then have B: "?B \<in> tx_blocks s" "?B \<notin> H" using Suc.prems(2,4) by (auto simp: map_ok_def)
    have "card H \<le> n + 2" using Suc.prems(3) by simp
    then obtain i s1 s2 where r: "bread 1 ?B s = Ok (i, s1)" "bdata s1 i = view s ?B" "tx_frame s s1"
      "brelse i s1 = Ok s2" "tx_ok (n + 2) H s2" "view s2 = view s" "tx_frame s s2"
      "\<forall>j c. holds s j c \<longrightarrow> holds s2 j c" using lt.read_block[OF Suc.prems(1) B] by metis
    note fb = free_block_view[OF r(6) tx_frameD(11)[OF r(7)] lt.frame_blocks[OF r(7)]]
    have nxt: "Suc k * BPB \<le> unat b" if b: "free_block s b" for b
    proof (rule ccontr)
      assume "\<not> Suc k * BPB \<le> unat b"
      then have l: "unat b < k * BPB + BPB" "k * BPB \<le> unat b" using Suc.prems(7) b by auto
      define bi where "bi = unat b - k * BPB"
      have bi: "bi < min BPB (unat (sb_size (sb s)) - k * BPB)" "b = of_nat (k * BPB + bi)"
        using l b by (auto simp: bi_def free_block_def word_less_nat_alt)
      then have "BBLOCK b (sb s) = ?B" "unat b mod BPB = bi" using unat_in_map[OF bi(1)] by simp_all
      then show False using b find_upt(2)[OF None bi(1)] by (simp add: free_block_def in_use_def)
    qed
    have d: "d = m - Suc k" using Suc.hyps(2) by simp
    obtain a s' where a: "balloc_loop 1 (map (\<lambda>k. k * BPB) [Suc k..<m]) s2 = Ok (a, s')" "free_block s2 a"
      "\<forall>b. free_block s2 b \<longrightarrow> a \<le> b" "allocated a s2 s'" "tx_ok n H s'" "tx_frame s2 s'"
      "\<forall>j c. holds s2 j c \<longrightarrow> holds s' j c"
      using Suc.hyps(1)[OF d, of s2] Suc.prems r(5,7) nxt
      unfolding fb tx_frameD(11)[OF r(7)] by auto
    have "balloc_loop 1 (map (\<lambda>k. k * BPB) [k..<m]) s = Ok (a, s')"
      using r(1,2,4) a(1) None by (simp add: up tx_frameD(11)[OF r(3)])
    moreover have "allocated a s s'" using a(4) r(6) by (simp add: allocated_def tx_frameD(11)[OF r(7)])
    moreover have "tx_frame s s'" using r(7) a(6) tx_frame_trans by blast
    ultimately show ?thesis using a(2,3,5,7) r(8) unfolding fb by blast
  qed
qed

lemma balloc_Ok:
  assumes "tx_ok (n + 2) H s" "map_ok s" "card H \<le> n + 1" "map_blocks s \<inter> H = {}"
    "\<forall>b. free_block s b \<longrightarrow> b \<notin> H" "free_block s f"
  obtains a s' where "balloc 1 s = Ok (a, s')" "free_block s a" "\<forall>b. free_block s b \<longrightarrow> a \<le> b"
    "allocated a s s'" "tx_ok n H s'" "tx_frame s s'" "\<forall>j c. holds s j c \<longrightarrow> holds s' j c"
proof -
  have l: "unat (sb_size (sb s)) \<le> (unat (sb_size (sb s)) + BPB - 1) div BPB * BPB" by simp
  have "\<forall>b. free_block s b \<longrightarrow> 0 * BPB \<le> unat b" by simp
  from balloc_loop_Ok[OF assms this l] show thesis unfolding balloc_def[symmetric] using that by blast
qed

lemma allocated_use:
  assumes "allocated a s s'" "free_block s a" "map_ok s" "tx_ok n H s" "sb s' = sb s"
    "tx_blocks s' = tx_blocks s"
  shows "b < sb_size (sb s) \<Longrightarrow> in_use s' b \<longleftrightarrow> b = a \<or> in_use s b" "map_ok s'" "map_blocks s' = map_blocks s"
    "view s' a = replicate BSIZE 0" "c \<noteq> a \<Longrightarrow> c \<notin> map_blocks s \<Longrightarrow> view s' c = view s c"
proof -
  let ?B = "BBLOCK a (sb s)"
  have a: "a \<in> tx_blocks s" "a \<notin> map_blocks s" "a < sb_size (sb s)"
    using assms(2,3) by (auto simp: map_ok_def free_block_def)
  then have B: "?B \<in> map_blocks s" "?B \<in> tx_blocks s" "?B \<noteq> a" using assms(3) by (auto simp: map_blocks_def map_ok_def)
  note v = assms(1)[unfolded allocated_def]
  show u: "in_use s' b \<longleftrightarrow> b = a \<or> in_use s b" if "b < sb_size (sb s)" for b
  proof -
    have "BBLOCK b (sb s) \<noteq> a" using a(2) that by (auto simp: map_blocks_def)
    then show ?thesis
      using v B(3) BBLOCK_eq_in_block[of b "sb s" a] lt.block_size[OF assms(4) B(2)] assms(5)
      by (auto simp: in_use_def bm_test_set)
  qed
  show m: "map_blocks s' = map_blocks s" using assms(5) by (simp add: map_blocks_def)
  show "map_ok s'" using assms(3) u unfolding map_ok_def free_block_def m assms(5,6) by auto
  show "view s' a = replicate BSIZE 0" using v by simp
  show "view s' c = view s c" if "c \<noteq> a" "c \<notin> map_blocks s" using v that B(1) by auto
qed

lemma balloc_full:
  assumes "tx_ok n {} s" "map_blocks s \<subseteq> tx_blocks s" "\<forall>b. \<not> free_block s b" "(m - 1) * BPB < unat (sb_size (sb s)) \<or> m \<le> k"
  shows "balloc_loop 1 (map (\<lambda>k. k * BPB) [k..<m]) s = Stop (Panic ''balloc: out of blocks'')"
  using assms
proof (induction "m - k" arbitrary: k s)
  case (Suc d)
  let ?B = "BBLOCK (of_nat (k * BPB)) (sb s)"
  have up: "[k..<m] = k # [Suc k..<m]" using Suc.hyps(2) by (simp add: upt_conv_Cons)
  have "k \<le> m - 1" "\<not> m \<le> k" using Suc.hyps(2) by simp_all
  then have "k * BPB < unat (sb_size (sb s))" using Suc.prems(4) mult_le_mono1[of k "m - 1" BPB] by linarith
  then have "0 < min BPB (unat (sb_size (sb s)) - k * BPB)" by simp
  from unat_in_map(2)[OF this] have "?B \<in> map_blocks s" by (auto simp: map_blocks_def)
  then have B: "?B \<in> tx_blocks s" using Suc.prems(2) by auto
  obtain i s1 s2 where r: "bread 1 ?B s = Ok (i, s1)" "bdata s1 i = view s ?B" "tx_frame s s1"
    "brelse i s1 = Ok s2" "tx_ok n {} s2" "view s2 = view s" "tx_frame s s2"
    by (rule lt.read_block[OF Suc.prems(1) B]) auto
  note sb = tx_frameD(11)[OF r(3)] tx_frameD(11)[OF r(7)]
  note fb = free_block_view[OF r(6) sb(2) lt.frame_blocks[OF r(7)]]
  have "bm_test (view s ?B) bi" if "bi < min BPB (unat (sb_size (sb s)) - k * BPB)" for bi
  proof -
    have "\<not> free_block s (of_nat (k * BPB + bi))" using Suc.prems(3) by blast
    then show ?thesis using unat_in_map[OF that] by (simp add: free_block_def in_use_def)
  qed
  then have none: "find (\<lambda>bi. \<not> bm_test (view s ?B) bi) [0..<min BPB (unat (sb_size (sb s)) - k * BPB)] = None"
    by (auto simp: find_None_iff)
  have "balloc_loop 1 (map (\<lambda>k. k * BPB) [Suc k..<m]) s2 = Stop (Panic ''balloc: out of blocks'')"
    using Suc.hyps(1)[of "Suc k" s2] Suc.hyps(2) Suc.prems r(5,7) lt.frame_blocks[OF r(7)]
    unfolding fb sb by auto
  then show ?case using r(1,2,4) none by (simp add: up sb)
qed simp

text \<open>
  C21. Allocating a disk block inside a transaction.  If the free map has a free block, \<open>balloc\<close>
  succeeds and returns the least one; afterwards exactly that block is in use in addition, it reads
  as zeros, and no other block outside the free map has changed.  If every block is in use,
  \<open>balloc\<close> panics.
\<close>

theorem balloc_takes_least_free:
  assumes "tx_ok (n + 2) {} s" "map_ok s"
  shows "if \<exists>b. free_block s b
    then \<exists>a s'. balloc 1 s = Ok (a, s') \<and> free_block s a \<and> (\<forall>b. free_block s b \<longrightarrow> a \<le> b) \<and>
      tx_ok n {} s' \<and> map_ok s' \<and> (\<forall>b < sb_size (sb s). in_use s' b \<longleftrightarrow> b = a \<or> in_use s b) \<and>
      view s' a = replicate BSIZE 0 \<and>
      (\<forall>c. c \<noteq> a \<and> c \<notin> map_blocks s \<longrightarrow> view s' c = view s c)
    else balloc 1 s = Stop (Panic ''balloc: out of blocks'')"
proof (cases "\<exists>b. free_block s b")
  case True
  then obtain f where f: "free_block s f" by blast
  have H: "card {} \<le> n + 1" "map_blocks s \<inter> {} = {}" "\<forall>b. free_block s b \<longrightarrow> b \<notin> {}" by simp_all
  obtain a s' where a: "balloc 1 s = Ok (a, s')" "free_block s a" "\<forall>b. free_block s b \<longrightarrow> a \<le> b"
    "allocated a s s'" "tx_ok n {} s'" "tx_frame s s'" by (rule balloc_Ok[OF assms H f])
  note u = allocated_use[OF a(4,2) assms(2,1) tx_frameD(11)[OF a(6)] lt.frame_blocks[OF a(6)]]
  show ?thesis using True a(1,2,3,5) u(1,2,4,5) by auto
next
  case False
  have "((unat (sb_size (sb s)) + BPB - 1) div BPB - 1) * BPB < unat (sb_size (sb s)) \<or>
      (unat (sb_size (sb s)) + BPB - 1) div BPB \<le> 0" by (simp add: algebra_simps) linarith
  then show ?thesis
    using False balloc_full[of "n + 2" s _ 0] assms by (auto simp: balloc_def map_ok_def)
qed

section \<open>Freeing a block\<close>

text \<open>\<open>bfree\<close> reads the super block again: the one on the disk is the one in memory.\<close>

definition sb_ok :: "kernel \<Rightarrow> bool" where
  "sb_ok s \<longleftrightarrow> 1 \<in> tx_blocks s \<and> 1 \<notin> map_blocks s \<and> get_sb (view s 1) = sb s"

lemma readsb_Ok:
  assumes "tx_ok n H s" "sb_ok s" "1 \<notin> H" "card H \<le> n"
  obtains s' where "readsb 1 s = Ok (sb s, s')" "tx_ok n H s'" "view s' = view s" "tx_frame s s'"
    "\<forall>j c. holds s j c \<longrightarrow> holds s' j c"
proof -
  have "1 \<in> tx_blocks s" using assms(2) by (simp add: sb_ok_def)
  then show thesis
    by (rule lt.read_block[OF assms(1) _ assms(3,4)]) (rule that, use assms(2) in \<open>auto simp: readsb_def sb_ok_def\<close>)
qed

lemma bfree_Ok:
  assumes s: "tx_ok (Suc n) H s" "sb_ok s" "1 \<notin> H" "card H \<le> Suc n" "map_blocks s \<inter> H = {}"
    "map_blocks s \<subseteq> tx_blocks s" "b < sb_size (sb s)"
  obtains (used) s' where "in_use s b" "bfree 1 b s = Ok s'" "tx_ok n H s'" "tx_frame s s'"
      "view s' = (view s)(BBLOCK b (sb s) := bm_clear (view s (BBLOCK b (sb s))) (unat b mod BPB))"
      "\<forall>j c. holds s j c \<longrightarrow> holds s' j c"
    | (unused) "\<not> in_use s b" "bfree 1 b s = Stop (Panic ''freeing free block'')"
proof -
  let ?B = "BBLOCK b (sb s)"
  obtain s1 where r: "readsb 1 s = Ok (sb s, s1)" "tx_ok (Suc n) H s1" "view s1 = view s" "tx_frame s s1"
    "\<forall>j c. holds s j c \<longrightarrow> holds s1 j c" by (rule readsb_Ok[OF s(1-4)])
  have sb: "s1\<lparr>sb := sb s\<rparr> = s1" using tx_frameD(11)[OF r(4)] by simp
  have "?B \<in> map_blocks s" using s(7) by (auto simp: map_blocks_def)
  then have B: "?B \<in> tx_blocks s1" "?B \<notin> H" using s(5,6) lt.frame_blocks[OF r(4)] by auto
  have l: "length (bm_clear (view s1 ?B) (unat b mod BPB)) = BSIZE" using lt.block_size[OF r(2) B(1)] by simp
  obtain i s2 s3 s' where u: "bread 1 ?B s1 = Ok (i, s2)" "bdata s2 i = view s1 ?B"
    "tx_put i (bm_clear (view s1 ?B) (unat b mod BPB)) s2 = Ok s3" "brelse i s3 = Ok s'" "tx_ok n H s'"
    "view s' = (view s1)(?B := bm_clear (view s1 ?B) (unat b mod BPB))" "tx_frame s1 s'"
    "\<forall>j c. holds s1 j c \<longrightarrow> holds s' j c"
    by (rule lt.update_block[OF r(2) B s(4), of "\<lambda>d. bm_clear d (unat b mod BPB)"]) (use l in auto)
  show thesis
  proof (cases "in_use s b")
    case True
    then have "bfree 1 b s = Ok s'"
      using r(1,3) u(1-4) tx_frameD(11)[OF r(4)] by (simp add: bfree_def sb in_use_def Let_def)
    then show ?thesis
      using used[OF True _ u(5)] u(6,8) r(3,5) tx_frame_trans[OF r(4) u(7)] by simp
  next
    case False
    then have "bfree 1 b s = Stop (Panic ''freeing free block'')"
      using r(1,3) u(1,2) tx_frameD(11)[OF r(4)] by (simp add: bfree_def sb in_use_def Let_def)
    then show ?thesis using unused[OF False] by simp
  qed
qed

lemma freed_use:
  assumes "view s' = (view s)(BBLOCK a (sb s) := bm_clear (view s (BBLOCK a (sb s))) (unat a mod BPB))"
    "length (view s (BBLOCK a (sb s))) = BSIZE" "sb s' = sb s"
  shows "in_use s' b \<longleftrightarrow> b \<noteq> a \<and> in_use s b"
  using assms BBLOCK_eq_in_block[of b "sb s" a] by (auto simp: in_use_def bm_test_clear)

text \<open>
  C22. Freeing a disk block inside a transaction clears its bit of the free map, and no other bit;
  no block outside the free map changes, and \<open>balloc\<close> finds the block free afterwards.  Freeing
  a block that is free already panics.
\<close>

theorem bfree_frees_block:
  assumes "tx_ok (Suc n) {} s" "sb_ok s" "map_blocks s \<subseteq> tx_blocks s" "b < sb_size (sb s)"
  shows "if in_use s b
    then \<exists>s'. bfree 1 b s = Ok s' \<and> tx_ok n {} s' \<and> free_block s' b \<and>
      (\<forall>c. in_use s' c \<longleftrightarrow> c \<noteq> b \<and> in_use s c) \<and> (\<forall>c. c \<notin> map_blocks s \<longrightarrow> view s' c = view s c)
    else bfree 1 b s = Stop (Panic ''freeing free block'')"
proof -
  have B: "BBLOCK b (sb s) \<in> map_blocks s" using assms(4) by (auto simp: map_blocks_def)
  then have l: "length (view s (BBLOCK b (sb s))) = BSIZE" using lt.block_size[OF assms(1)] assms(3) by auto
  show ?thesis
  proof (cases rule: bfree_Ok[OF assms(1,2) _ _ _ assms(3,4), case_names m1 m2 m3 used unused])
    case (used s')
    note sb = tx_frameD(11)[OF used(4)]
    note u = freed_use[OF used(5) l sb]
    have "\<forall>c. c \<notin> map_blocks s \<longrightarrow> view s' c = view s c" using used(5) B by auto
    then show ?thesis using used(1-3) u assms(4) sb by (simp add: free_block_def)
  qed auto
qed

section \<open>Examples\<close>

text \<open>A file system of 1000 blocks, of which the first 59 are in use, in an open transaction.\<close>

definition demo_map :: block where
  "demo_map = replicate 7 0xFF @ [7] @ replicate 504 0"

definition demo_sb :: block where
  "demo_sb = concat (map le32 [1000, 941, 200, 30, 2, 32, 58]) @ replicate 484 0"

definition demo_fs :: kernel where
  "demo_fs = demo_tx\<lparr>disk := (\<lambda>_. replicate BSIZE 0)(58 := demo_map, 1 := demo_sb)\<rparr>"

lemma get32_words: "k < length ws \<Longrightarrow> get32 (concat (map le32 ws) @ r) (4 * k) = ws ! k"
proof (induction ws arbitrary: k)
  case (Cons w ws)
  show ?case
  proof (cases k)
    case 0
    then show ?thesis by (simp add: get32_def get_bytes_def)
  next
    case (Suc j)
    then show ?thesis using Cons by (simp add: get32_def get_bytes_def)
  qed
qed simp

lemma length_demo [simp]: "length demo_map = BSIZE" "length demo_sb = BSIZE"
  by (simp_all add: demo_map_def demo_sb_def)

lemma demo_fs_simps [simp]:
  "log_st demo_fs = log_st demo_tx" "sb demo_fs = sb demo_kernel" "disksize demo_fs = 1000"
  "bufs demo_fs = bufs demo_tx" "held demo_fs = held demo_tx" "dirty demo_fs = dirty demo_tx"
  "disk demo_fs = (\<lambda>_. replicate BSIZE 0)(58 := demo_map, 1 := demo_sb)"
  "log_area demo_fs = log_area demo_tx" "logged demo_fs = logged demo_tx" "lru demo_fs = lru demo_tx"
  "cur demo_fs = cur demo_tx" "procs demo_fs = procs demo_tx" "icache demo_fs = icache demo_tx"
  by (simp_all add: demo_fs_def held_def dirty_def log_area_def logged_def) (simp_all add: demo_tx_def)

lemma demo_sb_fields:
  "sb demo_kernel = \<lparr>sb_size = 1000, sb_nblocks = 941, sb_ninodes = 200, sb_nlog = 30, sb_logstart = 2,
     sb_inodestart = 32, sb_bmapstart = 58\<rparr>"
  by (simp add: demo_kernel_def)

lemma demo_fs_view: "view demo_fs b = (if b = 100 then replicate BSIZE 1 else disk demo_fs b)"
proof -
  have "find_idx (\<lambda>u. b_dev u = 1 \<and> b_blockno u = b \<and> b_valid u) (replicate 29 demo_buf) = None"
    by (simp add: find_idx_None_iff)
  then show ?thesis by (simp add: view_def cached_def demo_tx_bufs)
qed

lemma demo_fs_bcache: "bcache_ok demo_fs"
proof -
  have d: "length (disk demo_fs b) = BSIZE" for b by simp
  have "buf_ok demo_fs u" if "u \<in> set (bufs demo_tx)" for u
    using that by (auto simp: demo_tx_bufs buf_ok_def)
  moreover have "length (bufs demo_tx) = NBUF" using demo_bcache_ok(2) by (simp add: bcache_ok_def)
  ultimately show ?thesis
    using demo_bcache_ok(2) d unfolding bcache_ok_def demo_fs_simps(4,10) by auto
qed

lemma demo_fs_tx: "tx_ok 28 {} demo_fs"
proof -
  have "in_proc demo_fs" using demo_in_proc(2) by (simp add: in_proc_def)
  moreover have "get32 (replicate BSIZE 0) 0 = (0 :: uint32)"
    by (simp add: get32_def of_le32_def get_bytes_def numeral_eq_Suc)
  ultimately have "log_ok demo_fs" using demo_fs_bcache demo_log_ok by (simp add: log_ok_def)
  then show ?thesis by (simp add: tx_ok_def in_tx_def demo_tx_cache)
qed

lemma demo_blocks: "b \<in> tx_blocks demo_fs \<longleftrightarrow> b < 1000 \<and> (b < 2 \<or> 32 \<le> b)"
proof -
  have u: "unat (2 + of_nat k :: uint32) = 2 + k" if "k < LOGSIZE" for k
    using that by (simp add: unat_word_ariths unat_of_nat_small)
  have "b \<in> log_area demo_tx \<longleftrightarrow> 2 \<le> b \<and> b < 32"
  proof
    assume "2 \<le> b \<and> b < 32"
    then have "unat b - 2 < LOGSIZE" "b = 2 + of_nat (unat b - 2)"
      using u[of "unat b - 2"] by (auto simp: word_le_nat_alt word_less_nat_alt word_unat_eq_iff)
    then show "b \<in> log_area demo_tx" unfolding demo_log by blast
  qed (auto simp: demo_log word_le_nat_alt word_less_nat_alt u)
  then show ?thesis by (auto simp: tx_blocks_def not_le not_less)
qed

lemma demo_map_blocks: "map_blocks demo_fs = {58}"
proof -
  have "BBLOCK b (sb demo_fs) = 58" if "b < 1000" for b
  proof -
    have "b div 4096 = 0" using that by (simp add: word_unat_eq_iff unat_div word_less_nat_alt)
    then show ?thesis by (simp add: BBLOCK_def demo_sb_fields)
  qed
  moreover have "sb_size (sb demo_fs) = 1000" by (simp add: demo_sb_fields)
  moreover have "(0 :: uint32) < 1000" by simp
  ultimately show ?thesis unfolding map_blocks_def by fastforce
qed

lemma demo_map_test: "i < 1000 \<Longrightarrow> bm_test demo_map i \<longleftrightarrow> i < 59"
proof -
  assume i: "i < 1000"
  have "demo_map ! (i div 8) = (if i div 8 < 7 then 0xFF else if i div 8 = 7 then 7 else 0)"
    using i by (auto simp: demo_map_def nth_append)
  moreover have "bit (0xFF :: byte) (i mod 8)"
    using bit_mask_iff[where 'a = byte, of 8 "i mod 8"] by (simp add: mask_eq_exp_minus_1)
  moreover have "bit (7 :: byte) (i mod 8) \<longleftrightarrow> i mod 8 < 3"
    using bit_mask_iff[where 'a = byte, of 3 "i mod 8"] by (simp add: mask_eq_exp_minus_1)
  moreover have "i div 8 < 7 \<Longrightarrow> i < 59" "i div 8 = 7 \<Longrightarrow> i mod 8 < 3 \<longleftrightarrow> i < 59" "7 < i div 8 \<Longrightarrow> \<not> i < 59"
    by presburger+
  ultimately show ?thesis by (auto simp: bm_test_bit)
qed

lemma demo_in_use: "b < 1000 \<Longrightarrow> in_use demo_fs b \<longleftrightarrow> b < 59"
proof -
  assume b: "b < 1000"
  then have "BBLOCK b (sb demo_fs) \<in> map_blocks demo_fs" by (auto simp: map_blocks_def demo_sb_fields)
  then have B: "BBLOCK b (sb demo_fs) = 58" by (simp add: demo_map_blocks)
  have "bm_test demo_map (unat b) \<longleftrightarrow> unat b < 59" by (rule demo_map_test) (use b in \<open>simp add: word_less_nat_alt\<close>)
  then show ?thesis
    using b B[unfolded demo_fs_simps] by (simp add: in_use_def demo_fs_view word_less_nat_alt)
qed

lemma demo_map_ok: "map_ok demo_fs" "sb_ok demo_fs"
proof -
  have "59 \<le> b" if "free_block demo_fs b" for b
    using that demo_in_use[of b] by (auto simp: free_block_def demo_sb_fields)
  moreover have "b < 1000" if "free_block demo_fs b" for b
    using that by (simp add: free_block_def demo_sb_fields)
  moreover have "32 \<le> b \<and> b \<noteq> 58 \<and> b \<noteq> 0" if "59 \<le> b" for b :: uint32
    using that by (auto simp: word_le_nat_alt)
  ultimately show "map_ok demo_fs" unfolding map_ok_def demo_map_blocks demo_blocks subset_iff by simp
  let ?ws = "[1000, 941, 200, 30, 2, 32, 58] :: uint32 list"
  have "get_sb demo_sb = sb demo_kernel"
    using get32_words[of 0 ?ws] get32_words[of 1 ?ws] get32_words[of 2 ?ws] get32_words[of 3 ?ws]
      get32_words[of 4 ?ws] get32_words[of 5 ?ws] get32_words[of 6 ?ws]
    by (simp add: get_sb_def demo_sb_def demo_sb_fields)
  then show "sb_ok demo_fs" by (simp add: sb_ok_def demo_blocks demo_map_blocks demo_fs_view)
qed

theorem balloc_takes_least_free_witness:
  "\<exists>s'. balloc 1 demo_fs = Ok (59, s') \<and> view s' 59 = replicate BSIZE 0 \<and> in_use s' 59"
proof -
  have f: "free_block demo_fs b \<longleftrightarrow> b < 1000 \<and> 59 \<le> b" for b
    using demo_in_use[of b] by (auto simp: free_block_def demo_sb_fields not_less)
  then have f59: "free_block demo_fs 59" by simp
  then have ex: "\<exists>b. free_block demo_fs b" ..
  have "tx_ok (26 + 2) {} demo_fs" using demo_fs_tx by simp
  from balloc_takes_least_free[OF this demo_map_ok(1), unfolded if_P[OF ex]] obtain a s' where
    a: "balloc 1 demo_fs = Ok (a, s')" "free_block demo_fs a" "\<forall>b. free_block demo_fs b \<longrightarrow> a \<le> b"
    "\<forall>b < sb_size (sb demo_fs). in_use s' b \<longleftrightarrow> b = a \<or> in_use demo_fs b"
    "view s' a = replicate BSIZE 0" by blast
  have "a = 59" using a(3) f59 f[of a] a(2) by (simp add: order_antisym)
  then show ?thesis using a by (simp add: demo_sb_fields)
qed

theorem bfree_frees_block_witness:
  "\<exists>s'. bfree 1 40 demo_fs = Ok s' \<and> \<not> in_use s' 40 \<and> bfree 1 70 demo_fs = Stop (Panic ''freeing free block'')"
proof -
  have "tx_ok (Suc 27) {} demo_fs" "map_blocks demo_fs \<subseteq> tx_blocks demo_fs"
    using demo_fs_tx by (simp_all add: demo_map_blocks demo_blocks)
  note b = bfree_frees_block[OF this(1) demo_map_ok(2) this(2)]
  show ?thesis using b[of 40] b[of 70] demo_in_use[of 40] demo_in_use[of 70] by (auto simp: demo_sb_fields)
qed

end
