(* ===== verification/FileData.thy ===== *)
theory FileData
  imports Fs FreeMap
begin

text \<open>
  The contents of a file as the bytes at its offsets (\<open>fbyte\<close>), over the block store of
  \<open>Tx\<close>: \<open>bmap\<close>, \<open>iupdate\<close>, \<open>readi\<close> and \<open>writei\<close> of src/fs.c against that view, with the
  free blocks they take and everything of the file system that they leave alone.
\<close>

section \<open>Client state\<close>

text \<open>The block store does not look at the inode cache.\<close>

lemma icache_store [simp]:
  "view (s\<lparr>icache := x\<rparr>) = view s" "dirty (s\<lparr>icache := x\<rparr>) = dirty s"
  "held (s\<lparr>icache := x\<rparr>) = held s" "bcache_ok (s\<lparr>icache := x\<rparr>) = bcache_ok s"
  "in_proc (s\<lparr>icache := x\<rparr>) = in_proc s" "holds (s\<lparr>icache := x\<rparr>) i b = holds s i b"
  "log_area (s\<lparr>icache := x\<rparr>) = log_area s" "logged (s\<lparr>icache := x\<rparr>) = logged s"
  "tx_blocks (s\<lparr>icache := x\<rparr>) = tx_blocks s" "map_blocks (s\<lparr>icache := x\<rparr>) = map_blocks s"
  "in_use (s\<lparr>icache := x\<rparr>) = in_use s" "free_block (s\<lparr>icache := x\<rparr>) = free_block s"
  by (auto simp: fun_eq_iff view_def cached_def dirty_def held_def bcache_ok_def buf_ok_def
      in_proc_def holds_def log_area_def logged_def tx_blocks_def map_blocks_def in_use_def
      free_block_def split: option.splits)

lemma icache_store_ok [simp]:
  "log_ok (s\<lparr>icache := x\<rparr>) = log_ok s" "in_tx (s\<lparr>icache := x\<rparr>) = in_tx s"
  "tx_ok n H (s\<lparr>icache := x\<rparr>) = tx_ok n H s" "map_ok (s\<lparr>icache := x\<rparr>) = map_ok s"
  by (simp_all add: log_ok_def in_tx_def tx_ok_def map_ok_def)

text \<open>Like \<open>tx_frame\<close>, but the inode cache may change.\<close>

definition ino_frame :: "kernel \<Rightarrow> kernel \<Rightarrow> bool" where
  "ino_frame s s' \<longleftrightarrow> tx_frame (s\<lparr>icache := icache s'\<rparr>) s'"

lemma tx_frame_icache: "tx_frame s s' \<Longrightarrow> tx_frame (s\<lparr>icache := x\<rparr>) (s'\<lparr>icache := x\<rparr>)"
  unfolding tx_frame_def cache_frame_def
  apply (elim conjE, intro conjI)
      apply simp_all
  apply (drule arg_cong[where f = "\<lambda>s. s\<lparr>icache := x\<rparr>"], simp)
  done

lemma tx_ino_frame: "tx_frame s s' \<Longrightarrow> ino_frame s s'"
  by (simp add: ino_frame_def tx_frameD(10))

lemma ino_frame_upd: "tx_frame s s' \<Longrightarrow> ino_frame s (s'\<lparr>icache := x\<rparr>)"
  using tx_frame_icache by (simp add: ino_frame_def)

lemma ino_frame_trans: "ino_frame s t \<Longrightarrow> ino_frame t u \<Longrightarrow> ino_frame s u"
  unfolding ino_frame_def using tx_frame_trans tx_frame_icache[of "s\<lparr>icache := icache t\<rparr>" t "icache u"]
  by fastforce

lemma ino_frameD:
  assumes "ino_frame s s'"
  shows "sb s' = sb s" "tx_blocks s' = tx_blocks s" "map_blocks s' = map_blocks s"
    "disksize s' = disksize s" "log_area s' = log_area s"
    "log_outstanding (log_st s') = log_outstanding (log_st s)"
    "log_committing (log_st s') = log_committing (log_st s)" "ftable s' = ftable s"
proof -
  note t = tx_frameD[OF assms[unfolded ino_frame_def]]
  show "sb s' = sb s" "disksize s' = disksize s" "log_area s' = log_area s"
    "log_outstanding (log_st s') = log_outstanding (log_st s)"
    "log_committing (log_st s') = log_committing (log_st s)" using t by simp_all
  then show "tx_blocks s' = tx_blocks s" "map_blocks s' = map_blocks s"
    by (simp_all add: tx_blocks_def map_blocks_def)
  show "ftable s' = ftable s" using cache_frameD(13)[OF t(1)] by simp
qed

section \<open>The blocks of a file\<close>

text \<open>The address of the \<open>k\<close>-th block of the file, 0 if it has none.\<close>

definition indirect :: "kernel \<Rightarrow> nat \<Rightarrow> uint32" where
  "indirect s ip = i_addrs (ino s ip) ! NDIRECT"

definition faddr :: "kernel \<Rightarrow> nat \<Rightarrow> nat \<Rightarrow> uint32" where
  "faddr s ip k = (if k < NDIRECT then i_addrs (ino s ip) ! k
     else if indirect s ip = 0 then 0 else get32 (view s (indirect s ip)) (4 * (k - NDIRECT)))"

definition owned :: "kernel \<Rightarrow> nat \<Rightarrow> uint32 set" where
  "owned s ip = insert (indirect s ip) (faddr s ip ` {..<MAXFILE}) - {0}"

text \<open>The byte at an offset; a block that is not there counts as zeros.\<close>

definition fbyte :: "kernel \<Rightarrow> nat \<Rightarrow> nat \<Rightarrow> byte" where
  "fbyte s ip p = (let a = faddr s ip (p div BSIZE) in if a = 0 then 0 else view s a ! (p mod BSIZE))"

definition inode_blocks :: "kernel \<Rightarrow> uint32 set" where
  "inode_blocks s = {IBLOCK i (sb s) | i. i < sb_ninodes (sb s)}"

definition fs_ok :: "kernel \<Rightarrow> bool" where
  "fs_ok s \<longleftrightarrow> map_ok s \<and> inode_blocks s \<subseteq> tx_blocks s \<and> inode_blocks s \<inter> map_blocks s = {} \<and>
     (\<forall>b. free_block s b \<longrightarrow> b \<notin> inode_blocks s)"

text \<open>
  An inode whose blocks are in use, are data blocks, and are all different; the first blocks, up to
  the size of the file, are there.
\<close>

definition file_wf :: "kernel \<Rightarrow> nat \<Rightarrow> bool" where
  "file_wf s ip \<longleftrightarrow> ip < length (icache s) \<and> i_dev (ino s ip) = 1 \<and>
     i_inum (ino s ip) < sb_ninodes (sb s) \<and> length (i_addrs (ino s ip)) = NDIRECT + 1 \<and>
     (\<forall>b \<in> owned s ip. b \<in> tx_blocks s - map_blocks s - inode_blocks s \<and> b < sb_size (sb s) \<and> in_use s b) \<and>
     inj_on (faddr s ip) {k. k < MAXFILE \<and> faddr s ip k \<noteq> 0} \<and>
     (\<forall>k < MAXFILE. faddr s ip k = indirect s ip \<longrightarrow> indirect s ip = 0) \<and>
     (\<forall>k. k * BSIZE < unat (i_size (ino s ip)) \<longrightarrow> k < MAXFILE \<and> faddr s ip k \<noteq> 0)"

lemma owned_iff: "b \<in> owned s ip \<longleftrightarrow> b \<noteq> 0 \<and> (b = indirect s ip \<or> (\<exists>k < MAXFILE. b = faddr s ip k))"
  by (auto simp: owned_def)

lemma file_wf_inj:
  "file_wf s ip \<Longrightarrow> j < MAXFILE \<Longrightarrow> k < MAXFILE \<Longrightarrow> faddr s ip j = faddr s ip k \<Longrightarrow> faddr s ip j \<noteq> 0 \<Longrightarrow> j = k"
  unfolding file_wf_def inj_on_def by auto

text \<open>
  Block \<open>a\<close>, which was free, now belongs to the file: as its \<open>k\<close>-th block, or as the block of
  indirect addresses (\<open>k = MAXFILE\<close>).
\<close>

lemma file_gains:
  assumes s: "fs_ok s" "file_wf s ip" "free_block s a"
    and u: "sb u = sb s" "tx_blocks u = tx_blocks s" "map_ok u" "ip < length (icache u)"
      "\<forall>b < sb_size (sb s). in_use u b \<longleftrightarrow> b = a \<or> in_use s b"
      "i_dev (ino u ip) = 1" "i_inum (ino u ip) = i_inum (ino s ip)" "i_size (ino u ip) = i_size (ino s ip)"
      "length (i_addrs (ino u ip)) = NDIRECT + 1"
    and f: "\<forall>j < MAXFILE. faddr u ip j = (if j = k then a else faddr s ip j)"
    and new: "if k < MAXFILE then faddr s ip k = 0 \<and> indirect u ip = indirect s ip
      else indirect s ip = 0 \<and> indirect u ip = a"
  shows "fs_ok u" "file_wf u ip" "owned u ip = insert a (owned s ip)"
proof -
  have a: "a \<in> tx_blocks s" "a \<notin> map_blocks s" "a \<noteq> 0" "a \<notin> inode_blocks s" "a < sb_size (sb s)" "\<not> in_use s a"
    using s(1,3) by (auto simp: fs_ok_def map_ok_def free_block_def)
  have na: "a \<notin> owned s ip" using s(2) a(6) by (auto simp: file_wf_def)
  have eq: "map_blocks u = map_blocks s" "inode_blocks u = inode_blocks s"
    using u(1) by (simp_all add: map_blocks_def inode_blocks_def)
  show "fs_ok u" using s(1) u(1,2,3,5) a eq unfolding fs_ok_def free_block_def by auto
  show own: "owned u ip = insert a (owned s ip)"
  proof (rule set_eqI)
    fix b
    have "(\<exists>j < MAXFILE. b = faddr u ip j) \<longleftrightarrow> b = a \<and> k < MAXFILE \<or> (\<exists>j < MAXFILE. j \<noteq> k \<and> b = faddr s ip j)"
      using f by metis
    then show "b \<in> owned u ip \<longleftrightarrow> b \<in> insert a (owned s ip)"
      using new a(3) unfolding insert_iff owned_iff by (cases "k < MAXFILE") auto
  qed
  note wf = s(2)[unfolded file_wf_def]
  have blocks: "\<forall>b \<in> owned u ip. b \<in> tx_blocks u - map_blocks u - inode_blocks u \<and> b < sb_size (sb u) \<and> in_use u b"
    using wf a u(1,2,5) unfolding own eq by auto
  have n: "faddr s ip j \<noteq> a" if "j < MAXFILE" for j using na a(3) that by (auto simp: owned_def)
  have inj: "inj_on (faddr u ip) {k. k < MAXFILE \<and> faddr u ip k \<noteq> 0}"
    using file_wf_inj[OF s(2)] n by (auto simp: inj_on_def f split: if_splits)
  have "\<forall>k < MAXFILE. faddr u ip k = indirect u ip \<longrightarrow> indirect u ip = 0"
    using new wf f n na a(3) by (auto simp: owned_def split: if_splits)
  moreover have "\<forall>k. k * BSIZE < unat (i_size (ino u ip)) \<longrightarrow> k < MAXFILE \<and> faddr u ip k \<noteq> 0"
    using wf f u(8) a(3) by auto
  ultimately show "file_wf u ip"
    using wf u(1,2,4,6-9) blocks inj unfolding file_wf_def by simp
qed


section \<open>bmap\<close>

text \<open>
  What \<open>bmap\<close> and the writing of a file do to the rest of the file system: the blocks that the
  file gains were free, the other blocks keep their state, and only the blocks of the file and the
  free map change; of the inodes only \<open>ip\<close> changes, and of it only the addresses.
\<close>

definition grows :: "nat \<Rightarrow> kernel \<Rightarrow> kernel \<Rightarrow> bool" where
  "grows ip s s' \<longleftrightarrow> ino_frame s s' \<and> owned s ip \<subseteq> owned s' ip \<and>
     owned s' ip \<subseteq> owned s ip \<union> {b. free_block s b} \<and>
     (\<forall>b < sb_size (sb s). in_use s' b \<longleftrightarrow> in_use s b \<or> b \<in> owned s' ip) \<and>
     (\<forall>c. c \<notin> map_blocks s \<and> c \<notin> owned s' ip \<longrightarrow> view s' c = view s c) \<and>
     (\<exists>as. icache s' = upd_at ip (\<lambda>x. x\<lparr>i_addrs := as\<rparr>) (icache s))"

lemma growsD:
  assumes "grows ip s s'"
  shows "ino_frame s s'" "\<exists>as. icache s' = upd_at ip (\<lambda>x. x\<lparr>i_addrs := as\<rparr>) (icache s)"
    "length (icache s') = length (icache s)" "j \<noteq> ip \<Longrightarrow> ino s' j = ino s j"
    "ip < length (icache s) \<Longrightarrow> \<exists>as. ino s' ip = (ino s ip)\<lparr>i_addrs := as\<rparr>"
  using assms by (auto simp: grows_def nth_upd_at)

lemma upd_at_upd_at: "upd_at i f (upd_at i g xs) = upd_at i (\<lambda>x. f (g x)) xs"
  by (cases "i < length xs") (simp_all add: upd_at_def list_update_beyond)

lemma grows_trans: "grows ip s t \<Longrightarrow> grows ip t u \<Longrightarrow> grows ip s u"
proof -
  assume a: "grows ip s t" "grows ip t u"
  note f = ino_frameD[OF growsD(1)[OF a(1)]]
  have i: "ino_frame s u" using ino_frame_trans growsD(1) a by blast
  have c: "\<exists>as. icache u = upd_at ip (\<lambda>x. x\<lparr>i_addrs := as\<rparr>) (icache s)"
    using growsD(2)[OF a(1)] growsD(2)[OF a(2)] by (auto simp: upd_at_upd_at)
  show ?thesis
    using a i c unfolding grows_def f free_block_def by auto
qed

lemma grows_refl: "file_wf s ip \<Longrightarrow> grows ip s s"
  by (auto simp: grows_def file_wf_def ino_frame_def upd_at_def intro!: exI[of _ "i_addrs (ino s ip)"])

lemma get32_zeros: "off + 4 \<le> n \<Longrightarrow> get32 (replicate n 0) off = 0"
proof -
  assume "off + 4 \<le> n"
  then have "get_bytes (replicate n 0) off 4 = [0, 0, 0, 0 :: byte]"
    by (simp add: get_bytes_def min_def numeral_eq_Suc)
  then show ?thesis by (simp add: get32_def of_le32_def)
qed

lemma file_wf_basic:
  assumes "file_wf s ip"
  shows "ip < length (icache s)" "i_dev (ino s ip) = 1" "length (i_addrs (ino s ip)) = NDIRECT + 1"
  using assms by (simp_all add: file_wf_def)

lemma indirect_owned: "indirect s ip \<noteq> 0 \<Longrightarrow> indirect s ip \<in> owned s ip"
  by (simp add: owned_iff)

lemma faddr_owned: "k < MAXFILE \<Longrightarrow> faddr s ip k \<noteq> 0 \<Longrightarrow> faddr s ip k \<in> owned s ip"
  by (auto simp: owned_iff)

lemma ownedD:
  assumes "file_wf s ip" "b \<in> owned s ip"
  shows "b \<in> tx_blocks s" "b \<notin> map_blocks s" "b \<notin> inode_blocks s" "in_use s b" "b < sb_size (sb s)"
    "\<not> free_block s b"
  using assms by (auto simp: file_wf_def free_block_def)

text \<open>A new address in the inode.\<close>

lemma bmap_addr_alloc:
  assumes s: "tx_ok (n + 2) {} s" "fs_ok s" "file_wf s ip" "free_block s f" and k: "k \<le> NDIRECT"
    "i_addrs (ino s ip) ! k = 0"
  obtains a s' where "bmap_addr ip k s = Ok (a, s')" "tx_ok n {} s'" "free_block s a"
    "fs_ok s'" "file_wf s' ip" "owned s' ip = insert a (owned s ip)" "grows ip s s'"
    "view s' a = replicate BSIZE 0" "i_addrs (ino s' ip) = (i_addrs (ino s ip))[k := a]"
    "\<forall>j < MAXFILE. faddr s' ip j = (if j = k \<and> k < NDIRECT then a else faddr s ip j)"
    "\<forall>c. c \<noteq> a \<and> c \<notin> map_blocks s \<longrightarrow> view s' c = view s c"
proof -
  have m: "map_ok s" using s(2) by (simp add: fs_ok_def)
  have H: "card {} \<le> n + 1" "map_blocks s \<inter> {} = {}" "\<forall>b. free_block s b \<longrightarrow> b \<notin> {}" by simp_all
  obtain a t where t: "balloc 1 s = Ok (a, t)" "free_block s a" "allocated a s t" "tx_ok n {} t"
    "tx_frame s t" "\<forall>j c. holds s j c \<longrightarrow> holds t j c" by (rule balloc_Ok[OF s(1) m H s(4)])
  note sb = tx_frameD(11)[OF t(5)] and ic = tx_frameD(10)[OF t(5)] and tb = lt.frame_blocks[OF t(5)]
  note al = allocated_use[OF t(3,2) m s(1) sb tb]
  let ?u = "set_addr ip k a t"
  note b = file_wf_basic[OF s(3)]
  have iu: "ino ?u ip = (ino s ip)\<lparr>i_addrs := (i_addrs (ino s ip))[k := a]\<rparr>" using b(1) ic by simp
  have r: "bmap_addr ip k s = Ok (a, ?u)" using k t(1) b(2) by (simp add: bmap_addr_def)
  have a0: "a \<noteq> 0" "a \<notin> owned s ip" using m t(2) ownedD(6)[OF s(3)] by (auto simp: map_ok_def)
  have vi: "view t (indirect s ip) = view s (indirect s ip)" if "indirect s ip \<noteq> 0"
    by (rule al(5)) (use indirect_owned[OF that] ownedD(2)[OF s(3)] a0(2) in auto)
  have ind: "indirect ?u ip = (if k = NDIRECT then a else indirect s ip)"
    using iu k(1) b(3) by (simp add: indirect_def)
  have fa: "faddr ?u ip j = (if j = k \<and> k < NDIRECT then a else faddr s ip j)" if "j < MAXFILE" for j
  proof (cases "j < NDIRECT")
    case True
    then show ?thesis using iu b(3) k(1) by (auto simp: faddr_def)
  next
    case False
    have "get32 (replicate BSIZE 0) (4 * (j - NDIRECT)) = 0" by (rule get32_zeros) (use that in simp)
    then show ?thesis
      using False ind vi al(4) k by (auto simp: faddr_def indirect_def)
  qed
  define l where "l = (if k = NDIRECT then MAXFILE else k)"
  have fl: "\<forall>j < MAXFILE. faddr ?u ip j = (if j = l then a else faddr s ip j)" using fa k(1) by (auto simp: l_def)
  have new: "if l < MAXFILE then faddr s ip l = 0 \<and> indirect ?u ip = indirect s ip
      else indirect s ip = 0 \<and> indirect ?u ip = a"
    using k ind by (auto simp: l_def faddr_def indirect_def)
  have "sb ?u = sb s" "tx_blocks ?u = tx_blocks s" "map_ok ?u" "ip < length (icache ?u)"
    "\<forall>b < sb_size (sb s). in_use ?u b \<longleftrightarrow> b = a \<or> in_use s b" "i_dev (ino ?u ip) = 1"
    "i_inum (ino ?u ip) = i_inum (ino s ip)" "i_size (ino ?u ip) = i_size (ino s ip)"
    "length (i_addrs (ino ?u ip)) = NDIRECT + 1"
    using sb tb al(1,2) b ic iu by simp_all
  note g = file_gains[OF s(2,3) t(2) this fl new]
  have "grows ip s ?u"
    unfolding grows_def g(3) using ino_frame_upd[OF t(5)] t(2) al(1,5) ic
      ownedD(4)[OF s(3)] by (auto simp: free_block_def upd_at_def)
  then show thesis
    using that[OF r _ t(2) g(1,2,3)] t(4) al(4,5) iu fa by simp
qed

text \<open>Nothing about files changes when the blocks and the inodes do not.\<close>

lemma same_view:
  assumes "tx_frame s s'" "view s' = view s"
  shows "faddr s' = faddr s" "indirect s' = indirect s" "owned s' = owned s" "fs_ok s' = fs_ok s"
    "file_wf s' ip = file_wf s ip" "fbyte s' = fbyte s" "free_block s' = free_block s"
    "file_wf s ip \<Longrightarrow> grows ip s s'"
proof -
  note f = tx_frameD(10,11)[OF assms(1)] lt.frame_blocks[OF assms(1)]
  note m = free_block_view[OF assms(2) f(2,3)]
  show i: "indirect s' = indirect s" by (simp add: fun_eq_iff indirect_def f(1))
  show a: "faddr s' = faddr s" by (simp add: fun_eq_iff faddr_def i f(1) assms(2))
  show o: "owned s' = owned s" by (simp add: fun_eq_iff owned_def i a)
  show "fbyte s' = fbyte s" by (simp add: fun_eq_iff fbyte_def a assms(2) Let_def)
  show "free_block s' = free_block s" by (rule m)
  have b: "inode_blocks s' = inode_blocks s" by (simp add: inode_blocks_def f(2))
  have u: "in_use s' = in_use s" by (simp add: fun_eq_iff in_use_def assms(2) f(2))
  show "fs_ok s' = fs_ok s" unfolding fs_ok_def m b f(3) ..
  show w: "file_wf s' ip = file_wf s ip" unfolding file_wf_def o a i b u f m(2) ..
  show "grows ip s s'" if "file_wf s ip"
    using grows_refl[OF that] tx_ino_frame[OF assms(1)] unfolding grows_def o u f m assms(2) by simp
qed

text \<open>A new address in the block of indirect addresses.\<close>

lemma bmap_entry_alloc:
  assumes s: "tx_ok (n + 3) {} s" "fs_ok s" "file_wf s ip" "free_block s f"
    and k: "NDIRECT \<le> k" "k < MAXFILE" "indirect s ip \<noteq> 0" "faddr s ip k = 0"
  obtains a s' where "bmap_entry ip (indirect s ip) (k - NDIRECT) s = Ok (a, s')" "tx_ok n {} s'"
    "free_block s a" "fs_ok s'" "file_wf s' ip" "owned s' ip = insert a (owned s ip)" "grows ip s s'"
    "view s' a = replicate BSIZE 0" "icache s' = icache s"
    "\<forall>j < MAXFILE. faddr s' ip j = (if j = k then a else faddr s ip j)"
    "\<forall>c. c \<noteq> a \<and> c \<notin> map_blocks s \<and> c \<noteq> indirect s ip \<longrightarrow> view s' c = view s c"
proof -
  let ?x = "indirect s ip"
  have x: "?x \<in> owned s ip" by (rule indirect_owned[OF k(3)])
  note xb = ownedD[OF s(3) x] and b = file_wf_basic[OF s(3)]
  obtain i s1 where g: "bread 1 ?x s = Ok (i, s1)" "tx_ok (n + 3) (insert ?x {}) s1" "holds s1 i ?x"
    "view s1 = view s" "tx_frame s s1" using lt.get_ok[OF s(1) xb(1)] by auto
  note v = same_view[OF g(5,4)] and m1 = free_block_view[OF g(4) tx_frameD(11)[OF g(5)] lt.frame_blocks[OF g(5)]]
  have m: "map_ok s1" using s(2) v(4) by (simp add: fs_ok_def)
  have H: "tx_ok (n + 1 + 2) {?x} s1" "card {?x} \<le> n + 1 + 1" "map_blocks s1 \<inter> {?x} = {}"
    "\<forall>b. free_block s1 b \<longrightarrow> b \<notin> {?x}" "free_block s1 f"
    using g(2) xb(2,6) s(4) v(7) m1(2) by (auto simp: numeral_3_eq_3)
  obtain a t where t: "balloc 1 s1 = Ok (a, t)" "free_block s1 a" "allocated a s1 t" "tx_ok (n + 1) {?x} t"
    "tx_frame s1 t" "\<forall>j c. holds s1 j c \<longrightarrow> holds t j c" by (rule balloc_Ok[OF H(1) m H(2-5)])
  have st: "tx_frame s t" by (rule tx_frame_trans[OF g(5) t(5)])
  note al = allocated_use[OF t(3,2) m g(2) tx_frameD(11)[OF t(5)] lt.frame_blocks[OF t(5)]]
  have a: "free_block s a" "a \<notin> owned s ip" using t(2) v(7) ownedD(6)[OF s(3)] by auto
  have ht: "holds t i ?x" "?x \<in> tx_blocks t" using t(6) g(3) xb(1) lt.frame_blocks[OF st] by auto
  have vx: "view t ?x = view s ?x" using al(5)[of ?x] a(2) x xb(2) m1(2) g(4) by auto
  have lx: "length (view s ?x) = BSIZE" by (rule lt.block_size[OF s(1) xb(1)])
  let ?off = "4 * (k - NDIRECT)"
  let ?d = "put32 (view t ?x) ?off a"
  have off: "?off + 4 \<le> BSIZE" using k by simp
  then have d: "length ?d = BSIZE" using lx vx by simp
  have "tx_ok (Suc n) {?x} t" using t(4) by simp
  from lt.put_ok[OF this ht d] obtain t2 where p: "tx_put i ?d t = Ok t2" "tx_ok n {?x} t2"
    "view t2 = (view t)(?x := ?d)" "tx_frame t t2" "\<forall>j c. holds t2 j c \<longleftrightarrow> holds t j c" by blast
  obtain u where u: "brelse i t2 = Ok u" "tx_ok n ({?x} - {?x}) u" "view u = view t2" "tx_frame t2 u"
    using lt.release_ok[OF p(2), of i ?x] p(5) ht(1) by blast
  have su: "tx_frame s u" using tx_frame_trans st p(4) u(4) by blast
  note fu = tx_frameD(10,11)[OF su] lt.frame_blocks[OF su]
  have dev: "i_dev (ino s1 ip) = 1" using b(2) tx_frameD(10)[OF g(5)] by simp
  have gz: "get32 (view s ?x) ?off = 0" using k by (simp add: faddr_def)
  have r: "bmap_entry ip ?x (k - NDIRECT) s = Ok (a, u)"
    using g(1) t(1) p(1) u(1) b(2) dev gz lt.has_data[OF g(2,3)] g(4) lt.has_data[OF t(4) ht(1)]
    by (simp add: bmap_entry_def)
  have vu: "view u = (view t)(?x := ?d)" using u(3) p(3) by simp
  have ind: "indirect u ip = ?x" by (simp add: indirect_def fu(1))
  have fa: "\<forall>j < MAXFILE. faddr u ip j = (if j = k then a else faddr s ip j)"
  proof (intro allI impI)
    fix j assume j: "j < MAXFILE"
    have "get32 ?d (4 * (j - NDIRECT)) = (if j = k then a else get32 (view s ?x) (4 * (j - NDIRECT)))" if "NDIRECT \<le> j"
    proof (cases "j = k")
      case False
      then have "4 * (j - NDIRECT) + 4 \<le> ?off \<or> ?off + 4 \<le> 4 * (j - NDIRECT)"
        using that k(1) by linarith
      then show ?thesis using False j off lx vx by simp
    qed (use off lx vx in simp)
    then show "faddr u ip j = (if j = k then a else faddr s ip j)"
      using k(1,3) ind vu fu(1) by (auto simp: faddr_def)
  qed
  have mb: "map_blocks u = map_blocks s" by (simp add: map_blocks_def fu(2))
  have use: "in_use u b \<longleftrightarrow> b = a \<or> in_use s b" if l: "b < sb_size (sb s)" for b
  proof -
    have "BBLOCK b (sb s) \<in> map_blocks s" using l by (auto simp: map_blocks_def)
    then have "BBLOCK b (sb s) \<noteq> ?x" using xb(2) by auto
    then have "in_use u b = in_use t b" by (simp add: in_use_def fu(2) tx_frameD(11)[OF st] vu)
    also have "\<dots> \<longleftrightarrow> b = a \<or> in_use s1 b" using al(1) l tx_frameD(11)[OF g(5)] by simp
    finally show ?thesis by (simp add: in_use_def g(4) tx_frameD(11)[OF g(5)])
  qed
  have mu: "map_ok u" using s(2) use unfolding fs_ok_def map_ok_def free_block_def mb fu by auto
  have new: "if k < MAXFILE then faddr s ip k = 0 \<and> indirect u ip = indirect s ip
      else indirect s ip = 0 \<and> indirect u ip = a" using k ind by simp
  have "sb u = sb s" "tx_blocks u = tx_blocks s" "map_ok u" "ip < length (icache u)"
    "\<forall>b < sb_size (sb s). in_use u b \<longleftrightarrow> b = a \<or> in_use s b" "i_dev (ino u ip) = 1"
    "i_inum (ino u ip) = i_inum (ino s ip)" "i_size (ino u ip) = i_size (ino s ip)"
    "length (i_addrs (ino u ip)) = NDIRECT + 1" using fu mu b use by simp_all
  note G = file_gains[OF s(2,3) a(1) this fa new]
  have other: "view u c = view s c" if "c \<notin> map_blocks s" "c \<notin> insert a (owned s ip)" for c
    using that x vu al(5)[of c] m1(2) g(4) by auto
  have "\<exists>as. icache u = upd_at ip (\<lambda>x. x\<lparr>i_addrs := as\<rparr>) (icache s)"
    using growsD(2)[OF grows_refl[OF s(3)]] fu(1) by simp
  then have "grows ip s u"
    unfolding grows_def G(3) using tx_ino_frame[OF su] a(1) use other ownedD(4)[OF s(3)] by auto
  moreover have "view u a = replicate BSIZE 0" using vu al(4) a(2) x by auto
  moreover have "\<forall>c. c \<noteq> a \<and> c \<notin> map_blocks s \<and> c \<noteq> ?x \<longrightarrow> view u c = view s c"
    using vu al(5) m1(2) g(4) by auto
  ultimately show thesis using that[OF r _ a(1) G] u(2) fu(1) fa by simp
qed

text \<open>
  The blocks that have to be allocated before all blocks of \<open>K\<close> are there: one for each that is
  missing, and the block of indirect addresses.
\<close>

definition need :: "kernel \<Rightarrow> nat \<Rightarrow> nat set \<Rightarrow> nat" where
  "need s ip K = card {k \<in> K. faddr s ip k = 0} + (if indirect s ip = 0 then 1 else 0)"

definition room :: "kernel \<Rightarrow> nat \<Rightarrow> nat set \<Rightarrow> bool" where
  "room s ip K \<longleftrightarrow> finite K \<and> K \<subseteq> {..<MAXFILE} \<and> need s ip K \<le> card (Collect (free_block s))"

lemma room_free:
  assumes "room s ip K" "k \<in> K" "faddr s ip k = 0"
  obtains f where "free_block s f"
proof -
  have "finite K" "k \<in> {k \<in> K. faddr s ip k = 0}" using assms by (auto simp: room_def)
  then have "card {k \<in> K. faddr s ip k = 0} \<noteq> 0" by (auto simp: card_eq_0_iff)
  then have "card (Collect (free_block s)) \<noteq> 0" using assms(1) unfolding room_def need_def by linarith
  then have "Collect (free_block s) \<noteq> {}" by (metis card.empty)
  then show thesis using that by blast
qed

lemma grows_free:
  assumes "grows ip s s'" "file_wf s ip" "owned s' ip = insert a (owned s ip)"
  shows "Collect (free_block s') = Collect (free_block s) - {a}"
  using assms ownedD(4)[OF assms(2)] ino_frameD(1)[OF growsD(1)[OF assms(1)]]
  by (auto simp: grows_def free_block_def)

lemma room_alloc:
  assumes "room s ip K" "grows ip s s'" "file_wf s ip" "owned s' ip = insert a (owned s ip)" "free_block s a"
    "Suc (need s' ip K) \<le> need s ip K"
  shows "room s' ip K"
proof -
  have "card (Collect (free_block s')) = card (Collect (free_block s)) - 1"
    unfolding grows_free[OF assms(2,3,4)] using assms(5) by simp
  then show ?thesis using assms(1,6) unfolding room_def by linarith
qed

lemma need_block:
  assumes "finite K" "k \<in> K" "K \<subseteq> {..<MAXFILE}" "faddr s ip k = 0" "faddr s' ip k \<noteq> 0" "indirect s' ip = indirect s ip"
    "\<forall>j < MAXFILE. j \<noteq> k \<longrightarrow> faddr s' ip j = faddr s ip j"
  shows "Suc (need s' ip K) \<le> need s ip K"
proof -
  have "{j \<in> K. faddr s ip j = 0} = insert k {j \<in> K. faddr s' ip j = 0}" using assms by auto
  moreover have "k \<notin> {j \<in> K. faddr s' ip j = 0}" using assms(5) by simp
  ultimately show ?thesis using assms(1,6) by (simp add: need_def)
qed

lemma fbyte_same:
  assumes "file_wf s ip" "grows ip s s'" "\<forall>j < MAXFILE. faddr s ip j \<noteq> 0 \<longrightarrow> faddr s' ip j = faddr s ip j"
    "\<forall>j < MAXFILE. faddr s ip j = 0 \<and> faddr s' ip j \<noteq> 0 \<longrightarrow> view s' (faddr s' ip j) = replicate BSIZE 0"
    "\<forall>j < MAXFILE. faddr s ip j \<noteq> 0 \<longrightarrow> view s' (faddr s ip j) = view s (faddr s ip j)"
    "p < MAXFILE * BSIZE"
  shows "fbyte s' ip p = fbyte s ip p"
proof -
  have "p div BSIZE < MAXFILE" using assms(6) by (simp add: less_mult_imp_div_less)
  then show ?thesis using assms(3,4,5) by (auto simp: fbyte_def Let_def)
qed

definition mapped :: "nat \<Rightarrow> nat \<Rightarrow> kernel \<Rightarrow> kernel \<Rightarrow> bool" where
  "mapped ip k s s' \<longleftrightarrow> fs_ok s' \<and> file_wf s' ip \<and> grows ip s s' \<and> faddr s' ip k \<noteq> 0 \<and>
     (\<forall>j < MAXFILE. j \<noteq> k \<longrightarrow> faddr s' ip j = faddr s ip j) \<and>
     (\<forall>p < MAXFILE * BSIZE. fbyte s' ip p = fbyte s ip p) \<and>
     (faddr s ip k \<noteq> 0 \<longrightarrow> icache s' = icache s)"


lemma mapped_gain:
  assumes s: "file_wf s ip" "room s ip K" "k \<in> K" "faddr s ip k = 0"
    and a: "free_block s a" "a \<noteq> 0" "fs_ok s'" "file_wf s' ip" "owned s' ip = insert a (owned s ip)"
      "grows ip s s'" "view s' a = replicate BSIZE 0" "indirect s' ip = indirect s ip"
      "\<forall>j < MAXFILE. faddr s' ip j = (if j = k then a else faddr s ip j)"
      "\<forall>c. c \<noteq> a \<and> c \<notin> map_blocks s \<and> c \<noteq> indirect s ip \<longrightarrow> view s' c = view s c"
  shows "mapped ip k s s'" "room s' ip K" "faddr s' ip k = a"
proof -
  have K: "finite K" "K \<subseteq> {..<MAXFILE}" "k < MAXFILE" using s(2,3) by (auto simp: room_def)
  show fk: "faddr s' ip k = a" using a(9) K(3) by simp
  have "Suc (need s' ip K) \<le> need s ip K"
    by (rule need_block[OF K(1) s(3) K(2) s(4) _ a(8)]) (use fk a(2,9) in auto)
  then show "room s' ip K" by (rule room_alloc[OF s(2) a(6) s(1) a(5,1)])
  have v: "view s' (faddr s ip j) = view s (faddr s ip j)" if "j < MAXFILE" "faddr s ip j \<noteq> 0" for j
  proof -
    note o = ownedD[OF s(1) faddr_owned[OF that]]
    have "faddr s ip j \<noteq> indirect s ip" using s(1) that by (auto simp: file_wf_def)
    then show ?thesis using a(10) o(2,6) a(1) by metis
  qed
  have "fbyte s' ip p = fbyte s ip p" if p: "p < MAXFILE * BSIZE" for p
    by (rule fbyte_same[OF s(1) a(6) _ _ _ p]) (use a(7,9) s(4) fk v in auto)
  then show "mapped ip k s s'" using a fk s(4) by (simp add: mapped_def)
qed

lemma mapped_refl: "fs_ok s \<Longrightarrow> file_wf s ip \<Longrightarrow> faddr s ip k \<noteq> 0 \<Longrightarrow> mapped ip k s s"
  by (simp add: mapped_def grows_refl)

lemma free_nonzero: "fs_ok s \<Longrightarrow> free_block s a \<Longrightarrow> a \<noteq> 0"
  by (auto simp: fs_ok_def map_ok_def)

lemma mapped_direct:
  assumes s: "tx_ok (n + 2) {} s" "fs_ok s" "file_wf s ip" "room s ip K" "k \<in> K" "k < NDIRECT"
  obtains s' where "bmap_addr ip k s = Ok (faddr s' ip k, s')" "tx_ok n {} s'" "mapped ip k s s'" "room s' ip K"
proof (cases "i_addrs (ino s ip) ! k = 0")
  case False
  then have f: "faddr s ip k = i_addrs (ino s ip) ! k" "faddr s ip k \<noteq> 0" using s(6) by (simp_all add: faddr_def)
  have "bmap_addr ip k s = Ok (faddr s ip k, s)" using False f(1) by (simp add: bmap_addr_def)
  moreover have "tx_ok n {} s" by (rule lt.fewer[OF s(1)]) simp
  ultimately show thesis using that mapped_refl[OF s(2,3) f(2)] s(4) by blast
next
  case True
  then have f0: "faddr s ip k = 0" using s(6) by (simp add: faddr_def)
  obtain f where f: "free_block s f" by (rule room_free[OF s(4,5) f0])
  have k: "k \<le> NDIRECT" using s(6) by simp
  obtain a s' where a: "bmap_addr ip k s = Ok (a, s')" "tx_ok n {} s'" "free_block s a"
    "fs_ok s'" "file_wf s' ip" "owned s' ip = insert a (owned s ip)" "grows ip s s'"
    "view s' a = replicate BSIZE 0" "i_addrs (ino s' ip) = (i_addrs (ino s ip))[k := a]"
    "\<forall>j < MAXFILE. faddr s' ip j = (if j = k \<and> k < NDIRECT then a else faddr s ip j)"
    "\<forall>c. c \<noteq> a \<and> c \<notin> map_blocks s \<longrightarrow> view s' c = view s c"
    by (rule bmap_addr_alloc[OF s(1-3) f k True])
  have "indirect s' ip = indirect s ip" using a(9) s(6) by (simp add: indirect_def)
  note g = mapped_gain[OF s(3-5) f0 a(3) free_nonzero[OF s(2) a(3)] a(4-8) this]
  show thesis by (rule that[OF _ a(2)]) (use a(1,10,11) s(6) g in auto)
qed


text \<open>The block of indirect addresses, allocated if there is none.\<close>

lemma bmap_indirect:
  assumes s: "tx_ok (n + 2) {} s" "fs_ok s" "file_wf s ip" "room s ip K" "k \<in> K" "faddr s ip k = 0 \<or> indirect s ip \<noteq> 0"
  obtains s' where "bmap_addr ip NDIRECT s = Ok (indirect s' ip, s')" "tx_ok n {} s'" "indirect s' ip \<noteq> 0"
    "fs_ok s'" "file_wf s' ip" "grows ip s s'" "\<forall>j < MAXFILE. faddr s' ip j = faddr s ip j"
    "\<forall>p < MAXFILE * BSIZE. fbyte s' ip p = fbyte s ip p" "room s' ip K"
    "indirect s ip \<noteq> 0 \<Longrightarrow> icache s' = icache s"
proof (cases "indirect s ip = 0")
  case False
  then have "bmap_addr ip NDIRECT s = Ok (indirect s ip, s)" by (simp add: bmap_addr_def indirect_def)
  moreover have "tx_ok n {} s" by (rule lt.fewer[OF s(1)]) simp
  ultimately show thesis using that False s(2,3,4) grows_refl[OF s(3)] by blast
next
  case True
  then have f0: "faddr s ip k = 0" "i_addrs (ino s ip) ! NDIRECT = 0" using s(6) by (simp_all add: indirect_def)
  obtain f where f: "free_block s f" by (rule room_free[OF s(4,5) f0(1)])
  obtain a s' where a: "bmap_addr ip NDIRECT s = Ok (a, s')" "tx_ok n {} s'" "free_block s a"
    "fs_ok s'" "file_wf s' ip" "owned s' ip = insert a (owned s ip)" "grows ip s s'"
    "view s' a = replicate BSIZE 0" "i_addrs (ino s' ip) = (i_addrs (ino s ip))[NDIRECT := a]"
    "\<forall>j < MAXFILE. faddr s' ip j = (if j = NDIRECT \<and> NDIRECT < NDIRECT then a else faddr s ip j)"
    "\<forall>c. c \<noteq> a \<and> c \<notin> map_blocks s \<longrightarrow> view s' c = view s c"
    by (rule bmap_addr_alloc[OF s(1-3) f order_refl f0(2)])
  have ind: "indirect s' ip = a" "a \<noteq> 0"
    using a(9) file_wf_basic(3)[OF s(3)] free_nonzero[OF s(2) a(3)] by (simp_all add: indirect_def)
  have fa: "\<forall>j < MAXFILE. faddr s' ip j = faddr s ip j" using a(10) by simp
  have K: "K \<subseteq> {..<MAXFILE}" using s(4) by (simp add: room_def)
  then have "{k \<in> K. faddr s' ip k = 0} = {k \<in> K. faddr s ip k = 0}" using fa by auto
  then have "Suc (need s' ip K) \<le> need s ip K" using ind True by (simp add: need_def)
  then have r: "room s' ip K" by (rule room_alloc[OF s(4) a(7) s(3) a(6,3)])
  have v: "view s' (faddr s ip j) = view s (faddr s ip j)" if "j < MAXFILE" "faddr s ip j \<noteq> 0" for j
    using ownedD(2,6)[OF s(3) faddr_owned[OF that]] a(3,11) by metis
  have "\<forall>p < MAXFILE * BSIZE. fbyte s' ip p = fbyte s ip p"
  proof (intro allI impI)
    fix p :: nat assume p: "p < MAXFILE * BSIZE"
    show "fbyte s' ip p = fbyte s ip p" by (rule fbyte_same[OF s(3) a(7) _ _ _ p]) (use fa v in auto)
  qed
  then show thesis using that a(1,2,4,5,7) ind fa r True by simp
qed

lemma bmap_entry_there:
  assumes s: "tx_ok n {} s" "file_wf s ip" and k: "NDIRECT \<le> k" "k < MAXFILE" "indirect s ip \<noteq> 0" "faddr s ip k \<noteq> 0"
  obtains s' where "bmap_entry ip (indirect s ip) (k - NDIRECT) s = Ok (faddr s ip k, s')" "tx_ok n {} s'"
    "tx_frame s s'" "view s' = view s"
proof -
  note x = ownedD[OF s(2) indirect_owned[OF k(3)]]
  obtain i s1 s2 where r: "bread 1 (indirect s ip) s = Ok (i, s1)" "bdata s1 i = view s (indirect s ip)"
    "brelse i s1 = Ok s2" "tx_ok n {} s2" "view s2 = view s" "tx_frame s s2"
    by (rule lt.read_block[OF s(1) x(1)]) auto
  have "bmap_entry ip (indirect s ip) (k - NDIRECT) s = Ok (faddr s ip k, s2)"
    using r(1-3) k file_wf_basic(2)[OF s(2)] by (auto simp: bmap_entry_def faddr_def Let_def)
  then show thesis using that r(4-6) by blast
qed

lemma bmap_Ok:
  assumes s: "tx_ok (n + 5) {} s" "fs_ok s" "file_wf s ip" "room s ip K" "k \<in> K"
  obtains s' where "bmap ip (of_nat k) s = Ok (faddr s' ip k, s')" "tx_ok n {} s'" "mapped ip k s s'" "room s' ip K"
proof -
  have k: "k < MAXFILE" using s(4,5) by (auto simp: room_def)
  then have uk: "unat (of_nat k :: uint32) = k" by (intro unat_of_nat_small) simp
  show thesis
  proof (cases "k < NDIRECT")
    case True
    have "tx_ok (n + 2) {} s" by (rule lt.fewer[OF s(1)]) simp
    from mapped_direct[OF this s(2-5) True] that show ?thesis using True uk by (auto simp: bmap_def)
  next
    case False
    have b: "unat (of_nat k - 12 :: uint32) = k - NDIRECT" using False uk by (simp add: unat_sub_if')
    have z: "faddr s ip k = 0 \<or> indirect s ip \<noteq> 0" using False by (simp add: faddr_def)
    have "tx_ok (n + 3 + 2) {} s" using s(1) by (simp add: add.commute)
    then obtain s1 where s1: "bmap_addr ip NDIRECT s = Ok (indirect s1 ip, s1)" "tx_ok (n + 3) {} s1"
      "indirect s1 ip \<noteq> 0" "fs_ok s1" "file_wf s1 ip" "grows ip s s1" "\<forall>j < MAXFILE. faddr s1 ip j = faddr s ip j"
      "\<forall>p < MAXFILE * BSIZE. fbyte s1 ip p = fbyte s ip p" "room s1 ip K"
      "indirect s ip \<noteq> 0 \<longrightarrow> icache s1 = icache s"
      by (rule bmap_indirect[OF _ s(2-5) z]) blast
    have bm: "bmap ip (of_nat k) s = bmap_entry ip (indirect s1 ip) (k - NDIRECT) s1"
    proof -
      have "k - NDIRECT < NINDIRECT" using k False by linarith
      then show ?thesis using False uk b s1(1) by (simp add: bmap_def)
    qed
    have "\<exists>s'. bmap_entry ip (indirect s1 ip) (k - NDIRECT) s1 = Ok (faddr s' ip k, s') \<and> tx_ok n {} s' \<and>
        mapped ip k s1 s' \<and> room s' ip K"
    proof (cases "faddr s1 ip k = 0")
      case True
      obtain f where f: "free_block s1 f" by (rule room_free[OF s1(9) s(5) True])
      have k12: "NDIRECT \<le> k" using False by simp
      obtain a s' where a: "bmap_entry ip (indirect s1 ip) (k - NDIRECT) s1 = Ok (a, s')" "tx_ok n {} s'"
        "free_block s1 a" "fs_ok s'" "file_wf s' ip" "owned s' ip = insert a (owned s1 ip)" "grows ip s1 s'"
        "view s' a = replicate BSIZE 0" "icache s' = icache s1"
        "\<forall>j < MAXFILE. faddr s' ip j = (if j = k then a else faddr s1 ip j)"
        "\<forall>c. c \<noteq> a \<and> c \<notin> map_blocks s1 \<and> c \<noteq> indirect s1 ip \<longrightarrow> view s' c = view s1 c"
        by (rule bmap_entry_alloc[OF s1(2,4,5) f k12 k s1(3) True])
      have i: "indirect s' ip = indirect s1 ip" using a(9) by (simp add: indirect_def)
      note g = mapped_gain[OF s1(5,9) s(5) True a(3) free_nonzero[OF s1(4) a(3)] a(4-8) i a(10,11)]
      show ?thesis using a(1,2) g by blast
    next
      case nz: False
      have k12: "NDIRECT \<le> k" using False by simp
      obtain s' where r: "bmap_entry ip (indirect s1 ip) (k - NDIRECT) s1 = Ok (faddr s1 ip k, s')"
        "tx_ok (n + 3) {} s'" "tx_frame s1 s'" "view s' = view s1"
        by (rule bmap_entry_there[OF s1(2,5) k12 k s1(3) nz])
      note v = same_view[OF r(3,4)]
      have "tx_ok n {} s'" by (rule lt.fewer[OF r(2)]) simp
      moreover have "mapped ip k s1 s'"
        using s1(4,5) nz tx_frameD(10)[OF r(3)] unfolding mapped_def v by (simp add: v(8))
      moreover have "room s' ip K" using s1(9) unfolding room_def need_def v(1,2,7) .
      ultimately show ?thesis using r(1) v(1) by metis
    qed
    then obtain s' where m: "bmap ip (of_nat k) s = Ok (faddr s' ip k, s')" "tx_ok n {} s'" "mapped ip k s1 s'"
      "room s' ip K" unfolding bm by blast
    have "mapped ip k s s'"
      using m(3) s1(6,7,8,10) z s1(7)[rule_format, OF k] grows_trans[OF s1(6)] unfolding mapped_def by auto
    then show ?thesis using that m(1,2,4) by blast
  qed
qed

section \<open>Writing\<close>

text \<open>The data of one block of the file is replaced.\<close>

lemma data_write:
  assumes f: "tx_frame s s'" and s: "fs_ok s" "file_wf s ip" "k < MAXFILE" "faddr s ip k \<noteq> 0"
    and v: "view s' = (view s)(faddr s ip k := d)"
  shows "faddr s' ip = faddr s ip" "indirect s' ip = indirect s ip" "fs_ok s'" "file_wf s' ip" "grows ip s s'"
    "room s' ip K = room s ip K"
    "p < MAXFILE * BSIZE \<Longrightarrow> fbyte s' ip p = (if p div BSIZE = k then d ! (p mod BSIZE) else fbyte s ip p)"
proof -
  let ?a = "faddr s ip k"
  note fr = tx_frameD(10,11)[OF f] lt.frame_blocks[OF f]
  note o = ownedD[OF s(2) faddr_owned[OF s(3,4)]]
  show i: "indirect s' ip = indirect s ip" by (simp add: indirect_def fr(1))
  have "?a \<noteq> indirect s ip" using s(2,3,4) by (auto simp: file_wf_def)
  then show a: "faddr s' ip = faddr s ip" by (auto simp: fun_eq_iff faddr_def i fr(1) v)
  have ow: "owned s' ip = owned s ip" by (simp add: owned_def i a)
  have m: "map_blocks s' = map_blocks s" "inode_blocks s' = inode_blocks s"
    by (simp_all add: map_blocks_def inode_blocks_def fr(2))
  have u: "in_use s' b = in_use s b" if "b < sb_size (sb s)" for b
  proof -
    have "BBLOCK b (sb s) \<in> map_blocks s" using that by (auto simp: map_blocks_def)
    then have "BBLOCK b (sb s) \<noteq> ?a" using o(2) by auto
    then show ?thesis by (simp add: in_use_def fr(2) v)
  qed
  have fb: "free_block s' = free_block s" using u by (auto simp: fun_eq_iff free_block_def fr(2))
  show "fs_ok s'" using s(1) unfolding fs_ok_def map_ok_def m fb fr .
  show "file_wf s' ip" using s(2) u unfolding file_wf_def ow a i m fr by auto
  show "grows ip s s'"
    using grows_refl[OF s(2)] tx_ino_frame[OF f] faddr_owned[OF s(3,4)] u v
    unfolding grows_def ow fr by auto
  show "room s' ip K = room s ip K" by (simp add: room_def need_def a i fb)
  show "fbyte s' ip p = (if p div BSIZE = k then d ! (p mod BSIZE) else fbyte s ip p)" if p: "p < MAXFILE * BSIZE"
  proof (cases "p div BSIZE = k")
    case True
    then show ?thesis using s(4) by (simp add: fbyte_def a v)
  next
    case False
    have "p div BSIZE < MAXFILE" using p by (simp add: less_mult_imp_div_less)
    then have "faddr s ip (p div BSIZE) \<noteq> 0 \<longrightarrow> faddr s ip (p div BSIZE) \<noteq> ?a"
      using file_wf_inj[OF s(2) _ s(3)] False by blast
    then show ?thesis using False by (auto simp: fbyte_def a v Let_def)
  qed
qed

text \<open>The bytes \<open>src\<close> replace those of \<open>f\<close> from offset \<open>q\<close> on.\<close>

definition bytes_put :: "byte list \<Rightarrow> nat \<Rightarrow> (nat \<Rightarrow> byte) \<Rightarrow> (nat \<Rightarrow> byte) \<Rightarrow> bool" where
  "bytes_put src q f g \<longleftrightarrow> (\<forall>p < MAXFILE * BSIZE.
     g p = (if q \<le> p \<and> p < q + length src then src ! (p - q) else f p))"

lemma bytes_put_nil [simp]: "bytes_put [] q f g \<longleftrightarrow> (\<forall>p < MAXFILE * BSIZE. g p = f p)"
  by (auto simp: bytes_put_def)

lemma bytes_put_trans:
  assumes f: "bytes_put xs q f g" and g: "bytes_put ys (q + length xs) g h"
  shows "bytes_put (xs @ ys) q f h"
  unfolding bytes_put_def
proof (intro allI impI)
  fix p assume p: "p < MAXFILE * BSIZE"
  show "h p = (if q \<le> p \<and> p < q + length (xs @ ys) then (xs @ ys) ! (p - q) else f p)"
  proof (cases "q + length xs \<le> p")
    case True
    have "h p = (if p < q + length xs + length ys then ys ! (p - (q + length xs)) else g p)"
      using g True p by (auto simp: bytes_put_def)
    moreover have "g p = f p" using f True p by (auto simp: bytes_put_def)
    moreover have "\<not> p - q < length xs" using True by linarith
    then have "(xs @ ys) ! (p - q) = ys ! (p - (q + length xs))" by (simp add: nth_append)
    ultimately show ?thesis using True by (auto simp: add.assoc)
  next
    case False
    have "h p = g p" using g False p by (auto simp: bytes_put_def)
    moreover have "g p = (if q \<le> p then xs ! (p - q) else f p)" using f False p by (auto simp: bytes_put_def)
    moreover have "(xs @ ys) ! (p - q) = xs ! (p - q)" if "q \<le> p"
    proof -
      have "p - q < length xs" using False that by linarith
      then show ?thesis by (simp add: nth_append)
    qed
    ultimately show ?thesis using False by auto
  qed
qed

text \<open>The state after the bytes \<open>src\<close> have been written at offset \<open>q\<close>.\<close>

definition written :: "nat \<Rightarrow> byte list \<Rightarrow> nat \<Rightarrow> kernel \<Rightarrow> kernel \<Rightarrow> bool" where
  "written ip src q s s' \<longleftrightarrow> fs_ok s' \<and> file_wf s' ip \<and> grows ip s s' \<and>
     (\<forall>j < MAXFILE. faddr s ip j \<noteq> 0 \<longrightarrow> faddr s' ip j \<noteq> 0) \<and>
     (\<forall>p. q \<le> p \<and> p < q + length src \<longrightarrow> faddr s' ip (p div BSIZE) \<noteq> 0) \<and>
     bytes_put src q (fbyte s ip) (fbyte s' ip) \<and>
     ((\<forall>p. q \<le> p \<and> p < q + length src \<longrightarrow> faddr s ip (p div BSIZE) \<noteq> 0) \<longrightarrow> icache s' = icache s)"

lemma same_block:
  fixes p q l :: nat
  assumes "q mod BSIZE + l \<le> BSIZE"
  shows "q \<le> p \<and> p < q + l \<longleftrightarrow>
    p div BSIZE = q div BSIZE \<and> q mod BSIZE \<le> p mod BSIZE \<and> p mod BSIZE < q mod BSIZE + l"
proof
  assume a: "q \<le> p \<and> p < q + l"
  have q: "BSIZE * (q div BSIZE) + q mod BSIZE = q" and p: "BSIZE * (p div BSIZE) + p mod BSIZE = p"
    by (rule mult_div_mod_eq)+
  have "p div BSIZE = q div BSIZE"
  proof (rule div_nat_eqI)
    show "BSIZE * (q div BSIZE) \<le> p" using a q by linarith
    show "p < BSIZE * Suc (q div BSIZE)" unfolding mult_Suc_right using a q assms by linarith
  qed
  then show "p div BSIZE = q div BSIZE \<and> q mod BSIZE \<le> p mod BSIZE \<and> p mod BSIZE < q mod BSIZE + l"
    using a p q by linarith
next
  assume "p div BSIZE = q div BSIZE \<and> q mod BSIZE \<le> p mod BSIZE \<and> p mod BSIZE < q mod BSIZE + l"
  then show "q \<le> p \<and> p < q + l"
    using mult_div_mod_eq[of BSIZE q] mult_div_mod_eq[of BSIZE p] by linarith
qed

text \<open>One round of the loop.\<close>

lemma write_block:
  assumes s: "tx_ok (n + 6) {} s" "fs_ok s" "file_wf s ip" "room s ip K" "q div BSIZE \<in> K"
    and bs: "q mod BSIZE + length bs \<le> BSIZE" "bs \<noteq> []"
  obtains s1 i s2 s3 s' where "bmap ip (of_nat (q div BSIZE)) s = Ok (faddr s1 ip (q div BSIZE), s1)"
    "bread (i_dev (ino s1 ip)) (faddr s1 ip (q div BSIZE)) s1 = Ok (i, s2)"
    "tx_put i (put_bytes (bdata s2 i) (q mod BSIZE) bs) s2 = Ok s3" "brelse i s3 = Ok s'" "tx_ok n {} s'"
    "written ip bs q s s'" "room s' ip K"
proof -
  let ?k = "q div BSIZE" and ?r = "q mod BSIZE"
  have "tx_ok (n + 1 + 5) {} s" using s(1) by (simp add: add.commute)
  then obtain s1 where m: "bmap ip (of_nat ?k) s = Ok (faddr s1 ip ?k, s1)" "tx_ok (n + 1) {} s1"
    "mapped ip ?k s s1" "room s1 ip K" by (rule bmap_Ok[OF _ s(2-5)])
  have k: "?k < MAXFILE" using s(4,5) by (auto simp: room_def)
  let ?a = "faddr s1 ip ?k"
  have w1: "fs_ok s1" "file_wf s1 ip" "?a \<noteq> 0" using m(3) by (auto simp: mapped_def)
  note o = ownedD[OF w1(2) faddr_owned[OF k w1(3)]]
  let ?d = "put_bytes (view s1 ?a) ?r bs"
  have la: "length (view s1 ?a) = BSIZE" by (rule lt.block_size[OF m(2) o(1)])
  have d: "length ?d = BSIZE" using la bs(1) by simp
  have t: "tx_ok (Suc n) {} s1" "card {} \<le> Suc n" using m(2) by simp_all
  obtain i s2 s3 s' where u: "bread 1 ?a s1 = Ok (i, s2)" "bdata s2 i = view s1 ?a"
    "tx_put i ?d s2 = Ok s3" "brelse i s3 = Ok s'" "tx_ok n {} s'" "view s' = (view s1)(?a := ?d)" "tx_frame s1 s'"
    by (rule lt.update_block[OF t(1) o(1) _ t(2), of "\<lambda>x. put_bytes x ?r bs"]) (use d in auto)
  note dw = data_write[OF u(7) w1(1,2) k w1(3) u(6)]
  have fb: "fbyte s' ip p = (if q \<le> p \<and> p < q + length bs then bs ! (p - q) else fbyte s ip p)"
    if p: "p < MAXFILE * BSIZE" for p
  proof -
    note e = same_block[OF bs(1), of p]
    have s1b: "fbyte s1 ip p = fbyte s ip p" using m(3) p by (simp add: mapped_def)
    show ?thesis
    proof (cases "p div BSIZE = ?k")
      case True
      have "?d ! (p mod BSIZE) = (if ?r \<le> p mod BSIZE \<and> p mod BSIZE < ?r + length bs
          then bs ! (p mod BSIZE - ?r) else view s1 ?a ! (p mod BSIZE))"
        by (rule nth_put_bytes) (use bs(1) la in simp_all)
      moreover have "p - q = p mod BSIZE - ?r" using True mult_div_mod_eq[of BSIZE q] mult_div_mod_eq[of BSIZE p] by linarith
      moreover have "fbyte s1 ip p = view s1 ?a ! (p mod BSIZE)" using True w1(3) by (simp add: fbyte_def)
      moreover have "fbyte s' ip p = ?d ! (p mod BSIZE)" using True dw(7)[OF p] by simp
      moreover have "(q \<le> p \<and> p < q + length bs) = (?r \<le> p mod BSIZE \<and> p mod BSIZE < ?r + length bs)"
        using e True by blast
      ultimately show ?thesis unfolding s1b by (simp only: if_True if_False split: if_split)
    next
      case False
      then have "\<not> (q \<le> p \<and> p < q + length bs)" using e by blast
      then show ?thesis using False s1b dw(7)[OF p] by (simp only: if_False simp_thms)
    qed
  qed
  have "faddr s' ip (p div BSIZE) \<noteq> 0" if "q \<le> p \<and> p < q + length bs" for p
    using same_block[OF bs(1), of p] that dw(1) w1(3) by simp
  moreover have "faddr s' ip j \<noteq> 0" if "j < MAXFILE" "faddr s ip j \<noteq> 0" for j
    using m(3) dw(1) w1(3) that by (cases "j = ?k") (auto simp: mapped_def)
  moreover have "grows ip s s'" using m(3) dw(5) grows_trans by (auto simp: mapped_def)
  moreover have "icache s' = icache s" if "\<forall>p. q \<le> p \<and> p < q + length bs \<longrightarrow> faddr s ip (p div BSIZE) \<noteq> 0"
    using m(3) tx_frameD(10)[OF u(7)] that[rule_format, of q] bs(2) by (simp add: mapped_def)
  ultimately have w: "written ip bs q s s'" unfolding written_def bytes_put_def using dw(3,4) fb by blast
  have dev: "i_dev (ino s1 ip) = 1" by (rule file_wf_basic(2)[OF w1(2)])
  show thesis
  proof (rule that[OF m(1) _ _ u(4,5) w])
    show "bread (i_dev (ino s1 ip)) ?a s1 = Ok (i, s2)" unfolding dev by (rule u(1))
    show "tx_put i (put_bytes (bdata s2 i) ?r bs) s2 = Ok s3" unfolding u(2) by (rule u(3))
    show "room s' ip K" unfolding dw(6) by (rule m(4))
  qed
qed

lemma written_trans:
  assumes "written ip xs q s t" "written ip ys (q + length xs) t u" "q + length xs + length ys \<le> MAXFILE * BSIZE"
  shows "written ip (xs @ ys) q s u"
proof -
  note a = assms(1)[unfolded written_def] and b = assms(2)[unfolded written_def]
  have "grows ip s u" using a b grows_trans by blast
  moreover have "faddr u ip (p div BSIZE) \<noteq> 0" if p: "q \<le> p" "p < q + length (xs @ ys)" for p
  proof (cases "p < q + length xs")
    case True
    have "p div BSIZE < MAXFILE" using p assms(3) by (simp add: less_mult_imp_div_less)
    then show ?thesis using a b p(1) True by blast
  next
    case False
    then show ?thesis using b p(2) by (simp add: add.assoc)
  qed
  moreover have "bytes_put (xs @ ys) q (fbyte s ip) (fbyte u ip)" using a b bytes_put_trans by blast
  moreover have "icache u = icache s"
    if all: "\<forall>p. q \<le> p \<and> p < q + length (xs @ ys) \<longrightarrow> faddr s ip (p div BSIZE) \<noteq> 0"
  proof -
    have "icache t = icache s" using a all by simp
    moreover have "faddr t ip (p div BSIZE) \<noteq> 0" if p: "q + length xs \<le> p \<and> p < q + length xs + length ys" for p
    proof -
      have "p div BSIZE < MAXFILE" using p assms(3) by (simp add: less_mult_imp_div_less)
      then show ?thesis using a all p by simp
    qed
    ultimately show ?thesis using b by simp
  qed
  ultimately show ?thesis using a b unfolding written_def by blast
qed

lemma written_nil: "fs_ok s \<Longrightarrow> file_wf s ip \<Longrightarrow> written ip [] q s s"
  by (auto simp: written_def grows_refl)

text \<open>How many rounds the loops of \<open>readi\<close> and \<open>writei\<close> take for \<open>n\<close> bytes at offset \<open>q\<close>.\<close>

definition rounds :: "nat \<Rightarrow> nat \<Rightarrow> nat" where
  "rounds q n = (if n = 0 then 0 else (q mod BSIZE + n + 511) div BSIZE)"

lemma rounds_step:
  fixes q :: nat
  assumes "0 < n"
  defines "m \<equiv> min n (BSIZE - q mod BSIZE)"
  shows "Suc (rounds (q + m) (n - m)) \<le> rounds q n"
proof (cases "n \<le> BSIZE - q mod BSIZE")
  case True
  then show ?thesis using assms by (simp add: rounds_def div_le_mono[of 512, simplified])
next
  case False
  then have m: "m = BSIZE - q mod BSIZE" "0 < n - m" by (simp_all add: m_def)
  have "q mod BSIZE < BSIZE" by simp
  then have "q + m = BSIZE * Suc (q div BSIZE)"
    unfolding m(1) mult_Suc_right using mult_div_mod_eq[of BSIZE q] by linarith
  then have z: "(q + m) mod BSIZE = 0" by simp
  have "Suc ((n - m + 511) div BSIZE) = (n - m + 511 + BSIZE) div BSIZE" by simp
  also have "n - m + 511 + BSIZE = q mod BSIZE + n + 511" using False m(1) by simp
  finally show ?thesis using z m(2) assms(1) by (simp add: rounds_def)
qed

lemma chunk_facts:
  fixes q :: nat
  assumes "0 < n" "q + n \<le> MAXFILE * BSIZE"
  defines "m \<equiv> chunk (of_nat q) n"
  shows "unat (of_nat q :: uint32) = q" "of_nat q div 512 = (of_nat (q div BSIZE) :: uint32)"
    "0 < m" "m \<le> n" "q mod BSIZE + m \<le> BSIZE" "Suc (rounds (q + m) (n - m)) \<le> rounds q n"
proof -
  show u: "unat (of_nat q :: uint32) = q" by (rule unat_of_nat_small) (use assms(2) in simp)
  have "q div BSIZE \<le> q" by simp
  then have "unat (of_nat (q div BSIZE) :: uint32) = q div BSIZE" using assms(2) by (intro unat_of_nat_small) simp
  then show "of_nat q div 512 = (of_nat (q div BSIZE) :: uint32)" by (simp add: word_unat_eq_iff unat_div u)
  have m: "m = min n (BSIZE - q mod BSIZE)" by (simp add: m_def chunk_def u)
  then show "0 < m" "m \<le> n" "q mod BSIZE + m \<le> BSIZE" using assms(1) by simp_all
  show "Suc (rounds (q + m) (n - m)) \<le> rounds q n" unfolding m by (rule rounds_step[OF assms(1)])
qed

lemma writei_loop_Ok:
  assumes "tx_ok (n + 6 * rounds q (length src)) {} s" "fs_ok s" "file_wf s ip" "room s ip K"
    "q + length src \<le> MAXFILE * BSIZE" "\<forall>p. q \<le> p \<and> p < q + length src \<longrightarrow> p div BSIZE \<in> K"
  shows "\<exists>s'. writei_loop ip src (of_nat q) s = Ok (of_nat (q + length src), s') \<and> tx_ok n {} s' \<and>
    written ip src q s s' \<and> room s' ip K"
  using assms
proof (induction "length src" arbitrary: src q s rule: less_induct)
  case less
  show ?case
  proof (cases "src = []")
    case True
    then show ?thesis using less.prems written_nil by (simp add: writei_loop.simps rounds_def)
  next
    case False
    let ?m = "chunk (of_nat q) (length src)"
    note c = chunk_facts[of "length src" q, OF _ less.prems(5)]
    have f: "unat (of_nat q :: uint32) = q" "of_nat q div 512 = (of_nat (q div BSIZE) :: uint32)"
      "0 < ?m" "?m \<le> length src" "q mod BSIZE + ?m \<le> BSIZE"
      "Suc (rounds (q + ?m) (length src - ?m)) \<le> rounds q (length src)" using c False by simp_all
    let ?bs = "take ?m src" and ?rest = "drop ?m src"
    let ?n = "n + 6 * rounds (q + ?m) (length ?rest)"
    have "tx_ok (?n + 6) {} s" by (rule lt.fewer[OF less.prems(1)]) (use f(6) in simp)
    moreover have "q div BSIZE \<in> K" using less.prems(6) False by simp
    moreover have "q mod BSIZE + length ?bs \<le> BSIZE" "?bs \<noteq> []" using f(3,4,5) False by auto
    ultimately obtain s1 i s2 s3 s4 where w: "bmap ip (of_nat (q div BSIZE)) s = Ok (faddr s1 ip (q div BSIZE), s1)"
      "bread (i_dev (ino s1 ip)) (faddr s1 ip (q div BSIZE)) s1 = Ok (i, s2)"
      "tx_put i (put_bytes (bdata s2 i) (q mod BSIZE) ?bs) s2 = Ok s3" "brelse i s3 = Ok s4" "tx_ok ?n {} s4"
      "written ip ?bs q s s4" "room s4 ip K"
      by (rule write_block[OF _ less.prems(2-4)])
    have l: "length ?bs = ?m" using f(4) by simp
    have w4: "fs_ok s4" "file_wf s4 ip" using w(6) by (auto simp: written_def)
    have "length ?rest < length src" using f(3) False by simp
    moreover have "q + ?m + length ?rest \<le> MAXFILE * BSIZE" using less.prems(5) f(4) by simp
    moreover have "\<forall>p. q + ?m \<le> p \<and> p < q + ?m + length ?rest \<longrightarrow> p div BSIZE \<in> K"
      using less.prems(6) f(4) by simp
    ultimately obtain s' where r: "writei_loop ip ?rest (of_nat (q + ?m)) s4 = Ok (of_nat (q + ?m + length ?rest), s')"
      "tx_ok n {} s'" "written ip ?rest (q + ?m) s4 s'" "room s' ip K"
      using less.hyps[OF _ w(5) w4 w(7)] by blast
    have "written ip (?bs @ ?rest) q s s'"
      by (rule written_trans[OF w(6)]) (use r(3) l less.prems(5) f(4) in simp_all)
    moreover have "writei_loop ip src (of_nat q) s = Ok (of_nat (q + length src), s')"
      using False w(1-4) r(1) f(1,2,4) by (subst writei_loop.simps) (simp add: Let_def)
    ultimately show ?thesis using r(2,4) by simp
  qed
qed

section \<open>Inodes on disk\<close>

lemma foldl_put32_length:
  "base + 4 * n \<le> length d \<Longrightarrow>
   length (foldl (\<lambda>d k. put32 d (base + 4 * k) (f k)) d [0..<n]) = length d"
  by (induction n) simp_all

lemma foldl_put32_get:
  "base + 4 * n \<le> length d \<Longrightarrow> j < n \<Longrightarrow>
   get32 (foldl (\<lambda>d k. put32 d (base + 4 * k) (f k)) d [0..<n]) (base + 4 * j) = f j"
proof (induction n)
  case (Suc n)
  then have l: "base + 4 * n + 4 \<le> length d" "base + 4 * n \<le> length d" by simp_all
  show ?case
  proof (cases "j = n")
    case False
    then have "j < n" "base + 4 * j + 4 \<le> base + 4 * n" using Suc.prems by simp_all
    then show ?thesis using l Suc.IH by (simp add: foldl_put32_length)
  qed (use l in \<open>simp add: foldl_put32_length\<close>)
qed simp

lemma foldl_put32_below:
  assumes "base + 4 * n \<le> length d"
  shows "o' + 4 \<le> base \<Longrightarrow> get32 (foldl (\<lambda>d k. put32 d (base + 4 * k) (f k)) d [0..<n]) o' = get32 d o'"
    and "o' + 2 \<le> base \<Longrightarrow> get16 (foldl (\<lambda>d k. put32 d (base + 4 * k) (f k)) d [0..<n]) o' = get16 d o'"
  using assms by (induction n) (simp_all add: foldl_put32_length)

lemma put_dinode_length: "off + 64 \<le> length d \<Longrightarrow> length (put_dinode d off x) = length d"
  unfolding put_dinode_def by (subst foldl_put32_length) simp_all

lemma get_put_dinode:
  assumes "off + 64 \<le> length d" "length (i_addrs x) = NDIRECT + 1"
  shows "get_dinode (put_dinode d off x) off y =
    y\<lparr>i_type := i_type x, i_major := i_major x, i_minor := i_minor x, i_nlink := i_nlink x,
      i_size := i_size x, i_addrs := i_addrs x\<rparr>"
proof -
  let ?h = "put32 (put16 (put16 (put16 (put16 d off (i_type x)) (off + 2) (i_major x))
          (off + 4) (i_minor x)) (off + 6) (i_nlink x)) (off + 8) (i_size x)"
  have h: "off + 12 + 4 * (NDIRECT + 1) \<le> length ?h" using assms(1) by simp
  note f = foldl_put32_get[OF h, where f = "\<lambda>k. i_addrs x ! k", folded put_dinode_def]
    foldl_put32_below[OF h, where f = "\<lambda>k. i_addrs x ! k", folded put_dinode_def]
  have "map (\<lambda>k. get32 (put_dinode d off x) (off + 12 + 4 * k)) [0..<NDIRECT + 1] = map ((!) (i_addrs x)) [0..<NDIRECT + 1]"
    by (rule map_cong) (use f(1) in simp_all)
  also have "\<dots> = i_addrs x" using assms(2) map_nth[of "i_addrs x"] by simp
  finally have a: "map (\<lambda>k. get32 (put_dinode d off x) (off + 12 + 4 * k)) [0..<NDIRECT + 1] = i_addrs x" .
  show ?thesis unfolding get_dinode_def a using assms(1) f(2)[of "off + 8"] f(3) by simp
qed

text \<open>Storing an inode touches none of the block outside of its own 64 bytes.\<close>

lemma get_put_other:
  assumes "o' + n \<le> off \<or> off + 4 \<le> o'" "off + 4 \<le> length d" "o' + n \<le> length d"
  shows "get_bytes (put32 d off w) o' n = get_bytes d o' n" "get_bytes (put16 d off v) o' n = get_bytes d o' n"
  using assms by (auto simp: put32_def put16_def intro!: get_put_bytes_other)

lemma foldl_put32_other:
  assumes "o' + n \<le> base \<or> base + 4 * k \<le> o'" "base + 4 * k \<le> length d" "o' + n \<le> length d"
  shows "get_bytes (foldl (\<lambda>d k. put32 d (base + 4 * k) (f k)) d [0..<k]) o' n = get_bytes d o' n"
  using assms
proof (induction k)
  case (Suc k)
  have "get_bytes (put32 (foldl (\<lambda>d k. put32 d (base + 4 * k) (f k)) d [0..<k]) (base + 4 * k) (f k)) o' n =
      get_bytes (foldl (\<lambda>d k. put32 d (base + 4 * k) (f k)) d [0..<k]) o' n"
    by (rule get_put_other(1)) (use Suc.prems in \<open>auto simp: foldl_put32_length\<close>)
  then show ?case using Suc by force
qed simp

lemma put_dinode_other:
  assumes "o' + 64 \<le> off \<or> off + 64 \<le> o'" "off + 64 \<le> length d" "o' + 64 \<le> length d"
  shows "get_bytes (put_dinode d off x) o' 64 = get_bytes d o' 64"
proof -
  have "get_bytes (put_dinode d off x) o' 64 =
      get_bytes (put32 (put16 (put16 (put16 (put16 d off (i_type x)) (off + 2) (i_major x))
          (off + 4) (i_minor x)) (off + 6) (i_nlink x)) (off + 8) (i_size x)) o' 64"
    unfolding put_dinode_def by (rule foldl_put32_other) (use assms in auto)
  also have "\<dots> = get_bytes d o' 64"
  proof -
    note g = get_put_other[where o' = o' and n = 64]
    show ?thesis by (subst g, use assms in force, use assms in simp, use assms in simp)+ (rule refl)
  qed
  finally show ?thesis .
qed

text \<open>
  The stored inodes: the 64 bytes of inode \<open>j\<close> on the disk as the cache shows them, and that those of
  a cached inode hold its fields.
\<close>

definition stored_inode :: "kernel \<Rightarrow> uint32 \<Rightarrow> byte list" where
  "stored_inode s j = get_bytes (view s (IBLOCK j (sb s))) (inode_off j) 64"

definition in_sync :: "kernel \<Rightarrow> nat \<Rightarrow> bool" where
  "in_sync s ip \<longleftrightarrow> get_dinode (view s (IBLOCK (i_inum (ino s ip)) (sb s))) (inode_off (i_inum (ino s ip))) (ino s ip) = ino s ip"

definition inodes_kept :: "nat \<Rightarrow> kernel \<Rightarrow> kernel \<Rightarrow> bool" where
  "inodes_kept ip s s' \<longleftrightarrow>
     (\<forall>j < sb_ninodes (sb s). j \<noteq> i_inum (ino s ip) \<longrightarrow> stored_inode s' j = stored_inode s j)"

lemma inode_off_bound: "inode_off j + 64 \<le> BSIZE"
proof -
  have "unat j mod IPB < IPB" by simp
  then show ?thesis unfolding inode_off_def by simp
qed

lemma inode_off_apart:
  assumes "IBLOCK i x = IBLOCK j x" "i \<noteq> j"
  shows "inode_off i + 64 \<le> inode_off j \<or> inode_off j + 64 \<le> inode_off i"
proof -
  have "i div 8 = j div 8" using assms(1) by (simp add: IBLOCK_def)
  then have "unat (i div 8) = unat (j div 8)" by simp
  then have "unat i div IPB = unat j div IPB" by (simp add: unat_div)
  moreover have "unat i \<noteq> unat j" using assms(2) by (simp add: word_unat_eq_iff)
  ultimately have "unat i mod IPB \<noteq> unat j mod IPB" by (metis mult_div_mod_eq)
  then show ?thesis unfolding inode_off_def by linarith
qed

lemma inodes_keptI:
  assumes "sb s' = sb s" and "\<And>b. b \<in> inode_blocks s \<Longrightarrow> view s' b = view s b"
  shows "inodes_kept ip s s'"
proof -
  have "view s' (IBLOCK j (sb s)) = view s (IBLOCK j (sb s))" if "j < sb_ninodes (sb s)" for j
    by (rule assms(2)) (use that in \<open>auto simp: inode_blocks_def\<close>)
  then show ?thesis using assms(1) by (simp add: inodes_kept_def stored_inode_def)
qed

lemma inodes_kept_trans:
  "inodes_kept ip s t \<Longrightarrow> inodes_kept ip t u \<Longrightarrow> sb t = sb s \<Longrightarrow> i_inum (ino t ip) = i_inum (ino s ip) \<Longrightarrow>
   inodes_kept ip s u"
  by (simp add: inodes_kept_def)

lemma in_sync_same:
  assumes "sb s' = sb s" "ino s' ip = (ino s ip)\<lparr>i_lock := lk\<rparr>"
    "view s' (IBLOCK (i_inum (ino s ip)) (sb s)) = view s (IBLOCK (i_inum (ino s ip)) (sb s))" "in_sync s ip"
  shows "in_sync s' ip"
  using assms by (cases "ino s ip") (simp add: in_sync_def get_dinode_def)

text \<open>The effect of \<open>iupdate\<close> on the stored inodes.\<close>

lemma update_stored:
  assumes b: "length (view s (IBLOCK i (sb s))) = BSIZE" and i: "i = i_inum (ino s ip)"
    "length (i_addrs (ino s ip)) = NDIRECT + 1" and s': "sb s' = sb s" "ino s' ip = ino s ip"
    "view s' = (view s)(IBLOCK i (sb s) := put_dinode (view s (IBLOCK i (sb s))) (inode_off i) (ino s ip))"
  shows "inodes_kept ip s s'" "in_sync s' ip"
proof -
  have "stored_inode s' j = stored_inode s j" if "j \<noteq> i" for j
  proof (cases "IBLOCK j (sb s) = IBLOCK i (sb s)")
    case True
    have "get_bytes (put_dinode (view s (IBLOCK i (sb s))) (inode_off i) (ino s ip)) (inode_off j) 64 =
        get_bytes (view s (IBLOCK i (sb s))) (inode_off j) 64"
      by (rule put_dinode_other) (use inode_off_apart[OF True that] inode_off_bound[of i] inode_off_bound[of j] b in auto)
    then show ?thesis using True s' by (simp add: stored_inode_def)
  qed (simp add: stored_inode_def s')
  then show "inodes_kept ip s s'" using i(1) by (simp add: inodes_kept_def)
  show "in_sync s' ip"
    using get_put_dinode[of "inode_off i" "view s (IBLOCK i (sb s))" "ino s ip" "ino s ip"] b i inode_off_bound[of i] s'
    by (simp add: in_sync_def)
qed

text \<open>
  C23. An inode survives the way to its block and back: reading the fields at the place where an
  inode has been stored gives that inode, whatever inode they are read into.
\<close>

theorem dinode_roundtrip:
  assumes "off + 64 \<le> length d" "length (i_addrs x) = NDIRECT + 1"
  shows "get_dinode (put_dinode d off x) off y =
    y\<lparr>i_type := i_type x, i_major := i_major x, i_minor := i_minor x, i_nlink := i_nlink x,
      i_size := i_size x, i_addrs := i_addrs x\<rparr>"
  by (rule get_put_dinode[OF assms])

theorem dinode_roundtrip_witness:
  "\<forall>y. i_size (get_dinode (put_dinode (replicate BSIZE 0) 64 \<lparr>i_dev = 1, i_inum = 1, i_ref = 1, i_lock = initsleeplock,
      i_valid = True, i_type = 2, i_major = 0, i_minor = 0, i_nlink = 1, i_size = 0x12345, i_addrs = replicate 13 7\<rparr>) 64 y) = 0x12345"
  by (intro allI, subst dinode_roundtrip) simp_all

end
