(* ===== verification/FileOps.thy ===== *)
theory FileOps
  imports FileData SwapFile
begin

text \<open>
  \<open>writei\<close> and \<open>readi\<close> of src/fs.c, \<open>filewrite\<close> and \<open>fileread\<close> of src/file.c and the reading and
  writing of the swap file at the end of src/fs.c, against the contents of the file: what happens to
  the bytes of the file across the transactions of one call, and that everything else stays as it was.
\<close>

section \<open>Frames across transactions\<close>

text \<open>
  What the operations on a file leave alone whether or not they open a transaction: everything but
  the cache, the disk and the log, the inodes and the open files; \<open>wakes\<close> allows that processes
  are woken up.
\<close>

definition fs_frame :: "kernel \<Rightarrow> kernel \<Rightarrow> bool" where
  "fs_frame s s' \<longleftrightarrow> cache_frame (s\<lparr>icache := icache s', ftable := ftable s'\<rparr>) s' \<and>
     log_area s' = log_area s"

lemma cache_frame_upd:
  "cache_frame s s' \<Longrightarrow>
   cache_frame (s\<lparr>icache := x, ftable := y\<rparr>) (s'\<lparr>icache := x, ftable := y\<rparr>)"
  unfolding cache_frame_def
  apply (elim conjE, intro conjI)
   apply simp
  apply (drule arg_cong[where f = "\<lambda>s. s\<lparr>icache := x, ftable := y\<rparr>"], simp)
  done

lemma fs_frame_upd:
  assumes "cache_frame s s'" "log_area s' = log_area s"
  shows "fs_frame s (s'\<lparr>icache := x, ftable := y\<rparr>)" "fs_frame s (s'\<lparr>icache := x\<rparr>)" "fs_frame s (s'\<lparr>ftable := y\<rparr>)"
    "fs_frame s s'"
proof -
  show a: "fs_frame s (s'\<lparr>icache := x, ftable := y\<rparr>)" for x y
    using cache_frame_upd[OF assms(1)] assms(2) by (simp add: fs_frame_def log_area_def)
  show "fs_frame s (s'\<lparr>icache := x\<rparr>)" using a[where x = x and y = "ftable s'"] by simp
  show "fs_frame s (s'\<lparr>ftable := y\<rparr>)" using a[where x = "icache s'" and y = y] by simp
  show "fs_frame s s'" using a[where x = "icache s'" and y = "ftable s'"] by simp
qed

lemma fs_frame_refl [simp]: "fs_frame s s" "fs_frame s (s\<lparr>icache := x\<rparr>)" "fs_frame s (s\<lparr>ftable := y\<rparr>)"
  using fs_frame_upd[of s s] by (simp_all add: cache_frame_refl)

lemma fs_frame_trans: "fs_frame s t \<Longrightarrow> fs_frame t u \<Longrightarrow> fs_frame s u"
proof -
  assume a: "fs_frame s t" "fs_frame t u"
  have "cache_frame (s\<lparr>icache := icache u, ftable := ftable u\<rparr>) (t\<lparr>icache := icache u, ftable := ftable u\<rparr>)"
    using cache_frame_upd[of "s\<lparr>icache := icache t, ftable := ftable t\<rparr>" t "ftable u" "icache u"] a(1)
    by (simp add: fs_frame_def)
  then show ?thesis using a cache_frame_trans by (auto simp: fs_frame_def)
qed

lemma ino_fs_frame: "ino_frame s s' \<Longrightarrow> fs_frame s s'"
proof -
  assume a: "ino_frame s s'"
  have "cache_frame (s\<lparr>icache := icache s'\<rparr>) s'" "log_area s' = log_area s"
    using tx_frameD(1)[OF a[unfolded ino_frame_def]] ino_frameD(5)[OF a] by simp_all
  then show ?thesis
    using cache_frame_upd[of "s\<lparr>icache := icache s'\<rparr>" s' "ftable s'" "icache s'"] by (simp add: fs_frame_def)
qed

lemma fs_frameD:
  assumes "fs_frame s s'"
  shows "sb s' = sb s" "tx_blocks s' = tx_blocks s" "map_blocks s' = map_blocks s"
    "inode_blocks s' = inode_blocks s" "log_area s' = log_area s" "disksize s' = disksize s"
    "mem s' = mem s" "kmem s' = kmem s" "cur s' = cur s" "wakes (procs s) (procs s')"
proof -
  have c: "cache_frame (s\<lparr>icache := icache s', ftable := ftable s'\<rparr>) s'" using assms by (simp add: fs_frame_def)
  show "sb s' = sb s" "disksize s' = disksize s" "mem s' = mem s" "kmem s' = kmem s" "cur s' = cur s"
    using cache_frameD(1,2,5,10,11)[OF c] by simp_all
  moreover show l: "log_area s' = log_area s" using assms by (simp add: fs_frame_def)
  ultimately show "tx_blocks s' = tx_blocks s" "map_blocks s' = map_blocks s" "inode_blocks s' = inode_blocks s"
    by (simp_all add: tx_blocks_def map_blocks_def inode_blocks_def)
  show "wakes (procs s) (procs s')" using c unfolding cache_frame_def by simp
qed

section \<open>Files across transactions\<close>

text \<open>Nothing changes but the log, the stored inode, and of the inode the lock and the size.\<close>

definition calm :: "nat \<Rightarrow> kernel \<Rightarrow> kernel \<Rightarrow> bool" where
  "calm ip s s' \<longleftrightarrow> fs_frame s s' \<and> (\<forall>b \<in> tx_blocks s - inode_blocks s. view s' b = view s b) \<and>
     inodes_kept ip s s' \<and> (\<exists>lk sz. icache s' = upd_at ip (\<lambda>x. x\<lparr>i_lock := lk, i_size := sz\<rparr>) (icache s))"

lemma calm_ino:
  "calm ip s s' \<Longrightarrow> ip < length (icache s) \<Longrightarrow>
   \<exists>lk. ino s' ip = (ino s ip)\<lparr>i_lock := lk, i_size := i_size (ino s' ip)\<rparr>"
  by (auto simp: calm_def)

lemma calm_file:
  assumes c: "calm ip s s'" and s: "fs_ok s" "file_wf s ip"
  shows "indirect s' ip = indirect s ip" "faddr s' ip = faddr s ip" "owned s' ip = owned s ip"
    "b < sb_size (sb s) \<Longrightarrow> in_use s' b = in_use s b" "free_block s' = free_block s"
    "fs_ok s'" "room s' ip K = room s ip K" "p < MAXFILE * BSIZE \<Longrightarrow> fbyte s' ip p = fbyte s ip p"
    "\<forall>k. k * BSIZE < unat (i_size (ino s' ip)) \<longrightarrow> k < MAXFILE \<and> faddr s ip k \<noteq> 0 \<Longrightarrow> file_wf s' ip"
proof -
  have v: "view s' b = view s b" if "b \<in> tx_blocks s" "b \<notin> inode_blocks s" for b
    using c that by (simp add: calm_def)
  note fr = fs_frameD[OF c[unfolded calm_def, THEN conjunct1]]
  obtain lk where i: "ino s' ip = (ino s ip)\<lparr>i_lock := lk, i_size := i_size (ino s' ip)\<rparr>"
    using calm_ino[OF c file_wf_basic(1)[OF s(2)]] by blast
  have as: "i_addrs (ino s' ip) = i_addrs (ino s ip)" "i_dev (ino s' ip) = i_dev (ino s ip)"
    "i_inum (ino s' ip) = i_inum (ino s ip)" by (subst i, simp)+
  have l: "length (icache s') = length (icache s)" using c by (auto simp: calm_def)
  have ov: "view s' b = view s b" if "b \<in> owned s ip" for b using v ownedD(1,3)[OF s(2) that] by blast
  show ind: "indirect s' ip = indirect s ip" by (simp add: indirect_def as)
  show a: "faddr s' ip = faddr s ip" using ov indirect_owned by (auto simp: fun_eq_iff faddr_def ind as)
  show o: "owned s' ip = owned s ip" by (simp add: owned_def ind a)
  show u: "in_use s' b = in_use s b" if "b < sb_size (sb s)" for b
  proof -
    have "BBLOCK b (sb s) \<in> map_blocks s" using that by (auto simp: map_blocks_def)
    then have "BBLOCK b (sb s) \<in> tx_blocks s" "BBLOCK b (sb s) \<notin> inode_blocks s"
      using s(1) by (auto simp: fs_ok_def map_ok_def)
    then show ?thesis by (simp add: in_use_def fr v)
  qed
  then show fb: "free_block s' = free_block s" by (auto simp: fun_eq_iff free_block_def fr)
  show "fs_ok s'" using s(1) unfolding fs_ok_def map_ok_def fb fr .
  show "room s' ip K = room s ip K" by (simp add: room_def need_def a ind fb)
  show "fbyte s' ip p = fbyte s ip p" if p: "p < MAXFILE * BSIZE"
  proof -
    have "p div BSIZE < MAXFILE" using p by (simp add: less_mult_imp_div_less)
    then show ?thesis using ov faddr_owned by (auto simp: fbyte_def a Let_def)
  qed
  show "file_wf s' ip" if "\<forall>k. k * BSIZE < unat (i_size (ino s' ip)) \<longrightarrow> k < MAXFILE \<and> faddr s ip k \<noteq> 0"
    using s(2) u that unfolding file_wf_def o a ind fr as l by auto
qed

text \<open>The steps that only lock or unlock the inode.\<close>

lemma calm_lock:
  assumes "fs_frame s s'" "\<forall>b \<in> tx_blocks s. view s' b = view s b" "fs_ok s" "file_wf s ip"
    "icache s' = upd_at ip (\<lambda>x. x\<lparr>i_lock := lk\<rparr>) (icache s)"
  shows "calm ip s s'" "in_sync s ip \<Longrightarrow> in_sync s' ip"
proof -
  note f = fs_frameD(1)[OF assms(1)]
  have b: "inode_blocks s \<subseteq> tx_blocks s" using assms(3) by (simp add: fs_ok_def)
  have "inodes_kept ip s s'" by (rule inodes_keptI[OF f]) (use b assms(2) in blast)
  moreover have "upd_at ip (\<lambda>x. x\<lparr>i_lock := lk\<rparr>) (icache s) =
      upd_at ip (\<lambda>x. x\<lparr>i_lock := lk, i_size := i_size (ino s ip)\<rparr>) (icache s)"
    by (simp add: upd_at_def)
  ultimately show "calm ip s s'" using assms(1,2,5) unfolding calm_def by auto
  have "IBLOCK (i_inum (ino s ip)) (sb s) \<in> inode_blocks s"
    using assms(4) by (auto simp: file_wf_def inode_blocks_def)
  then have "view s' (IBLOCK (i_inum (ino s ip)) (sb s)) = view s (IBLOCK (i_inum (ino s ip)) (sb s))"
    using assms(2) b by blast
  moreover have "ino s' ip = (ino s ip)\<lparr>i_lock := lk\<rparr>" using assms(5) file_wf_basic(1)[OF assms(4)] by simp
  ultimately show "in_sync s' ip" if "in_sync s ip" using that in_sync_same[OF f] by blast
qed

text \<open>
  The effect of writing \<open>src\<close> at offset \<open>q\<close>, on the file and on the rest of the file system.  No
  other inode on the disk changes, and that of the file is written when the file has grown.
\<close>

definition file_written :: "nat \<Rightarrow> byte list \<Rightarrow> nat \<Rightarrow> kernel \<Rightarrow> kernel \<Rightarrow> bool" where
  "file_written ip src q s s' \<longleftrightarrow> fs_frame s s' \<and> fs_ok s' \<and> file_wf s' ip \<and>
     owned s ip \<subseteq> owned s' ip \<and> owned s' ip \<subseteq> owned s ip \<union> {b. free_block s b} \<and>
     (\<forall>b < sb_size (sb s). in_use s' b \<longleftrightarrow> in_use s b \<or> b \<in> owned s' ip) \<and>
     (\<forall>c \<in> tx_blocks s. c \<notin> map_blocks s \<and> c \<notin> owned s' ip \<and> c \<notin> inode_blocks s \<longrightarrow> view s' c = view s c) \<and>
     (\<exists>as lk. icache s' = upd_at ip (\<lambda>x. x\<lparr>i_addrs := as, i_lock := lk,
        i_size := of_nat (max (unat (i_size x)) (q + length src))\<rparr>) (icache s)) \<and>
     bytes_put src q (fbyte s ip) (fbyte s' ip) \<and> inodes_kept ip s s' \<and>
     (in_sync s ip \<or> unat (i_size (ino s ip)) < q + length src \<longrightarrow> in_sync s' ip)"

lemma written_inodes:
  assumes "fs_ok s" "written ip src q s t" "b \<in> inode_blocks s"
  shows "view t b = view s b"
proof -
  note w = assms(2)[unfolded written_def grows_def]
  have "sb t = sb s" using w ino_frameD(1) by blast
  then have "b \<notin> owned t ip" using w assms(3) ownedD(3)[of t ip b] by (auto simp: inode_blocks_def)
  moreover have "b \<notin> map_blocks s" using assms(1,3) by (auto simp: fs_ok_def)
  ultimately show ?thesis using w by blast
qed

lemma written_calm:
  assumes s: "fs_ok s" "file_wf s ip" and t: "written ip src q s t" "calm ip t s'"
    and z: "q \<le> unat (i_size (ino s ip))" "q + length src \<le> MAXFILE * BSIZE"
      "unat (i_size (ino s' ip)) = max (unat (i_size (ino s ip))) (q + length src)"
    and y: "in_sync s ip \<or> unat (i_size (ino s ip)) < q + length src \<longrightarrow> in_sync s' ip"
  shows "file_written ip src q s s'"
proof -
  note w = t(1)[unfolded written_def]
  have t': "fs_ok t" "file_wf t ip" "grows ip s t" using w by simp_all
  note c = calm_file[OF t(2) t'(1,2)] and g = t'(3)[unfolded grows_def] and fr = ino_frameD[OF growsD(1)[OF t'(3)]]
  have ib: "inode_blocks t = inode_blocks s" by (simp add: inode_blocks_def fr)
  have "fs_frame s s'" using ino_fs_frame[OF growsD(1)[OF t'(3)]] t(2) fs_frame_trans by (auto simp: calm_def)
  moreover have "k < MAXFILE \<and> faddr t ip k \<noteq> 0" if k: "k * BSIZE < unat (i_size (ino s' ip))" for k
  proof (cases "k * BSIZE < unat (i_size (ino s ip))")
    case True
    then show ?thesis using s(2) w by (auto simp: file_wf_def)
  next
    case False
    then have "q \<le> k * BSIZE \<and> k * BSIZE < q + length src" using k z(1,3) by linarith
    then show ?thesis using w z(2) by fastforce
  qed
  moreover obtain as where "icache t = upd_at ip (\<lambda>x. x\<lparr>i_addrs := as\<rparr>) (icache s)" using g by blast
  then obtain lk sz where ic: "icache s' = upd_at ip (\<lambda>x. x\<lparr>i_addrs := as, i_lock := lk, i_size := sz\<rparr>) (icache s)"
    using t(2) by (auto simp: calm_def upd_at_upd_at)
  then have "sz = i_size (ino s' ip)" using file_wf_basic(1)[OF s(2)] by simp
  then have "sz = of_nat (max (unat (i_size (ino s ip))) (q + length src))" using z(3) by (metis of_nat_unat ucast_id)
  then have "icache s' = upd_at ip (\<lambda>x. x\<lparr>i_addrs := as, i_lock := lk,
        i_size := of_nat (max (unat (i_size x)) (q + length src))\<rparr>) (icache s)" using ic by (simp add: upd_at_def)
  moreover have "bytes_put src q (fbyte s ip) (fbyte s' ip)" using w c(8) by (simp add: bytes_put_def)
  moreover have "inodes_kept ip s t"
    by (rule inodes_keptI[OF ino_frameD(1)[OF growsD(1)[OF t'(3)]]]) (rule written_inodes[OF s(1) t(1)])
  moreover have "i_inum (ino t ip) = i_inum (ino s ip)" using growsD(5)[OF t'(3) file_wf_basic(1)[OF s(2)]] by auto
  ultimately show ?thesis
    using g c(3,4,6,9) t(2) fr ib y inodes_kept_trans[of ip s t s'] unfolding file_written_def calm_def by auto
qed

lemma calm_written:
  "fs_ok s \<Longrightarrow> file_wf s ip \<Longrightarrow> calm ip s s' \<Longrightarrow> q \<le> unat (i_size (ino s ip)) \<Longrightarrow> q \<le> MAXFILE * BSIZE \<Longrightarrow>
   i_size (ino s' ip) = i_size (ino s ip) \<Longrightarrow> (in_sync s ip \<longrightarrow> in_sync s' ip) \<Longrightarrow> file_written ip [] q s s'"
  by (rule written_calm[OF _ _ written_nil]) auto

lemma unat_max_size:
  "k \<le> MAXFILE * BSIZE \<Longrightarrow> unat (of_nat (max (unat (z :: uint32)) k) :: uint32) = max (unat z) k"
proof -
  assume "k \<le> MAXFILE * BSIZE"
  then have "max (unat z) k < 2 ^ 32" using unsigned_less[of z] by simp
  then show ?thesis by (intro unat_of_nat_small) simp
qed

lemma file_writtenD:
  assumes "file_written ip src q s s'" "q + length src \<le> MAXFILE * BSIZE" "file_wf s ip"
  shows "fs_frame s s'" "fs_ok s'" "file_wf s' ip"
    "unat (i_size (ino s' ip)) = max (unat (i_size (ino s ip))) (q + length src)"
    "\<exists>as lk sz. ino s' ip = (ino s ip)\<lparr>i_addrs := as, i_lock := lk, i_size := sz\<rparr>"
    "j \<noteq> ip \<Longrightarrow> ino s' j = ino s j"
proof -
  show "fs_frame s s'" "fs_ok s'" "file_wf s' ip" using assms(1) by (simp_all add: file_written_def)
  obtain as lk where ic: "icache s' = upd_at ip (\<lambda>x. x\<lparr>i_addrs := as, i_lock := lk,
      i_size := of_nat (max (unat (i_size x)) (q + length src))\<rparr>) (icache s)"
    using assms(1) unfolding file_written_def by blast
  then have "ino s' ip = (ino s ip)\<lparr>i_addrs := as, i_lock := lk,
      i_size := of_nat (max (unat (i_size (ino s ip))) (q + length src))\<rparr>"
    using file_wf_basic(1)[OF assms(3)] by simp
  then show "unat (i_size (ino s' ip)) = max (unat (i_size (ino s ip))) (q + length src)"
    "\<exists>as lk sz. ino s' ip = (ino s ip)\<lparr>i_addrs := as, i_lock := lk, i_size := sz\<rparr>"
    using unat_max_size[OF assms(2)] by (simp, blast)
  show "ino s' j = ino s j" if "j \<noteq> ip" using ic that by simp
qed

lemma file_written_trans:
  assumes s: "file_wf s ip" and a: "file_written ip xs q s t" and b: "file_written ip ys (q + length xs) t u"
    and q: "q + length xs + length ys \<le> MAXFILE * BSIZE"
  shows "file_written ip (xs @ ys) q s u"
proof -
  have q1: "q + length xs \<le> MAXFILE * BSIZE" using q by simp
  note d = file_writtenD[OF a q1 s] and f = fs_frameD[OF file_writtenD(1)[OF a q1 s]]
  note A = a[unfolded file_written_def] and B = b[unfolded file_written_def f]
  obtain as lk where ic: "icache t = upd_at ip (\<lambda>x. x\<lparr>i_addrs := as, i_lock := lk,
      i_size := of_nat (max (unat (i_size x)) (q + length xs))\<rparr>) (icache s)" using A by blast
  obtain bs lk' where "icache u = upd_at ip (\<lambda>x. x\<lparr>i_addrs := bs, i_lock := lk',
      i_size := of_nat (max (unat (i_size x)) (q + length xs + length ys))\<rparr>) (icache t)" using B by blast
  then have "icache u = upd_at ip (\<lambda>x. x\<lparr>i_addrs := bs, i_lock := lk',
      i_size := of_nat (max (unat (i_size x)) (q + length (xs @ ys)))\<rparr>) (icache s)"
    unfolding ic upd_at_upd_at using unat_max_size[OF q1]
    by (simp add: max.assoc add.assoc max_def le_add1 cong: if_cong) (simp add: upd_at_def)
  moreover have "bytes_put (xs @ ys) q (fbyte s ip) (fbyte u ip)" using A B bytes_put_trans by blast
  moreover have "fs_frame s u" using A B fs_frame_trans by blast
  moreover have "free_block s b" if "free_block t b" for b using that A unfolding free_block_def f by blast
  then have "owned u ip \<subseteq> owned s ip \<union> {b. free_block s b}" using A B by blast
  moreover have "owned t ip \<subseteq> owned u ip" using B by blast
  then have "\<forall>b < sb_size (sb s). in_use u b \<longleftrightarrow> in_use s b \<or> b \<in> owned u ip" using A B by blast
  moreover have "view u c = view s c"
    if "c \<in> tx_blocks s" "c \<notin> map_blocks s \<and> c \<notin> owned u ip \<and> c \<notin> inode_blocks s" for c
    using that A B \<open>owned t ip \<subseteq> owned u ip\<close> by (metis subsetD)
  moreover have "inodes_kept ip s u"
    using A B d(5) inodes_kept_trans[of ip s t u] f(1) by auto
  moreover have "in_sync u ip" if "in_sync s ip \<or> unat (i_size (ino s ip)) < q + length (xs @ ys)"
  proof (cases "in_sync t ip")
    case False
    then have "unat (i_size (ino t ip)) < q + length xs + length ys" using A that d(4) by auto
    then show ?thesis using B by blast
  qed (use B in blast)
  ultimately show ?thesis using A B unfolding file_written_def by blast
qed

section \<open>iupdate and writei\<close>

lemma sint_of_nat_small: "n < 2 ^ 31 \<Longrightarrow> sint (of_nat n :: uint32) = int n"
proof -
  assume "n < 2 ^ 31"
  then have "signed_take_bit 31 (int n) = int n" by (intro signed_take_bit_int_eq_self) simp_all
  then show ?thesis by (simp add: signed_of_nat)
qed

lemma file_blocks:
  assumes "file_wf s ip" "p < unat (i_size (ino s ip))"
  shows "faddr s ip (p div BSIZE) \<noteq> 0"
proof -
  have "p div BSIZE * BSIZE \<le> p" by (rule div_times_less_eq_dividend)
  then have "p div BSIZE * BSIZE < unat (i_size (ino s ip))" using assms(2) by linarith
  then show ?thesis using assms(1) unfolding file_wf_def by blast
qed

lemma iupdate_Ok:
  assumes s: "tx_ok (Suc n) {} s" "fs_ok s" "i_dev (ino s ip) = 1" "i_inum (ino s ip) < sb_ninodes (sb s)"
  obtains s' where "iupdate ip s = Ok s'" "tx_ok n {} s'" "tx_frame s s'"
    "view s' = (view s)(IBLOCK (i_inum (ino s ip)) (sb s) :=
       put_dinode (view s (IBLOCK (i_inum (ino s ip)) (sb s))) (inode_off (i_inum (ino s ip))) (ino s ip))"
proof -
  let ?b = "IBLOCK (i_inum (ino s ip)) (sb s)" and ?o = "inode_off (i_inum (ino s ip))"
  have b: "?b \<in> tx_blocks s" using s(2,4) by (auto simp: fs_ok_def inode_blocks_def)
  have "unat (i_inum (ino s ip)) mod IPB < IPB" by simp
  then have "?o + 64 \<le> BSIZE" unfolding inode_off_def by simp
  then have l: "length (put_dinode (view s ?b) ?o (ino s ip)) = BSIZE"
    using lt.block_size[OF s(1) b] put_dinode_length by simp
  obtain i s1 s2 s' where u: "bread 1 ?b s = Ok (i, s1)" "bdata s1 i = view s ?b" "tx_frame s s1"
    "tx_put i (put_dinode (view s ?b) ?o (ino s ip)) s1 = Ok s2" "brelse i s2 = Ok s'" "tx_ok n {} s'"
    "view s' = (view s)(?b := put_dinode (view s ?b) ?o (ino s ip))" "tx_frame s s'"
    by (rule lt.update_block[OF s(1) b, of "\<lambda>d. put_dinode d ?o (ino s ip)"]) (use l in auto)
  have "iupdate ip s = Ok s'"
    using u(1,2,4,5) s(3) tx_frameD(10)[OF u(3)] by (simp add: iupdate_def)
  then show thesis using that u(6-8) by blast
qed

lemma writei_Ok:
  assumes s: "tx_ok (Suc n + 6 * rounds q (length src)) {} s" "fs_ok s" "file_wf s ip" "room s ip K"
    and q: "q \<le> unat (i_size (ino s ip))" "q + length src \<le> MAXFILE * BSIZE"
      "\<forall>p. q \<le> p \<and> p < q + length src \<longrightarrow> p div BSIZE \<in> K" "i_type (ino s ip) \<noteq> T_DEV"
  obtains s' where "writei ip src (of_nat q) s = Ok (int (length src), s')" "tx_ok n {} s'"
    "file_written ip src q s s'" "room s' ip K" "ino_frame s s'"
    "i_lock (ino s' ip) = i_lock (ino s ip)"
proof -
  let ?n = "length src" and ?e = "of_nat (q + length src) :: uint32"
  obtain t where t: "writei_loop ip src (of_nat q) s = Ok (?e, t)" "tx_ok (Suc n) {} t" "written ip src q s t"
    "room t ip K" using writei_loop_Ok[OF s q(2,3)] by blast
  have t': "fs_ok t" "file_wf t ip" "grows ip s t" using t(3) by (simp_all add: written_def)
  have un: "unat (of_nat q :: uint32) = q" "unat ?e = q + ?n" "unat (of_nat ?n :: uint32) = ?n"
    by (rule unat_of_nat_small; use q(2) in simp)+
  have sn: "sint (of_nat ?n :: uint32) = int ?n" using q(2) by (intro sint_of_nat_small) simp
  have off: "of_nat q + of_nat ?n = ?e" by simp
  obtain as where it: "ino t ip = (ino s ip)\<lparr>i_addrs := as\<rparr>"
    using growsD(5)[OF t'(3) file_wf_basic(1)[OF s(3)]] by blast
  have m: "unat (of_nat (MAXFILE * BSIZE) :: uint32) = MAXFILE * BSIZE" by (rule unat_of_nat_small) simp
  have head: "writei ip src (of_nat q) s = andthen (Ok (?e, t)) (\<lambda>(off, s).
      andthen (if of_nat ?n > (0 :: uint32) \<and> off > i_size (ino s ip)
               then iupdate ip (upd_inode ip (\<lambda>x. x\<lparr>i_size := off\<rparr>) s) else Ok s) (\<lambda>s. Ok (int ?n, s)))"
    using q(1,2,4) unfolding writei_def Let_def off t(1) sn by (simp add: word_less_nat_alt un m del: of_nat_add of_nat_mult)
  show thesis
  proof (cases "0 < ?n \<and> i_size (ino s ip) < ?e")
    case False
    then have z: "q + ?n \<le> unat (i_size (ino s ip))" using q(1) by (auto simp: word_less_nat_alt un simp del: of_nat_add)
    have ic: "icache t = icache s"
    proof -
      have "faddr s ip (p div BSIZE) \<noteq> 0" if "q \<le> p \<and> p < q + ?n" for p
        using file_blocks[OF s(3), of p] that z by simp
      then show ?thesis using t(3) by (simp add: written_def)
    qed
    have sync: "in_sync s ip \<longrightarrow> in_sync t ip"
    proof -
      have "IBLOCK (i_inum (ino s ip)) (sb s) \<in> inode_blocks s" using s(3) by (auto simp: file_wf_def inode_blocks_def)
      then have "view t (IBLOCK (i_inum (ino s ip)) (sb s)) = view s (IBLOCK (i_inum (ino s ip)) (sb s))"
        by (rule written_inodes[OF s(2) t(3)])
      then show ?thesis
        using in_sync_same[of t s ip "i_lock (ino s ip)"] ino_frameD(1)[OF growsD(1)[OF t'(3)]] ic by simp
    qed
    have "calm ip t t"
      by (auto simp: calm_def inodes_keptI upd_at_def intro!: exI[of _ "i_lock (ino t ip)"] exI[of _ "i_size (ino t ip)"])
    then have "file_written ip src q s t" by (rule written_calm[OF s(2,3) t(3) _ q(1,2)]) (use z it sync in simp_all)
    moreover have "writei ip src (of_nat q) s = Ok (int ?n, t)"
      using False it by (auto simp: head word_less_nat_alt un simp del: of_nat_add)
    moreover have "tx_ok n {} t" by (rule lt.fewer[OF t(2)]) simp
    ultimately show thesis using that t(4) growsD(1)[OF t'(3)] it by simp
  next
    case True
    let ?t = "upd_inode ip (\<lambda>x. x\<lparr>i_size := ?e\<rparr>) t"
    have i: "ino ?t ip = (ino t ip)\<lparr>i_size := ?e\<rparr>" using file_wf_basic(1)[OF t'(2)] by simp
    have c: "calm ip t ?t"
      by (auto simp: calm_def inodes_keptI upd_at_def intro!: exI[of _ "i_lock (ino t ip)"] exI[of _ ?e])
    have ok: "tx_ok (Suc n) {} ?t" "fs_ok ?t" "i_dev (ino ?t ip) = 1" "i_inum (ino ?t ip) < sb_ninodes (sb ?t)"
      using t(2) calm_file(6)[OF c t'(1,2)] t'(2) unfolding i by (simp_all add: file_wf_def)
    obtain u where u: "iupdate ip ?t = Ok u" "tx_ok n {} u" "tx_frame ?t u"
      "view u = (view ?t)(IBLOCK (i_inum (ino ?t ip)) (sb ?t) :=
       put_dinode (view ?t (IBLOCK (i_inum (ino ?t ip)) (sb ?t))) (inode_off (i_inum (ino ?t ip))) (ino ?t ip))"
      by (rule iupdate_Ok[OF ok])
    have tu: "ino_frame t u" using tx_frameD(10)[OF u(3)] u(3) by (simp add: ino_frame_def)
    have "IBLOCK (i_inum (ino ?t ip)) (sb ?t) \<in> inode_blocks t" using ok(4) by (auto simp: inode_blocks_def)
    moreover have st: "inodes_kept ip ?t u" "in_sync u ip"
      by (rule update_stored[OF _ refl _ tx_frameD(11)[OF u(3)] _ u(4)];
        use ok tx_frameD(10)[OF u(3)] file_wf_basic(3)[OF t'(2)] i lt.block_size[OF ok(1)] in
          \<open>auto simp: fs_ok_def inode_blocks_def\<close>)+
    ultimately have "calm ip t u"
      using c ino_fs_frame[OF tu] u(4) tx_frameD(10)[OF u(3)] inodes_kept_trans[of ip t ?t u] i unfolding calm_def by auto
    moreover have iu: "ino u ip = (ino t ip)\<lparr>i_size := ?e\<rparr>" using tx_frameD(10)[OF u(3)] i by simp
    ultimately have w: "file_written ip src q s u"
      by (intro written_calm[OF s(2,3) t(3) _ q(1,2)]) (use True un it st(2) in \<open>simp_all add: iu word_less_nat_alt del: of_nat_add\<close>)
    have "writei ip src (of_nat q) s = Ok (int ?n, u)"
      using True u(1) it by (simp add: head word_less_nat_alt un del: of_nat_add)
    moreover have "room u ip K" using calm_file(7)[OF \<open>calm ip t u\<close> t'(1,2)] t(4) by simp
    ultimately show thesis using that u(2) w ino_frame_trans[OF growsD(1)[OF t'(3)] tu] iu it by simp
  qed
qed

section \<open>Reading\<close>

text \<open>Reads need no transaction: they find every block and change nothing but the cache.\<close>

lemma tx_rd_blocks: "b \<in> tx_blocks s \<Longrightarrow> b \<in> rd_blocks s"
  by (simp add: tx_blocks_def rd_blocks_def)

lemma bmap_there:
  assumes s: "rd_ok n {} s" "file_wf s ip" and k: "k < MAXFILE" "faddr s ip k \<noteq> 0"
  obtains s' where "bmap ip (of_nat k) s = Ok (faddr s ip k, s')" "rd_ok n {} s'" "disk_frame s s'" "view s' = view s"
proof (cases "k < NDIRECT")
  have uk: "unat (of_nat k :: uint32) = k" by (rule unat_of_nat_small) (use k(1) in simp)
  {
    case True
    then have "bmap ip (of_nat k) s = Ok (faddr s ip k, s)"
      using k(2) uk by (simp add: bmap_def bmap_addr_def faddr_def)
    then show thesis using that s(1) by simp
  next
    case False
    let ?x = "indirect s ip"
    have x: "?x \<noteq> 0" "faddr s ip k = get32 (view s ?x) (4 * (k - NDIRECT))"
      using False k(2) by (auto simp: faddr_def split: if_splits)
    have b: "?x \<in> rd_blocks s" using tx_rd_blocks ownedD(1)[OF s(2) indirect_owned[OF x(1)]] by blast
    obtain i s1 s2 where r: "bread 1 ?x s = Ok (i, s1)" "bdata s1 i = view s ?x"
      "brelse i s1 = Ok s2" "rd_ok n {} s2" "view s2 = view s" "disk_frame s s2"
      by (rule rd.read_block[OF s(1) b]) auto
    have u: "unat (of_nat k - 12 :: uint32) = k - NDIRECT"
      using False uk by (subst unat_sub) (simp_all add: word_le_nat_alt)
    have "bmap_addr ip NDIRECT s = Ok (?x, s)" using x(1) by (simp add: bmap_addr_def indirect_def)
    then have "bmap ip (of_nat k) s = Ok (faddr s ip k, s2)"
      using r(1-3) x k False uk file_wf_basic(2)[OF s(2)] by (simp add: bmap_def bmap_entry_def u Let_def)
    then show thesis using that r(4-6) by blast
  }
qed

lemma chunk_bytes:
  assumes "q mod BSIZE + m \<le> BSIZE" "length (view s a) = BSIZE" "a = faddr s ip (q div BSIZE)" "a \<noteq> 0"
  shows "get_bytes (view s a) (q mod BSIZE) m = map (fbyte s ip) [q..<q + m]"
proof (rule nth_equalityI)
  fix j assume "j < length (get_bytes (view s a) (q mod BSIZE) m)"
  then have j: "j < m" using assms(1,2) by simp
  have "(q + j) div BSIZE = q div BSIZE" using same_block[OF assms(1), of "q + j"] j by simp
  moreover from this have "(q + j) mod BSIZE = q mod BSIZE + j"
    using mult_div_mod_eq[of BSIZE q] mult_div_mod_eq[of BSIZE "q + j"] by linarith
  ultimately show "get_bytes (view s a) (q mod BSIZE) m ! j = map (fbyte s ip) [q..<q + m] ! j"
    using j assms by (simp add: get_bytes_def fbyte_def)
qed (use assms in simp)

lemma readi_loop_Ok:
  assumes "rd_ok w {} s" "file_wf s ip" "q + n \<le> MAXFILE * BSIZE"
    "\<forall>p. q \<le> p \<and> p < q + n \<longrightarrow> faddr s ip (p div BSIZE) \<noteq> 0"
  shows "\<exists>s'. readi_loop ip (of_nat q) n s = Ok (map (fbyte s ip) [q..<q + n], s') \<and> rd_ok w {} s' \<and>
    disk_frame s s' \<and> view s' = view s"
  using assms
proof (induction n arbitrary: q s rule: less_induct)
  case (less n)
  show ?case
  proof (cases "n = 0")
    case True
    then show ?thesis using less.prems(1) by (simp add: readi_loop.simps)
  next
    case False
    let ?m = "chunk (of_nat q) n" and ?k = "q div BSIZE"
    have f: "unat (of_nat q :: uint32) = q" "of_nat q div 512 = (of_nat ?k :: uint32)"
      "0 < ?m" "?m \<le> n" "q mod BSIZE + ?m \<le> BSIZE" using chunk_facts[OF _ less.prems(3)] False by simp_all
    have k: "?k < MAXFILE" "faddr s ip ?k \<noteq> 0" using less.prems(3,4) False by (simp_all add: less_mult_imp_div_less)
    obtain s1 where s1: "bmap ip (of_nat ?k) s = Ok (faddr s ip ?k, s1)" "rd_ok w {} s1" "disk_frame s s1" "view s1 = view s"
      by (rule bmap_there[OF less.prems(1,2) k])
    note v1 = same_view[OF disk_frame_tx[OF s1(3)] s1(4)]
    let ?a = "faddr s ip ?k"
    have w1: "file_wf s1 ip" using v1(5) less.prems(2) by simp
    have a: "?a \<in> rd_blocks s1"
      using ownedD(1)[OF w1 faddr_owned] k tx_rd_blocks by (simp add: v1(1))
    obtain i s2 s3 where r: "bread 1 ?a s1 = Ok (i, s2)" "bdata s2 i = view s1 ?a" "brelse i s2 = Ok s3"
      "rd_ok w {} s3" "view s3 = view s1" "disk_frame s1 s3"
      by (rule rd.read_block[OF s1(2) a]) auto
    note v3 = same_view[OF disk_frame_tx[OF r(6)] r(5)]
    have "n - ?m < n" using f(3) False by linarith
    moreover have "file_wf s3 ip" using w1 v3(5) by simp
    moreover have n: "q + ?m + (n - ?m) = q + n" using f(4) by linarith
    moreover have "\<forall>p. q + ?m \<le> p \<and> p < q + ?m + (n - ?m) \<longrightarrow> faddr s3 ip (p div BSIZE) \<noteq> 0"
      using less.prems(4) unfolding n v3(1) v1(1) by (meson add_leD1)
    ultimately obtain s' where s': "readi_loop ip (of_nat (q + ?m)) (n - ?m) s3 =
        Ok (map (fbyte s ip) [q + ?m..<q + ?m + (n - ?m)], s')" "rd_ok w {} s'" "disk_frame s3 s'" "view s' = view s3"
      using less.IH[of "n - ?m" s3 "q + ?m"] r(4) less.prems(3) unfolding v3(6) v1(6) by metis
    have "length (view s ?a) = BSIZE" using rd.block_size[OF s1(2) a] s1(4) by simp
    then have bs: "get_bytes (view s ?a) (q mod BSIZE) ?m = map (fbyte s ip) [q..<q + ?m]"
      by (rule chunk_bytes[OF f(5) _ refl k(2)])
    have dev: "i_dev (ino s1 ip) = 1" by (rule file_wf_basic(2)[OF w1])
    have up: "[q..<q + ?m] @ [q + ?m..<q + ?m + (n - ?m)] = [q..<q + n]"
      using f(4) upt_add_eq_append[of q "q + ?m" "n - ?m"] by simp
    have "readi_loop ip (of_nat q) n s = Ok (map (fbyte s ip) ([q..<q + ?m] @ [q + ?m..<q + ?m + (n - ?m)]), s')"
      using False s1(1) r(1-3) s'(1) bs dev f(1,2)
      by (subst readi_loop.simps) (simp add: s1(4) Let_def)
    moreover have "disk_frame s s'" using s1(3) r(6) s'(3) disk_frame_trans by blast
    ultimately show ?thesis unfolding up using s'(2,4) s1(4) r(5) by simp
  qed
qed

lemma file_size_bound: "file_wf s ip \<Longrightarrow> unat (i_size (ino s ip)) \<le> MAXFILE * BSIZE"
proof (rule ccontr)
  assume "file_wf s ip" "\<not> unat (i_size (ino s ip)) \<le> MAXFILE * BSIZE"
  then have "MAXFILE < MAXFILE" unfolding file_wf_def by (metis not_le)
  then show False by simp
qed

lemma readi_Ok:
  assumes s: "rd_ok w {} s" "file_wf s ip" "i_type (ino s ip) \<noteq> T_DEV"
    and q: "q \<le> unat (i_size (ino s ip))" "q + n < 2 ^ 32"
  defines "m \<equiv> min n (unat (i_size (ino s ip)) - q)"
  obtains s' where "readi ip (of_nat q) (of_nat n) s = Ok (int m, map (fbyte s ip) [q..<q + m], s')"
    "rd_ok w {} s'" "disk_frame s s'" "view s' = view s"
proof -
  let ?z = "i_size (ino s ip)"
  have b: "unat ?z \<le> MAXFILE * BSIZE" by (rule file_size_bound[OF s(2)])
  have un: "unat (of_nat q :: uint32) = q" "unat (of_nat (q + n) :: uint32) = q + n" "unat (of_nat n :: uint32) = n"
    by (rule unat_of_nat_small; use q in simp)+
  have off: "of_nat q + of_nat n = (of_nat (q + n) :: uint32)" by simp
  have le: "of_nat q \<le> ?z" using q(1) by (simp add: word_le_nat_alt un)
  then have uz: "unat (?z - of_nat q) = unat ?z - q" by (simp add: unat_sub un)
  have m: "m \<le> MAXFILE * BSIZE" "q + m \<le> unat ?z" using b q(1) by (auto simp: m_def)
  have um: "unat (of_nat m :: uint32) = m" "sint (of_nat m :: uint32) = int m"
    by (rule unat_of_nat_small sint_of_nat_small; use m(1) in simp)+
  have mn: "(if of_nat (q + n) > ?z then ?z - of_nat q else of_nat n) = (of_nat m :: uint32)"
    using q(1) uz unfolding word_less_nat_alt word_unat_eq_iff um un
    by (auto simp: m_def un(3))
  have "q + m \<le> MAXFILE * BSIZE" "\<forall>p. q \<le> p \<and> p < q + m \<longrightarrow> faddr s ip (p div BSIZE) \<noteq> 0"
    using b m(2) file_blocks[OF s(2)] by auto
  from readi_loop_Ok[OF s(1,2) this] obtain s' where
    s': "readi_loop ip (of_nat q) m s = Ok (map (fbyte s ip) [q..<q + m], s')" "rd_ok w {} s'"
      "disk_frame s s'" "view s' = view s" by blast
  have "\<not> of_nat q > ?z" "\<not> of_nat (q + n) < (of_nat q :: uint32)" using q(1) by (auto simp: word_less_nat_alt un simp del: of_nat_add)
  then have "readi ip (of_nat q) (of_nat n) s = Ok (int m, map (fbyte s ip) [q..<q + m], s')"
    using s(3) unfolding readi_def off Let_def mn by (simp add: um s'(1) del: of_nat_add)
  then show thesis using that s'(2-4) by blast
qed

section \<open>Locking the inode of a file\<close>

definition idle :: "kernel \<Rightarrow> nat \<Rightarrow> bool" where
  "idle s ip \<longleftrightarrow> 1 \<le> i_ref (ino s ip) \<and> i_valid (ino s ip) \<and> \<not> sl_locked (i_lock (ino s ip)) \<and>
     i_type (ino s ip) \<noteq> T_DEV"

lemma ilock_Ok:
  assumes "in_proc s" "ip < length (icache s)" "idle s ip"
  obtains lk where "ilock (Some ip) s = Ok (upd_inode ip (\<lambda>x. x\<lparr>i_lock := lk\<rparr>) s)" "sl_locked lk"
proof -
  obtain p where p: "myproc s = Some p" using assms(1) by (auto simp: in_proc_def myproc_def)
  let ?lk = "(i_lock (ino s ip))\<lparr>sl_locked := True, sl_pid := p_pid p\<rparr>"
  have "lock_inode ip s = Ok (upd_inode ip (\<lambda>x. x\<lparr>i_lock := ?lk\<rparr>) s)"
    using assms(3) p by (simp add: lock_inode_def acquiresleep_def idle_def)
  then show thesis using that[of ?lk] assms(2,3) by (simp add: ilock_def idle_def)
qed

lemma iunlock_eq:
  assumes "sl_locked (i_lock (ino s ip))" "1 \<le> i_ref (ino s ip)"
  shows "\<exists>lk. iunlock (Some ip) s = Ok (upd_inode ip (\<lambda>x. x\<lparr>i_lock := lk\<rparr>) (wakeup (ChanInode ip) s)) \<and> \<not> sl_locked lk"
  using assms by (auto simp: iunlock_def unlock_inode_def releasesleep_def holdingsleep_def wakeup_def wakeup1_def)

lemma ftable_store [simp]:
  "view (s\<lparr>ftable := x\<rparr>) = view s" "dirty (s\<lparr>ftable := x\<rparr>) = dirty s"
  "held (s\<lparr>ftable := x\<rparr>) = held s" "bcache_ok (s\<lparr>ftable := x\<rparr>) = bcache_ok s"
  "in_proc (s\<lparr>ftable := x\<rparr>) = in_proc s" "log_area (s\<lparr>ftable := x\<rparr>) = log_area s" "logged (s\<lparr>ftable := x\<rparr>) = logged s"
  by (auto simp: fun_eq_iff view_def cached_def dirty_def held_def bcache_ok_def buf_ok_def
      in_proc_def log_area_def logged_def split: option.splits)

lemma ftable_store_ok [simp]:
  "log_ok (s\<lparr>ftable := x\<rparr>) = log_ok s" "in_tx (s\<lparr>ftable := x\<rparr>) = in_tx s" "quiet (s\<lparr>ftable := x\<rparr>) = quiet s"
  by (simp_all add: log_ok_def in_tx_def quiet_def)

lemma icache_store_quiet [simp]: "quiet (s\<lparr>icache := x\<rparr>) = quiet s"
  by (simp add: quiet_def)

lemma in_tx_wakeup: "in_tx s \<Longrightarrow> in_tx (wakeup c s)"
  using log_ok_wakeup by (simp add: in_tx_def)

lemma wakeup_other [simp]:
  "icache (wakeup c s) = icache s" "ftable (wakeup c s) = ftable s" "log_area (wakeup c s) = log_area s"
  by (simp_all add: wakeup_def wakeup1_def log_area_def)

section \<open>One transaction of filewrite\<close>

text \<open>The first part: the transaction begins and the inode is locked.\<close>

lemma filewrite_begin:
  assumes s: "quiet s" "fs_ok s" "file_wf s ip" "idle s ip"
  obtains s1 s2 where "begin_op s = Ok s1" "ftable s1 = ftable s" "ilock (Some ip) s1 = Ok s2" "tx_ok 29 {} s2"
    "log_outstanding (log_st s2) = 1" "\<not> log_committing (log_st s2)" "calm ip s s2" "ftable s2 = ftable s"
    "\<exists>lk. ino s2 ip = (ino s ip)\<lparr>i_lock := lk\<rparr> \<and> sl_locked lk" "in_sync s ip \<longrightarrow> in_sync s2 ip"
proof -
  obtain s1 where b: "begin_op s = Ok s1" "in_tx s1" "log_outstanding (log_st s1) = 1"
    "\<not> log_committing (log_st s1)" "view s1 = view s" "dirty s1 = {}" "held s1 = {}"
    "disk s1 = disk s" "disk_writes s1 = disk_writes s" "cache_frame s s1" "procs s1 = procs s"
    "log_area s1 = log_area s" by (rule begin_op_Ok[OF s(1)])
  note f = cache_frameD(12,13)[OF b(10)]
  have "in_proc s1" using b(2) by (simp add: in_tx_def log_ok_def)
  moreover have "ip < length (icache s1)" "idle s1 ip" using s(4) file_wf_basic(1)[OF s(3)] by (simp_all add: f idle_def)
  ultimately obtain lk where l: "ilock (Some ip) s1 = Ok (upd_inode ip (\<lambda>x. x\<lparr>i_lock := lk\<rparr>) s1)" "sl_locked lk"
    by (rule ilock_Ok)
  let ?s = "upd_inode ip (\<lambda>x. x\<lparr>i_lock := lk\<rparr>) s1"
  have "tx_ok 29 {} ?s" using b(2,6,7) by (simp add: tx_ok_def)
  moreover have "calm ip s ?s" "in_sync s ip \<longrightarrow> in_sync ?s ip"
    using calm_lock[OF fs_frame_upd(2)[OF b(10,12)] _ s(2,3), of _ lk] b(5) f(1) by simp_all
  moreover have "\<exists>lk. ino ?s ip = (ino s ip)\<lparr>i_lock := lk\<rparr> \<and> sl_locked lk"
    using l(2) file_wf_basic(1)[OF s(3)] f(1) by auto
  ultimately show thesis using that[OF b(1) f(2) l(1)] b(3,4) f(2) by simp
qed

text \<open>The last part: the offset moves, the inode is unlocked and the transaction ends.\<close>

lemma filewrite_end:
  assumes s: "tx_ok n {} s" "log_outstanding (log_st s) = 1" "\<not> log_committing (log_st s)"
    "sl_locked (i_lock (ino s ip))" "1 \<le> i_ref (ino s ip)" "fs_ok s" "file_wf s ip"
  obtains s1 s2 where "iunlock (Some ip) (s\<lparr>ftable := ft\<rparr>) = Ok s1" "end_op s1 = Ok s2" "quiet s2" "calm ip s s2"
    "ftable s2 = ft" "\<exists>lk. ino s2 ip = (ino s ip)\<lparr>i_lock := lk\<rparr> \<and> \<not> sl_locked lk"
    "in_sync s ip \<longrightarrow> in_sync s2 ip"
proof -
  let ?s = "s\<lparr>ftable := ft\<rparr>"
  obtain lk where u: "iunlock (Some ip) ?s = Ok (upd_inode ip (\<lambda>x. x\<lparr>i_lock := lk\<rparr>) (wakeup (ChanInode ip) ?s))"
    "\<not> sl_locked lk" using iunlock_eq[of ?s ip] s(4,5) by auto
  let ?u = "upd_inode ip (\<lambda>x. x\<lparr>i_lock := lk\<rparr>) (wakeup (ChanInode ip) ?s)"
  have "in_tx ?u" "log_outstanding (log_st ?u) = 1" "\<not> log_committing (log_st ?u)" "held ?u = {}"
    using s(1-3) in_tx_wakeup[of ?s] by (simp_all add: tx_ok_def)
  then obtain s2 where e: "end_op ?u = Ok s2" "quiet s2" "cache_frame ?u s2" "log_area s2 = log_area ?u"
    "\<forall>b. b \<notin> log_area ?u \<longrightarrow> view s2 b = view ?u b" by (rule end_op_Ok)
  note f = cache_frameD(12,13)[OF e(3)]
  have "fs_frame ?s (wakeup (ChanInode ip) ?s)" by (rule fs_frame_upd(4)) simp_all
  then have "fs_frame s (wakeup (ChanInode ip) ?s)" using fs_frame_trans fs_frame_refl(3) by blast
  then have "fs_frame s ?u" using fs_frame_trans fs_frame_refl(2) by blast
  then have fr: "fs_frame s s2" using fs_frame_trans fs_frame_upd(4)[OF e(3,4)] by blast
  have "view s2 b = view s b" if "b \<in> tx_blocks s" for b using that e(5) by (simp add: tx_blocks_def)
  then have "calm ip s s2" "in_sync s ip \<longrightarrow> in_sync s2 ip"
    using calm_lock[OF fr _ s(6,7), of lk] f(1) by simp_all
  moreover have "\<exists>lk. ino s2 ip = (ino s ip)\<lparr>i_lock := lk\<rparr> \<and> \<not> sl_locked lk"
    using f(1) u(2) file_wf_basic(1)[OF s(7)] by auto
  ultimately show thesis using that[OF u(1) e(1,2)] f(2) by simp
qed

lemma tx_rounds: "n \<le> max_write \<Longrightarrow> rounds q n \<le> 4"
proof -
  assume "n \<le> max_write"
  then have "q mod BSIZE + n + 511 < 5 * BSIZE" using mod_less_divisor[of BSIZE q] by simp
  then have "(q mod BSIZE + n + 511) div BSIZE < 5" by (rule less_mult_imp_div_less)
  then show ?thesis by (simp add: rounds_def)
qed

lemma file_written_idle:
  assumes "\<exists>as lk sz. ino s' ip = (ino s ip)\<lparr>i_addrs := as, i_lock := lk, i_size := sz\<rparr>" "idle s ip"
  shows "1 \<le> i_ref (ino s' ip)" "i_type (ino s' ip) \<noteq> T_DEV" "i_valid (ino s' ip)"
  using assms by (auto simp: idle_def)

lemma filewrite_tx_Ok:
  assumes s: "quiet s" "fs_ok s" "file_wf s ip" "room s ip K" "idle s ip"
    and f: "f < length (ftable s)" "f_ip (fil s f) = Some ip" "f_off (fil s f) = of_nat q"
    and q: "q \<le> unat (i_size (ino s ip))" "q + length bs \<le> MAXFILE * BSIZE"
      "\<forall>p. q \<le> p \<and> p < q + length bs \<longrightarrow> p div BSIZE \<in> K" "bs \<noteq> []" "length bs \<le> max_write"
  obtains s' where "filewrite_tx f bs s = Ok (int (length bs), s')" "quiet s'" "file_written ip bs q s s'"
    "room s' ip K" "idle s' ip" "ftable s' = upd_at f (\<lambda>x. x\<lparr>f_off := of_nat (q + length bs)\<rparr>) (ftable s)"
proof -
  let ?n = "length bs"
  obtain s1 s2 where b: "begin_op s = Ok s1" "ftable s1 = ftable s" "ilock (Some ip) s1 = Ok s2" "tx_ok 29 {} s2"
    "log_outstanding (log_st s2) = 1" "\<not> log_committing (log_st s2)" "calm ip s s2" "ftable s2 = ftable s"
    "\<exists>lk. ino s2 ip = (ino s ip)\<lparr>i_lock := lk\<rparr> \<and> sl_locked lk" "in_sync s ip \<longrightarrow> in_sync s2 ip" by (rule filewrite_begin[OF s(1,2,3,5)])
  have i2: "i_size (ino s2 ip) = i_size (ino s ip)" "i_type (ino s2 ip) = i_type (ino s ip)"
    "i_ref (ino s2 ip) = i_ref (ino s ip)" "i_valid (ino s2 ip) = i_valid (ino s ip)" "sl_locked (i_lock (ino s2 ip))"
    using b(9) by auto
  have w2: "file_written ip [] q s s2" by (rule calm_written[OF s(2,3) b(7) q(1) _ i2(1) b(10)]) (use q(2) in simp)
  have s2: "fs_ok s2" "file_wf s2 ip" "room s2 ip K"
    using w2 calm_file(7)[OF b(7) s(2,3)] s(4) by (simp_all add: file_written_def)
  have t: "tx_ok (Suc 0 + 6 * rounds q ?n) {} s2" by (rule lt.fewer[OF b(4)]) (use tx_rounds[OF q(5), of q] in simp)
  have z2: "q \<le> unat (i_size (ino s2 ip))" "i_type (ino s2 ip) \<noteq> T_DEV" using q(1) s(5) i2 by (simp_all add: idle_def)
  obtain s3 where w: "writei ip bs (of_nat q) s2 = Ok (int ?n, s3)" "tx_ok 0 {} s3" "file_written ip bs q s2 s3"
    "room s3 ip K" "ino_frame s2 s3" "i_lock (ino s3 ip) = i_lock (ino s2 ip)"
    by (rule writei_Ok[OF t s2 z2(1) q(2,3) z2(2)])
  note d3 = file_writtenD[OF w(3) q(2) s2(2)] and fr = ino_frameD(6,7,8)[OF w(5)]
  have i3: "1 \<le> i_ref (ino s3 ip)" "i_type (ino s3 ip) \<noteq> T_DEV" "i_valid (ino s3 ip)"
    using d3(5) i2 s(5) by (auto simp: idle_def)
  have e: "log_outstanding (log_st s3) = 1" "\<not> log_committing (log_st s3)" "sl_locked (i_lock (ino s3 ip))"
    using fr b(5,6) w(6) i2(5) by simp_all
  let ?ft = "upd_at f (\<lambda>x. x\<lparr>f_off := of_nat (q + ?n)\<rparr>) (ftable s)"
  obtain s4 s5 where en: "iunlock (Some ip) (s3\<lparr>ftable := ?ft\<rparr>) = Ok s4" "end_op s4 = Ok s5" "quiet s5" "calm ip s3 s5"
    "ftable s5 = ?ft" "\<exists>lk. ino s5 ip = (ino s3 ip)\<lparr>i_lock := lk\<rparr> \<and> \<not> sl_locked lk"
    "in_sync s3 ip \<longrightarrow> in_sync s5 ip"
    by (rule filewrite_end[OF w(2) e i3(1) d3(2,3)])
  have "file_written ip [] (q + ?n) s3 s5"
    by (rule calm_written[OF d3(2,3) en(4) _ _ _ en(7)]) (use d3(4) q(2) en(6) in auto)
  then have "file_written ip bs q s2 s5" using file_written_trans[OF s2(2) w(3), of "[]" s5] q(2) by simp
  then have fw: "file_written ip bs q s s5" using file_written_trans[OF s(3) w2, of bs s5] q(2) by simp
  have "f_off (fil s f) + word_of_int (int ?n) = of_nat (q + ?n)" using f(3) by simp
  then have "upd_at f (\<lambda>x. x\<lparr>f_off := f_off x + word_of_int (int ?n)\<rparr>) (ftable s) = ?ft"
    using f(1) by (simp add: upd_at_def)
  then have "upd_file f (\<lambda>x. x\<lparr>f_off := f_off x + word_of_int (int ?n)\<rparr>) s3 = s3\<lparr>ftable := ?ft\<rparr>"
    using fr(3) b(8) by simp
  then have "filewrite_tx f bs s = Ok (int ?n, s5)"
    using b(1,2,3,8) w(1) en(1,2) f(2,3) q(4) by (simp add: filewrite_tx_def)
  moreover have "room s5 ip K" using calm_file(7)[OF en(4) d3(2,3)] w(4) by simp
  moreover have "idle s5 ip" using en(6) i3 by (auto simp: idle_def)
  ultimately show thesis using that en(3,5) fw by blast
qed

lemma file_written_nil:
  "fs_ok s \<Longrightarrow> file_wf s ip \<Longrightarrow> q \<le> unat (i_size (ino s ip)) \<Longrightarrow> q \<le> MAXFILE * BSIZE \<Longrightarrow> file_written ip [] q s s"
  by (rule calm_written) (auto simp: calm_def inodes_keptI upd_at_def
      intro!: exI[of _ "i_lock (ino s ip)"] exI[of _ "i_size (ino s ip)"])

lemma filewrite_loop_Ok:
  assumes "quiet s" "fs_ok s" "file_wf s ip" "room s ip K" "idle s ip"
    "f < length (ftable s)" "f_ip (fil s f) = Some ip" "f_off (fil s f) = of_nat q"
    "q \<le> unat (i_size (ino s ip))" "q + length src \<le> MAXFILE * BSIZE"
    "\<forall>p. q \<le> p \<and> p < q + length src \<longrightarrow> p div BSIZE \<in> K"
  shows "\<exists>s'. filewrite_loop f src s = Ok (True, s') \<and> quiet s' \<and> file_written ip src q s s' \<and> room s' ip K \<and>
    idle s' ip \<and> ftable s' = upd_at f (\<lambda>x. x\<lparr>f_off := of_nat (q + length src)\<rparr>) (ftable s)"
  using assms
proof (induction "length src" arbitrary: src q s rule: less_induct)
  case less
  note p = less.prems
  show ?case
  proof (cases "src = []")
    case True
    have "upd_at f (\<lambda>x. x\<lparr>f_off := of_nat q\<rparr>) (ftable s) = ftable s"
      unfolding p(8)[symmetric] by (simp add: upd_at_def)
    then show ?thesis using True p file_written_nil[OF p(2,3,9)] by (simp add: filewrite_loop.simps)
  next
    case False
    let ?m = "min (length src) max_write"
    let ?a = "take ?m src" and ?b = "drop ?m src"
    have l: "length ?a = ?m" "length ?b = length src - ?m" "?a \<noteq> []" "length ?a \<le> max_write" "0 < ?m" "?m \<le> length src"
      using False by (auto simp: min_def)
    have q: "q + length ?a \<le> MAXFILE * BSIZE" "q + length ?a + length ?b \<le> MAXFILE * BSIZE"
      "\<forall>p. q \<le> p \<and> p < q + length ?a \<longrightarrow> p div BSIZE \<in> K"
      "\<forall>p. q + ?m \<le> p \<and> p < q + ?m + length ?b \<longrightarrow> p div BSIZE \<in> K" using p(10,11) l(1,2,6) by auto
    obtain t where t: "filewrite_tx f ?a s = Ok (int (length ?a), t)" "quiet t" "file_written ip ?a q s t"
      "room t ip K" "idle t ip" "ftable t = upd_at f (\<lambda>x. x\<lparr>f_off := of_nat (q + length ?a)\<rparr>) (ftable s)"
      by (rule filewrite_tx_Ok[OF p(1-9) q(1,3) l(3,4)])
    note d = file_writtenD[OF t(3) q(1) p(3)]
    have ft: "f < length (ftable t)" "f_ip (fil t f) = Some ip" "f_off (fil t f) = of_nat (q + ?m)"
      using t(6) p(6,7) l(1) by simp_all
    have "length ?b < length src" "q + ?m \<le> unat (i_size (ino t ip))" "q + ?m + length ?b \<le> MAXFILE * BSIZE"
      using l d(4) q(2) by simp_all
    from less.hyps[OF this(1) t(2) d(2,3) t(4,5) ft this(2,3) q(4)] obtain u where
      u: "filewrite_loop f ?b t = Ok (True, u)" "quiet u" "file_written ip ?b (q + ?m) t u" "room u ip K" "idle u ip"
        "ftable u = upd_at f (\<lambda>x. x\<lparr>f_off := of_nat (q + ?m + length ?b)\<rparr>) (ftable t)" by blast
    have "file_written ip (?a @ ?b) q s u" using file_written_trans[OF p(3) t(3) _ q(2)] u(3) l(1) by simp
    moreover have "ftable u = upd_at f (\<lambda>x. x\<lparr>f_off := of_nat (q + length src)\<rparr>) (ftable s)"
      using u(6) l(2,6) by (simp add: t(6) upd_at_upd_at)
    moreover have "filewrite_loop f src s = Ok (True, u)"
      using False t(1) u(1) l(1) by (subst filewrite_loop.simps) (simp add: Let_def)
    ultimately show ?thesis using u(2,4,5) by simp
  qed
qed

section \<open>Open files\<close>

definition open_rw :: "kernel \<Rightarrow> nat \<Rightarrow> nat \<Rightarrow> bool" where
  "open_rw s f ip \<longleftrightarrow> f < length (ftable s) \<and> f_type (fil s f) = FD_INODE \<and> f_ip (fil s f) = Some ip \<and>
     f_readable (fil s f) \<noteq> 0 \<and> f_writable (fil s f) \<noteq> 0"

text \<open>The state between two operations, in which file \<open>f\<close> can be read and written.\<close>

definition file_ready :: "kernel \<Rightarrow> nat \<Rightarrow> nat \<Rightarrow> bool" where
  "file_ready s f ip \<longleftrightarrow> quiet s \<and> fs_ok s \<and> file_wf s ip \<and> idle s ip \<and> open_rw s f ip"

abbreviation seek :: "nat \<Rightarrow> uint32 \<Rightarrow> kernel \<Rightarrow> kernel" where
  "seek f off s \<equiv> upd_file f (\<lambda>x. x\<lparr>f_off := off\<rparr>) s"

lemma ftable_files:
  "faddr (s\<lparr>ftable := x\<rparr>) = faddr s" "indirect (s\<lparr>ftable := x\<rparr>) = indirect s" "owned (s\<lparr>ftable := x\<rparr>) = owned s"
  "fbyte (s\<lparr>ftable := x\<rparr>) = fbyte s" "free_block (s\<lparr>ftable := x\<rparr>) = free_block s" "in_use (s\<lparr>ftable := x\<rparr>) = in_use s"
  "fs_ok (s\<lparr>ftable := x\<rparr>) = fs_ok s" "file_wf (s\<lparr>ftable := x\<rparr>) ip = file_wf s ip" "room (s\<lparr>ftable := x\<rparr>) ip K = room s ip K"
  "idle (s\<lparr>ftable := x\<rparr>) ip = idle s ip" "tx_blocks (s\<lparr>ftable := x\<rparr>) = tx_blocks s"
  "map_blocks (s\<lparr>ftable := x\<rparr>) = map_blocks s" "inode_blocks (s\<lparr>ftable := x\<rparr>) = inode_blocks s"
proof -
  let ?t = "s\<lparr>ftable := x\<rparr>"
  show a: "indirect ?t = indirect s" "in_use ?t = in_use s" "tx_blocks ?t = tx_blocks s" "map_blocks ?t = map_blocks s"
    "inode_blocks ?t = inode_blocks s" "idle ?t ip = idle s ip"
    by (auto simp: fun_eq_iff indirect_def in_use_def tx_blocks_def map_blocks_def inode_blocks_def idle_def)
  show f: "faddr ?t = faddr s" "free_block ?t = free_block s" by (auto simp: fun_eq_iff faddr_def a free_block_def)
  show o: "owned ?t = owned s" "fbyte ?t = fbyte s" by (auto simp: fun_eq_iff owned_def fbyte_def a f Let_def)
  show "fs_ok ?t = fs_ok s" "file_wf ?t ip = file_wf s ip" "room ?t ip K = room s ip K"
    by (simp_all add: fs_ok_def map_ok_def file_wf_def room_def need_def a f o)
qed

lemma file_written_ftable [simp]: "file_written ip src q (s\<lparr>ftable := x\<rparr>) s' = file_written ip src q s s'"
  by (simp add: file_written_def ftable_files fs_frame_def inodes_kept_def stored_inode_def in_sync_def)

lemma filewrite_Ok:
  assumes s: "file_ready s f ip" "room s ip K" "f_off (fil s f) = of_nat q"
    and q: "q \<le> unat (i_size (ino s ip))" "q + length src \<le> MAXFILE * BSIZE"
      "\<forall>p. q \<le> p \<and> p < q + length src \<longrightarrow> p div BSIZE \<in> K"
  obtains s' where "filewrite f src s = Ok (int (length src), s')" "file_ready s' f ip" "room s' ip K"
    "file_written ip src q s s'"
proof -
  have o: "quiet s" "fs_ok s" "file_wf s ip" "idle s ip" "f < length (ftable s)" "f_ip (fil s f) = Some ip" "open_rw s f ip"
    using s(1) by (auto simp: file_ready_def open_rw_def)
  obtain s' where w: "filewrite_loop f src s = Ok (True, s')" "quiet s'" "file_written ip src q s s'" "room s' ip K"
    "idle s' ip" "ftable s' = upd_at f (\<lambda>x. x\<lparr>f_off := of_nat (q + length src)\<rparr>) (ftable s)"
    using filewrite_loop_Ok[OF o(1,2,3) s(2) o(4,5,6) s(3) q] by blast
  have "filewrite f src s = Ok (int (length src), s')" using w(1) o(7) by (simp add: filewrite_def open_rw_def)
  moreover have "file_ready s' f ip"
    using w(2,3,5,6) o(7) by (simp add: file_ready_def file_written_def open_rw_def)
  ultimately show thesis using that w(3,4) by blast
qed

lemma quiet_rd: "quiet s \<Longrightarrow> rd_ok 29 {} s"
  using quietD[of s] by (simp add: rd_ok_def log_ok_def)

lemma rd_quiet:
  assumes "quiet s" "rd_ok 29 {} s'" "disk_frame s s'"
  shows "quiet s'"
proof -
  have r: "bcache_ok s'" "in_proc s'" "held s' = {}" "dirty s' = {}" using assms(2) by (auto simp: rd_ok_def)
  then have "log_ok s'" using log_ok_disk_frame[OF quietD(1)[OF assms(1)] assms(3)] quietD(2)[OF assms(1)] by simp
  then show ?thesis using assms(1,3) r(3) by (simp add: quiet_def disk_frame_def)
qed

lemma wakeup_quiet: "quiet s \<Longrightarrow> quiet (wakeup c s)"
  using log_ok_wakeup by (simp add: quiet_def)

lemma fileread_Ok:
  assumes s: "file_ready s f ip" "f_off (fil s f) = of_nat q"
    and q: "q + n \<le> unat (i_size (ino s ip))"
  obtains s' where "fileread f (int n) s = Ok (int n, map (fbyte s ip) [q..<q + n], s')" "file_ready s' f ip"
    "file_written ip [] q s s'"
proof -
  have o: "quiet s" "fs_ok s" "file_wf s ip" "idle s ip" "open_rw s f ip" using s(1) by (auto simp: file_ready_def)
  have b: "ip < length (icache s)" "unat (i_size (ino s ip)) \<le> MAXFILE * BSIZE"
    using file_wf_basic(1) file_size_bound o(3) by auto
  obtain lk where l: "ilock (Some ip) s = Ok (upd_inode ip (\<lambda>x. x\<lparr>i_lock := lk\<rparr>) s)" "sl_locked lk"
    by (rule ilock_Ok[OF log_okD(2)[OF quietD(1)[OF o(1)]] b(1) o(4)])
  let ?s = "upd_inode ip (\<lambda>x. x\<lparr>i_lock := lk\<rparr>) s"
  have i: "ino ?s ip = (ino s ip)\<lparr>i_lock := lk\<rparr>" using b(1) by simp
  have c: "calm ip s ?s" by (rule calm_lock(1)[OF _ _ o(2,3)]) simp_all
  have wf: "file_wf ?s ip" using calm_file(9)[OF c o(2,3)] o(3) i by (simp add: file_wf_def)
  have fb: "map (fbyte ?s ip) [q..<q + n] = map (fbyte s ip) [q..<q + n]"
    using calm_file(8)[OF c o(2,3)] q b(2) by simp
  have m: "min n (unat (i_size (ino ?s ip)) - q) = n" using q i by simp
  obtain t where t: "readi ip (of_nat q) (of_nat n) ?s = Ok (int n, map (fbyte s ip) [q..<q + n], t)" "rd_ok 29 {} t"
    "disk_frame ?s t" "view t = view ?s"
  proof (rule readi_Ok[of 29 ?s ip q n, unfolded m fb])
    show "rd_ok 29 {} ?s" by (rule quiet_rd) (use o(1) in simp)
    show "i_type (ino ?s ip) \<noteq> T_DEV" "q \<le> unat (i_size (ino ?s ip))" "q + n < 2 ^ 32" using o(4) q b(2) i by (simp_all add: idle_def)
  qed (use wf in simp_all)
  have tf: "icache t = icache ?s" "ftable t = ftable ?s" "cache_frame ?s t" "log_area t = log_area ?s"
    using t(3) cache_frameD(12,13)[of ?s t] by (auto simp: disk_frame_def log_area_def)
  let ?ft = "if 0 < n then upd_at f (\<lambda>x. x\<lparr>f_off := f_off x + word_of_int (int n)\<rparr>) (ftable s) else ftable s"
  let ?t = "t\<lparr>ftable := ?ft\<rparr>"
  have "ftable s = ftable t" using tf(2) by simp
  then have tt: "(if 0 < int n then upd_file f (\<lambda>x. x\<lparr>f_off := f_off x + word_of_int (int n)\<rparr>) t else t) = ?t" by simp
  have "sl_locked (i_lock (ino ?t ip))" "1 \<le> i_ref (ino ?t ip)" using l(2) o(4) i by (simp_all add: tf idle_def)
  then obtain lk' where u: "iunlock (Some ip) ?t = Ok (upd_inode ip (\<lambda>x. x\<lparr>i_lock := lk'\<rparr>) (wakeup (ChanInode ip) ?t))"
    "\<not> sl_locked lk'" using iunlock_eq by blast
  let ?u = "upd_inode ip (\<lambda>x. x\<lparr>i_lock := lk'\<rparr>) (wakeup (ChanInode ip) ?t)"
  have iu: "icache ?u = upd_at ip (\<lambda>x. x\<lparr>i_lock := lk'\<rparr>) (icache s)" using b(1) by (simp add: tf upd_at_def)
  have "fs_frame s ?s" "fs_frame ?s t" "fs_frame t ?t" using fs_frame_upd(4)[OF tf(3,4)] by simp_all
  moreover have "fs_frame ?t (wakeup (ChanInode ip) ?t)" "fs_frame (wakeup (ChanInode ip) ?t) ?u"
    by (simp_all add: fs_frame_upd(4))
  ultimately have "fs_frame s ?u" using fs_frame_trans by blast
  then have cu: "calm ip s ?u" "in_sync s ip \<longrightarrow> in_sync ?u ip"
    using calm_lock[OF _ _ o(2,3), of ?u lk'] t(4) iu by simp_all
  have w: "file_written ip [] q s ?u" by (rule calm_written[OF o(2,3) cu(1) _ _ _ cu(2)]) (use q b iu in auto)
  have "quiet ?u" using wakeup_quiet[of ?t] rd_quiet[OF _ t(2,3)] o(1) by simp
  moreover have "idle ?u ip" using o(4) u(2) b(1) unfolding idle_def iu by simp
  moreover have "open_rw ?u f ip" using o(5) by (auto simp: open_rw_def)
  ultimately have "file_ready ?u f ip" using w by (simp add: file_ready_def file_written_def)
  moreover have "fileread f (int n) s = Ok (int n, map (fbyte s ip) [q..<q + n], ?u)"
    using o(5) l(1) t(1) s(2) u(1) tt by (simp add: fileread_def open_rw_def Let_def del: of_nat_0_less_iff)
  ultimately show thesis using that w by blast
qed

section \<open>The swap file\<close>

lemma wakes_swapFile:
  "wakes ps qs \<Longrightarrow> p < length ps \<Longrightarrow> p_swapFile (qs ! p) = p_swapFile (ps ! p)"
  by (auto simp: wakes_def list_all2_conv_all_nth)

text \<open>The state between two operations on the swap file \<open>f\<close> of process \<open>p\<close>.\<close>

definition swap_ready :: "kernel \<Rightarrow> nat \<Rightarrow> nat \<Rightarrow> nat \<Rightarrow> bool" where
  "swap_ready s p f ip \<longleftrightarrow> file_ready s f ip \<and> p < length (procs s) \<and> p_swapFile (procs s ! p) = Some f"

lemma swap_ready_kept:
  "swap_ready s p f ip \<Longrightarrow> fs_frame s s' \<Longrightarrow> file_ready s' f ip \<Longrightarrow> swap_ready s' p f ip"
  using wakes_swapFile[OF fs_frameD(10), of s s' p] wakes_length[OF fs_frameD(10), of s s']
  by (simp add: swap_ready_def)

lemma seek_ready: "file_ready s f ip \<Longrightarrow> file_ready (seek f off s) f ip"
  by (auto simp: file_ready_def open_rw_def ftable_files)

definition file_blocks_of :: "nat \<Rightarrow> nat \<Rightarrow> nat set" where
  "file_blocks_of q n = {p div BSIZE | p. q \<le> p \<and> p < q + n}"

lemma writeToSwapFile_Ok:
  assumes s: "swap_ready s p f ip" "room s ip K" "q \<le> unat (i_size (ino s ip))" "q + length src \<le> MAXFILE * BSIZE"
    "file_blocks_of q (length src) \<subseteq> K"
  obtains s' where "writeToSwapFile p src (of_nat q) s = Ok (int (length src), s')" "swap_ready s' p f ip"
    "room s' ip K" "file_written ip src q s s'"
proof -
  let ?s = "seek f (of_nat q) s"
  have r: "file_ready ?s f ip" "room ?s ip K" "f_off (fil ?s f) = of_nat q" "q \<le> unat (i_size (ino ?s ip))"
    "\<forall>x. q \<le> x \<and> x < q + length src \<longrightarrow> x div BSIZE \<in> K"
    using s seek_ready by (auto simp: swap_ready_def file_ready_def open_rw_def ftable_files file_blocks_of_def)
  obtain s' where w: "filewrite f src ?s = Ok (int (length src), s')" "file_ready s' f ip" "room s' ip K"
    "file_written ip src q ?s s'" by (rule filewrite_Ok[OF r(1,2,3,4) s(4) r(5)])
  then have fw: "file_written ip src q s s'" by simp
  have "writeToSwapFile p src (of_nat q) s = Ok (int (length src), s')"
    using s(1) w(1) by (simp add: writeToSwapFile_def swap_ready_def)
  moreover have "swap_ready s' p f ip" using swap_ready_kept[OF s(1) _ w(2)] fw by (simp add: file_written_def)
  ultimately show thesis using that w(3) fw by blast
qed

lemma readFromSwapFile_Ok:
  assumes s: "swap_ready s p f ip" "q + n \<le> unat (i_size (ino s ip))"
  obtains s' where "readFromSwapFile p (of_nat q) (of_nat n) s = Ok (int n, map (fbyte s ip) [q..<q + n], s')"
    "swap_ready s' p f ip" "file_written ip [] q s s'"
proof -
  let ?s = "seek f (of_nat q) s"
  have o: "file_ready s f ip" "f < length (ftable s)" using s(1) by (auto simp: swap_ready_def file_ready_def open_rw_def)
  then have r: "file_ready ?s f ip" "f_off (fil ?s f) = of_nat q" "q + n \<le> unat (i_size (ino ?s ip))"
    using seek_ready s(2) by simp_all
  obtain s' where w: "fileread f (int n) ?s = Ok (int n, map (fbyte ?s ip) [q..<q + n], s')" "file_ready s' f ip"
    "file_written ip [] q ?s s'" by (rule fileread_Ok[OF r])
  then have fw: "file_written ip [] q s s'" by simp
  have "unat (i_size (ino s ip)) \<le> MAXFILE * BSIZE" using o(1) file_size_bound by (auto simp: file_ready_def)
  then have "sint (of_nat n :: uint32) = int n" using s(2) by (intro sint_of_nat_small) simp
  then have "readFromSwapFile p (of_nat q) (of_nat n) s = Ok (int n, map (fbyte s ip) [q..<q + n], s')"
    using s(1) w(1) by (simp add: readFromSwapFile_def swap_ready_def ftable_files)
  moreover have "swap_ready s' p f ip" using swap_ready_kept[OF s(1) _ w(2)] fw by (simp add: file_written_def)
  ultimately show thesis using that fw by blast
qed

lemma bytes_put_read:
  "bytes_put src q f g \<Longrightarrow> q + length src \<le> MAXFILE * BSIZE \<Longrightarrow> map g [q..<q + length src] = src"
  by (rule nth_equalityI) (auto simp: bytes_put_def)

lemma bytes_put_keep:
  "bytes_put src r f g \<Longrightarrow> q + n \<le> r \<or> r + length src \<le> q \<Longrightarrow> q + n \<le> MAXFILE * BSIZE \<Longrightarrow>
   map g [q..<q + n] = map f [q..<q + n]"
  by (auto simp: bytes_put_def)

text \<open>
  C2. What is written to the swap file of a process comes back: after the bytes \<open>xs\<close> have been
  written at one place of the file and other bytes at another place, reading the first place gives
  \<open>xs\<close>.  Every step succeeds when the disk has free blocks for both places and they do not lie
  beyond the end of the file; a page that is written takes three transactions.
\<close>

theorem swap_file_roundtrip:
  assumes s: "swap_ready s p f ip" "room s ip (file_blocks_of q (length xs) \<union> file_blocks_of r (length ys))"
    and q: "q \<le> unat (i_size (ino s ip))" "q + length xs \<le> MAXFILE * BSIZE"
    and r: "r \<le> max (unat (i_size (ino s ip))) (q + length xs)" "r + length ys \<le> MAXFILE * BSIZE"
    and apart: "q + length xs \<le> r \<or> r + length ys \<le> q"
  shows "\<exists>s1 s2 s3. writeToSwapFile p xs (of_nat q) s = Ok (int (length xs), s1) \<and>
    writeToSwapFile p ys (of_nat r) s1 = Ok (int (length ys), s2) \<and>
    readFromSwapFile p (of_nat q) (of_nat (length xs)) s2 = Ok (int (length xs), xs, s3) \<and> swap_ready s3 p f ip"
proof -
  let ?K = "file_blocks_of q (length xs) \<union> file_blocks_of r (length ys)"
  obtain s1 where s1: "writeToSwapFile p xs (of_nat q) s = Ok (int (length xs), s1)" "swap_ready s1 p f ip"
    "room s1 ip ?K" "file_written ip xs q s s1" by (rule writeToSwapFile_Ok[OF s q]) simp
  have wf: "file_wf s ip" "file_wf s1 ip" using s(1) s1(2) by (auto simp: swap_ready_def file_ready_def)
  note z1 = file_writtenD(4)[OF s1(4) q(2) wf(1)]
  obtain s2 where s2: "writeToSwapFile p ys (of_nat r) s1 = Ok (int (length ys), s2)" "swap_ready s2 p f ip"
    "room s2 ip ?K" "file_written ip ys r s1 s2"
    by (rule writeToSwapFile_Ok[OF s1(2,3) _ r(2)]) (use r(1) z1 in simp_all)
  note z2 = file_writtenD(4)[OF s2(4) r(2) wf(2)]
  have le: "q + length xs \<le> unat (i_size (ino s2 ip))" unfolding z2 z1 by (meson max.cobounded1 max.cobounded2 order_trans)
  obtain s3 where s3: "readFromSwapFile p (of_nat q) (of_nat (length xs)) s2 =
      Ok (int (length xs), map (fbyte s2 ip) [q..<q + length xs], s3)" "swap_ready s3 p f ip"
    by (rule readFromSwapFile_Ok[OF s2(2) le])
  have "map (fbyte s2 ip) [q..<q + length xs] = map (fbyte s1 ip) [q..<q + length xs]"
    by (rule bytes_put_keep[OF _ apart q(2)]) (use s2(4) in \<open>simp add: file_written_def\<close>)
  also have "\<dots> = xs" using bytes_put_read[OF _ q(2), of "fbyte s ip"] s1(4) by (simp add: file_written_def)
  finally show ?thesis using s1(1) s2(1) s3 by simp
qed

lemma file_written_other:
  assumes w: "file_written ip src q s s'" and j: "file_wf s j" "j \<noteq> ip" "owned s j \<inter> owned s ip = {}"
  shows "x < MAXFILE * BSIZE \<Longrightarrow> fbyte s' j x = fbyte s j x" "ino s' j = ino s j"
proof -
  note W = w[unfolded file_written_def]
  have v: "view s' b = view s b" if "b \<in> owned s j" for b
    using W ownedD[OF j(1) that] that j(3) by blast
  show i: "ino s' j = ino s j" using W j(2) by auto
  then have ind: "indirect s' j = indirect s j" by (simp add: indirect_def)
  have a: "faddr s' j = faddr s j" using v indirect_owned by (auto simp: fun_eq_iff faddr_def ind i)
  show "fbyte s' j x = fbyte s j x" if "x < MAXFILE * BSIZE"
  proof -
    have "x div BSIZE < MAXFILE" using that by (simp add: less_mult_imp_div_less)
    then show ?thesis using v faddr_owned by (auto simp: fbyte_def a Let_def)
  qed
qed

text \<open>
  C19. Writing to the swap file of a process stores exactly the given bytes at the given place,
  extends the file when they go beyond its end, and changes nothing else: no other byte of the
  file, no byte and no field of the cached inode of any other file, none of the 64 bytes that any
  other inode has on the disk, and no byte of memory.  When the file has grown, its own inode on the
  disk holds the fields of the cached one, with the new size and the new addresses.
\<close>

theorem swap_write_isolated:
  assumes s: "swap_ready s p f ip" "room s ip (file_blocks_of q (length xs))"
    and q: "q \<le> unat (i_size (ino s ip))" "q + length xs \<le> MAXFILE * BSIZE"
  shows "\<exists>s'. writeToSwapFile p xs (of_nat q) s = Ok (int (length xs), s') \<and>
    (\<forall>x < MAXFILE * BSIZE. fbyte s' ip x = (if q \<le> x \<and> x < q + length xs then xs ! (x - q) else fbyte s ip x)) \<and>
    unat (i_size (ino s' ip)) = max (unat (i_size (ino s ip))) (q + length xs) \<and>
    (\<forall>j. j \<noteq> ip \<and> file_wf s j \<and> owned s j \<inter> owned s ip = {} \<longrightarrow>
       ino s' j = ino s j \<and> (\<forall>x < MAXFILE * BSIZE. fbyte s' j x = fbyte s j x)) \<and>
    (\<forall>i < sb_ninodes (sb s). i \<noteq> i_inum (ino s ip) \<longrightarrow> stored_inode s' i = stored_inode s i) \<and>
    (unat (i_size (ino s ip)) < q + length xs \<longrightarrow> in_sync s' ip) \<and>
    mem s' = mem s"
proof -
  obtain s' where s': "writeToSwapFile p xs (of_nat q) s = Ok (int (length xs), s')" "file_written ip xs q s s'"
    by (rule writeToSwapFile_Ok[OF s q]) auto
  have "file_wf s ip" using s(1) by (auto simp: swap_ready_def file_ready_def)
  note d = file_writtenD(1,4)[OF s'(2) q(2) this]
  show ?thesis
    using s' d(2) fs_frameD(7)[OF d(1)] file_written_other[OF s'(2)]
    by (auto simp: file_written_def bytes_put_def inodes_kept_def)
qed

section \<open>A concrete swap file\<close>

text \<open>Process 2 of the concrete kernel with an empty swap file, on the file system of \<open>demo_fs\<close>.\<close>

definition demo_swap :: kernel where
  "demo_swap = demo_kernel\<lparr>disk := disk demo_fs,
     icache := [\<lparr>i_dev = 1, i_inum = 5, i_ref = 1, i_lock = initsleeplock, i_valid = True, i_type = T_FILE,
       i_major = 0, i_minor = 0, i_nlink = 1, i_size = 0, i_addrs = replicate 13 0\<rparr>],
     ftable := [\<lparr>f_type = FD_INODE, f_ref = 1, f_readable = 1, f_writable = 2, f_pipe = 0, f_ip = Some 0, f_off = 0\<rparr>],
     procs := upd_at 2 (\<lambda>p. p\<lparr>p_swapFile := Some 0\<rparr>) (procs demo_kernel)\<rparr>"

lemma demo_swap_simps [simp]:
  "log_st demo_swap = log_st demo_kernel" "sb demo_swap = sb demo_kernel" "disksize demo_swap = 1000"
  "bufs demo_swap = bufs demo_kernel" "held demo_swap = held demo_kernel" "dirty demo_swap = dirty demo_kernel"
  "disk demo_swap = disk demo_fs" "log_area demo_swap = log_area demo_tx" "logged demo_swap = logged demo_kernel"
  "lru demo_swap = lru demo_kernel" "cur demo_swap = Some 2"
  by (simp_all add: demo_swap_def held_def dirty_def log_area_def logged_def)
     (simp_all add: demo_kernel_def demo_tx_def)

lemma demo_swap_view: "view demo_swap = disk demo_fs"
proof -
  have "find_idx (\<lambda>u. b_dev u = 1 \<and> b_blockno u = b \<and> b_valid u) (replicate 30 demo_buf) = None" for b
    by (simp add: find_idx_None_iff)
  then show ?thesis by (simp add: fun_eq_iff view_def cached_def) (simp add: demo_kernel_def)
qed

lemma demo_swap_quiet: "quiet demo_swap"
proof -
  have "length (disk demo_fs b) = BSIZE" for b by simp
  then have "bcache_ok demo_swap"
    by (auto simp: bcache_ok_def buf_ok_def simp del: demo_fs_simps) (auto simp: demo_kernel_def)
  moreover have "in_proc demo_swap" by (simp add: in_proc_def demo_swap_def demo_kernel_def demo_procs_def upd_at_def)
  moreover have "get32 (replicate BSIZE 0) 0 = (0 :: uint32)"
    by (simp add: get32_def of_le32_def get_bytes_def numeral_eq_Suc)
  moreover have "logged demo_kernel = []" "dirty demo_kernel = {}" "held demo_kernel = {}"
    by (auto simp: logged_def dirty_def held_def demo_kernel_def)
  ultimately show ?thesis using demo_log_ok by (simp add: quiet_def log_ok_def)
qed

lemma demo_swap_blocks: "tx_blocks demo_swap = tx_blocks demo_fs" "map_blocks demo_swap = {58}"
  using demo_map_blocks by (simp_all add: tx_blocks_def map_blocks_def)

lemma demo_swap_free: "free_block demo_swap b \<longleftrightarrow> b < 1000 \<and> 59 \<le> b"
proof -
  have "in_use demo_swap b = in_use demo_fs b" if b: "b < 1000"
  proof -
    have "BBLOCK b (sb demo_fs) \<in> map_blocks demo_fs" using b by (auto simp: map_blocks_def demo_sb_fields)
    then have "BBLOCK b (sb demo_kernel) = 58" by (simp add: demo_map_blocks)
    then show ?thesis by (simp add: in_use_def demo_swap_view demo_fs_view)
  qed
  then show ?thesis using demo_in_use[of b] by (auto simp: free_block_def demo_sb_fields not_less)
qed

lemma demo_inode_blocks: "b \<in> inode_blocks demo_swap \<Longrightarrow> 32 \<le> b \<and> b < 58"
proof -
  assume "b \<in> inode_blocks demo_swap"
  then obtain i where i: "b = IBLOCK i (sb demo_kernel)" "i < 200" by (auto simp: inode_blocks_def demo_sb_fields)
  have "unat (i div 8) < 25" using i(2) by (simp add: unat_div word_less_nat_alt)
  then show ?thesis using i(1) by (simp add: IBLOCK_def demo_sb_fields word_le_nat_alt word_less_nat_alt unat_word_ariths)
qed

lemma demo_swap_fs: "fs_ok demo_swap"
proof -
  have "map_ok demo_swap"
    unfolding map_ok_def demo_swap_blocks demo_swap_free
    by (auto simp: demo_blocks word_le_nat_alt word_less_nat_alt)
  moreover have ib: "32 \<le> b \<and> b < 1000 \<and> b \<noteq> 58 \<and> b < 59" if "b \<in> inode_blocks demo_swap" for b
    using demo_inode_blocks[OF that] by (auto simp: word_le_nat_alt word_less_nat_alt)
  then have "inode_blocks demo_swap \<subseteq> tx_blocks demo_swap" "inode_blocks demo_swap \<inter> map_blocks demo_swap = {}"
    unfolding demo_swap_blocks subset_iff demo_blocks by (blast, auto)
  moreover have "b \<notin> inode_blocks demo_swap" if "free_block demo_swap b" for b
    using that ib[of b] unfolding demo_swap_free by (auto simp: not_less)
  ultimately show ?thesis by (simp add: fs_ok_def)
qed

lemma demo_swap_file:
  "faddr demo_swap 0 k = (if k < NDIRECT then 0 else 0)" "indirect demo_swap 0 = 0" "owned demo_swap 0 = {}"
  "i_size (ino demo_swap 0) = 0" "file_wf demo_swap 0"
proof -
  show i: "indirect demo_swap 0 = 0" by (simp add: indirect_def demo_swap_def)
  show f: "faddr demo_swap 0 k = (if k < NDIRECT then 0 else 0)" for k by (simp add: faddr_def i) (simp add: demo_swap_def)
  show o: "owned demo_swap 0 = {}" by (auto simp: owned_def i f)
  show "i_size (ino demo_swap 0) = 0" by (simp add: demo_swap_def)
  show "file_wf demo_swap 0" unfolding file_wf_def o by (simp add: f i) (simp add: demo_swap_def demo_sb_fields)
qed

lemma demo_swap_ready: "swap_ready demo_swap 2 0 0"
proof -
  have "idle demo_swap 0" "open_rw demo_swap 0 0" by (simp_all add: idle_def open_rw_def demo_swap_def initsleeplock_def)
  then show ?thesis
    using demo_swap_quiet demo_swap_fs demo_swap_file(5)
    by (simp add: swap_ready_def file_ready_def) (simp add: demo_swap_def demo_kernel_def demo_procs_def upd_at_def)
qed

lemma demo_swap_room: "K \<subseteq> {..<16} \<Longrightarrow> room demo_swap 0 K"
proof -
  assume K: "K \<subseteq> {..<16}"
  then have "card K \<le> 16" using card_mono[of "{..<16::nat}" K] by simp
  moreover have "card ((of_nat :: nat \<Rightarrow> uint32) ` {100..<117}) = 17"
    by (subst card_image) (auto simp: inj_on_def unat_of_nat_small dest!: arg_cong[where f = unat])
  moreover have "(of_nat :: nat \<Rightarrow> uint32) ` {100..<117} \<subseteq> Collect (free_block demo_swap)"
    by (auto simp: demo_swap_free word_le_nat_alt word_less_nat_alt unat_of_nat_small)
  then have "card ((of_nat :: nat \<Rightarrow> uint32) ` {100..<117}) \<le> card (Collect (free_block demo_swap))"
    by (rule card_mono[rotated]) simp
  moreover have "finite K" "K \<subseteq> {..<MAXFILE}" using K finite_subset by fastforce+
  ultimately show ?thesis by (simp add: room_def need_def demo_swap_file)
qed

theorem swap_file_roundtrip_witness:
  "\<exists>s1 s2 s3. writeToSwapFile 2 (replicate 4096 7) 0 demo_swap = Ok (4096, s1) \<and>
    writeToSwapFile 2 (replicate 4096 9) 0x1000 s1 = Ok (4096, s2) \<and>
    readFromSwapFile 2 0 0x1000 s2 = Ok (4096, replicate 4096 7, s3)"
proof -
  have "file_blocks_of 0 4096 \<union> file_blocks_of 4096 4096 \<subseteq> {..<16}" by (auto simp: file_blocks_of_def)
  note r = demo_swap_room[OF this]
  show ?thesis
    using swap_file_roundtrip[OF demo_swap_ready, of 0 "replicate 4096 7" 4096 "replicate 4096 9"] r by auto
qed

theorem swap_write_isolated_witness:
  "\<exists>s'. writeToSwapFile 2 (replicate 4096 7) 0 demo_swap = Ok (4096, s') \<and>
    fbyte s' 0 4095 = 7 \<and> fbyte s' 0 4096 = 0 \<and> i_size (ino s' 0) = 4096 \<and> in_sync s' 0 \<and>
    stored_inode s' 6 = stored_inode demo_swap 6 \<and> mem s' = mem demo_swap"
proof -
  have "file_blocks_of 0 4096 \<subseteq> {..<16}" by (auto simp: file_blocks_of_def)
  note r = demo_swap_room[OF this]
  have "fbyte demo_swap 0 4096 = 0" by (simp add: fbyte_def demo_swap_file)
  moreover have "i_inum (ino demo_swap 0) = 5" "6 < sb_ninodes (sb demo_swap)"
    by (simp_all add: demo_swap_def) (simp add: demo_kernel_def)
  ultimately show ?thesis
    using swap_write_isolated[OF demo_swap_ready, of 0 "replicate 4096 7"] r
    by (auto simp: demo_swap_file word_unat_eq_iff[of _ 4096])
qed

end
