(* ===== verification/Swapping.thy ===== *)
theory Swapping
  imports Paging FileOps Policies
begin

text \<open>
  Moving a page between memory and the swap file, src/vm.c: \<open>insert_to_disk\<close> as the user and the
  metadata see it, \<open>readPageFromFile\<close>, and \<open>getPageFromFile\<close> when a slot in memory is free.
  The user bytes are those of \<open>UserMem\<close>, the bytes of the file those of \<open>FileOps\<close>.
\<close>

section \<open>State that the file system does not see\<close>

lemma same_fs:
  assumes "bufs s' = bufs s" "lru s' = lru s" "disk s' = disk s" "disksize s' = disksize s" "log_st s' = log_st s"
    "sb s' = sb s" "icache s' = icache s" "ftable s' = ftable s"
  shows "view s' = view s" "fbyte s' = fbyte s"
    "cur s' = cur s \<Longrightarrow> length (procs s') = length (procs s) \<Longrightarrow>
     \<forall>c < length (procs s). p_state (procs s' ! c) = p_state (procs s ! c) \<and> p_swapFile (procs s' ! c) = p_swapFile (procs s ! c) \<Longrightarrow>
     swap_ready s' p f ip = swap_ready s p f ip"
    "room s' ip K = room s ip K"
proof -
  show v: "view s' = view s" by (auto simp: fun_eq_iff view_def cached_def assms split: option.splits)
  have a: "dirty s' = dirty s" "held s' = held s" "logged s' = logged s" "log_area s' = log_area s"
    "bcache_ok s' = bcache_ok s" "indirect s' = indirect s" "in_use s' = in_use s" "tx_blocks s' = tx_blocks s"
    "map_blocks s' = map_blocks s" "inode_blocks s' = inode_blocks s" "idle s' ip = idle s ip" "open_rw s' f ip = open_rw s f ip"
    by (auto simp: fun_eq_iff dirty_def held_def logged_def log_area_def bcache_ok_def buf_ok_def indirect_def in_use_def
        tx_blocks_def map_blocks_def inode_blocks_def idle_def open_rw_def assms v)
  have b: "faddr s' = faddr s" "free_block s' = free_block s"
    by (auto simp: fun_eq_iff faddr_def free_block_def a assms v)
  have c: "owned s' = owned s" by (simp add: fun_eq_iff owned_def a b)
  show "fbyte s' = fbyte s" by (simp add: fun_eq_iff fbyte_def b v Let_def)
  show "room s' ip K = room s ip K" by (simp add: room_def need_def a b)
  have fs: "fs_ok s' = fs_ok s" "file_wf s' ip = file_wf s ip"
    by (simp_all add: fs_ok_def map_ok_def file_wf_def a b c assms)
  assume p: "cur s' = cur s" "length (procs s') = length (procs s)"
    "\<forall>c < length (procs s). p_state (procs s' ! c) = p_state (procs s ! c) \<and> p_swapFile (procs s' ! c) = p_swapFile (procs s ! c)"
  have "in_proc s' = in_proc s" unfolding in_proc_def p(1,2) using p(3) by auto
  then have "quiet s' = quiet s" by (simp add: quiet_def log_ok_def a assms)
  then show "swap_ready s' p f ip = swap_ready s p f ip"
    using p(2,3) by (auto simp: swap_ready_def file_ready_def fs a)
qed

lemma vm_ok_same: "mem s' = mem s \<Longrightarrow> kmem s' = kmem s \<Longrightarrow> vm_ok kend pgdir ps s' = vm_ok kend pgdir ps s"
  by (simp add: vm_ok_def free_pages_def)

lemma user_ok_same: "mem s' = mem s \<Longrightarrow> kmem s' = kmem s \<Longrightarrow> user_ok kend pgdir ps s' = user_ok kend pgdir ps s"
  by (simp add: user_ok_def vm_ok_same[of s' s])

section \<open>The metadata of a page that comes back\<close>

lemma enter_any:
  assumes "pol \<noteq> NONE" "pol_queued pol q" "free_slot q = Some j" "va \<noteq> NOVA"
  obtains q' where "update_memory pol va q = Ok (j, q')" "entered j va q q'" "pol_queued pol q'"
proof (cases pol)
  case SCFIFO
  then show thesis using that scfifo.enter_Ok[of q j va] assms by (auto simp: pol_queued_def)
next
  case NFUA
  then show thesis using that nfua.enter_Ok[of q j va] assms by (auto simp: pol_queued_def)
next
  case LAPA
  then show thesis using that lapa.enter_Ok[of q j va] assms by (auto simp: pol_queued_def)
next
  case AQ
  then show thesis using that aqp.enter_Ok[of q j va] assms by (auto simp: pol_queued_def)
qed (use assms(1) in simp)

lemma free_slot_ex:
  assumes "wf_meta q" "pages_in_memory_counter q < int MAX_PSYC_PAGES"
  obtains j where "free_slot q = Some j"
proof -
  have "\<exists>j < length (memory_pg_arr q). fp_va (memory_pg_arr q ! j) = NOVA"
  proof (rule ccontr)
    assume "\<not> (\<exists>j < length (memory_pg_arr q). fp_va (memory_pg_arr q ! j) = NOVA)"
    then have "filter (\<lambda>f. fp_va f \<noteq> NOVA) (memory_pg_arr q) = memory_pg_arr q"
      by (intro filter_True) (auto simp: in_set_conv_nth)
    then show False using assms by (simp add: wf_meta_def count_if_def)
  qed
  then show thesis using that find_idx_ex[of _ "memory_pg_arr q" "\<lambda>f. fp_va f = NOVA"] unfolding free_slot_def by blast
qed

text \<open>Slot \<open>i\<close> of the swap file is given back.\<close>

definition freed_disk :: "nat \<Rightarrow> proc \<Rightarrow> proc" where
  "freed_disk i q = (upd_disk i (\<lambda>d. d\<lparr>dk_va := NOVA\<rparr>) q)
     \<lparr>pages_in_swapfile_counter := pages_in_swapfile_counter q - 1\<rparr>"

lemma freed_disk_fields [simp]:
  "memory_pg_arr (freed_disk i q) = memory_pg_arr q" "p_head (freed_disk i q) = p_head q"
  "p_tail (freed_disk i q) = p_tail q" "pages_in_memory_counter (freed_disk i q) = pages_in_memory_counter q"
  "p_pgdir (freed_disk i q) = p_pgdir q" "p_state (freed_disk i q) = p_state q" "p_swapFile (freed_disk i q) = p_swapFile q"
  by (simp_all add: freed_disk_def)

lemma freed_disk_queued: "pol_queued pol (freed_disk i q) = pol_queued pol q"
  by (simp add: pol_queued_def scfifo_queued_def aq_queued_def fifo_def aqueue_def used_def split: policy.split)

lemma disk_slotD:
  assumes "disk_slot va q = Some i"
  shows "i < length (disk_pg_arr q)" "dk_va (disk_pg_arr q ! i) = va"
  using find_idx_SomeD(1,2)[OF assms[unfolded disk_slot_def]] by auto

lemma freed_disk_wf:
  assumes "wf_meta q" "disk_slot va q = Some i" "va \<noteq> NOVA"
  shows "wf_meta (freed_disk i q)"
proof -
  note d = disk_slotD[OF assms(2)]
  have "Suc (count_if (\<lambda>v. v \<noteq> NOVA) ((map dk_va (disk_pg_arr q))[i := NOVA])) = count_if (\<lambda>v. v \<noteq> NOVA) (map dk_va (disk_pg_arr q))"
    using count_if_update[of i "map dk_va (disk_pg_arr q)" "\<lambda>v. v \<noteq> NOVA" NOVA] d assms(3) by simp
  moreover have "map dk_va (disk_pg_arr (freed_disk i q)) = (map dk_va (disk_pg_arr q))[i := NOVA]"
    by (simp add: freed_disk_def upd_at_def map_update)
  moreover have "length (disk_pg_arr (freed_disk i q)) = length (disk_pg_arr q)" by (simp add: freed_disk_def)
  moreover have "pages_in_swapfile_counter (freed_disk i q) = pages_in_swapfile_counter q - 1" by (simp add: freed_disk_def)
  ultimately show ?thesis using assms(1) unfolding wf_meta_map by simp
qed

lemma entered_kept:
  assumes "entered j va q q'"
  shows "p_state q' = p_state q" "p_swapFile q' = p_swapFile q" "p_pgdir q' = p_pgdir q"
proof -
  obtain a h t where "q' = q\<lparr>memory_pg_arr := a, p_head := h, p_tail := t,
      pages_in_memory_counter := pages_in_memory_counter q + 1\<rparr>" using assms unfolding entered_def by blast
  then show "p_state q' = p_state q" "p_swapFile q' = p_swapFile q" "p_pgdir q' = p_pgdir q" by simp_all
qed

text \<open>The metadata \<open>q'\<close> after the page in slot \<open>i\<close> of the swap file has come back to slot \<open>j\<close>.\<close>

definition came_back :: "policy \<Rightarrow> uint32 \<Rightarrow> nat \<Rightarrow> proc \<Rightarrow> proc \<Rightarrow> bool" where
  "came_back pol va i q q' \<longleftrightarrow> wf_meta q' \<and> pol_queued pol q' \<and> p_pgdir q' = p_pgdir q \<and>
     pages_in_memory_counter q' = pages_in_memory_counter q + 1 \<and>
     pages_in_swapfile_counter q' = pages_in_swapfile_counter q - 1 \<and>
     map dk_va (disk_pg_arr q') = (map dk_va (disk_pg_arr q))[i := NOVA] \<and>
     (\<exists>j. \<not> used q j \<and> used q' j \<and> slot_va q' j = va)"

lemma readPageFromFile_Ok:
  assumes s: "swap_ready s p f ip" "p_state (procs s ! p) = RUNNING"
    and d: "disk_slot va (procs s ! p) = Some i" "va \<noteq> NOVA" "4096 * i + 4096 \<le> unat (i_size (ino s ip))"
    and m: "pol \<noteq> NONE" "wf_meta (procs s ! p)" "pol_queued pol (procs s ! p)"
      "pages_in_memory_counter (procs s ! p) < int MAX_PSYC_PAGES"
  obtains s' where "readPageFromFile pol p va s = Ok (4096, map (fbyte s ip) [4096 * i..<4096 * i + 4096], s')"
    "mem s' = mem s" "kmem s' = kmem s" "came_back pol va i (procs s ! p) (procs s' ! p)" "swap_ready s' p f ip"
proof -
  obtain t where t: "readFromSwapFile p (of_nat (4096 * i)) (of_nat 4096) s =
      Ok (int 4096, map (fbyte s ip) [4096 * i..<4096 * i + 4096], t)" "swap_ready t p f ip" "file_written ip [] (4096 * i) s t"
    by (rule readFromSwapFile_Ok[OF s(1) d(3)])
  note fr = fs_frameD[OF t(3)[unfolded file_written_def, THEN conjunct1]]
  have p: "p < length (procs s)" using s(1) by (simp add: swap_ready_def)
  have tp: "procs t ! p = procs s ! p" "length (procs t) = length (procs s)"
    using wakes_nth[OF fr(10) p] s(2) wakes_length[OF fr(10)] by simp_all
  let ?q = "freed_disk i (procs s ! p)"
  have q: "wf_meta ?q" "pol_queued pol ?q" using freed_disk_wf[OF m(2) d(1,2)] m(3) freed_disk_queued by auto
  then obtain j where j: "free_slot ?q = Some j" using free_slot_ex[OF q(1)] m(4) by auto
  obtain q' where q': "update_memory pol va ?q = Ok (j, q')" "entered j va ?q q'" "pol_queued pol q'"
    by (rule enter_any[OF m(1) q(2) j d(2)])
  note e = entered_fields[OF q'(2)] and k = entered_kept[OF q'(2)] and fs = free_slotD[OF j]
  let ?s = "t\<lparr>procs := (procs t)[p := q']\<rparr>"
  have "upd_proc p (\<lambda>q. freed_disk i q) t = t\<lparr>procs := (procs t)[p := ?q]\<rparr>" using tp by (simp add: upd_at_def)
  moreover have "set_proc p q' (t\<lparr>procs := (procs t)[p := ?q]\<rparr>) = ?s" by (simp add: set_proc_def)
  ultimately have "enter_page pol p va (upd_proc p (\<lambda>q. freed_disk i q) t) = Ok ?s"
    using q'(1) p tp by (simp add: enter_page_def)
  then have "readPageFromFile pol p va s = Ok (4096, map (fbyte s ip) [4096 * i..<4096 * i + 4096], ?s)"
    using d(1) t(1) by (simp add: readPageFromFile_def freed_disk_def[symmetric] mult.commute)
  moreover have "came_back pol va i (procs s ! p) (procs ?s ! p)"
  proof -
    have "used q' j" "slot_va q' j = va"
      using used_entered[OF q'(2) fs(1) d(2), of j] arg_cong[OF e(5), of "\<lambda>xs. xs ! j"] fs(1)
        arg_cong[OF e(5), of length] by (simp_all add: nth_list_update)
    then show ?thesis
      using e k(3) q'(3) wf_meta_entered[OF q(1) q'(2) j d(2)] fs(3) p tp(2)
      by (auto simp: came_back_def freed_disk_def used_def upd_at_def map_update)
  qed
  moreover have "swap_ready ?s p f ip"
    by (subst same_fs(3)[of ?s t]) (use t(2) k tp p in \<open>auto simp: nth_list_update\<close>)
  ultimately show thesis using that fr(7,8) by simp
qed

section \<open>Memory steps of a page fault\<close>

text \<open>A free page is taken off the list and written to: no user byte and no entry changes.\<close>

lemma frames_ok_mono: "frames_ok kend f A \<Longrightarrow> B \<subseteq> A \<Longrightarrow> frames_ok kend f B"
  unfolding frames_ok_def by (elim conjE, intro conjI) (blast, assumption)

lemma user_ok_take:
  assumes u: "user_ok kend pg (np # ps) s"
  shows "kalloc s = (np, s\<lparr>page_counter := page_counter s - 1, kmem := (kmem s)\<lparr>freelist := ld32 (mem s) np\<rparr>\<rparr>)"
    "user_ok kend pg ps (snd (kalloc s))" "page_ok kend np" "np \<notin> tables (mem s) pg" "np \<notin> set ps"
    "v < KERNBASE \<Longrightarrow> present (pte (mem s) pg v) \<Longrightarrow> frame (mem s) pg v \<noteq> np"
proof -
  have fp: "free_pages kend s (np # ps)" using u by (simp add: user_ok_def vm_ok_def)
  show k: "kalloc s = (np, s\<lparr>page_counter := page_counter s - 1, kmem := (kmem s)\<lparr>freelist := ld32 (mem s) np\<rparr>\<rparr>)"
    by (rule kalloc_Cons(1)[OF fp])
  show "page_ok kend np" "np \<notin> set ps" "np \<notin> tables (mem s) pg"
    using fp u by (auto simp: free_pages_def user_ok_def vm_ok_def)
  show "frame (mem s) pg v \<noteq> np" if "v < KERNBASE" "present (pte (mem s) pg v)"
    using user_okD(3)[OF u that] by auto
  have "vm_ok kend pg ps (snd (kalloc s))" using u kalloc_Cons(2)[OF fp] by (auto simp: user_ok_def vm_ok_def k)
  moreover have "frames_ok kend (pte (mem s) pg) (tables (mem s) pg \<union> set ps)"
    using u frames_ok_mono[of kend _ "tables (mem s) pg \<union> set (np # ps)"] by (auto simp: user_ok_def)
  ultimately show "user_ok kend pg ps (snd (kalloc s))" by (simp add: user_ok_def k)
qed

lemma user_ok_other_page:
  assumes u: "user_ok kend pg ps s" and np: "np \<notin> tables (mem s) pg" "np \<notin> set ps"
    and m': "\<forall>q. q \<noteq> np \<longrightarrow> same_page (mem s) m' q"
  shows "user_ok kend pg ps (s\<lparr>mem := m'\<rparr>)" "pte m' pg = pte (mem s) pg" "tables m' pg = tables (mem s) pg"
    "pde_at m' pg v = pde_at (mem s) pg v"
    "v < KERNBASE \<Longrightarrow> present (pte (mem s) pg v) \<Longrightarrow> frame (mem s) pg v \<noteq> np \<Longrightarrow> ubyte m' pg v = ubyte (mem s) pg v"
proof -
  have ok: "vm_ok kend pg ps s" using u by (rule user_ok_vm_ok)
  have same: "same_page (mem s) m' q" if "q \<in> tables (mem s) pg \<or> q \<in> set ps" for q
    by (rule m'[rule_format]) (use that np in auto)
  note t = tables_cong[OF vm_ok_wf[OF ok], of m', OF same]
  show pte: "pte m' pg = pte (mem s) pg" and tab: "tables m' pg = tables (mem s) pg" by (rule t; blast)+
  have "pde_at m' pg = pde_at (mem s) pg" by (rule t(1)) blast
  then show "pde_at m' pg v = pde_at (mem s) pg v" by simp
  have "vm_ok kend pg ps (s\<lparr>mem := m'\<rparr>)" using ok by (rule vm_ok_mem) (use t same in blast)+
  then show "user_ok kend pg ps (s\<lparr>mem := m'\<rparr>)" using u by (simp add: user_ok_def pte tab)
  show "ubyte m' pg v = ubyte (mem s) pg v" if "v < KERNBASE" "present (pte (mem s) pg v)" "frame (mem s) pg v \<noteq> np"
    by (rule ubyte_cong) (use that m' in \<open>simp_all add: frame_def pte\<close>)
qed

lemma fixPagedInPTE_mem: "fixPagedInPTE va pa pg s = Ok s' \<Longrightarrow> \<exists>m. s' = s\<lparr>mem := m\<rparr>"
  by (auto simp: fixPagedInPTE_def walkpgdir_def Let_def split: if_splits)

text \<open>The frame the kernel reaches through a user address.\<close>

lemma page_frame_Ok:
  assumes u: "user_ok kend pg ps s" and va: "present (pte (mem s) pg va)"
  shows "page_frame pg va s = Ok (frame (mem s) pg va)"
  using va walkpgdir_entry[OF vm_ok_wf[OF user_ok_vm_ok[OF u]] pte_present_pde[OF va]]
  by (simp add: page_frame_def frame_def Let_def)

text \<open>The fresh page is entered for the page that faults.\<close>

lemma map_fresh_page:
  assumes u: "user_ok kend pg (np # ps) s" and va: "va < KERNBASE" "present (pde_at (mem s) pg va)"
    "\<not> present (pte (mem s) pg va)" "PTE_ADDR (pte (mem s) pg va) = 0"
  obtains m where "kalloc s = (np, snd (kalloc s))"
    "fixPagedInPTE va (V2P np) pg ((snd (kalloc s))\<lparr>mem := memset (mem s) np 0 PGSIZE\<rparr>) = Ok ((snd (kalloc s))\<lparr>mem := m\<rparr>)"
    "user_ok kend pg ps ((snd (kalloc s))\<lparr>mem := m\<rparr>)"
    "pte m pg = (\<lambda>v. if PTE_ADDR v = PTE_ADDR va then paged_in_entry (V2P np) (pte (mem s) pg va) else pte (mem s) pg v)"
    "frame m pg va = np"
    "\<forall>v. v < KERNBASE \<longrightarrow> present (pte (mem s) pg v) \<longrightarrow> ubyte m pg v = ubyte (mem s) pg v"
proof -
  note k = user_ok_take[OF u]
  let ?s1 = "snd (kalloc s)" and ?m = "memset (mem s) np 0 PGSIZE"
  have m1: "mem ?s1 = mem s" by (simp add: k(1))
  have "\<forall>q. q \<noteq> np \<longrightarrow> same_page (mem ?s1) ?m q" using same_page_memset[OF page_ok_aligned[OF k(3)]] m1 by auto
  note o = user_ok_other_page[OF k(2)[folded m1] _ k(5) this, unfolded m1, OF k(4)]
  let ?s2 = "?s1\<lparr>mem := ?m\<rparr>"
  obtain s3 where s3: "fixPagedInPTE va (V2P np) pg ?s2 = Ok s3" "vm_grow kend pg ps ?s2 ps s3"
    "pte (mem s3) pg = (\<lambda>v. if PTE_ADDR v = PTE_ADDR va then paged_in_entry (V2P np) (pte (mem ?s2) pg va) else pte (mem ?s2) pg v)"
    by (rule fixPagedInPTE_Ok[OF user_ok_vm_ok[OF o(1)], of va]) (use va o in auto)
  obtain m where m: "s3 = ?s1\<lparr>mem := m\<rparr>" using fixPagedInPTE_mem[OF s3(1)] by auto
  have al: "aligned (V2P np)" using page_ok_aligned[OF k(3)] by (simp add: aligned_V2P)
  have e: "P2V (PTE_ADDR (paged_in_entry (V2P np) (pte (mem s) pg va))) = np"
    using paged_in_entry_bits(4)[OF al] va(4) by simp
  have u3: "user_ok kend pg ps s3"
  proof (rule user_ok_map[OF o(1) s3(2,3)])
    show "page_ok kend (P2V (PTE_ADDR (paged_in_entry (V2P np) (pte (mem ?s2) pg va))))"
      using k(3) e by (simp add: o(2))
    show "P2V (PTE_ADDR (paged_in_entry (V2P np) (pte (mem ?s2) pg va))) \<notin> tables (mem ?s2) pg \<union> set ps"
      using k(4,5) e by (simp add: o(2,3))
    show "frame (mem ?s2) pg v \<noteq> P2V (PTE_ADDR (paged_in_entry (V2P np) (pte (mem ?s2) pg va)))"
      if "v < KERNBASE" "present (pte (mem ?s2) pg v)" for v
      using k(6)[of v] that e by (simp add: o(2) frame_def)
  qed
  have ub: "ubyte m pg v = ubyte (mem s) pg v" if v: "v < KERNBASE" "present (pte (mem s) pg v)" for v
  proof -
    have "PTE_ADDR v \<noteq> PTE_ADDR va" using v(2) va(3) by (metis pte_page)
    then have "ubyte (mem s3) pg v = ubyte (mem ?s2) pg v"
      by (intro ubyte_grow[OF o(1) s3(2) v(1)]) (use v o in \<open>simp_all add: s3(3)\<close>)
    then show ?thesis using o(5)[OF v k(6)[OF v]] m by simp
  qed
  have pm: "pte m pg = (\<lambda>v. if PTE_ADDR v = PTE_ADDR va then paged_in_entry (V2P np) (pte (mem s) pg va) else pte (mem s) pg v)"
    using s3(3) by (simp add: fun_eq_iff m o(2))
  moreover have "kalloc s = (np, ?s1)" by (simp add: k(1))
  moreover have "frame m pg va = np" using e by (simp add: frame_def pm)
  moreover have "user_ok kend pg ps (?s1\<lparr>mem := m\<rparr>)" "fixPagedInPTE va (V2P np) pg ?s2 = Ok (?s1\<lparr>mem := m\<rparr>)"
    using u3 s3(1) by (simp_all only: m)
  ultimately show thesis using that ub by blast
qed

lemma PTE_ADDR_idem [simp]: "PTE_ADDR (PTE_ADDR a) = PTE_ADDR a"
  by (simp add: PTE_ADDR_aligned)

text \<open>A whole page is written through its frame.\<close>

lemma fill_page:
  assumes u: "user_ok kend pg ps s" and va: "PTE_ADDR fa < KERNBASE" "present (pte (mem s) pg (PTE_ADDR fa))"
    "frame (mem s) pg (PTE_ADDR fa) = np" and bs: "length bs = 4096"
  defines "m \<equiv> store_bytes (mem s) np bs"
  shows "user_ok kend pg ps (s\<lparr>mem := m\<rparr>)" "pte m pg = pte (mem s) pg"
    "v < KERNBASE \<Longrightarrow> present (pte (mem s) pg v) \<Longrightarrow>
     ubyte m pg v = (if PTE_ADDR v = PTE_ADDR fa then bs ! unat (PTE_FLAGS v) else ubyte (mem s) pg v)"
proof -
  have fl: "PTE_FLAGS (PTE_ADDR fa) = 0" "unat (PTE_ADDR fa) mod 4096 = 0"
    using aligned_PTE_ADDR[of fa] by (simp_all add: aligned_def flip: PTE_FLAGS_mod)
  have len: "length bs \<le> 4096 - unat (PTE_ADDR fa) mod 4096" using fl bs by simp
  note sb = store_ubytes[OF u va(1,2) len, unfolded va(3) fl(1) add_0_right, folded m_def]
  note st = store_frame[OF u va(1,2), unfolded va(3), OF sb(1)]
  show "user_ok kend pg ps (s\<lparr>mem := m\<rparr>)" "pte m pg = pte (mem s) pg" by (rule st)+
  assume v: "v < KERNBASE" "present (pte (mem s) pg v)"
  note b = sb(2)[OF v]
  show "ubyte m pg v = (if PTE_ADDR v = PTE_ADDR fa then bs ! unat (PTE_FLAGS v) else ubyte (mem s) pg v)"
  proof (cases "PTE_ADDR v = PTE_ADDR fa")
    case True
    then have "unat v - unat (PTE_ADDR fa) = unat (PTE_FLAGS v)" "unat (PTE_ADDR fa) \<le> unat v"
      "unat v < unat (PTE_ADDR fa) + 4096" using unat_split_page[of v] by (simp_all add: PTE_FLAGS_mod)
    then show ?thesis using b True bs by simp
  next
    case False
    then have "\<not> (unat (PTE_ADDR fa) \<le> unat v \<and> unat v < unat (PTE_ADDR fa) + 4096)"
      using same_page_iff_range[of v "PTE_ADDR fa"] by simp
    then show ?thesis using b bs False by (simp only: if_False simp_thms)
  qed
qed

section \<open>A page comes back\<close>

lemma getPageFromFile_Ok:
  assumes s: "cur s = Some p" "swap_ready s p f ip" and u: "user_ok kend (p_pgdir (procs s ! p)) (np # ps) s"
    and fa: "fa < KERNBASE" "present (pde_at (mem s) (p_pgdir (procs s ! p)) fa)"
      "\<not> present (pte (mem s) (p_pgdir (procs s ! p)) fa)" "PTE_ADDR (pte (mem s) (p_pgdir (procs s ! p)) fa) = 0"
    and d: "disk_slot (PGROUNDDOWN fa) (procs s ! p) = Some i" "4096 * i + 4096 \<le> unat (i_size (ino s ip))"
    and m: "pol \<noteq> NONE" "wf_meta (procs s ! p)" "pol_queued pol (procs s ! p)"
      "pages_in_memory_counter (procs s ! p) < int MAX_PSYC_PAGES"
  shows "\<exists>s'. getPageFromFile kend pol fa s = Ok (1, s') \<and>
    user_ok kend (p_pgdir (procs s ! p)) ps s' \<and> user_page (pte (mem s') (p_pgdir (procs s ! p)) fa) \<and>
    (\<forall>v. PTE_ADDR v \<noteq> PTE_ADDR fa \<longrightarrow> pte (mem s') (p_pgdir (procs s ! p)) v = pte (mem s) (p_pgdir (procs s ! p)) v) \<and>
    (\<forall>v < KERNBASE. present (pte (mem s') (p_pgdir (procs s ! p)) v) \<longrightarrow>
       ubyte (mem s') (p_pgdir (procs s ! p)) v =
         (if PTE_ADDR v = PTE_ADDR fa then fbyte s ip (4096 * i + unat (PTE_FLAGS v))
          else ubyte (mem s) (p_pgdir (procs s ! p)) v)) \<and>
    came_back pol (PGROUNDDOWN fa) i (procs s ! p) (procs s' ! p) \<and> swap_ready s' p f ip"
proof -
  let ?pg = "p_pgdir (procs s ! p)" and ?va = "PTE_ADDR fa" and ?s1 = "snd (kalloc s)"
  let ?bs = "map (fbyte s ip) [4096 * i..<4096 * i + 4096]"
  have va: "?va < KERNBASE" "present (pde_at (mem s) ?pg ?va)" "\<not> present (pte (mem s) ?pg ?va)"
    "PTE_ADDR (pte (mem s) ?pg ?va) = 0" "?va \<noteq> NOVA"
  proof -
    show "?va < KERNBASE" using fa(1) unat_split_page[of fa] by (simp add: word_less_nat_alt)
    then show "?va \<noteq> NOVA" by auto
    have "pde_at (mem s) ?pg ?va = pde_at (mem s) ?pg fa" by (simp add: pde_at_def)
    then show "present (pde_at (mem s) ?pg ?va)" "\<not> present (pte (mem s) ?pg ?va)"
      "PTE_ADDR (pte (mem s) ?pg ?va) = 0" using fa by (simp_all add: pte_page)
  qed
  obtain mm where f: "kalloc s = (np, ?s1)"
    "fixPagedInPTE ?va (V2P np) ?pg (?s1\<lparr>mem := memset (mem s) np 0 PGSIZE\<rparr>) = Ok (?s1\<lparr>mem := mm\<rparr>)"
    "user_ok kend ?pg ps (?s1\<lparr>mem := mm\<rparr>)"
    "pte mm ?pg = (\<lambda>v. if PTE_ADDR v = PTE_ADDR ?va then paged_in_entry (V2P np) (pte (mem s) ?pg ?va) else pte (mem s) ?pg v)"
    "frame mm ?pg ?va = np"
    "\<forall>v. v < KERNBASE \<longrightarrow> present (pte (mem s) ?pg v) \<longrightarrow> ubyte mm ?pg v = ubyte (mem s) ?pg v"
    by (rule map_fresh_page[OF u va(1-4)])
  note k = user_ok_take[OF u]
  let ?s3 = "?s1\<lparr>mem := mm\<rparr>"
  have run: "p_state (procs s ! p) = RUNNING"
    using s quietD(1) log_okD(2) by (fastforce simp: swap_ready_def file_ready_def in_proc_def)
  have same: "bufs ?s3 = bufs s" "lru ?s3 = lru s" "disk ?s3 = disk s" "disksize ?s3 = disksize s"
    "log_st ?s3 = log_st s" "sb ?s3 = sb s" "icache ?s3 = icache s" "ftable ?s3 = ftable s"
    "procs ?s3 = procs s" "cur ?s3 = cur s" by (simp_all add: k(1))
  note fs = same_fs[OF same(1-8)]
  obtain s4 where r: "readPageFromFile pol p ?va ?s3 = Ok (4096, ?bs, s4)"
    "mem s4 = mem ?s3" "kmem s4 = kmem ?s3" "came_back pol ?va i (procs s ! p) (procs s4 ! p)" "swap_ready s4 p f ip"
    by (rule readPageFromFile_Ok[of ?s3 p f ip ?va i pol, unfolded same fs(2)])
       (use fs(3) s(2) run va(5) d m same in \<open>simp_all add: PGROUNDDOWN_eq\<close>)
  let ?s5 = "s4\<lparr>mem := store_bytes (mem s4) np ?bs\<rparr>"
  have u4: "user_ok kend ?pg ps s4" using user_ok_same[OF r(2,3)] f(3) by simp
  have m4: "mem s4 = mm" using r(2) by simp
  have al: "aligned (V2P np)" using page_ok_aligned[OF k(3)] by simp
  have pv: "present (pte mm ?pg ?va)" "user_page (pte mm ?pg fa)"
    using paged_in_entry_bits(1,2)[OF al] f(4) by simp_all
  have "page_frame ?pg ?va s4 = Ok np"
    using page_frame_Ok[OF u4, of ?va] pv(1) f(5) by (simp add: m4)
  then have "getPageFromFile kend pol fa s = Ok (1, ?s5)"
    using s(1) m(4) f(1,2) r(1) page_ok_nonzero[OF k(3)] same(9)
    by (simp add: getPageFromFile_def PGROUNDDOWN_eq k(1) Let_def)
  moreover have lb: "length ?bs = 4096" by simp
  note fp = fill_page[OF u4 va(1), unfolded m4, OF pv(1) f(5) lb]
  have "ubyte (mem ?s5) ?pg v = (if PTE_ADDR v = ?va then fbyte s ip (4096 * i + unat (PTE_FLAGS v)) else ubyte (mem s) ?pg v)"
    if v: "v < KERNBASE" "present (pte (mem ?s5) ?pg v)" for v
  proof -
    have v': "present (pte mm ?pg v)" using v(2) fp(2) by (simp add: m4)
    have "unat (PTE_FLAGS v) < 4096" by (simp add: PTE_FLAGS_mod)
    then show ?thesis using fp(3)[OF v(1) v'] f(4,6) v(1) v' by (cases "PTE_ADDR v = ?va") (simp_all add: m4)
  qed
  moreover have "user_ok kend ?pg ps ?s5" using fp(1) m4 by simp
  moreover have "user_page (pte (mem ?s5) ?pg fa)" using pv(2) fp(2) by (simp add: m4)
  moreover have "pte (mem ?s5) ?pg v = pte (mem s) ?pg v" if "PTE_ADDR v \<noteq> PTE_ADDR fa" for v
    using that fp(2) f(4) by (simp add: m4)
  moreover have "came_back pol (PGROUNDDOWN fa) i (procs s ! p) (procs ?s5 ! p)" using r(4) by (simp add: PGROUNDDOWN_eq)
  moreover have "swap_ready ?s5 p f ip" by (subst same_fs(3)[of ?s5 s4]) (use r(5) in simp_all)
  ultimately show ?thesis by blast
qed

section \<open>A page goes to the swap file\<close>

lemma PTE_ADDR_P2V: "PTE_ADDR (P2V e) = P2V (PTE_ADDR e)"
proof -
  have "P2V e = P2V (PTE_ADDR e) + PTE_FLAGS e"
    unfolding P2V_def by (subst PTE_ADDR_plus_FLAGS[of e, symmetric]) (simp add: ac_simps)
  moreover have "PTE_ADDR (P2V (PTE_ADDR e) + PTE_FLAGS e) = P2V (PTE_ADDR e)"
    by (rule PTE_ADDR_add) (simp_all add: PTE_FLAGS_mod)
  ultimately show ?thesis by simp
qed

lemma kfree_fields:
  assumes "kfree kend v s = Ok s'"
  obtains m c k where "s' = s\<lparr>mem := m, page_counter := c, kmem := k\<rparr>"
  using assms by (auto simp: kfree_def Let_def split: if_splits)

text \<open>The frame of a page is freed and the page marked as absent.\<close>

lemma unmap_page:
  assumes u: "user_ok kend pg ps s" and va: "va < KERNBASE" "present (pte (mem s) pg va)" and e: "\<not> present e"
  obtains s1 s2 where "kfree kend (frame (mem s) pg va) s = Ok s1"
    "s2 = s1\<lparr>mem := st32 (mem s1) (entry (ptab (mem s) pg va) (PTX va)) e\<rparr>"
    "user_ok kend pg (frame (mem s) pg va # ps) s2"
    "pte (mem s2) pg = (\<lambda>v. if PTE_ADDR v = PTE_ADDR va then e else pte (mem s) pg v)"
    "present (pde_at (mem s2) pg va)"
    "\<forall>v. v < KERNBASE \<longrightarrow> present (pte (mem s) pg v) \<longrightarrow> PTE_ADDR v \<noteq> PTE_ADDR va \<longrightarrow>
       ubyte (mem s2) pg v = ubyte (mem s) pg v"
proof -
  let ?F = "frame (mem s) pg va"
  note F = user_okD[OF u va] and ok = user_ok_vm_ok[OF u]
  have pd: "present (pde_at (mem s) pg va)" by (rule pte_present_pde[OF va(2)])
  have fp: "free_pages kend s ps" using ok by (simp add: vm_ok_def)
  obtain s1 where k: "kfree kend ?F s = Ok s1" "free_pages kend s1 (?F # ps)"
    "\<And>q. q \<noteq> ?F \<Longrightarrow> same_page (mem s) (mem s1) q" by (rule kfree_free_pages[OF fp F(1,3)]) blast
  have st: "same_page (mem s) (mem s1) f" if "f \<in> tables (mem s) pg" for f by (rule k(3)) (use that F(2) in auto)
  note t = tables_cong[OF vm_ok_wf[OF ok] st]
  have ok1: "vm_ok kend pg (?F # ps) s1" using k(2) t(4,5) ok F(2) by (auto simp: vm_ok_def)
  have pd1: "present (pde_at (mem s1) pg va)" using pd t(1) by simp
  define s2 where "s2 = s1\<lparr>mem := st32 (mem s1) (entry (ptab (mem s1) pg va) (PTX va)) e\<rparr>"
  note g = vm_grow_store[OF ok1 pd1, of e, folded s2_def]
  note sp = store_pte[OF vm_ok_wf[OF ok1] pd1, of e]
  have pt: "pte (mem s2) pg = (\<lambda>v. if PTE_ADDR v = PTE_ADDR va then e else pte (mem s) pg v)"
    using sp(4) by (simp add: fun_eq_iff s2_def t(3))
  have "frames_ok kend (pte (mem s2) pg) (tables (mem s2) pg \<union> set (?F # ps))"
    unfolding frames_ok_def
  proof (intro conjI allI impI)
    fix v w assume v: "v < KERNBASE" "present (pte (mem s2) pg v)"
    then have v': "present (pte (mem s) pg v)" "PTE_ADDR v \<noteq> PTE_ADDR va" "pte (mem s2) pg v = pte (mem s) pg v"
      using e by (auto simp: pt split: if_splits)
    note V = user_okD[OF u v(1) v'(1)]
    show "page_ok kend (P2V (PTE_ADDR (pte (mem s2) pg v)))" using V(1) v'(3) by (simp add: frame_def)
    have "frame (mem s) pg v \<noteq> ?F" using V(4)[OF va] v'(2) by auto
    then show "P2V (PTE_ADDR (pte (mem s2) pg v)) \<notin> tables (mem s2) pg \<union> set (?F # ps)"
      using V(2,3) v'(3) sp(2) t(4) by (auto simp: frame_def s2_def)
    assume w: "w < KERNBASE" "present (pte (mem s2) pg w)" "PTE_ADDR (pte (mem s2) pg v) = PTE_ADDR (pte (mem s2) pg w)"
    then have "pte (mem s2) pg w = pte (mem s) pg w" using e by (auto simp: pt split: if_splits)
    then show "PTE_ADDR v = PTE_ADDR w" using V(4)[OF w(1)] w(2,3) v'(3) by (simp add: frame_def)
  qed
  then have u2: "user_ok kend pg (?F # ps) s2" using vm_growD(2)[OF g(1)] by (simp add: user_ok_def)
  have ub: "ubyte (mem s2) pg v = ubyte (mem s) pg v"
    if v: "v < KERNBASE" "present (pte (mem s) pg v)" "PTE_ADDR v \<noteq> PTE_ADDR va" for v
  proof (rule ubyte_cong)
    note V = user_okD[OF u v(1,2)]
    have n: "frame (mem s) pg v \<noteq> ?F" using V(4)[OF va] v(3) by auto
    show "frame (mem s2) pg v = frame (mem s) pg v" using v(3) by (simp add: frame_def pt)
    have "same_page (mem s1) (mem s2) (frame (mem s) pg v)"
      by (rule vm_growD(5)[OF g(1)]) (use V(2,3) n t(4) in auto)
    then show "same_page (mem s) (mem s2) (frame (mem s) pg v)" using same_page_trans k(3)[OF n] by blast
  qed
  have "present (pde_at (mem s2) pg va)" using sp(1) pd1 by (simp add: s2_def)
  moreover have "s2 = s1\<lparr>mem := st32 (mem s1) (entry (ptab (mem s) pg va) (PTX va)) e\<rparr>" by (simp add: s2_def t(2))
  ultimately show thesis using that[OF k(1) _ u2 pt] ub by blast
qed

text \<open>The bytes of a page as the kernel reads them through its user address.\<close>

lemma user_page_bytes_Ok:
  assumes u: "user_ok kend pg ps s" and va: "va < KERNBASE" "present (pte (mem s) pg va)"
  shows "user_page_bytes pg va s = Ok (load_bytes (mem s) (frame (mem s) pg va) 4096)"
    "PTE_ADDR v = PTE_ADDR va \<Longrightarrow> load_bytes (mem s) (frame (mem s) pg va) 4096 ! unat (PTE_FLAGS v) = ubyte (mem s) pg v"
proof -
  show "user_page_bytes pg va s = Ok (load_bytes (mem s) (frame (mem s) pg va) 4096)"
    by (simp add: user_page_bytes_def page_frame_Ok[OF u va(2)])
  assume v: "PTE_ADDR v = PTE_ADDR va"
  then have "frame (mem s) pg v = frame (mem s) pg va" by (metis frame_page)
  moreover have "unat (PTE_FLAGS v) < 4096" by (simp add: PTE_FLAGS_mod)
  ultimately show "load_bytes (mem s) (frame (mem s) pg va) 4096 ! unat (PTE_FLAGS v) = ubyte (mem s) pg v"
    by (simp add: load_bytes_def ubyte_def)
qed

text \<open>The metadata after the page in slot \<open>tmp\<close> has gone to slot \<open>i\<close> of the swap file.\<close>

definition went_out :: "nat \<Rightarrow> nat \<Rightarrow> proc \<Rightarrow> proc" where
  "went_out i tmp q = drop_slot tmp ((upd_disk i (\<lambda>d. d\<lparr>dk_va := slot_va q tmp\<rparr>) q)
     \<lparr>pages_in_swapfile_counter := pages_in_swapfile_counter q + 1, pagedout := pagedout q + 1\<rparr>)"

lemma went_out_fields:
  "p_pgdir (went_out i tmp q) = p_pgdir q" "p_state (went_out i tmp q) = p_state q"
  "p_swapFile (went_out i tmp q) = p_swapFile q" "memory_pg_arr (went_out i tmp q) = memory_pg_arr (drop_slot tmp q)"
  "pages_in_memory_counter (went_out i tmp q) = pages_in_memory_counter q - 1"
  "map dk_va (disk_pg_arr (went_out i tmp q)) = (map dk_va (disk_pg_arr q))[i := slot_va q tmp]"
  "pages_in_swapfile_counter (went_out i tmp q) = pages_in_swapfile_counter q + 1"
  by (simp_all add: went_out_def drop_slot_def upd_at_def map_update)

lemma went_out_queued: "pol_queued pol (went_out i tmp q) = pol_queued pol (drop_slot tmp q)"
  by (simp add: pol_queued_def scfifo_queued_def aq_queued_def fifo_def aqueue_def used_def went_out_def drop_slot_def
      split: policy.split)

lemma went_out_wf:
  assumes "wf_meta q" "disk_slot NOVA q = Some i" "used q tmp"
  shows "wf_meta (went_out i tmp q)"
proof -
  note d = disk_slotD[OF assms(2)]
  have "count_if (\<lambda>v. v \<noteq> NOVA) ((map dk_va (disk_pg_arr q))[i := slot_va q tmp]) =
      Suc (count_if (\<lambda>v. v \<noteq> NOVA) (map dk_va (disk_pg_arr q)))"
    using count_if_update[of i "map dk_va (disk_pg_arr q)" "\<lambda>v. v \<noteq> NOVA" "slot_va q tmp"] d assms(3) by (simp add: used_def)
  moreover have "wf_meta (drop_slot tmp q)" by (rule wf_meta_drop_slot[OF assms(1,3)])
  moreover have "length (disk_pg_arr (went_out i tmp q)) = length (disk_pg_arr q)"
    using arg_cong[OF went_out_fields(6), of length] by simp
  ultimately show ?thesis
    using assms(1) unfolding wf_meta_map went_out_fields by (simp add: drop_slot_def)
qed

lemma swap_place: "i < MAX_PSYC_PAGES \<Longrightarrow> of_nat i * PGSIZE = (of_nat (4096 * i) :: uint32)"
  by (simp add: mult.commute)

lemma insert_to_disk_Ok:
  assumes s: "cur s = Some p" "swap_ready s p f ip"
    and m: "disk_slot NOVA (procs s ! p) = Some i" "wf_meta (procs s ! p)" "used (procs s ! p) tmp"
    and fl: "room s ip (file_blocks_of (4096 * i) 4096)" "4096 * i \<le> unat (i_size (ino s ip))"
    and u: "user_ok kend (p_pgdir (procs s ! p)) ps s"
    and va: "va = slot_va (procs s ! p) tmp" "PTE_ADDR va = va" "va < KERNBASE" "present (pte (mem s) (p_pgdir (procs s ! p)) va)"
  obtains s' F where "insert_to_disk kend p i tmp s = Ok s'" "user_ok kend (p_pgdir (procs s ! p)) (F # ps) s'"
    "pte (mem s') (p_pgdir (procs s ! p)) = (\<lambda>v. if PTE_ADDR v = va then PTE_W OR PTE_U OR PTE_PG
       else pte (mem s) (p_pgdir (procs s ! p)) v)"
    "present (pde_at (mem s') (p_pgdir (procs s ! p)) va)"
    "\<forall>v. v < KERNBASE \<longrightarrow> present (pte (mem s) (p_pgdir (procs s ! p)) v) \<longrightarrow> PTE_ADDR v \<noteq> va \<longrightarrow>
       ubyte (mem s') (p_pgdir (procs s ! p)) v = ubyte (mem s) (p_pgdir (procs s ! p)) v"
    "procs s' ! p = went_out i tmp (procs s ! p)" "cur s' = Some p" "swap_ready s' p f ip"
    "4096 * i + 4096 \<le> unat (i_size (ino s' ip))"
    "\<forall>v. PTE_ADDR v = va \<longrightarrow> fbyte s' ip (4096 * i + unat (PTE_FLAGS v)) = ubyte (mem s) (p_pgdir (procs s ! p)) v"
proof -
  let ?q = "procs s ! p" and ?pg = "p_pgdir (procs s ! p)"
  have p: "p < length (procs s)" "p_state ?q = RUNNING"
    using s quietD(1) log_okD(2) by (fastforce simp: swap_ready_def file_ready_def in_proc_def)+
  have i: "i < MAX_PSYC_PAGES" using disk_slotD(1)[OF m(1)] m(2) by (simp add: wf_meta_def)
  let ?out = "\<lambda>q. (upd_disk i (\<lambda>d. d\<lparr>dk_va := va\<rparr>) q)\<lparr>pages_in_swapfile_counter := pages_in_swapfile_counter q + 1, pagedout := pagedout q + 1\<rparr>"
  let ?a = "upd_proc p ?out s" and ?bs = "load_bytes (mem s) (frame (mem s) ?pg va) 4096"
  have pa: "length (procs ?a) = length (procs s)" "procs ?a ! p = ?out ?q" using p(1) by simp_all
  have a: "swap_ready ?a p f ip" by (subst same_fs(3)[of ?a s]) (use s(2) in \<open>auto simp: nth_upd_at\<close>)
  have ra: "room ?a ip (file_blocks_of (4096 * i) (length ?bs))" by (subst same_fs(4)[of ?a s]) (use fl(1) in auto)
  have h: "4096 * i \<le> unat (i_size (ino ?a ip))" "4096 * i + length ?bs \<le> MAXFILE * BSIZE" using fl(2) i by simp_all
  obtain b where b: "writeToSwapFile p ?bs (of_nat (4096 * i)) ?a = Ok (int (length ?bs), b)" "swap_ready b p f ip"
    "file_written ip ?bs (4096 * i) ?a b"
    by (rule writeToSwapFile_Ok[OF a ra h subset_refl])
  have wfa: "file_wf ?a ip" using a by (auto simp: swap_ready_def file_ready_def)
  note fr = fs_frameD[OF b(3)[unfolded file_written_def, THEN conjunct1]]
  have sz: "4096 * i + 4096 \<le> unat (i_size (ino b ip))"
    using file_writtenD(4)[OF b(3) _ wfa] i by simp
  have pb: "procs b ! p = ?out ?q" "length (procs b) = length (procs s)" "cur b = Some p"
    using wakes_nth[OF fr(10), of p] p wakes_length[OF fr(10)] fr(9) s(1) pa by simp_all
  have mb: "mem b = mem s" "kmem b = kmem s" using fr(7,8) by simp_all
  let ?c = "upd_proc p (drop_slot tmp) b"
  have uc: "user_ok kend ?pg ps ?c" using u user_ok_same[of ?c s] mb by simp
  have mc: "mem ?c = mem s" using mb by simp
  obtain s1 s2 where k: "kfree kend (frame (mem s) ?pg va) ?c = Ok s1"
    "s2 = s1\<lparr>mem := st32 (mem s1) (entry (ptab (mem s) ?pg va) (PTX va)) (PTE_W OR PTE_U OR PTE_PG)\<rparr>"
    "user_ok kend ?pg (frame (mem s) ?pg va # ps) s2"
    "pte (mem s2) ?pg = (\<lambda>v. if PTE_ADDR v = PTE_ADDR va then PTE_W OR PTE_U OR PTE_PG else pte (mem s) ?pg v)"
    "present (pde_at (mem s2) ?pg va)"
    "\<forall>v. v < KERNBASE \<longrightarrow> present (pte (mem s) ?pg v) \<longrightarrow> PTE_ADDR v \<noteq> PTE_ADDR va \<longrightarrow>
       ubyte (mem s2) ?pg v = ubyte (mem s) ?pg v"
    using unmap_page[OF uc va(3), unfolded mc, OF va(4), of "PTE_W OR PTE_U OR PTE_PG"] by (auto simp: present_def)
  obtain mm c kk where s1: "s1 = ?c\<lparr>mem := mm, page_counter := c, kmem := kk\<rparr>" by (rule kfree_fields[OF k(1)])
  note w = walkpgdir_entry[OF vm_ok_wf[OF user_ok_vm_ok[OF u]] pte_present_pde[OF va(4)]]
  have wb: "fst (walkpgdir ?pg va False b) = entry (ptab (mem s) ?pg va) (PTX va)"
    using w(1)[of False] by (simp add: walkpgdir_def mb Let_def split: if_splits)
  have nz: "pte (mem s) ?pg va \<noteq> 0" using va(4) by auto
  have "PTE_ADDR (P2V (pte (mem s) ?pg va)) = frame (mem s) ?pg va" by (simp add: frame_def PTE_ADDR_P2V)
  moreover have "user_page_bytes ?pg va ?a = Ok ?bs"
    using user_page_bytes_Ok(1)[of kend ?pg ps ?a va] u user_ok_same[of ?a s] va(3,4) by simp
  moreover have "my_pgdir ?a = Ok ?pg" using s(1) p(1) by (simp add: my_pgdir_def myproc_def)
  moreover have "drop_page tmp = drop_slot tmp" by (simp add: fun_eq_iff drop_slot_def)
  ultimately have "insert_to_disk kend p i tmp s = Ok s2"
    unfolding insert_to_disk_def Let_def va(1)[symmetric] va(2) swap_place[OF i]
    by (simp add: b(1) wb w(2,3) mb nz k(1,2) del: of_nat_mult)
  moreover have same: "bufs s2 = bufs b" "lru s2 = lru b" "disk s2 = disk b" "disksize s2 = disksize b"
    "log_st s2 = log_st b" "sb s2 = sb b" "icache s2 = icache b" "ftable s2 = ftable b" "cur s2 = cur b"
    "procs s2 = upd_at p (drop_slot tmp) (procs b)" by (simp_all add: k(2) s1)
  have sw: "swap_ready s2 p f ip"
    by (subst same_fs(3)[OF same(1-8) same(9)]) (use b(2) in \<open>auto simp: same(10) nth_upd_at drop_slot_def\<close>)
  have "procs s2 ! p = went_out i tmp ?q" using pb p(1) va(1) by (simp add: same(10) went_out_def)
  moreover have "fbyte s2 ip (4096 * i + unat (PTE_FLAGS v)) = ubyte (mem s) ?pg v" if "PTE_ADDR v = va" for v
  proof -
    have "unat (PTE_FLAGS v) < 4096" by (simp add: PTE_FLAGS_mod)
    then show ?thesis
      using b(3) user_page_bytes_Ok(2)[OF u va(3,4), of v] that va(2) i
      by (simp add: same_fs(2)[OF same(1-8)] file_written_def bytes_put_def)
  qed
  ultimately show thesis using that k(3-6) sw sz pb(3) va(2) same(7,9) by simp
qed

lemma out_entry: "\<not> present (PTE_W OR PTE_U OR PTE_PG)" "PTE_ADDR (PTE_W OR PTE_U OR PTE_PG) = 0"
  by (simp_all add: present_def PTE_ADDR_def)

lemma in_page_below:
  assumes "PTE_ADDR fa = va" "va < KERNBASE"
  shows "fa < KERNBASE" "pde_at m pg fa = pde_at m pg va"
proof -
  show "fa < KERNBASE"
  proof (rule ccontr)
    assume "\<not> fa < KERNBASE"
    then have "PTE_ADDR KERNBASE \<le> PTE_ADDR fa" by (intro PTE_ADDR_mono) simp
    then show False using assms by (simp add: PTE_ADDR_def)
  qed
  have "PDX va = PDX fa" unfolding assms(1)[symmetric] by simp
  then show "pde_at m pg fa = pde_at m pg va" by (simp add: pde_at_def)
qed

lemma went_out_slot:
  assumes "disk_slot NOVA q = Some i" "va = slot_va q tmp" "va \<notin> dk_va ` set (disk_pg_arr q)"
  shows "disk_slot va (went_out i tmp q) = Some i"
proof -
  note d = disk_slotD[OF assms(1)] and mv = went_out_fields(6)[of i tmp q, folded assms(2)]
  have l: "length (disk_pg_arr (went_out i tmp q)) = length (disk_pg_arr q)" using arg_cong[OF mv, of length] by simp
  have n: "dk_va (disk_pg_arr (went_out i tmp q) ! j) = (if j = i then va else dk_va (disk_pg_arr q ! j))"
    if "j < length (disk_pg_arr q)" for j
    using arg_cong[OF mv, of "\<lambda>xs. xs ! j"] that l d(1) by (simp add: nth_list_update)
  have "dk_va (disk_pg_arr q ! j) \<noteq> va" if "j < i" for j using assms(3) that d(1) by auto
  then show ?thesis using n l d(1) unfolding disk_slot_def by (simp add: find_idx_Some_iff)
qed

section \<open>Properties\<close>

text \<open>
  C24. A page fault on a page that is in the swap file, while the process has fewer pages in memory
  than it may have: \<open>getPageFromFile\<close> succeeds, and then the page is mapped for the user and shows
  exactly the 4096 bytes of its slot of the swap file, while every byte of every other page and
  every other entry are as before.  The slot is free again, the page is entered in a slot that was
  unused, and the counters and the queue of the policy are right.
\<close>

theorem page_in_restores_page:
  assumes "cur s = Some p" "swap_ready s p f ip" "pg = p_pgdir (procs s ! p)" "user_ok kend pg (np # ps) s"
    and "fa < KERNBASE" "present (pde_at (mem s) pg fa)" "\<not> present (pte (mem s) pg fa)" "PTE_ADDR (pte (mem s) pg fa) = 0"
    and "disk_slot (PGROUNDDOWN fa) (procs s ! p) = Some i" "4096 * i + 4096 \<le> unat (i_size (ino s ip))"
    and "pol \<noteq> NONE" "wf_meta (procs s ! p)" "pol_queued pol (procs s ! p)"
      "pages_in_memory_counter (procs s ! p) < int MAX_PSYC_PAGES"
  shows "\<exists>s'. getPageFromFile kend pol fa s = Ok (1, s') \<and>
    user_ok kend pg ps s' \<and> user_page (pte (mem s') pg fa) \<and>
    (\<forall>v. PTE_ADDR v \<noteq> PTE_ADDR fa \<longrightarrow> pte (mem s') pg v = pte (mem s) pg v) \<and>
    (\<forall>v < KERNBASE. present (pte (mem s') pg v) \<longrightarrow> ubyte (mem s') pg v =
       (if PTE_ADDR v = PTE_ADDR fa then fbyte s ip (4096 * i + unat (PTE_FLAGS v)) else ubyte (mem s) pg v)) \<and>
    came_back pol (PGROUNDDOWN fa) i (procs s ! p) (procs s' ! p)"
  using getPageFromFile_Ok[OF assms(1,2) assms(4-8)[unfolded assms(3)] assms(9-14)] unfolding assms(3) by blast

text \<open>
  C1. Paging is transparent to the user.  When \<open>insert_to_disk\<close> has moved the page of slot
  \<open>tmp\<close> to a free slot of the swap file, the page is absent; the next access faults, and after
  \<open>getPageFromFile\<close>, for which the eviction has left a free slot in memory, every byte that the user could read before the eviction, in this page and in
  all others, reads as it did.  The metadata is well formed again, with as many pages in memory and
  in the file as before.
\<close>

theorem eviction_transparent:
  assumes s: "cur s = Some p" "swap_ready s p f ip" "pg = p_pgdir (procs s ! p)" "user_ok kend pg ps s"
    and m: "disk_slot NOVA (procs s ! p) = Some i" "wf_meta (procs s ! p)" "used (procs s ! p) tmp"
      "pol \<noteq> NONE" "pol_queued pol (drop_slot tmp (procs s ! p))"
    and fl: "room s ip (file_blocks_of (4096 * i) 4096)" "4096 * i \<le> unat (i_size (ino s ip))"
    and va: "va = slot_va (procs s ! p) tmp" "PTE_ADDR va = va" "va < KERNBASE" "present (pte (mem s) pg va)"
      "va \<notin> dk_va ` set (disk_pg_arr (procs s ! p))" and fa: "PTE_ADDR fa = va"
  shows "\<exists>s1 s2. insert_to_disk kend p i tmp s = Ok s1 \<and> \<not> present (pte (mem s1) pg va) \<and>
    getPageFromFile kend pol fa s1 = Ok (1, s2) \<and>
    (\<forall>v < KERNBASE. present (pte (mem s) pg v) \<longrightarrow>
       present (pte (mem s2) pg v) \<and> ubyte (mem s2) pg v = ubyte (mem s) pg v) \<and>
    user_ok kend pg ps s2 \<and> wf_meta (procs s2 ! p) \<and>
    pages_in_memory_counter (procs s2 ! p) = pages_in_memory_counter (procs s ! p) \<and>
    pages_in_swapfile_counter (procs s2 ! p) = pages_in_swapfile_counter (procs s ! p)"
proof -
  note u = s(4)[unfolded s(3)] and v4 = va(4)[unfolded s(3)]
  obtain s1 F where o: "insert_to_disk kend p i tmp s = Ok s1" "user_ok kend pg (F # ps) s1"
    "pte (mem s1) pg = (\<lambda>v. if PTE_ADDR v = va then PTE_W OR PTE_U OR PTE_PG else pte (mem s) pg v)"
    "present (pde_at (mem s1) pg va)"
    "\<forall>v. v < KERNBASE \<longrightarrow> present (pte (mem s) pg v) \<longrightarrow> PTE_ADDR v \<noteq> va \<longrightarrow> ubyte (mem s1) pg v = ubyte (mem s) pg v"
    "procs s1 ! p = went_out i tmp (procs s ! p)" "cur s1 = Some p" "swap_ready s1 p f ip"
    "4096 * i + 4096 \<le> unat (i_size (ino s1 ip))"
    "\<forall>v. PTE_ADDR v = va \<longrightarrow> fbyte s1 ip (4096 * i + unat (PTE_FLAGS v)) = ubyte (mem s) pg v"
    by (rule insert_to_disk_Ok[OF s(1,2) m(1-3) fl u va(1-3) v4, folded s(3)])
  note w = went_out_fields[of i tmp "procs s ! p"] and d = disk_slotD[OF m(1)]
  have pg1: "p_pgdir (procs s1 ! p) = pg" by (simp add: o(6) w(1) s(3))
  have slot: "disk_slot (PGROUNDDOWN fa) (procs s1 ! p) = Some i"
    using went_out_slot[OF m(1) va(1,5)] fa o(6) by (simp add: PGROUNDDOWN_eq)
  have e1: "\<not> present (pte (mem s1) pg fa)" "PTE_ADDR (pte (mem s1) pg fa) = 0" using o(3) fa out_entry by simp_all
  have fk: "fa < KERNBASE" "present (pde_at (mem s1) pg fa)" using in_page_below[OF fa va(3)] o(4) by simp_all
  have cnt: "pages_in_memory_counter (procs s1 ! p) < int MAX_PSYC_PAGES"
    using m(2) count_if_le[of "\<lambda>f. fp_va f \<noteq> NOVA" "memory_pg_arr (procs s ! p)"] by (simp add: o(6) w(5) wf_meta_def)
  have meta: "wf_meta (procs s1 ! p)" "pol_queued pol (procs s1 ! p)"
    using went_out_wf[OF m(2,1,3)] m(5) went_out_queued o(6) by auto
  obtain s2 where g: "getPageFromFile kend pol fa s1 = Ok (1, s2)" "user_ok kend pg ps s2" "user_page (pte (mem s2) pg fa)"
    "\<forall>v. PTE_ADDR v \<noteq> PTE_ADDR fa \<longrightarrow> pte (mem s2) pg v = pte (mem s1) pg v"
    "\<forall>v < KERNBASE. present (pte (mem s2) pg v) \<longrightarrow> ubyte (mem s2) pg v =
       (if PTE_ADDR v = PTE_ADDR fa then fbyte s1 ip (4096 * i + unat (PTE_FLAGS v)) else ubyte (mem s1) pg v)"
    "came_back pol (PGROUNDDOWN fa) i (procs s1 ! p) (procs s2 ! p)"
    using getPageFromFile_Ok[OF o(7,8), unfolded pg1, OF o(2) fk e1 slot o(9) m(4) meta cnt] by blast
  have "present (pte (mem s2) pg v) \<and> ubyte (mem s2) pg v = ubyte (mem s) pg v" if v: "v < KERNBASE" "present (pte (mem s) pg v)" for v
  proof (cases "PTE_ADDR v = va")
    case True
    then have "pte (mem s2) pg v = pte (mem s2) pg fa" using fa by (metis pte_page)
    then have pr: "present (pte (mem s2) pg v)" using user_page_present[OF g(3)] by simp
    then show ?thesis using g(5) v(1) True o(10) fa by simp
  next
    case False
    then have "pte (mem s2) pg v = pte (mem s) pg v" using g(4) o(3) fa by simp
    then show ?thesis using g(5) v False fa o(5) by simp
  qed
  moreover have "wf_meta (procs s2 ! p)" "pages_in_memory_counter (procs s2 ! p) = pages_in_memory_counter (procs s ! p)"
    "pages_in_swapfile_counter (procs s2 ! p) = pages_in_swapfile_counter (procs s ! p)"
    using g(6) by (simp_all add: came_back_def o(6) w)
  moreover have "\<not> present (pte (mem s1) pg va)" using out_entry(1) o(3) va(2) by simp
  ultimately show ?thesis using o(1) g(1,2) by blast
qed

section \<open>A concrete eviction\<close>

text \<open>The running process of \<open>demo_swap\<close> has its second page in slot 0.\<close>

definition demo_evict :: kernel where
  "demo_evict = upd_proc 2 (\<lambda>q. (upd_slot 0 (\<lambda>f. f\<lparr>fp_va := 0x1000\<rparr>) q)\<lparr>pages_in_memory_counter := 1\<rparr>) demo_swap"

lemma demo_evict_proc:
  "procs demo_evict ! 2 = blank_proc\<lparr>p_pid := 3, p_state := RUNNING, p_parent := Some 1, p_sz := 0x3000,
     p_pgdir := 0x80300000, p_kstack := 0x80500000, p_swapFile := Some 0, pages_in_memory_counter := 1,
     memory_pg_arr := \<lparr>fp_next = None, fp_prev = None, fp_va = 0x1000, fp_age = 0\<rparr> #
       replicate 15 \<lparr>fp_next = None, fp_prev = None, fp_va = NOVA, fp_age = 0\<rparr>\<rparr>"
proof -
  have "(replicate 16 x)[0 := y] = y # replicate 15 x" for x y :: free_page by (simp add: numeral_eq_Suc)
  then show ?thesis by (simp add: demo_evict_def demo_swap_def demo_kernel_def demo_procs_def upd_at_def blank_proc_def)
qed

lemma demo_evict_ready: "swap_ready demo_evict 2 0 0" "room demo_evict 0 (file_blocks_of 0 4096)" "cur demo_evict = Some 2"
proof -
  show "cur demo_evict = Some 2" by (simp add: demo_evict_def)
  show "swap_ready demo_evict 2 0 0"
    by (subst same_fs(3)[of _ demo_swap]) (use demo_swap_ready in \<open>auto simp: demo_evict_def nth_upd_at\<close>)
  have "file_blocks_of 0 4096 \<subseteq> {..<16}" by (auto simp: file_blocks_of_def)
  then show "room demo_evict 0 (file_blocks_of 0 4096)"
    by (subst same_fs(4)[of _ demo_swap]) (use demo_swap_room in \<open>auto simp: demo_evict_def\<close>)
qed

lemma demo_evict_user: "user_ok 0x80100000 0x80300000 [] demo_evict" "mem demo_evict = mem user_machine"
proof -
  show m: "mem demo_evict = mem user_machine" by (simp add: demo_evict_def demo_swap_def demo_kernel_def)
  have "kmem demo_evict = kmem user_machine" by (simp add: demo_evict_def demo_swap_def demo_kernel_def)
  then show "user_ok 0x80100000 0x80300000 [] demo_evict"
    using user_machine_ok m by (simp add: user_ok_def vm_ok_def free_pages_def)
qed

lemma demo_evict_meta:
  "disk_slot NOVA (procs demo_evict ! 2) = Some 0" "wf_meta (procs demo_evict ! 2)" "used (procs demo_evict ! 2) 0"
  "slot_va (procs demo_evict ! 2) 0 = 0x1000" "p_pgdir (procs demo_evict ! 2) = 0x80300000"
  "0x1000 \<notin> dk_va ` set (disk_pg_arr (procs demo_evict ! 2))" "i_size (ino demo_evict 0) = 0"
proof -
  show "i_size (ino demo_evict 0) = 0" by (simp add: demo_evict_def demo_swap_def)
qed (simp_all add: demo_evict_proc disk_slot_def wf_meta_def used_def blank_proc_def count_if_0 find_idx_Some_iff)

theorem eviction_transparent_witness:
  "\<exists>s1 s2. insert_to_disk 0x80100000 2 0 0 demo_evict = Ok s1 \<and> \<not> present (pte (mem s1) 0x80300000 0x1000) \<and>
    getPageFromFile 0x80100000 NFUA 0x1234 s1 = Ok (1, s2) \<and>
    ubyte (mem s2) 0x80300000 0x1234 = ubyte (mem user_machine) 0x80300000 0x1234"
proof -
  have pr: "present (pte (mem demo_evict) 0x80300000 v)" if "PTE_ADDR v = 0x1000" for v
  proof -
    have "PDX v = PDX 0x1000" "PTX v = PTX 0x1000" using PDX_PTX_eq_iff[of v "0x1000"] that by (simp_all add: PTE_ADDR_def)
    then show ?thesis by (simp add: demo_evict_user(2) user_machine_pte present_def PDX_def PTX_def)
  qed
  have a: "PTE_ADDR 0x1000 = (0x1000 :: uint32)" "PTE_ADDR 0x1234 = (0x1000 :: uint32)" by (simp_all add: PTE_ADDR_def)
  have "pol_queued NFUA (drop_slot 0 (procs demo_evict ! 2))" by (simp add: pol_queued_def)
  then show ?thesis
    using eviction_transparent[OF demo_evict_ready(3,1) demo_evict_meta(5)[symmetric] demo_evict_user(1) demo_evict_meta(1-3),
        where pol = NFUA and va = "0x1000" and fa = "0x1234"] demo_evict_ready(2) demo_evict_meta(4,6,7) a pr demo_evict_user(2) by auto
qed

theorem page_in_restores_page_witness:
  "\<exists>s1 s2. insert_to_disk 0x80100000 2 0 0 demo_evict = Ok s1 \<and> getPageFromFile 0x80100000 LAPA 0x1000 s1 = Ok (1, s2) \<and>
    ubyte (mem s2) 0x80300000 0x1000 = fbyte s1 0 0 \<and> pages_in_memory_counter (procs s2 ! 2) = 1"
proof -
  have a: "PTE_ADDR 0x1000 = (0x1000 :: uint32)" by (simp add: PTE_ADDR_def)
  have pr: "present (pte (mem demo_evict) 0x80300000 0x1000)"
    by (simp add: demo_evict_user(2) user_machine_pte present_def PDX_def PTX_def)
  let ?q = "procs demo_evict ! 2"
  have h: "room demo_evict 0 (file_blocks_of (4096 * 0) 4096)" "4096 * 0 \<le> unat (i_size (ino demo_evict 0))"
    "user_ok 0x80100000 (p_pgdir ?q) [] demo_evict" "present (pte (mem demo_evict) (p_pgdir ?q) 0x1000)" "0x1000 < KERNBASE"
    using demo_evict_ready(2) demo_evict_user(1) demo_evict_meta(5) pr by simp_all
  obtain s1 F where o: "insert_to_disk 0x80100000 2 0 0 demo_evict = Ok s1" "user_ok 0x80100000 (p_pgdir ?q) [F] s1"
    "pte (mem s1) (p_pgdir ?q) = (\<lambda>v. if PTE_ADDR v = 0x1000 then PTE_W OR PTE_U OR PTE_PG else pte (mem demo_evict) (p_pgdir ?q) v)"
    "present (pde_at (mem s1) (p_pgdir ?q) 0x1000)"
    "\<forall>v. v < KERNBASE \<longrightarrow> present (pte (mem demo_evict) (p_pgdir ?q) v) \<longrightarrow> PTE_ADDR v \<noteq> 0x1000 \<longrightarrow>
       ubyte (mem s1) (p_pgdir ?q) v = ubyte (mem demo_evict) (p_pgdir ?q) v"
    "procs s1 ! 2 = went_out 0 0 ?q" "cur s1 = Some 2" "swap_ready s1 2 0 0" "4096 * 0 + 4096 \<le> unat (i_size (ino s1 0))"
    "\<forall>v. PTE_ADDR v = 0x1000 \<longrightarrow> fbyte s1 0 (4096 * 0 + unat (PTE_FLAGS v)) = ubyte (mem demo_evict) (p_pgdir ?q) v"
    by (rule insert_to_disk_Ok[OF demo_evict_ready(3,1) demo_evict_meta(1-3) h(1-3) demo_evict_meta(4)[symmetric] a h(5,4)])
  have "disk_slot 0x1000 (procs s1 ! 2) = Some 0"
    using went_out_slot[OF demo_evict_meta(1), of "0x1000" 0] demo_evict_meta(4,6) o(6) by simp
  moreover have "pages_in_memory_counter (procs s1 ! 2) = 0" "wf_meta (procs s1 ! 2)" "p_pgdir (procs s1 ! 2) = 0x80300000"
    using o(6) went_out_fields(1,5)[of 0 0 ?q] went_out_wf[OF demo_evict_meta(2,1,3)] by (simp_all add: demo_evict_proc)
  ultimately have x: "disk_slot (PGROUNDDOWN 0x1000) (procs s1 ! 2) = Some 0" "wf_meta (procs s1 ! 2)" "pol_queued LAPA (procs s1 ! 2)"
    "pages_in_memory_counter (procs s1 ! 2) < int MAX_PSYC_PAGES" "pages_in_memory_counter (procs s1 ! 2) = 0"
    "p_pgdir ?q = p_pgdir (procs s1 ! 2)" "p_pgdir ?q = 0x80300000"
    using a demo_evict_meta(5) by (simp_all add: PGROUNDDOWN_eq pol_queued_def)
  have e: "\<not> present (pte (mem s1) (p_pgdir ?q) 0x1000)" "PTE_ADDR (pte (mem s1) (p_pgdir ?q) 0x1000) = 0" "LAPA \<noteq> NONE"
    using o(3) a out_entry by simp_all
  obtain s2 where g: "getPageFromFile 0x80100000 LAPA 0x1000 s1 = Ok (1, s2)" "user_page (pte (mem s2) (p_pgdir ?q) 0x1000)"
    "\<forall>v < KERNBASE. present (pte (mem s2) (p_pgdir ?q) v) \<longrightarrow> ubyte (mem s2) (p_pgdir ?q) v =
       (if PTE_ADDR v = PTE_ADDR 0x1000 then fbyte s1 0 (4096 * 0 + unat (PTE_FLAGS v)) else ubyte (mem s1) (p_pgdir ?q) v)"
    "came_back LAPA (PGROUNDDOWN 0x1000) 0 (procs s1 ! 2) (procs s2 ! 2)"
    using page_in_restores_page[OF o(7,8) x(6) o(2) h(5) o(4) e(1,2) x(1) o(9) e(3) x(2-4)] by blast
  have "ubyte (mem s2) 0x80300000 0x1000 = fbyte s1 0 0"
    using g(3)[rule_format, OF h(5) user_page_present[OF g(2)]] x(7) by (simp add: PTE_FLAGS_def)
  moreover have "pages_in_memory_counter (procs s2 ! 2) = 1" using g(4) x(5) by (simp add: came_back_def)
  ultimately show ?thesis using o(1) g(1) by blast
qed

end
