(* ===== verification/PipeSync.thy ===== *)
theory PipeSync
  imports Pipe "HOL-Library.Sublist"
begin

text \<open>
  A pipe as a queue of bytes, and two processes that communicate through it: the loops of src/pipe.c
  run under the lock of the pipe and give it up in \<open>sleep\<close>, so the processes interleave at these
  points.
\<close>

section \<open>The contents of a pipe\<close>

text \<open>The counters run freely modulo \<open>2^32\<close>; the bytes in the pipe lie between them.\<close>

definition pipe_len :: "pipe \<Rightarrow> nat" where
  "pipe_len x = unat (pi_nwrite x - pi_nread x)"

definition pipe_ok :: "pipe \<Rightarrow> bool" where
  "pipe_ok x \<longleftrightarrow> length (pi_data x) = PIPESIZE \<and> pipe_len x \<le> PIPESIZE"

definition pipe_bytes :: "pipe \<Rightarrow> byte list" where
  "pipe_bytes x = map (\<lambda>k. pi_data x ! ((unat (pi_nread x) + k) mod PIPESIZE)) [0..<pipe_len x]"

lemma length_pipe_bytes [simp]: "length (pipe_bytes x) = pipe_len x"
  by (simp add: pipe_bytes_def)

lemma pipe_bytes_Nil [simp]: "pipe_bytes x = [] \<longleftrightarrow> pipe_len x = 0"
  by (simp add: pipe_bytes_def)

lemma mod_wrap: "unat (a + of_nat k :: uint32) mod PIPESIZE = (unat a + k) mod PIPESIZE"
proof -
  have "(512 :: nat) dvd 2 ^ 32" by simp
  then have "(x mod 2 ^ 32) mod 512 = x mod 512" for x :: nat by (rule mod_mod_cancel)
  then show ?thesis by (simp add: unat_word_ariths unat_of_nat mod_simps)
qed

lemma pipe_full_iff: "pi_nwrite x = pi_nread x + 512 \<longleftrightarrow> pipe_len x = PIPESIZE"
proof
  assume "pipe_len x = PIPESIZE"
  then have "pi_nwrite x - pi_nread x = 512" by (simp add: pipe_len_def word_unat_eq_iff)
  then show "pi_nwrite x = pi_nread x + 512" by (simp add: diff_eq_eq add.commute)
qed (simp add: pipe_len_def)

lemma pipe_empty_iff: "pi_nread x = pi_nwrite x \<longleftrightarrow> pipe_len x = 0"
  by (auto simp: pipe_len_def unat_eq_zero)

lemma pipe_put:
  assumes "pipe_ok x" "pipe_len x < PIPESIZE"
  shows "pipe_ok (pipe_put b x)" "pipe_bytes (pipe_put b x) = pipe_bytes x @ [b]" "pipe_len (pipe_put b x) = Suc (pipe_len x)"
proof -
  let ?y = "pipe_put b x"
  have "unat (pi_nwrite x - pi_nread x + 1) = Suc (pipe_len x)"
    using assms(2) by (simp add: unat_word_ariths pipe_len_def)
  then show l: "pipe_len ?y = Suc (pipe_len x)" by (simp add: pipe_len_def pipe_put_def algebra_simps)
  then show "pipe_ok ?y" using assms by (simp add: pipe_ok_def pipe_put_def)
  have w: "unat (pi_nwrite x) mod PIPESIZE = (unat (pi_nread x) + pipe_len x) mod PIPESIZE"
    using mod_wrap[of "pi_nread x" "pipe_len x"] by (simp add: pipe_len_def)
  have "(unat (pi_nread x) + k) mod PIPESIZE \<noteq> (unat (pi_nread x) + pipe_len x) mod PIPESIZE" if k: "k < pipe_len x" for k
  proof
    assume "(unat (pi_nread x) + k) mod PIPESIZE = (unat (pi_nread x) + pipe_len x) mod PIPESIZE"
    then have "PIPESIZE dvd pipe_len x - k" using k by (subst (asm) eq_commute) (auto simp: mod_eq_dvd_iff_nat)
    then show False using k assms(2) by (auto dest!: dvd_imp_le)
  qed
  then have "pi_data ?y ! ((unat (pi_nread x) + k) mod PIPESIZE) = pi_data x ! ((unat (pi_nread x) + k) mod PIPESIZE)"
    if "k < pipe_len x" for k using that by (simp add: pipe_put_def w nth_list_update_neq[OF not_sym])
  then show "pipe_bytes ?y = pipe_bytes x @ [b]"
    using assms(1) unfolding pipe_bytes_def l by (auto simp: pipe_put_def w pipe_ok_def)
qed

lemma pipe_fill:
  assumes "pipe_ok x" "pipe_fill bs x = (rest, y)"
  obtains ws where "pipe_ok y" "bs = ws @ rest" "pipe_bytes y = pipe_bytes x @ ws"
    "rest \<noteq> [] \<Longrightarrow> pipe_len y = PIPESIZE" "pi_readopen y = pi_readopen x" "pi_writeopen y = pi_writeopen x"
proof -
  have "\<exists>ws. pipe_ok y \<and> bs = ws @ rest \<and> pipe_bytes y = pipe_bytes x @ ws \<and> (rest \<noteq> [] \<longrightarrow> pipe_len y = PIPESIZE) \<and>
    pi_readopen y = pi_readopen x \<and> pi_writeopen y = pi_writeopen x"
    using assms
  proof (induction bs x rule: pipe_fill.induct)
    case (2 b bs x)
    show ?case
    proof (cases "pi_nwrite x = pi_nread x + 512")
      case True
      then show ?thesis using "2.prems" pipe_full_iff[of x] by auto
    next
      case False
      then have "pipe_len x < PIPESIZE" using "2.prems"(1) unfolding pipe_full_iff by (auto simp: pipe_ok_def)
      note p = pipe_put[OF "2.prems"(1) this, of b]
      show ?thesis using "2.IH"[OF False p(1)] "2.prems"(2) False p(2) by (auto simp: pipe_put_def)
    qed
  qed simp
  then show thesis using that by blast
qed

lemma pipe_drain:
  assumes "pipe_ok x" "pipe_drain n x = (bs, y)"
  shows "pipe_ok y \<and> bs = take n (pipe_bytes x) \<and> pipe_bytes y = drop n (pipe_bytes x) \<and>
    pi_readopen y = pi_readopen x \<and> pi_writeopen y = pi_writeopen x"
  using assms
proof (induction n x arbitrary: bs rule: pipe_drain.induct)
  case (2 n x)
  show ?case
  proof (cases "pi_nread x = pi_nwrite x")
    case True
    then have "pipe_bytes x = []" using pipe_empty_iff[of x] by simp
    then show ?thesis using "2.prems" True by (auto simp del: pipe_bytes_Nil)
  next
    case False
    let ?x = "x\<lparr>pi_nread := pi_nread x + 1\<rparr>"
    have "pi_nwrite x - pi_nread x \<noteq> 0" using False by auto
    then have "unat (pi_nwrite x - pi_nread x - 1) = pipe_len x - 1" by (simp add: pipe_len_def unat_minus_one)
    then have l: "pipe_len ?x = pipe_len x - 1" by (simp add: pipe_len_def algebra_simps)
    have pos: "0 < pipe_len x" using False pipe_empty_iff[of x] by simp
    have ok: "pipe_ok ?x" using "2.prems"(1) unfolding pipe_ok_def l by auto
    have "pipe_bytes x = pi_data x ! (unat (pi_nread x) mod PIPESIZE) # pipe_bytes ?x"
    proof (rule nth_equalityI)
      fix k assume "k < length (pipe_bytes x)"
      then have k: "k < pipe_len x" by simp
      have "(unat (pi_nread x + 1) + j) mod PIPESIZE = (unat (pi_nread x) + Suc j) mod PIPESIZE" for j
        using mod_wrap[of "pi_nread x" 1] by (simp add: mod_simps) (metis add.assoc add.commute mod_add_left_eq plus_1_eq_Suc)
      then show "pipe_bytes x ! k = (pi_data x ! (unat (pi_nread x) mod PIPESIZE) # pipe_bytes ?x) ! k"
        using k by (cases k) (simp_all add: pipe_bytes_def l less_diff_conv)
    qed (use l pos in simp)
    moreover obtain cs z where "pipe_drain n ?x = (cs, z)" by fastforce
    ultimately show ?thesis using "2.IH"[OF False ok] "2.prems"(2) False by auto
  qed
qed simp

section \<open>A writer and a reader\<close>

text \<open>
  Two processes on one pipe: the writer calls \<open>pipewrite\<close> with some bytes and then closes its
  end, the reader calls \<open>piperead\<close> for \<open>n\<close> bytes until it gets none.  The lock of the pipe makes
  each stretch of the code up to a \<open>sleep\<close> or the return one step; \<open>wakeup\<close> makes the other
  process runnable, and it goes back to the test of its loop.  Neither process is killed and the
  reader does not close its end before the end of the data, so that the exits of the loops for these
  cases are not among the steps; \<open>pipe_refines_queue\<close> has them.
\<close>

datatype writer = WRun "byte list" | WSleep "byte list" | WClose | WDone
datatype reader = RRun | RSleep | RDone

record pipe_sys =
  ps_pipe :: pipe
  ps_w :: writer
  ps_r :: reader
  ps_out :: "byte list"

definition wake_reader :: "reader \<Rightarrow> reader" where
  "wake_reader r = (if r = RSleep then RRun else r)"

definition wake_writer :: "writer \<Rightarrow> writer" where
  "wake_writer w = (case w of WSleep bs \<Rightarrow> WRun bs | _ \<Rightarrow> w)"

inductive pstep :: "nat \<Rightarrow> pipe_sys \<Rightarrow> pipe_sys \<Rightarrow> bool" for n where
  w_done: "ps_w s = WRun bs \<Longrightarrow> pipe_fill bs (ps_pipe s) = ([], x) \<Longrightarrow>
     pstep n s (s\<lparr>ps_pipe := x, ps_w := WClose, ps_r := wake_reader (ps_r s)\<rparr>)"
| w_sleep: "ps_w s = WRun bs \<Longrightarrow> pipe_fill bs (ps_pipe s) = (rest, x) \<Longrightarrow> rest \<noteq> [] \<Longrightarrow> pi_readopen x \<Longrightarrow>
     pstep n s (s\<lparr>ps_pipe := x, ps_w := WSleep rest, ps_r := wake_reader (ps_r s)\<rparr>)"
| w_close: "ps_w s = WClose \<Longrightarrow>
     pstep n s (s\<lparr>ps_pipe := (ps_pipe s)\<lparr>pi_writeopen := False\<rparr>, ps_w := WDone, ps_r := wake_reader (ps_r s)\<rparr>)"
| r_sleep: "ps_r s = RRun \<Longrightarrow> pi_nread (ps_pipe s) = pi_nwrite (ps_pipe s) \<Longrightarrow> pi_writeopen (ps_pipe s) \<Longrightarrow>
     pstep n s (s\<lparr>ps_r := RSleep\<rparr>)"
| r_read: "ps_r s = RRun \<Longrightarrow> \<not> (pi_nread (ps_pipe s) = pi_nwrite (ps_pipe s) \<and> pi_writeopen (ps_pipe s)) \<Longrightarrow>
     pipe_drain n (ps_pipe s) = (bs, x) \<Longrightarrow>
     pstep n s (s\<lparr>ps_pipe := x, ps_w := wake_writer (ps_w s), ps_r := (if bs = [] then RDone else RRun),
       ps_out := ps_out s @ bs\<rparr>)"

inductive_cases pstepE: "pstep n s s'"

definition pipe_start :: "pipe \<Rightarrow> byte list \<Rightarrow> pipe_sys" where
  "pipe_start x bs = \<lparr>ps_pipe = x, ps_w = WRun bs, ps_r = RRun, ps_out = []\<rparr>"

definition unwritten :: "writer \<Rightarrow> byte list" where
  "unwritten w = (case w of WRun bs \<Rightarrow> bs | WSleep bs \<Rightarrow> bs | _ \<Rightarrow> [])"

text \<open>
  The bytes read, in the pipe and still to be written are those the writer was called with, in this
  order.  A process sleeps only while what it waits for does not hold: in particular not both sleep.
\<close>

definition pipe_inv :: "byte list \<Rightarrow> pipe_sys \<Rightarrow> bool" where
  "pipe_inv bs s \<longleftrightarrow> pipe_ok (ps_pipe s) \<and> pi_readopen (ps_pipe s) \<and>
     ps_out s @ pipe_bytes (ps_pipe s) @ unwritten (ps_w s) = bs \<and>
     (pi_writeopen (ps_pipe s) \<longleftrightarrow> ps_w s \<noteq> WDone) \<and>
     (ps_r s = RSleep \<longrightarrow> pipe_len (ps_pipe s) = 0 \<and> ps_w s \<noteq> WDone) \<and>
     (ps_r s = RDone \<longrightarrow> pipe_len (ps_pipe s) = 0 \<and> ps_w s = WDone) \<and>
     (\<forall>cs. ps_w s = WSleep cs \<longrightarrow> pipe_len (ps_pipe s) = PIPESIZE \<and> cs \<noteq> []) \<and>
     (\<forall>cs. ps_w s = WRun cs \<and> cs \<noteq> [] \<longrightarrow> pipe_len (ps_pipe s) < PIPESIZE)"

lemma pipe_inv_step:
  assumes n: "0 < n" and i: "pipe_inv bs s" and st: "pstep n s s'"
  shows "pipe_inv bs s'"
proof -
  note I = i[unfolded pipe_inv_def]
  from st show ?thesis
  proof cases
    case (w_done cs x)
    obtain ws where f: "pipe_ok x" "cs = ws @ []" "pipe_bytes x = pipe_bytes (ps_pipe s) @ ws"
      "pi_readopen x = pi_readopen (ps_pipe s)" "pi_writeopen x = pi_writeopen (ps_pipe s)"
      using pipe_fill[OF _ w_done(3)] I by metis
    then show ?thesis using I w_done by (auto simp: pipe_inv_def unwritten_def wake_reader_def)
  next
    case (w_sleep cs rest x)
    obtain ws where f: "pipe_ok x" "cs = ws @ rest" "pipe_bytes x = pipe_bytes (ps_pipe s) @ ws"
      "pi_readopen x = pi_readopen (ps_pipe s)" "pi_writeopen x = pi_writeopen (ps_pipe s)" "pipe_len x = PIPESIZE"
      using pipe_fill[OF _ w_sleep(3)] I w_sleep(4) by metis
    then show ?thesis using I w_sleep by (auto simp: pipe_inv_def unwritten_def wake_reader_def)
  next
    case w_close
    have "pipe_ok (ps_pipe s\<lparr>pi_writeopen := False\<rparr>)" "pipe_len (ps_pipe s\<lparr>pi_writeopen := False\<rparr>) = pipe_len (ps_pipe s)"
      "pipe_bytes (ps_pipe s\<lparr>pi_writeopen := False\<rparr>) = pipe_bytes (ps_pipe s)"
      using I by (auto simp: pipe_ok_def pipe_len_def pipe_bytes_def)
    then show ?thesis using I w_close by (auto simp: pipe_inv_def unwritten_def wake_reader_def)
  next
    case r_sleep
    then show ?thesis using I by (auto simp: pipe_inv_def pipe_empty_iff)
  next
    case (r_read cs x)
    note d = pipe_drain[OF _ r_read(4)]
    have ok: "pipe_ok (ps_pipe s)" using I by simp
    have l: "pipe_len x = pipe_len (ps_pipe s) - n" using d[OF ok] length_pipe_bytes[of x] by simp
    have e: "cs = [] \<longleftrightarrow> pipe_len (ps_pipe s) = 0" using d[OF ok] n by auto
    have out: "cs @ pipe_bytes x = pipe_bytes (ps_pipe s)" using d[OF ok] by simp
    have u: "unwritten (wake_writer (ps_w s)) = unwritten (ps_w s)" "wake_writer (ps_w s) = WDone \<longleftrightarrow> ps_w s = WDone"
      "\<forall>c. wake_writer (ps_w s) \<noteq> WSleep c"
      by (auto simp: unwritten_def wake_writer_def split: writer.splits)
    have wr: "pipe_len x < PIPESIZE" if "wake_writer (ps_w s) = WRun c" "c \<noteq> []" for c
      using that I l n ok by (auto simp: wake_writer_def pipe_ok_def split: writer.splits)
    have dn: "ps_w s = WDone" if "cs = []" using r_read(3) that e I by (auto simp: pipe_empty_iff)
    have s': "ps_pipe s' = x" "ps_w s' = wake_writer (ps_w s)" "ps_r s' = (if cs = [] then RDone else RRun)"
      "ps_out s' = ps_out s @ cs" by (simp_all add: r_read(1))
    have "ps_out s' @ pipe_bytes x @ unwritten (ps_w s) = bs" using I out s'(4) by (metis append.assoc)
    moreover have "pi_writeopen x \<longleftrightarrow> ps_w s \<noteq> WDone" "pi_readopen x" "pipe_ok x" using I d[OF ok] by simp_all
    ultimately show ?thesis unfolding pipe_inv_def s'(1-3) u(1,2) using wr e dn l u(3) by simp
  qed
qed

text \<open>Every step brings the transfer closer to its end.\<close>

definition pipe_measure :: "pipe_sys \<Rightarrow> nat" where
  "pipe_measure s = 6 * length (unwritten (ps_w s)) + 3 * pipe_len (ps_pipe s) +
     (case ps_w s of WRun _ \<Rightarrow> 4 | WSleep _ \<Rightarrow> 2 | WClose \<Rightarrow> 2 | WDone \<Rightarrow> 0) + (if ps_r s = RRun then 1 else 0)"

lemma pipe_measure_step:
  assumes n: "0 < n" and i: "pipe_inv bs s" and st: "pstep n s s'"
  shows "pipe_measure s' < pipe_measure s"
proof -
  note I = i[unfolded pipe_inv_def]
  have w: "(if wake_reader r = RRun then 1 else 0) \<le> (if r = RRun then 1 else 0) + (1 :: nat)" for r
    by (simp add: wake_reader_def)
  from st show ?thesis
  proof cases
    case (w_done cs x)
    obtain ws where f: "cs = ws @ []" "pipe_bytes x = pipe_bytes (ps_pipe s) @ ws"
      using pipe_fill[OF _ w_done(3)] I by metis
    have "pipe_len x = pipe_len (ps_pipe s) + length cs" using arg_cong[OF f(2), of length] f(1) by simp
    then show ?thesis using w_done(1,2) w[of "ps_r s"] by (simp add: pipe_measure_def unwritten_def)
  next
    case (w_sleep cs rest x)
    obtain ws where f: "cs = ws @ rest" "pipe_bytes x = pipe_bytes (ps_pipe s) @ ws" "pipe_len x = PIPESIZE"
      using pipe_fill[OF _ w_sleep(3)] I w_sleep(4) by metis
    have l: "pipe_len x = pipe_len (ps_pipe s) + length ws" using arg_cong[OF f(2), of length] by simp
    have "cs \<noteq> []" using f(1) w_sleep(4) by auto
    then have "pipe_len (ps_pipe s) < PIPESIZE" using I w_sleep(2) by blast
    then have "0 < length ws" using f(3) l by linarith
    then show ?thesis using w_sleep(1,2) w[of "ps_r s"] l f(1) by (simp add: pipe_measure_def unwritten_def)
  next
    case w_close
    have "pipe_len (ps_pipe s\<lparr>pi_writeopen := False\<rparr>) = pipe_len (ps_pipe s)" by (simp add: pipe_len_def)
    then show ?thesis using w_close w[of "ps_r s"] by (simp add: pipe_measure_def unwritten_def)
  next
    case r_sleep
    then show ?thesis by (simp add: pipe_measure_def)
  next
    case (r_read cs x)
    have ok: "pipe_ok (ps_pipe s)" using I by simp
    note d = pipe_drain[OF ok r_read(4)]
    have l: "pipe_len x = pipe_len (ps_pipe s) - n" using d length_pipe_bytes[of x] by simp
    have u: "unwritten (wake_writer (ps_w s)) = unwritten (ps_w s)" by (simp add: unwritten_def wake_writer_def split: writer.splits)
    show ?thesis
    proof (cases "pipe_len (ps_pipe s) = 0")
      case True
      then have "ps_w s = WDone" "cs = []" using r_read(3) I d by (auto simp: pipe_empty_iff)
      then show ?thesis using r_read(1,2) u l True by (simp add: pipe_measure_def wake_writer_def)
    next
      case False
      then have "3 * pipe_len x + 3 \<le> 3 * pipe_len (ps_pipe s)" using l n by simp
      moreover have "cs \<noteq> []" using d False n by auto
      moreover have "(case wake_writer w of WRun _ \<Rightarrow> 4 | WSleep _ \<Rightarrow> 2 | WClose \<Rightarrow> 2 | WDone \<Rightarrow> 0) \<le>
          (case w of WRun _ \<Rightarrow> 4 | WSleep _ \<Rightarrow> 2 | WClose \<Rightarrow> 2 | WDone \<Rightarrow> 0) + (2 :: nat)" for w
        by (simp add: wake_writer_def split: writer.splits)
      from this[of "ps_w s"] calculation show ?thesis using r_read(1,2) u by (simp add: pipe_measure_def)
    qed
  qed
qed

text \<open>While the transfer is not complete one of the two processes can go on.\<close>

lemma pipe_progress:
  assumes i: "pipe_inv bs s" and stuck: "\<not> (\<exists>s'. pstep n s s')"
  shows "ps_w s = WDone \<and> ps_r s = RDone \<and> ps_out s = bs"
proof -
  note I = i[unfolded pipe_inv_def]
  have r: "ps_r s \<noteq> RRun"
  proof
    assume a: "ps_r s = RRun"
    obtain cs x where d: "pipe_drain n (ps_pipe s) = (cs, x)" by fastforce
    show False using stuck r_sleep[OF a] r_read[OF a _ d] by blast
  qed
  have "ps_w s \<noteq> WRun cs" for cs
  proof
    assume a: "ps_w s = WRun cs"
    obtain rest x where f: "pipe_fill cs (ps_pipe s) = (rest, x)" by fastforce
    have "pi_readopen x" using pipe_fill[OF _ f] I by metis
    then show False using stuck w_done[OF a] w_sleep[OF a f] f by (cases "rest = []") auto
  qed
  moreover have "ps_w s \<noteq> WClose" using stuck w_close by blast
  moreover have "\<not> (ps_r s = RSleep \<and> ps_w s = WSleep cs)" for cs using I by auto
  moreover have "\<not> (ps_r s = RSleep \<and> ps_w s = WDone)" "ps_r s = RDone \<Longrightarrow> ps_w s = WDone" using I by auto
  ultimately have "ps_w s = WDone" "ps_r s = RDone" using r by (cases "ps_w s"; cases "ps_r s"; auto)+
  moreover from this have "unwritten (ps_w s) = []" "pipe_bytes (ps_pipe s) = []" using I by (simp_all add: unwritten_def)
  ultimately show ?thesis using I by auto
qed

section \<open>Properties\<close>

lemma pipes_wakeup [simp]: "pipes (wakeup c s) = pipes s"
  by (simp add: wakeup_def wakeup1_def)

text \<open>What \<open>pipe_fill\<close> does to the queue: it takes what there is room for and leaves the rest.\<close>

lemma pipe_fill_queue:
  assumes "pipe_ok x" "pipe_fill bs x = (rest, y)"
  shows "pipe_ok y" "rest = drop (PIPESIZE - pipe_len x) bs" "pipe_bytes y = take PIPESIZE (pipe_bytes x @ bs)"
    "pi_readopen y = pi_readopen x"
proof -
  obtain ws where w: "pipe_ok y" "bs = ws @ rest" "pipe_bytes y = pipe_bytes x @ ws"
    "rest \<noteq> [] \<Longrightarrow> pipe_len y = PIPESIZE" "pi_readopen y = pi_readopen x" by (rule pipe_fill[OF assms]) blast
  have l: "pipe_len y = pipe_len x + length ws" using arg_cong[OF w(3), of length] by simp
  have "pipe_len y \<le> PIPESIZE" using w(1) by (simp add: pipe_ok_def)
  then show "pipe_ok y" "rest = drop (PIPESIZE - pipe_len x) bs" "pipe_bytes y = take PIPESIZE (pipe_bytes x @ bs)"
    "pi_readopen y = pi_readopen x"
    using w l by (cases "rest = []"; simp)+
qed

text \<open>
  C26. A pipe is a queue of at most 512 bytes, also when its counters wrap around.  A write takes as
  many of its bytes as there is room for, behind the bytes already there, and never more.  When all
  of them fit it returns their number.  Otherwise the pipe is full: the writer gets \<open>-1\<close> if nobody
  can read from the pipe any more or it has been killed, and goes to sleep if not.  A read from a
  pipe that is not empty, or that nobody can write to any more, returns the oldest bytes, at most as
  many as asked for, and removes them; a read from an empty pipe that may still be written to gives
  \<open>-1\<close> if the reader has been killed and sleeps if not.
\<close>

theorem pipe_refines_queue:
  assumes ok: "pipe_ok (pipes s p)" and cur: "myproc s = Some me"
  defines "q \<equiv> pipe_bytes (pipes s p)"
  shows "(if length q + length bs \<le> PIPESIZE then
      (\<exists>s'. pipewrite p bs s = Ok (int (length bs), s') \<and> pipe_ok (pipes s' p) \<and> pipe_bytes (pipes s' p) = q @ bs)
    else if \<not> pi_readopen (pipes s p) \<or> p_killed me then
      (\<exists>s'. pipewrite p bs s = Ok (- 1, s') \<and> pipe_ok (pipes s' p) \<and> pipe_bytes (pipes s' p) = take PIPESIZE (q @ bs))
    else pipewrite p bs s = Stop Sleeping \<and>
      (\<exists>x. pipe_fill bs (pipes s p) = (drop (PIPESIZE - length q) bs, x) \<and> pipe_ok x \<and>
        pipe_bytes x = take PIPESIZE (q @ bs))) \<and>
   (if q = [] \<and> pi_writeopen (pipes s p) then
      piperead p (int n) s = (if p_killed me then Ok (- 1, [], s) else Stop Sleeping)
    else
      (\<exists>s'. piperead p (int n) s = Ok (int (min n (length q)), take n q, s') \<and>
        pipe_ok (pipes s' p) \<and> pipe_bytes (pipes s' p) = drop n q))"
proof (rule conjI)
  obtain rest x where f: "pipe_fill bs (pipes s p) = (rest, x)" by fastforce
  note w = pipe_fill_queue[OF ok f]
  have "rest = [] \<longleftrightarrow> length q + length bs \<le> PIPESIZE"
    using w(2) ok by (auto simp: q_def pipe_ok_def)
  then show "if length q + length bs \<le> PIPESIZE then
      (\<exists>s'. pipewrite p bs s = Ok (int (length bs), s') \<and> pipe_ok (pipes s' p) \<and> pipe_bytes (pipes s' p) = q @ bs)
    else if \<not> pi_readopen (pipes s p) \<or> p_killed me then
      (\<exists>s'. pipewrite p bs s = Ok (- 1, s') \<and> pipe_ok (pipes s' p) \<and> pipe_bytes (pipes s' p) = take PIPESIZE (q @ bs))
    else pipewrite p bs s = Stop Sleeping \<and>
      (\<exists>x. pipe_fill bs (pipes s p) = (drop (PIPESIZE - length q) bs, x) \<and> pipe_ok x \<and>
        pipe_bytes x = take PIPESIZE (q @ bs))"
    using f w cur by (auto simp: pipewrite_def myproc_def q_def split: option.splits if_splits)
next
  obtain cs x where d: "pipe_drain n (pipes s p) = (cs, x)" by fastforce
  have e: "pi_nread (pipes s p) = pi_nwrite (pipes s p) \<longleftrightarrow> q = []" by (simp add: q_def pipe_empty_iff)
  show "if q = [] \<and> pi_writeopen (pipes s p) then
      piperead p (int n) s = (if p_killed me then Ok (- 1, [], s) else Stop Sleeping)
    else
      (\<exists>s'. piperead p (int n) s = Ok (int (min n (length q)), take n q, s') \<and>
        pipe_ok (pipes s' p) \<and> pipe_bytes (pipes s' p) = drop n q)"
    using pipe_drain[OF ok d] d cur by (auto simp: piperead_def e min.commute simp flip: q_def)
qed

lemma pipe_start_inv:
  assumes "pipe_ok x" "pipe_len x = 0" "pi_readopen x" "pi_writeopen x"
  shows "pipe_inv bs (pipe_start x bs)"
proof -
  have "pipe_bytes x = []" using assms(2) by simp
  then show ?thesis using assms by (simp add: pipe_inv_def pipe_start_def unwritten_def del: pipe_bytes_Nil)
qed

lemma pipe_runs:
  assumes n: "0 < n"
  shows "(pstep n ^^ k) s s' \<Longrightarrow> pipe_inv bs s \<Longrightarrow> pipe_inv bs s' \<and> pipe_measure s' + k \<le> pipe_measure s"
proof (induction k arbitrary: s')
  case (Suc k)
  then obtain t where t: "(pstep n ^^ k) s t" "pstep n t s'" by auto
  note i = Suc.IH[OF t(1) Suc.prems(2)]
  show ?case using pipe_inv_step[OF n _ t(2)] pipe_measure_step[OF n _ t(2)] i by fastforce
qed simp

text \<open>
  C25. Two processes that use a pipe, and are not killed, never wait for each other in vain.  However the steps of the
  writer and the reader interleave, the bytes read are a prefix of the bytes written, the two are
  never asleep together, and after at most \<open>6 * length bs + 5\<close> steps nothing is left to do: a
  state without a further step is one in which both are done and every byte has been delivered.
\<close>

theorem pipe_transfer_completes:
  assumes n: "0 < n" and x: "pipe_ok x" "pipe_len x = 0" "pi_readopen x" "pi_writeopen x"
    and run: "(pstep n ^^ k) (pipe_start x bs) s"
  shows "k \<le> 6 * length bs + 5 \<and> prefix (ps_out s) bs \<and> \<not> (ps_r s = RSleep \<and> (\<exists>cs. ps_w s = WSleep cs)) \<and>
    (if \<exists>s'. pstep n s s' then \<not> (ps_w s = WDone \<and> ps_r s = RDone)
     else ps_w s = WDone \<and> ps_r s = RDone \<and> ps_out s = bs)"
proof -
  have i: "pipe_inv bs s" and m: "pipe_measure s + k \<le> pipe_measure (pipe_start x bs)"
    using pipe_runs[OF n run pipe_start_inv[OF x]] by blast+
  note I = i[unfolded pipe_inv_def]
  have "pipe_measure (pipe_start x bs) = 6 * length bs + 5"
    using x(2) by (simp add: pipe_measure_def pipe_start_def unwritten_def)
  then have k: "k \<le> 6 * length bs + 5" using m by linarith
  have "ps_out s @ pipe_bytes (ps_pipe s) @ unwritten (ps_w s) = bs" using I by blast
  then have p: "prefix (ps_out s) bs" by (rule prefixI[OF sym])
  have "ps_r s = RSleep \<Longrightarrow> pipe_len (ps_pipe s) = 0" "ps_w s = WSleep cs \<Longrightarrow> pipe_len (ps_pipe s) = PIPESIZE" for cs
    using I by blast+
  then have a: "\<not> (ps_r s = RSleep \<and> (\<exists>cs. ps_w s = WSleep cs))" by force
  have d: "\<not> pstep n s s'" if "ps_w s = WDone \<and> ps_r s = RDone" for s'
    by (rule notI, erule pstepE) (use that in auto)
  show ?thesis
  proof (cases "\<exists>s'. pstep n s s'")
    case True
    then have "\<not> (ps_w s = WDone \<and> ps_r s = RDone)" using d by blast
    then show ?thesis unfolding if_P[OF True] using k p a by blast
  next
    case False
    then show ?thesis unfolding if_not_P[OF False] using k p a pipe_progress[OF i False] by blast
  qed
qed

definition demo_pipe :: pipe where
  "demo_pipe = \<lparr>pi_data = replicate 512 0, pi_nread = 0xFFFFFFFF, pi_nwrite = 0xFFFFFFFF, pi_readopen = True, pi_writeopen = True\<rparr>"

lemma demo_pipe_ok: "pipe_ok demo_pipe" "pipe_len demo_pipe = 0" "pi_readopen demo_pipe" "pi_writeopen demo_pipe"
  by (simp_all add: demo_pipe_def pipe_ok_def pipe_len_def)

lemma demo_myproc: "myproc (demo_kernel\<lparr>pipes := g\<rparr>) = Some (demo_procs ! 2)" "\<not> p_killed (demo_procs ! 2)"
  by (simp_all add: myproc_def demo_kernel_def demo_procs_def blank_proc_def)

theorem pipe_refines_queue_witness:
  "(\<exists>s'. pipewrite 0 [1, 2, 3] (demo_kernel\<lparr>pipes := (\<lambda>_. demo_pipe)\<rparr>) = Ok (3, s') \<and>
    pipe_bytes (pipes s' 0) = [1, 2, 3]) \<and>
   pipewrite 0 (replicate 600 7) (demo_kernel\<lparr>pipes := (\<lambda>_. demo_pipe)\<rparr>) = Stop Sleeping \<and>
   piperead 0 (int 5) (demo_kernel\<lparr>pipes := (\<lambda>_. demo_pipe)\<rparr>) = Stop Sleeping"
proof -
  have e: "pipe_bytes demo_pipe = []" using demo_pipe_ok(2) by simp
  let ?s = "demo_kernel\<lparr>pipes := (\<lambda>_. demo_pipe)\<rparr>"
  have ok: "pipe_ok (pipes ?s 0)" by (simp add: demo_pipe_ok)
  note t = pipe_refines_queue[OF ok demo_myproc(1)]
  have "\<exists>s'. pipewrite 0 [1, 2, 3] ?s = Ok (3, s') \<and> pipe_bytes (pipes s' 0) = [1, 2, 3]"
    using t[of "[1, 2, 3]" 0] by (auto simp: e demo_pipe_ok(2))
  moreover have "pipewrite 0 (replicate 600 7) ?s = Stop Sleeping" "piperead 0 (int 5) ?s = Stop Sleeping"
    using t[of "replicate 600 7" 5] demo_myproc(2) by (simp_all add: demo_pipe_ok(2-4))
  ultimately show ?thesis by blast
qed

theorem pipe_transfer_completes_witness:
  "\<exists>s. (pstep 4 ^^ 2) (pipe_start demo_pipe [7, 8]) s \<and> ps_r s = RRun \<and> ps_w s = WClose \<and> prefix (ps_out s) [7, 8]"
proof -
  let ?a = "pipe_start demo_pipe [7, 8]"
  have f: "pipe_fill [7, 8] demo_pipe = ([], pipe_put 8 (pipe_put 7 demo_pipe))" by (simp add: demo_pipe_def pipe_put_def)
  have "pstep 4 ?a (?a\<lparr>ps_r := RSleep\<rparr>)" by (rule r_sleep) (simp_all add: pipe_start_def demo_pipe_def)
  moreover have "pstep 4 (?a\<lparr>ps_r := RSleep\<rparr>) (?a\<lparr>ps_r := RSleep, ps_pipe := pipe_put 8 (pipe_put 7 demo_pipe),
      ps_w := WClose, ps_r := wake_reader RSleep\<rparr>)" (is "pstep 4 _ ?c")
    using w_done[of "?a\<lparr>ps_r := RSleep\<rparr>" "[7, 8]", OF _ , where n = 4] f by (simp add: pipe_start_def)
  ultimately have "(pstep 4 ^^ 2) ?a ?c" by (auto simp: numeral_2_eq_2)
  then show ?thesis
    using pipe_transfer_completes[OF _ demo_pipe_ok, of 4 2 "[7, 8]" ?c] by (auto simp: wake_reader_def)
qed

end
