(* ===== verification/Spinlock.thy ===== *)
theory Spinlock
  imports Memory
begin

text \<open>
  The spin locks of src/spinlock.c on several CPUs.  \<open>pushcli\<close> and \<open>popcli\<close> act on the
  interrupt flag and the nesting depth of one CPU; \<open>acquire\<close> and \<open>release\<close> are cut at their
  accesses to shared memory, and the steps of the CPUs interleave in any order.  \<open>mycpu()\<close> is the
  index of the CPU that runs.  The line \<open>acquire\<close> prints before its panic is not modelled.
\<close>

section \<open>Per-CPU state and lock structures\<close>

record cpu_struct =
  ncli :: int
  intena :: bool
  fl_if :: bool

record spinlock =
  lk_locked :: uint32
  lk_name :: string
  lk_cpu :: "nat option"
  lk_pcs :: "uint32 list"

section \<open>Interrupt masking\<close>

definition pushcli :: "cpu_struct \<Rightarrow> cpu_struct" where
  "pushcli c =
     (let eflags = fl_if c;
          c = c\<lparr>fl_if := False\<rparr>;
          c = (if ncli c = 0 then c\<lparr>intena := eflags\<rparr> else c)
      in c\<lparr>ncli := ncli c + 1\<rparr>)"

definition popcli :: "cpu_struct \<Rightarrow> cpu_struct res" where
  "popcli c =
     (if fl_if c then Stop (Panic ''popcli - interruptible'')
      else let c = c\<lparr>ncli := ncli c - 1\<rparr> in
        if ncli c < 0 then Stop (Panic ''popcli'')
        else Ok (if ncli c = 0 \<and> intena c then c\<lparr>fl_if := True\<rparr> else c))"

text \<open>A sequence of the two: \<open>True\<close> is \<open>pushcli\<close>, \<open>False\<close> is \<open>popcli\<close>.\<close>

primrec cli_run :: "bool list \<Rightarrow> cpu_struct \<Rightarrow> cpu_struct res" where
  "cli_run [] c = Ok c"
| "cli_run (b # bs) c = andthen (if b then Ok (pushcli c) else popcli c) (cli_run bs)"

text \<open>How deep a sequence is nested at its end, when it starts at depth \<open>d\<close>; \<open>None\<close> when a
  \<open>popcli\<close> has no \<open>pushcli\<close> before it.\<close>

fun cli_depth :: "bool list \<Rightarrow> nat \<Rightarrow> nat option" where
  "cli_depth [] d = Some d"
| "cli_depth (True # bs) d = cli_depth bs (Suc d)"
| "cli_depth (False # bs) (Suc d) = cli_depth bs d"
| "cli_depth (False # bs) 0 = None"

text \<open>What holds of a CPU that is \<open>d\<close> levels inside sections entered with the flag \<open>b\<close>.\<close>

definition cli_inside :: "bool \<Rightarrow> int \<Rightarrow> nat \<Rightarrow> cpu_struct \<Rightarrow> bool" where
  "cli_inside b n d c \<longleftrightarrow> ncli c = n + int d \<and> 0 \<le> n \<and> fl_if c = (b \<and> d = 0) \<and>
     (n = 0 \<longrightarrow> d > 0 \<longrightarrow> intena c = b) \<and> (n > 0 \<longrightarrow> \<not> b)"

lemma cli_inside_push: "cli_inside b n d c \<Longrightarrow> cli_inside b n (Suc d) (pushcli c)"
  by (auto simp: cli_inside_def pushcli_def Let_def)

lemma cli_inside_pop:
  "cli_inside b n (Suc d) c \<Longrightarrow> \<exists>c'. popcli c = Ok c' \<and> cli_inside b n d c'"
  by (auto simp: cli_inside_def popcli_def Let_def)

lemma cli_run_depth:
  assumes "cli_inside b n d c" and "cli_depth bs d = Some e"
  shows "\<exists>c'. cli_run bs c = Ok c' \<and> cli_inside b n e c'"
  using assms
proof (induction bs d arbitrary: c rule: cli_depth.induct)
  case (2 bs d)
  from "2.IH"[OF cli_inside_push[OF "2.prems"(1)]] "2.prems"(2) show ?case by simp
next
  case (3 bs d)
  from cli_inside_pop[OF "3.prems"(1)] obtain c' where
    c': "popcli c = Ok c'" "cli_inside b n d c'" by blast
  from "3.IH"[OF c'(2)] "3.prems"(2) c'(1) show ?case by simp
qed auto

text \<open>
  C28.  \<open>pushcli\<close> and \<open>popcli\<close> are matched.  On a CPU whose interrupts are off whenever it is
  inside a masked section, every sequence in which each \<open>popcli\<close> has its \<open>pushcli\<close> runs
  without a panic and leaves the nesting depth and the interrupt flag as they were: interrupts that
  were on come back on at the last \<open>popcli\<close>, and interrupts that were off stay off.  While the
  nesting is deeper than at the start, interrupts are off.
\<close>

theorem cli_sections_nest:
  assumes "0 \<le> ncli c" and "0 < ncli c \<Longrightarrow> \<not> fl_if c" and "cli_depth bs 0 = Some d"
  shows "\<exists>c'. cli_run bs c = Ok c' \<and> ncli c' = ncli c + int d \<and> fl_if c' = (fl_if c \<and> d = 0)"
proof -
  have "cli_inside (fl_if c) (ncli c) 0 c" using assms(1,2) by (auto simp: cli_inside_def)
  from cli_run_depth[OF this assms(3)] show ?thesis by (auto simp: cli_inside_def)
qed

theorem cli_sections_nest_witness:
  "\<exists>c'. cli_run [True, True, False, False] \<lparr>ncli = 0, intena = False, fl_if = True\<rparr> = Ok c' \<and>
     ncli c' = 0 \<and> fl_if c'"
  using cli_sections_nest[of "\<lparr>ncli = 0, intena = False, fl_if = True\<rparr>"
      "[True, True, False, False]" 0] by simp

section \<open>Acquiring and releasing\<close>

definition initlock :: "string \<Rightarrow> spinlock \<Rightarrow> spinlock" where
  "initlock name lk = lk\<lparr>lk_name := name, lk_locked := 0, lk_cpu := None\<rparr>"

text \<open>The walk of \<open>getcallerpcs\<close> up the chain of saved frame pointers, with \<open>n\<close> entries left.\<close>

primrec pcs_from :: "nat \<Rightarrow> memory \<Rightarrow> uint32 \<Rightarrow> uint32 list" where
  "pcs_from 0 m ebp = []"
| "pcs_from (Suc n) m ebp =
     (if ebp = 0 \<or> ebp < KERNBASE \<or> ebp = 0xFFFFFFFF then replicate (Suc n) 0
      else ld32 m (ebp + 4) # pcs_from n m (ld32 m ebp))"

definition getcallerpcs :: "memory \<Rightarrow> uint32 \<Rightarrow> uint32 list" where
  "getcallerpcs m v = pcs_from 10 m (v - 8)"

definition xchg :: "uint32 \<Rightarrow> uint32 \<Rightarrow> uint32 \<times> uint32" where
  "xchg addr_val newval = (addr_val, newval)"

definition holding :: "nat \<Rightarrow> spinlock \<Rightarrow> bool" where
  "holding me lk \<longleftrightarrow> lk_locked lk \<noteq> 0 \<and> lk_cpu lk = Some me"

text \<open>
  Several CPUs run at once.  Each is between two calls, or inside \<open>acquire\<close> or \<open>release\<close> of
  one lock: spinning, past the \<open>xchg\<close> that took the lock, past the statement of \<open>release\<close> that
  clears \<open>cpu\<close>, or past the store that frees the lock.  The locks are found by their address.
\<close>

datatype lock_pc =
    Outside
  | Spinning uint32
  | Taken uint32
  | Clearing uint32
  | Leaving uint32

record smp =
  cpus :: "nat \<Rightarrow> cpu_struct"
  pcs :: "nat \<Rightarrow> lock_pc"
  locks :: "uint32 \<Rightarrow> spinlock"

definition upd_lock :: "uint32 \<Rightarrow> (spinlock \<Rightarrow> spinlock) \<Rightarrow> smp \<Rightarrow> smp" where
  "upd_lock l f s = s\<lparr>locks := (locks s)(l := f (locks s l))\<rparr>"

definition goto :: "nat \<Rightarrow> lock_pc \<Rightarrow> smp \<Rightarrow> smp" where
  "goto c p s = s\<lparr>pcs := (pcs s)(c := p)\<rparr>"

definition acquire_enter :: "nat \<Rightarrow> uint32 \<Rightarrow> smp \<Rightarrow> smp res" where
  "acquire_enter c l s =
     (let s = s\<lparr>cpus := (cpus s)(c := pushcli (cpus s c))\<rparr> in
      if holding c (locks s l) then Stop (Panic ''acquire'') else Ok s)"

text \<open>One turn of the spin loop: the value \<open>xchg\<close> returns.\<close>

definition acquire_try :: "uint32 \<Rightarrow> smp \<Rightarrow> uint32 \<times> smp" where
  "acquire_try l s =
     (let (old, new) = xchg (lk_locked (locks s l)) 1
      in (old, upd_lock l (\<lambda>k. k\<lparr>lk_locked := new\<rparr>) s))"

definition acquire_record :: "nat \<Rightarrow> uint32 \<Rightarrow> memory \<Rightarrow> uint32 \<Rightarrow> smp \<Rightarrow> smp" where
  "acquire_record c l m v s = upd_lock l (\<lambda>k. k\<lparr>lk_cpu := Some c, lk_pcs := getcallerpcs m v\<rparr>) s"

definition release_enter :: "nat \<Rightarrow> uint32 \<Rightarrow> smp \<Rightarrow> smp res" where
  "release_enter c l s =
     (if \<not> holding c (locks s l) then Stop (Panic ''release'')
      else Ok (upd_lock l (\<lambda>k. k\<lparr>lk_pcs := (lk_pcs k)[0 := 0], lk_cpu := None\<rparr>) s))"

definition release_free :: "uint32 \<Rightarrow> smp \<Rightarrow> smp" where
  "release_free l s = upd_lock l (\<lambda>k. k\<lparr>lk_locked := 0\<rparr>) s"

definition release_leave :: "nat \<Rightarrow> smp \<Rightarrow> smp res" where
  "release_leave c s =
     andthen (popcli (cpus s c)) (\<lambda>k. Ok (s\<lparr>cpus := (cpus s)(c := k)\<rparr>))"

text \<open>
  One step of one CPU: everything between two accesses to shared memory.  Outside of a masked
  section the interrupt flag may change: the scheduler enables interrupts, an interrupt gate
  disables them and the return from it brings them back.
\<close>

inductive spin_step :: "smp \<Rightarrow> smp \<Rightarrow> bool" where
  flags: "pcs s c = Outside \<Longrightarrow> ncli (cpus s c) = 0 \<Longrightarrow>
    spin_step s (s\<lparr>cpus := (cpus s)(c := (cpus s c)\<lparr>fl_if := b\<rparr>)\<rparr>)"
| enters: "pcs s c = Outside \<Longrightarrow> acquire_enter c l s = Ok s' \<Longrightarrow> spin_step s (goto c (Spinning l) s')"
| spins: "pcs s c = Spinning l \<Longrightarrow> acquire_try l s = (old, s') \<Longrightarrow> old \<noteq> 0 \<Longrightarrow> spin_step s s'"
| takes: "pcs s c = Spinning l \<Longrightarrow> acquire_try l s = (0, s') \<Longrightarrow> spin_step s (goto c (Taken l) s')"
| records: "pcs s c = Taken l \<Longrightarrow> spin_step s (goto c Outside (acquire_record c l m v s))"
| clears: "pcs s c = Outside \<Longrightarrow> release_enter c l s = Ok s' \<Longrightarrow> spin_step s (goto c (Clearing l) s')"
| frees: "pcs s c = Clearing l \<Longrightarrow> spin_step s (goto c (Leaving l) (release_free l s))"
| leaves: "pcs s c = Leaving l \<Longrightarrow> release_leave c s = Ok s' \<Longrightarrow> spin_step s (goto c Outside s')"

text \<open>A CPU owns a lock from the \<open>xchg\<close> that takes it to the store that frees it.\<close>

definition owns :: "smp \<Rightarrow> nat \<Rightarrow> uint32 \<Rightarrow> bool" where
  "owns s c l \<longleftrightarrow> lk_cpu (locks s l) = Some c \<or> pcs s c = Taken l \<or> pcs s c = Clearing l"

definition in_section :: "smp \<Rightarrow> nat \<Rightarrow> uint32 set" where
  "in_section s c = {l. lk_cpu (locks s l) = Some c}"

text \<open>
  The specification is a table that gives the owner of each lock: a CPU becomes the owner of a lock
  nobody owns, and the owner gives it up.
\<close>

inductive mutex_step :: "(uint32 \<rightharpoonup> nat) \<Rightarrow> (uint32 \<rightharpoonup> nat) \<Rightarrow> bool" where
  lock: "m l = None \<Longrightarrow> mutex_step m (m(l \<mapsto> c))"
| unlock: "m l = Some c \<Longrightarrow> mutex_step m (m(l := None))"

definition mutex_rel :: "smp \<Rightarrow> (uint32 \<rightharpoonup> nat) \<Rightarrow> bool" where
  "mutex_rel s m \<longleftrightarrow> (\<forall>c l. owns s c l \<longleftrightarrow> m l = Some c) \<and>
     (\<forall>l. lk_locked (locks s l) = 0 \<longleftrightarrow> m l = None) \<and>
     (\<forall>c l. pcs s c = Taken l \<or> pcs s c = Clearing l \<longrightarrow> lk_cpu (locks s l) = None)"

lemmas spin_defs = acquire_enter_def acquire_try_def acquire_record_def release_enter_def
  release_free_def release_leave_def upd_lock_def goto_def xchg_def Let_def

lemma mutex_rel_sameI:
  assumes "mutex_rel s m" and "\<And>c l. owns s' c l \<longleftrightarrow> owns s c l"
    and "\<And>l. lk_locked (locks s' l) = 0 \<longleftrightarrow> lk_locked (locks s l) = 0"
    and "\<And>c l. pcs s' c = Taken l \<or> pcs s' c = Clearing l \<Longrightarrow> lk_cpu (locks s' l) = None"
  shows "mutex_rel s' m"
  using assms by (simp add: mutex_rel_def)

lemma mutex_relD:
  assumes "mutex_rel s m"
  shows "owns s c l \<longleftrightarrow> m l = Some c" and "lk_locked (locks s l) = 0 \<longleftrightarrow> m l = None"
    and "pcs s c = Taken l \<Longrightarrow> lk_cpu (locks s l) = None"
    and "pcs s c = Clearing l \<Longrightarrow> lk_cpu (locks s l) = None"
  using assms by (auto simp: mutex_rel_def)

lemma owner_unique: "mutex_rel s m \<Longrightarrow> owns s c l \<Longrightarrow> owns s d l \<longleftrightarrow> d = c"
  by (auto simp: mutex_relD(1))

lemma records_rel:
  assumes "pcs s c = Taken l" and "mutex_rel s m"
  shows "mutex_rel (goto c Outside (acquire_record c l b v s)) m"
proof (rule mutex_rel_sameI[OF assms(2)])
  have o: "owns s d l \<longleftrightarrow> d = c" for d
    using owner_unique[OF assms(2), of c l d] assms(1) by (simp add: owns_def)
  show "owns (goto c Outside (acquire_record c l b v s)) d k \<longleftrightarrow> owns s d k" for d k
    using o[of d] assms(1) by (auto simp: spin_defs owns_def)
  show "lk_cpu (locks (goto c Outside (acquire_record c l b v s)) k) = None"
    if "pcs (goto c Outside (acquire_record c l b v s)) d = Taken k \<or>
      pcs (goto c Outside (acquire_record c l b v s)) d = Clearing k" for d k
    using that o[of d] mutex_relD(3,4)[OF assms(2), of d k]
    by (auto simp: spin_defs owns_def split: if_splits)
qed (simp add: spin_defs)

lemma clears_rel:
  assumes "pcs s c = Outside" and "release_enter c l s = Ok s'" and "mutex_rel s m"
  shows "mutex_rel (goto c (Clearing l) s') m"
proof (rule mutex_rel_sameI[OF assms(3)])
  have h: "lk_cpu (locks s l) = Some c" and
    s': "s' = upd_lock l (\<lambda>k. k\<lparr>lk_pcs := (lk_pcs k)[0 := 0], lk_cpu := None\<rparr>) s"
    using assms(2) by (auto simp: release_enter_def holding_def split: if_splits)
  have o: "owns s d l \<longleftrightarrow> d = c" for d
    using owner_unique[OF assms(3), of c l d] h by (simp add: owns_def)
  show "owns (goto c (Clearing l) s') d k \<longleftrightarrow> owns s d k" for d k
    using o[of d] h assms(1) by (auto simp: s' spin_defs owns_def)
  show "lk_cpu (locks (goto c (Clearing l) s') k) = None"
    if "pcs (goto c (Clearing l) s') d = Taken k \<or> pcs (goto c (Clearing l) s') d = Clearing k" for d k
    using that mutex_relD(3,4)[OF assms(3), of d k]
    by (auto simp: s' spin_defs split: if_splits)
qed (use assms(2) in \<open>auto simp: spin_defs split: if_splits\<close>)

lemma takes_rel:
  assumes "pcs s c = Spinning l" and "acquire_try l s = (0, s')" and "mutex_rel s m"
  shows "m l = None" and "mutex_rel (goto c (Taken l) s') (m(l \<mapsto> c))"
proof -
  have s': "s' = upd_lock l (\<lambda>k. k\<lparr>lk_locked := 1\<rparr>) s" and z: "lk_locked (locks s l) = 0"
    using assms(2) by (auto simp: acquire_try_def xchg_def)
  then show n: "m l = None" using mutex_relD(2)[OF assms(3)] by simp
  have no: "\<not> owns s d l" for d using mutex_relD(1)[OF assms(3)] n by simp
  have c: "lk_cpu (locks s l) = None" using no by (cases "lk_cpu (locks s l)") (auto simp: owns_def)
  have "owns (goto c (Taken l) s') d k \<longleftrightarrow> owns s d k \<or> d = c \<and> k = l" for d k
    using assms(1) by (auto simp: s' spin_defs owns_def)
  then have "owns (goto c (Taken l) s') d k \<longleftrightarrow> (m(l \<mapsto> c)) k = Some d" for d k
    using mutex_relD(1)[OF assms(3), of d k] n by auto
  then show "mutex_rel (goto c (Taken l) s') (m(l \<mapsto> c))"
    using mutex_relD(2-)[OF assms(3)] c unfolding mutex_rel_def
    by (auto simp: s' spin_defs split: if_splits)
qed

lemma frees_rel:
  assumes "pcs s c = Clearing l" and "mutex_rel s m"
  shows "m l = Some c" and "mutex_rel (goto c (Leaving l) (release_free l s)) (m(l := None))"
proof -
  let ?s = "goto c (Leaving l) (release_free l s)"
  show o: "m l = Some c" using mutex_relD(1)[OF assms(2), of c l] assms(1) by (simp add: owns_def)
  have "owns ?s d k \<longleftrightarrow> owns s d k \<and> k \<noteq> l" for d k
    using mutex_relD(4)[OF assms(2) assms(1)] mutex_relD(1)[OF assms(2), of d l] o assms(1)
    by (auto simp: spin_defs owns_def)
  then have "owns ?s d k \<longleftrightarrow> (m(l := None)) k = Some d" for d k
    using mutex_relD(1)[OF assms(2), of d k] by auto
  then show "mutex_rel ?s (m(l := None))"
    using mutex_relD(2-)[OF assms(2)] unfolding mutex_rel_def
    by (auto simp: spin_defs split: if_splits)
qed

lemma spin_step_rel:
  assumes "spin_step s s'" and "mutex_rel s m"
  shows "\<exists>m'. mutex_rel s' m' \<and> mutex_step\<^sup>*\<^sup>* m m'"
  using assms(1)
proof cases
  case (takes c l s1)
  with takes_rel[OF takes(2,3) assms(2)] show ?thesis by (blast intro: mutex_step.lock)
next
  case (frees c l)
  with frees_rel[OF frees(2) assms(2)] show ?thesis by (blast intro: mutex_step.unlock)
next
  case (records c l b v)
  with records_rel[OF records(2) assms(2)] show ?thesis by blast
next
  case (clears c l s1)
  with clears_rel[OF clears(2,3) assms(2)] show ?thesis by blast
next
  case (flags c b)
  with assms(2) show ?thesis by (intro exI[of _ m]) (auto simp: mutex_rel_def owns_def)
next
  case (enters c l s1)
  then have "mutex_rel s' m"
    by (intro mutex_rel_sameI[OF assms(2)])
      (use mutex_relD(3,4)[OF assms(2)] in \<open>auto simp: spin_defs owns_def split: if_splits\<close>)
  then show ?thesis by blast
next
  case (spins c l old)
  then have "mutex_rel s' m"
    by (intro mutex_rel_sameI[OF assms(2)])
      (use mutex_relD(3,4)[OF assms(2)] in \<open>auto simp: spin_defs owns_def split: if_splits\<close>)
  then show ?thesis by blast
next
  case (leaves c l s1)
  then have "mutex_rel s' m"
    by (intro mutex_rel_sameI[OF assms(2)])
      (use mutex_relD(3,4)[OF assms(2)] in
        \<open>auto simp: spin_defs owns_def andthen_eq_Ok split: if_splits\<close>)
  then show ?thesis by blast
qed

section \<open>Interrupts and the nesting depth\<close>

definition cli_ok :: "smp \<Rightarrow> bool" where
  "cli_ok s \<longleftrightarrow> (\<forall>c.
     ncli (cpus s c) = int (card (in_section s c)) + (if pcs s c = Outside then 0 else 1) \<and>
     (ncli (cpus s c) > 0 \<longrightarrow> \<not> fl_if (cpus s c)))"

lemma cli_okD:
  assumes "cli_ok s"
  shows "ncli (cpus s c) = int (card (in_section s c)) + (if pcs s c = Outside then 0 else 1)"
    and "ncli (cpus s c) > 0 \<Longrightarrow> \<not> fl_if (cpus s c)"
  using assms by (auto simp: cli_ok_def)

lemma in_section_frame [simp]:
  "in_section (goto c p s) d = in_section s d"
  "in_section (s\<lparr>cpus := k\<rparr>) d = in_section s d"
  "in_section (upd_lock l (\<lambda>k. k\<lparr>lk_locked := v\<rparr>) s) d = in_section s d"
  by (auto simp: in_section_def goto_def upd_lock_def)

lemma in_section_records:
  assumes "lk_cpu (locks s l) = None"
  shows "in_section (acquire_record c l b v s) d =
    (if d = c then insert l (in_section s d) else in_section s d)"
  using assms by (auto simp: in_section_def spin_defs)

lemma in_section_clears:
  assumes "release_enter c l s = Ok s'"
  shows "l \<in> in_section s c" and "cpus s' = cpus s" and "pcs s' = pcs s"
    and "in_section s' d = (if d = c then in_section s d - {l} else in_section s d)"
  using assms by (auto simp: in_section_def spin_defs holding_def split: if_splits)

lemma pushcli_fields: "ncli (pushcli k) = ncli k + 1" "\<not> fl_if (pushcli k)"
  by (auto simp: pushcli_def Let_def)

lemma popcli_fields:
  "popcli k = Ok k' \<Longrightarrow> ncli k' = ncli k - 1"
  "popcli k = Ok k' \<Longrightarrow> ncli k' > 0 \<Longrightarrow> \<not> fl_if k'"
  by (auto simp: popcli_def Let_def split: if_splits)

lemma cli_okI:
  assumes "cli_ok s" and "\<And>d. d \<noteq> c \<Longrightarrow> cpus s' d = cpus s d" and "\<And>d. d \<noteq> c \<Longrightarrow> pcs s' d = pcs s d"
    and "\<And>d. d \<noteq> c \<Longrightarrow> in_section s' d = in_section s d"
    and "ncli (cpus s' c) = int (card (in_section s' c)) + (if pcs s' c = Outside then 0 else 1)"
    and "ncli (cpus s' c) > 0 \<Longrightarrow> \<not> fl_if (cpus s' c)"
  shows "cli_ok s'"
  unfolding cli_ok_def
proof
  fix d
  show "ncli (cpus s' d) = int (card (in_section s' d)) + (if pcs s' d = Outside then 0 else 1) \<and>
     (ncli (cpus s' d) > 0 \<longrightarrow> \<not> fl_if (cpus s' d))"
    using assms(2-6) cli_okD[OF assms(1), of d] by (cases "d = c") auto
qed

lemma cli_ok_step:
  assumes "spin_step s s'" and "cli_ok s" and "mutex_rel s m"
  shows "cli_ok s'"
  using assms(1)
proof cases
  case (flags c b)
  then show ?thesis using cli_okD[OF assms(2), of c]
    by (intro cli_okI[OF assms(2), of c]) (auto simp: in_section_def)
next
  case (enters c l s1)
  then show ?thesis using cli_okD[OF assms(2), of c]
    by (intro cli_okI[OF assms(2), of c])
      (auto simp: in_section_def spin_defs pushcli_fields split: if_splits)
next
  case (spins c l old)
  then have s': "s' = upd_lock l (\<lambda>k. k\<lparr>lk_locked := 1\<rparr>) s" by (auto simp: acquire_try_def xchg_def)
  then show ?thesis using cli_okD[OF assms(2), of c]
    by (intro cli_okI[OF assms(2), of c]) (simp_all, simp_all add: upd_lock_def)
next
  case (takes c l s1)
  then have s': "s' = goto c (Taken l) (upd_lock l (\<lambda>k. k\<lparr>lk_locked := 1\<rparr>) s)"
    by (auto simp: acquire_try_def xchg_def)
  then show ?thesis using cli_okD[OF assms(2), of c] takes(2)
    by (intro cli_okI[OF assms(2), of c]) (simp_all, simp_all add: upd_lock_def goto_def)
next
  case (records c l b v)
  have n: "lk_cpu (locks s l) = None" using mutex_relD(3)[OF assms(3) records(2)] .
  then have "l \<notin> in_section s c" by (simp add: in_section_def)
  then show ?thesis using cli_okD[OF assms(2), of c] records
    by (intro cli_okI[OF assms(2), of c])
      (simp_all add: in_section_records[OF n], simp_all add: acquire_record_def upd_lock_def goto_def)
next
  case (clears c l s1)
  note i = in_section_clears[OF clears(3)]
  have "card (in_section s c) = Suc (card (in_section s c - {l}))"
    using i(1) by (metis card_Suc_Diff1 finite)
  then show ?thesis using cli_okD[OF assms(2), of c] clears
    by (intro cli_okI[OF assms(2), of c]) (simp_all add: i(4), simp_all add: i(2,3) goto_def)
next
  case (frees c l)
  then show ?thesis using cli_okD[OF assms(2), of c]
    by (intro cli_okI[OF assms(2), of c])
      (simp_all add: release_free_def, simp_all add: upd_lock_def goto_def)
next
  case (leaves c l s1)
  then show ?thesis using cli_okD[OF assms(2), of c]
    by (intro cli_okI[OF assms(2), of c])
      (auto simp: in_section_def release_leave_def andthen_eq_Ok goto_def popcli_fields)
qed

section \<open>What every run of the CPUs satisfies\<close>

text \<open>The start: no CPU is inside a call and every lock has been through \<open>initlock\<close>.\<close>

definition all_free :: "smp \<Rightarrow> bool" where
  "all_free s \<longleftrightarrow> (\<forall>c. pcs s c = Outside \<and> ncli (cpus s c) = 0) \<and>
     (\<forall>l. \<exists>name k. locks s l = initlock name k)"

lemma all_free_rel:
  assumes "all_free s"
  shows "mutex_rel s Map.empty" and "cli_ok s"
proof -
  have l: "lk_locked (locks s l) = 0 \<and> lk_cpu (locks s l) = None" for l
  proof -
    obtain name k where "locks s l = initlock name k" using assms unfolding all_free_def by blast
    then show ?thesis by (simp add: initlock_def)
  qed
  then show "mutex_rel s Map.empty" "cli_ok s"
    using assms by (auto simp: all_free_def mutex_rel_def owns_def cli_ok_def in_section_def)
qed

lemma spin_run:
  assumes "spin_step\<^sup>*\<^sup>* s s'" and "mutex_rel s m" and "cli_ok s"
  shows "\<exists>m'. mutex_step\<^sup>*\<^sup>* m m' \<and> mutex_rel s' m' \<and> cli_ok s'"
  using assms
proof (induction rule: rtranclp_induct)
  case (step s1 s2)
  then obtain m1 where m1: "mutex_step\<^sup>*\<^sup>* m m1" "mutex_rel s1 m1" "cli_ok s1" by blast
  with spin_step_rel[OF step.hyps(2) m1(2)] cli_ok_step[OF step.hyps(2) m1(3,2)]
  show ?case by (meson rtranclp_trans)
qed blast

text \<open>
  C27.  Mutual exclusion, with the \<open>xchg\<close> of \<open>acquire\<close> and the store of \<open>release\<close> as the
  steps that matter.  However the steps of the CPUs are interleaved, a run of \<open>acquire\<close> and
  \<open>release\<close> from free locks is a run of the specification that hands each lock from one owner
  to the next; a CPU holds a lock exactly when the specification says it owns it, so two CPUs
  never hold the same lock; and a CPU that owns a lock, or is inside one of the two functions, has
  its interrupts off, with \<open>ncli\<close> counting the locks it holds and the call it is in.  The
  \<open>popcli\<close> at the end of \<open>release\<close> never panics.
\<close>

theorem spinlock_refines_mutex:
  assumes "all_free s" and "spin_step\<^sup>*\<^sup>* s s'"
  shows "\<exists>m. mutex_step\<^sup>*\<^sup>* Map.empty m \<and> (\<forall>c l. owns s' c l \<longleftrightarrow> m l = Some c) \<and>
    (\<forall>l. lk_locked (locks s' l) \<noteq> 0 \<longleftrightarrow> l \<in> dom m) \<and>
    (\<forall>c. ncli (cpus s' c) = int (card (in_section s' c)) + (if pcs s' c = Outside then 0 else 1)) \<and>
    (\<forall>c l. owns s' c l \<or> pcs s' c \<noteq> Outside \<longrightarrow> \<not> fl_if (cpus s' c)) \<and>
    (\<forall>c l. pcs s' c = Leaving l \<longrightarrow> (\<exists>s''. release_leave c s' = Ok s''))"
proof -
  obtain m where m: "mutex_step\<^sup>*\<^sup>* Map.empty m" "mutex_rel s' m" "cli_ok s'"
    using spin_run[OF assms(2) all_free_rel[OF assms(1)]] by blast
  have f: "\<not> fl_if (cpus s' c)" if "owns s' c l \<or> pcs s' c \<noteq> Outside" for c l
  proof -
    have "in_section s' c \<noteq> {} \<or> pcs s' c \<noteq> Outside"
      using that by (auto simp: owns_def in_section_def)
    then have "ncli (cpus s' c) > 0" by (auto simp: cli_okD(1)[OF m(3)] card_gt_0_iff)
    then show ?thesis by (rule cli_okD(2)[OF m(3)])
  qed
  have "\<exists>s''. release_leave c s' = Ok s''" if "pcs s' c = Leaving l" for c l
    using f[of c] that cli_okD(1)[OF m(3), of c] by (simp add: release_leave_def popcli_def Let_def)
  moreover have "lk_locked (locks s' l) \<noteq> 0 \<longleftrightarrow> l \<in> dom m" for l
    using mutex_relD(2)[OF m(2), of l] by (simp add: domIff)
  ultimately show ?thesis
    using f m(1) mutex_relD(1)[OF m(2)] cli_okD(1)[OF m(3)] by (intro exI[of _ m]) simp
qed

definition demo_smp :: smp where
  "demo_smp = \<lparr>cpus = (\<lambda>_. \<lparr>ncli = 0, intena = False, fl_if = True\<rparr>), pcs = (\<lambda>_. Outside),
     locks = (\<lambda>_. \<lparr>lk_locked = 0, lk_name = ''kmem'', lk_cpu = None, lk_pcs = replicate 10 0\<rparr>)\<rparr>"

text \<open>CPU 0 has the lock, CPU 1 spins on it.\<close>

definition demo_smp_spin :: smp where
  "demo_smp_spin = demo_smp
     \<lparr>cpus := (cpus demo_smp)(0 := pushcli (cpus demo_smp 0), 1 := pushcli (cpus demo_smp 1)),
      pcs := (pcs demo_smp)(0 := Taken 0x80112000, 1 := Spinning 0x80112000),
      locks := (locks demo_smp)(0x80112000 := (locks demo_smp 0)\<lparr>lk_locked := 1\<rparr>)\<rparr>"

lemma demo_smp_run: "spin_step\<^sup>*\<^sup>* demo_smp demo_smp_spin"
proof -
  let ?l = "0x80112000 :: uint32"
  define s1 where "s1 = goto 0 (Spinning ?l)
    (demo_smp\<lparr>cpus := (cpus demo_smp)(0 := pushcli (cpus demo_smp 0))\<rparr>)"
  define s2 where "s2 = goto 0 (Taken ?l) (upd_lock ?l (\<lambda>k. k\<lparr>lk_locked := 1\<rparr>) s1)"
  define s3 where "s3 = goto 1 (Spinning ?l) (s2\<lparr>cpus := (cpus s2)(1 := pushcli (cpus s2 1))\<rparr>)"
  have 1: "spin_step demo_smp s1" unfolding s1_def
    by (rule spin_step.enters) (simp_all add: demo_smp_def acquire_enter_def holding_def)
  have 2: "spin_step s1 s2" unfolding s2_def
    by (rule spin_step.takes)
      (simp_all add: s1_def demo_smp_def goto_def acquire_try_def xchg_def)
  have 3: "spin_step s2 s3" unfolding s3_def
    by (rule spin_step.enters)
      (simp_all add: s1_def s2_def demo_smp_def goto_def acquire_enter_def holding_def upd_lock_def)
  have "s3 = demo_smp_spin"
    by (simp add: s1_def s2_def s3_def demo_smp_spin_def demo_smp_def goto_def upd_lock_def)
  with 3 have "spin_step s2 demo_smp_spin" by simp
  then show ?thesis
    using rtranclp.rtrancl_refl[of spin_step demo_smp] 1 2 by (meson rtranclp.rtrancl_into_rtrancl)
qed

lemma demo_smp_free: "all_free demo_smp"
proof -
  have "locks demo_smp l = initlock ''kmem'' (locks demo_smp l)" for l
    by (simp add: demo_smp_def initlock_def)
  then have "\<exists>name k. locks demo_smp l = initlock name k" for l by blast
  then show ?thesis by (simp add: all_free_def) (simp add: demo_smp_def)
qed

theorem spinlock_refines_mutex_witness:
  "\<exists>m. mutex_step\<^sup>*\<^sup>* Map.empty m \<and> (\<forall>c l. owns demo_smp_spin c l \<longleftrightarrow> m l = Some c)"
  using spinlock_refines_mutex[OF demo_smp_free demo_smp_run] by blast

end
