(* ===== verification/Ide.thy ===== *)
theory Ide
  imports Bio
begin

text \<open>
  The IDE driver of src/ide.c: the queue of requests, the registers of the controller and the
  interrupt handler.  The controller is a parameter; what the driver relies on is stated by
  \<open>ata_controller\<close>.  Each call starts with the values the status register is going to show.  The
  process that waits in \<open>iderw\<close> is described by the condition of its loop, \<open>ide_waits\<close>;
  enabling the interrupt line in the I/O APIC is not modelled.
\<close>

abbreviation (input) FSSIZE :: uint32 where "FSSIZE \<equiv> 1000"
abbreviation (input) IDE_BSY :: byte where "IDE_BSY \<equiv> 0x80"
abbreviation (input) IDE_DRDY :: byte where "IDE_DRDY \<equiv> 0x40"
abbreviation (input) IDE_DF :: byte where "IDE_DF \<equiv> 0x20"
abbreviation (input) IDE_ERR :: byte where "IDE_ERR \<equiv> 0x01"
abbreviation (input) IDE_CMD_READ :: byte where "IDE_CMD_READ \<equiv> 0x20"
abbreviation (input) IDE_CMD_WRITE :: byte where "IDE_CMD_WRITE \<equiv> 0x30"
abbreviation (input) IDE_CMD_RDMUL :: byte where "IDE_CMD_RDMUL \<equiv> 0xC4"
abbreviation (input) IDE_CMD_WRMUL :: byte where "IDE_CMD_WRMUL \<equiv> 0xC5"

section \<open>The state of the driver\<close>

text \<open>
  The sectors of the two drives, and the controller: what it does with a command, given the
  registers, the words sent to the data port and the drives.  It returns the drives and the words
  that can be read from the data port.
\<close>

type_synonym drive_data = "bool \<Rightarrow> uint32 \<Rightarrow> block"
type_synonym controller = "(uint32 \<Rightarrow> byte) \<Rightarrow> block \<Rightarrow> drive_data \<Rightarrow> drive_data \<times> block"

record ide_state =
  kern :: kernel
  idequeue :: "nat option"
  qnext :: "nat \<Rightarrow> nat option"
  havedisk1 :: bool
  ports :: "uint32 \<Rightarrow> byte"
  outdata :: block
  pending :: bool
  drives :: drive_data

text \<open>A write to the command register starts a command.\<close>

definition outb :: "uint32 \<Rightarrow> byte \<Rightarrow> ide_state \<Rightarrow> ide_state" where
  "outb p v s = s\<lparr>ports := (ports s)(p := v), pending := (pending s \<or> p = 0x1F7)\<rparr>"

definition outsl :: "block \<Rightarrow> ide_state \<Rightarrow> ide_state" where
  "outsl bs s = s\<lparr>outdata := bs\<rparr>"

section \<open>The driver\<close>

text \<open>The successive values of the status register are a list; past its end the disk never gets
  ready.\<close>

fun idewait :: "bool \<Rightarrow> byte list \<Rightarrow> (int \<times> byte list) res" where
  "idewait checkerr [] = Stop Diverges"
| "idewait checkerr (r # sts) =
     (if r AND (IDE_BSY OR IDE_DRDY) \<noteq> IDE_DRDY then idewait checkerr sts
      else if checkerr \<and> r AND (IDE_DF OR IDE_ERR) \<noteq> 0 then Ok (- 1, sts)
      else Ok (0, sts))"

text \<open>\<open>probe\<close> are the values of the status register after drive 1 has been selected.\<close>

definition ide_init :: "byte list \<Rightarrow> byte list \<Rightarrow> ide_state \<Rightarrow> ide_state res" where
  "ide_init sts probe s =
     andthen (idewait False sts) (\<lambda>_.
       let s = outb 0x1F6 (0xE0 OR push_bit 4 1) s;
           s = (if list_ex (\<lambda>r. r \<noteq> 0) (take 1000 probe) then s\<lparr>havedisk1 := True\<rparr> else s)
       in Ok (outb 0x1F6 (0xE0 OR push_bit 4 0) s))"

definition idestart :: "nat option \<Rightarrow> byte list \<Rightarrow> ide_state \<Rightarrow> (byte list \<times> ide_state) res" where
  "idestart bp sts s =
     (case bp of
        None \<Rightarrow> Stop (Panic ''idestart'')
      | Some i \<Rightarrow>
        let b = bufs (kern s) ! i in
        if b_blockno b \<ge> FSSIZE then Stop (Panic ''incorrect blockno'')
        else let sector_per_block = BSIZE div 512;
                 sector = b_blockno b * of_nat sector_per_block;
                 read_cmd = (if sector_per_block = 1 then IDE_CMD_READ else IDE_CMD_RDMUL);
                 write_cmd = (if sector_per_block = 1 then IDE_CMD_WRITE else IDE_CMD_WRMUL)
             in if sector_per_block > 7 then Stop (Panic ''idestart'')
        else andthen (idewait False sts) (\<lambda>(_, sts).
          let s = outb 0x3F6 0 s;
              s = outb 0x1F2 (of_nat sector_per_block) s;
              s = outb 0x1F3 (ucast (sector AND 0xFF)) s;
              s = outb 0x1F4 (ucast (drop_bit 8 sector AND 0xFF)) s;
              s = outb 0x1F5 (ucast (drop_bit 16 sector AND 0xFF)) s;
              s = outb 0x1F6 (0xE0 OR ucast (push_bit 4 (b_dev b AND 1))
                    OR ucast (drop_bit 24 sector AND 0x0F)) s
          in Ok (sts, if b_dirty b then outsl (b_data b) (outb 0x1F7 write_cmd s)
                      else outb 0x1F7 read_cmd s)))"

text \<open>\<open>indata\<close> is what \<open>insl\<close> reads from the data port.\<close>

definition ideintr :: "block \<Rightarrow> byte list \<Rightarrow> ide_state \<Rightarrow> (byte list \<times> ide_state) res" where
  "ideintr indata sts s =
     (case idequeue s of
        None \<Rightarrow> Ok (sts, s)
      | Some i \<Rightarrow>
        let s = s\<lparr>idequeue := qnext s i\<rparr> in
        andthen (if b_dirty (bufs (kern s) ! i) then Ok (sts, s)
                 else andthen (idewait True sts) (\<lambda>(r, sts). Ok (sts,
                   if r \<ge> 0 then s\<lparr>kern := upd_buf i (\<lambda>b. b\<lparr>b_data := indata\<rparr>) (kern s)\<rparr>
                   else s))) (\<lambda>(sts, s).
        let s = s\<lparr>kern := upd_buf i (\<lambda>b. b\<lparr>b_valid := True\<rparr>) (kern s)\<rparr>;
            s = s\<lparr>kern := upd_buf i (\<lambda>b. b\<lparr>b_dirty := False\<rparr>) (kern s)\<rparr>;
            s = s\<lparr>kern := wakeup (ChanDisk i) (kern s)\<rparr>
        in if idequeue s \<noteq> None then idestart (idequeue s) sts s else Ok (sts, s)))"

text \<open>The loop of \<open>iderw\<close> that finds the end of the queue.\<close>

partial_function (option) queue_end :: "(nat \<Rightarrow> nat option) \<Rightarrow> nat \<Rightarrow> nat option" where
  "queue_end nx i = (case nx i of None \<Rightarrow> Some i | Some j \<Rightarrow> queue_end nx j)"

definition ide_append :: "nat \<Rightarrow> ide_state \<Rightarrow> ide_state res" where
  "ide_append i s =
     (let s = s\<lparr>qnext := (qnext s)(i := None)\<rparr> in
      case idequeue s of
        None \<Rightarrow> Ok (s\<lparr>idequeue := Some i\<rparr>)
      | Some h \<Rightarrow> (case queue_end (qnext s) h of
                    None \<Rightarrow> Stop Diverges
                  | Some l \<Rightarrow> Ok (s\<lparr>qnext := (qnext s)(l := Some i)\<rparr>)))"

text \<open>\<open>iderw\<close> up to its wait for the request to finish, and the condition of that wait.\<close>

definition ide_rw :: "nat \<Rightarrow> byte list \<Rightarrow> ide_state \<Rightarrow> (byte list \<times> ide_state) res" where
  "ide_rw i sts s =
     (let b = bufs (kern s) ! i in
      if \<not> holdingsleep (b_lock b) then Stop (Panic ''iderw: buf not locked'')
      else if b_valid b \<and> \<not> b_dirty b then Stop (Panic ''iderw: nothing to do'')
      else if b_dev b \<noteq> 0 \<and> \<not> havedisk1 s then Stop (Panic ''iderw: ide disk 1 not present'')
      else andthen (ide_append i s) (\<lambda>s.
        if idequeue s = Some i then idestart (Some i) sts s else Ok (sts, s)))"

definition ide_waits :: "nat \<Rightarrow> ide_state \<Rightarrow> bool" where
  "ide_waits i s = (let b = bufs (kern s) ! i in \<not> (b_valid b \<and> \<not> b_dirty b))"

section \<open>Requests and interrupts\<close>

text \<open>
  An interrupt: the controller has done the command it was given, then the handler runs.
\<close>

definition ide_interrupt ::
  "controller \<Rightarrow> byte list \<Rightarrow> ide_state \<Rightarrow> (byte list \<times> ide_state) res" where
  "ide_interrupt ctl sts s =
     (if pending s then
        let (dr, indata) = ctl (ports s) (outdata s) (drives s)
        in ideintr indata sts (s\<lparr>drives := dr, pending := False\<rparr>)
      else ideintr [] sts s)"

datatype ide_event = Request nat "byte list" | Interrupt "byte list"

primrec ide_event_run :: "controller \<Rightarrow> ide_event \<Rightarrow> ide_state \<Rightarrow> ide_state res" where
  "ide_event_run ctl (Request i sts) s = andthen (ide_rw i sts s) (\<lambda>(_, s). Ok s)"
| "ide_event_run ctl (Interrupt sts) s = andthen (ide_interrupt ctl sts s) (\<lambda>(_, s). Ok s)"

definition ide_run :: "controller \<Rightarrow> ide_event list \<Rightarrow> ide_state \<Rightarrow> ide_state res" where
  "ide_run ctl es s = for_each es (ide_event_run ctl) s"

definition requests :: "ide_event list \<Rightarrow> nat list" where
  "requests es = concat (map (\<lambda>e. case e of Request i _ \<Rightarrow> [i] | Interrupt _ \<Rightarrow> []) es)"

section \<open>What the registers say\<close>

definition lba :: "(uint32 \<Rightarrow> byte) \<Rightarrow> uint32" where
  "lba p = ucast (p 0x1F3) OR push_bit 8 (ucast (p 0x1F4)) OR push_bit 16 (ucast (p 0x1F5))
     OR push_bit 24 (ucast (p 0x1F6) AND 0x0F)"

text \<open>What the driver relies on: one sector is read or written where the registers point.\<close>

definition ata_controller :: "controller \<Rightarrow> bool" where
  "ata_controller ctl \<longleftrightarrow> (\<forall>p out dr. p 0x1F2 = 1 \<longrightarrow>
     (p 0x1F7 = IDE_CMD_READ \<longrightarrow> ctl p out dr = (dr, dr (bit (p 0x1F6) 4) (lba p))) \<and>
     (p 0x1F7 = IDE_CMD_WRITE \<longrightarrow>
        fst (ctl p out dr) = dr(bit (p 0x1F6) 4 := (dr (bit (p 0x1F6) 4))(lba p := out))))"

text \<open>The controller has been told to do the request of buffer \<open>i\<close>.\<close>

definition programmed :: "nat \<Rightarrow> ide_state \<Rightarrow> bool" where
  "programmed i s \<longleftrightarrow> (let b = bufs (kern s) ! i in
     pending s \<and> ports s 0x1F2 = 1 \<and> lba (ports s) = b_blockno b \<and>
     bit (ports s 0x1F6) 4 = bit (b_dev b) 0 \<and>
     ports s 0x1F7 = (if b_dirty b then IDE_CMD_WRITE else IDE_CMD_READ) \<and>
     (b_dirty b \<longrightarrow> outdata s = b_data b))"

lemma join_sector:
  fixes w d :: uint32
  assumes "w < 0x10000000"
  shows "ucast (ucast (w AND 0xFF) :: byte) OR push_bit 8 (ucast (ucast (drop_bit 8 w AND 0xFF) :: byte))
     OR push_bit 16 (ucast (ucast (drop_bit 16 w AND 0xFF) :: byte))
     OR push_bit 24 (ucast ((0xE0 OR ucast (push_bit 4 (d AND 1)) OR ucast (drop_bit 24 w AND 0x0F)) :: byte) AND 0x0F) = w"
    (is "?l = w")
proof -
  have "unat w < 2 ^ 28" using assms by (simp add: word_less_nat_alt)
  then have "unat (take_bit 28 w) = unat w" by (simp add: unsigned_take_bit_eq take_bit_nat_eq_self)
  then have t: "take_bit 28 w = w" by (rule unsigned_word_eqI)
  have m: "x AND 0xFF = take_bit 8 x" "x AND 0x0F = take_bit 4 x" "x AND 1 = take_bit 1 x" for x :: uint32
    by (simp_all add: take_bit_eq_mask mask_eq_exp_minus_1)
  have e: "(0xE0 :: byte) = push_bit 5 (mask 3)" by (simp add: mask_eq_exp_minus_1 push_bit_eq_mult)
  show ?thesis
  proof (rule bit_word_eqI)
    fix n assume "n < LENGTH(32)"
    then have n: "n < 32" by simp
    have w: "n \<ge> 28 \<Longrightarrow> \<not> bit w n" using t by (metis bit_take_bit_iff not_le)
    consider "n < 8" | "8 \<le> n" "n < 16" | "16 \<le> n" "n < 24" | "24 \<le> n" "n < 28" | "28 \<le> n" by linarith
    then show "bit ?l n = bit w n"
      using n w unfolding m e by cases (auto simp: bit_simps)
  qed
qed

lemma drive_select:
  fixes w d :: uint32
  shows "bit ((0xE0 OR ucast (push_bit 4 (d AND 1)) OR ucast (drop_bit 24 w AND 0x0F)) :: byte) 4 = bit d 0"
proof -
  have m: "x AND 0x0F = take_bit 4 x" "x AND 1 = take_bit 1 x" for x :: uint32
    by (simp_all add: take_bit_eq_mask mask_eq_exp_minus_1)
  have e: "(0xE0 :: byte) = push_bit 5 (mask 3)" by (simp add: mask_eq_exp_minus_1 push_bit_eq_mult)
  show ?thesis unfolding m e by (auto simp: bit_simps bit_0)
qed

section \<open>The queue\<close>

primrec queued :: "(nat \<Rightarrow> nat option) \<Rightarrow> nat option \<Rightarrow> nat list \<Rightarrow> bool" where
  "queued nx p [] \<longleftrightarrow> p = None"
| "queued nx p (i # is) \<longleftrightarrow> p = Some i \<and> queued nx (nx i) is"

lemma queued_cong: "(\<And>i. i \<in> set is \<Longrightarrow> nx i = nx' i) \<Longrightarrow> queued nx p is \<longleftrightarrow> queued nx' p is"
  by (induction "is" arbitrary: p) auto

lemma queue_end_last: "queued nx (nx i) is \<Longrightarrow> queue_end nx i = Some (last (i # is))"
proof (induction "is" arbitrary: i)
  case Nil
  then show ?case by (simp add: queue_end.simps)
next
  case (Cons j js)
  then show ?case by (subst queue_end.simps) auto
qed

lemma queued_append:
  assumes "queued nx p (is @ [l])" and "distinct (is @ [l, i])"
  shows "queued (nx(l := Some i, i := None)) p (is @ [l, i])"
  using assms
proof (induction "is" arbitrary: p)
  case Nil
  then show ?case by auto
next
  case (Cons j js)
  then show ?case by auto
qed

lemma ide_append_queued:
  assumes "queued (qnext s) (idequeue s) q" and "distinct q" and "i \<notin> set q"
  obtains s' where "ide_append i s = Ok s'" "queued (qnext s') (idequeue s') (q @ [i])"
    "kern s' = kern s" "havedisk1 s' = havedisk1 s" "ports s' = ports s" "outdata s' = outdata s"
    "pending s' = pending s" "drives s' = drives s"
proof (cases q rule: rev_exhaust)
  case Nil
  then have "idequeue s = None" using assms(1) by simp
  then have "ide_append i s = Ok (s\<lparr>qnext := (qnext s)(i := None), idequeue := Some i\<rparr>)"
    by (simp add: ide_append_def Let_def)
  then show thesis by (rule that) (use Nil in auto)
next
  case (snoc ks l)
  then have "q \<noteq> []" by simp
  then obtain h t where h: "q = h # t" by (meson neq_Nil_conv)
  have n: "queued ((qnext s)(i := None)) (idequeue s) q"
    by (subst queued_cong[where nx' = "qnext s"]) (use assms in auto)
  have "last (h # t) = l" using h snoc by (metis last_snoc)
  then have "queue_end ((qnext s)(i := None)) h = Some l" and hd: "idequeue s = Some h"
    using queue_end_last[of "(qnext s)(i := None)" h t] h n by simp_all
  then have a: "ide_append i s = Ok (s\<lparr>qnext := (qnext s)(i := None, l := Some i)\<rparr>)"
    by (simp add: ide_append_def Let_def)
  have "l \<noteq> i" using snoc assms(3) by auto
  then have "(qnext s)(i := None, l := Some i) = (qnext s)(l := Some i, i := None)"
    by (simp add: fun_upd_twist)
  moreover have "queued ((qnext s)(l := Some i, i := None)) (idequeue s) (ks @ [l, i])"
    by (rule queued_append) (use snoc assms in auto)
  ultimately show thesis using snoc by (intro that[OF a]) simp_all
qed

section \<open>Starting a request\<close>

lemma idestart_programs:
  assumes "b_blockno (bufs (kern s) ! i) < FSSIZE" and "idewait False sts = Ok (r, sts')"
  obtains s' where "idestart (Some i) sts s = Ok (sts', s')" "programmed i s'"
    "kern s' = kern s" "havedisk1 s' = havedisk1 s" "drives s' = drives s"
    "idequeue s' = idequeue s" "qnext s' = qnext s"
proof -
  let ?b = "bufs (kern s) ! i"
  have w: "b_blockno ?b < 0x10000000"
    using assms(1) by (rule less_trans) simp
  note j = join_sector[OF w, of "b_dev ?b", simplified]
    and d = drive_select[of "b_dev ?b" "b_blockno ?b", simplified]
  have "\<exists>s'. idestart (Some i) sts s = Ok (sts', s') \<and> programmed i s' \<and> kern s' = kern s \<and>
      havedisk1 s' = havedisk1 s \<and> drives s' = drives s \<and> idequeue s' = idequeue s \<and>
      qnext s' = qnext s"
    using assms by (auto simp: idestart_def Let_def outb_def outsl_def programmed_def lba_def
        j d not_le)
  then show thesis using that by blast
qed

section \<open>The driver against the memory disk\<close>

text \<open>The kernel with the disk of src/memide.c in the place of drive 1.\<close>

definition image :: "ide_state \<Rightarrow> kernel" where
  "image s = (kern s)\<lparr>disk := drives s True\<rparr>"

text \<open>The buffers and the disk after src/memide.c has done the requests of \<open>q\<close> one by one.\<close>

definition settle :: "nat list \<Rightarrow> ide_state \<Rightarrow> (buf list \<times> (uint32 \<Rightarrow> block)) res" where
  "settle q s = andthen (for_each q iderw (image s)) (\<lambda>k. Ok (bufs k, disk k))"

definition request_ok :: "kernel \<Rightarrow> nat \<Rightarrow> bool" where
  "request_ok k i \<longleftrightarrow> (let b = bufs k ! i in i < length (bufs k) \<and> holdingsleep (b_lock b) \<and>
     \<not> (b_valid b \<and> \<not> b_dirty b) \<and> b_dev b = 1 \<and> b_blockno b < disksize k \<and> b_blockno b < FSSIZE)"

definition ide_ok :: "nat list \<Rightarrow> ide_state \<Rightarrow> bool" where
  "ide_ok q s \<longleftrightarrow> queued (qnext s) (idequeue s) q \<and> distinct q \<and> havedisk1 s \<and>
     (\<forall>i\<in>set q. request_ok (kern s) i) \<and>
     (if q = [] then \<not> pending s else programmed (hd q) s)"

text \<open>The status register shows a drive that is ready and reports no error, \<open>n\<close> times.\<close>

definition drive_ready :: "nat \<Rightarrow> byte list \<Rightarrow> bool" where
  "drive_ready n sts \<longleftrightarrow> n \<le> length (filter (\<lambda>r. r AND 0xC0 = 0x40) sts) \<and>
     list_all (\<lambda>r. r AND 0xC0 = 0x40 \<longrightarrow> r AND 0x21 = 0) sts"

lemma idewait_ready:
  "drive_ready (Suc n) sts \<Longrightarrow> \<exists>sts'. idewait c sts = Ok (0, sts') \<and> drive_ready n sts'"
proof (induction sts)
  case (Cons r sts)
  then show ?case by (cases "r AND 0xC0 = 0x40") (auto simp: drive_ready_def)
qed (simp add: drive_ready_def)

lemma iderw_cong:
  assumes "bufs k = bufs k'" "disk k = disk k'" "disksize k = disksize k'"
  shows "andthen (for_each q iderw k) (\<lambda>k. Ok (bufs k, disk k)) =
    andthen (for_each q iderw k') (\<lambda>k. Ok (bufs k, disk k))"
  using assms
proof (induction q arbitrary: k k')
  case (Cons i q)
  show ?case
  proof (cases "iderw i k")
    case (Stop e)
    then have "iderw i k' = Stop e" using Cons.prems by (auto simp: iderw_def Let_def split: if_splits)
    with Stop show ?thesis by simp
  next
    case (Ok k1)
    then obtain k1' where k': "iderw i k' = Ok k1'" "bufs k1 = bufs k1'" "disk k1 = disk k1'"
      "disksize k1 = disksize k1'"
      using Cons.prems by (auto simp: iderw_def Let_def split: if_splits)
    then show ?thesis using Ok Cons.IH[OF k'(2-4)] by simp
  qed
qed simp

lemma request_ok_other:
  assumes "request_ok k j" "bufs k' ! j = bufs k ! j" "length (bufs k') = length (bufs k)"
    "disksize k' = disksize k"
  shows "request_ok k' j"
  using assms by (simp add: request_ok_def)

lemma programmed_cong:
  assumes "programmed i s" "bufs (kern s') ! i = bufs (kern s) ! i" "ports s' = ports s"
    "pending s' = pending s" "outdata s' = outdata s"
  shows "programmed i s'"
  using assms by (simp add: programmed_def)

subsection \<open>A new request\<close>

lemma ide_rw_step:
  assumes "ide_ok q s" and "i \<notin> set q" and "request_ok (kern s) i" and "drive_ready 1 sts"
  shows "\<exists>sts' s'. ide_rw i sts s = Ok (sts', s') \<and> ide_ok (q @ [i]) s' \<and> kern s' = kern s \<and>
    drives s' = drives s"
proof -
  have q: "queued (qnext s) (idequeue s) q" "distinct q" "havedisk1 s"
    "\<And>j. j \<in> set q \<Longrightarrow> request_ok (kern s) j"
    "q = [] \<Longrightarrow> \<not> pending s" "q \<noteq> [] \<Longrightarrow> programmed (hd q) s"
    using assms(1) by (auto simp: ide_ok_def)
  obtain s1 where s1: "ide_append i s = Ok s1" "queued (qnext s1) (idequeue s1) (q @ [i])"
    "kern s1 = kern s" "havedisk1 s1 = havedisk1 s" "ports s1 = ports s" "outdata s1 = outdata s"
    "pending s1 = pending s" "drives s1 = drives s"
    by (rule ide_append_queued[OF q(1,2) assms(2)])
  have r: "ide_rw i sts s = (if idequeue s1 = Some i then idestart (Some i) sts s1 else Ok (sts, s1))"
    using assms(3) q(3) s1(1) by (auto simp: ide_rw_def request_ok_def Let_def)
  show ?thesis
  proof (cases q)
    case Nil
    then have h: "idequeue s1 = Some i" using s1(2) by simp
    obtain sts' where w: "idewait False sts = Ok (0, sts')"
      using idewait_ready[of 0 sts False] assms(4) by auto
    have n: "b_blockno (bufs (kern s1) ! i) < FSSIZE"
      using assms(3) s1(3) by (simp add: request_ok_def Let_def)
    obtain s2 where s2: "idestart (Some i) sts s1 = Ok (sts', s2)" "programmed i s2"
      "kern s2 = kern s1" "havedisk1 s2 = havedisk1 s1" "drives s2 = drives s1"
      "idequeue s2 = idequeue s1" "qnext s2 = qnext s1"
      by (rule idestart_programs[OF n w])
    then have "ide_ok (q @ [i]) s2" using Nil s1 q(3) assms(3) by (simp add: ide_ok_def)
    then show ?thesis using r h s2 s1 by simp
  next
    case (Cons j js)
    then have "idequeue s1 \<noteq> Some i" using s1(2) assms(2) by auto
    moreover have "programmed (hd (q @ [i])) s1"
      using programmed_cong[OF q(6), of s1] Cons s1 by simp
    then have "ide_ok (q @ [i]) s1"
      using Cons s1(2-4) q(2-4) assms(2,3) by (auto simp: ide_ok_def)
    ultimately show ?thesis using r s1(3,8) by auto
  qed
qed

subsection \<open>An interrupt\<close>

lemma settle_cong:
  assumes "bufs (kern s) = bufs k" "drives s True = disk k" "disksize (kern s) = disksize k"
  shows "settle q s = andthen (for_each q iderw k) (\<lambda>k. Ok (bufs k, disk k))"
  unfolding settle_def by (rule iderw_cong) (simp_all add: image_def assms)

text \<open>The buffer after the request has been served.\<close>

definition served :: "(uint32 \<Rightarrow> block) \<Rightarrow> buf \<Rightarrow> buf" where
  "served d b = (if b_dirty b then b else b\<lparr>b_data := d (b_blockno b)\<rparr>)\<lparr>b_valid := True, b_dirty := False\<rparr>"

definition disk_after :: "buf \<Rightarrow> (uint32 \<Rightarrow> block) \<Rightarrow> uint32 \<Rightarrow> block" where
  "disk_after b d = (if b_dirty b then d(b_blockno b := b_data b) else d)"

lemma iderw_served:
  assumes "request_ok k i"
  shows "\<exists>k'. iderw i k = Ok k' \<and> bufs k' = upd_at i (served (disk k)) (bufs k) \<and>
    disk k' = disk_after (bufs k ! i) (disk k) \<and> disksize k' = disksize k"
  using assms
  by (cases "bufs k ! i")
    (auto simp: iderw_def request_ok_def Let_def served_def disk_after_def upd_at_def not_le)

lemma controller_serves:
  assumes "ata_controller ctl" and "programmed i s" and "b_dev (bufs (kern s) ! i) = 1"
  obtains dr indata where "ctl (ports s) (outdata s) (drives s) = (dr, indata)"
    "dr True = disk_after (bufs (kern s) ! i) (drives s True)"
    "\<not> b_dirty (bufs (kern s) ! i) \<Longrightarrow> indata = drives s True (b_blockno (bufs (kern s) ! i))"
proof -
  let ?b = "bufs (kern s) ! i"
  note p = assms(2)[unfolded programmed_def Let_def]
  obtain dr indata where c: "ctl (ports s) (outdata s) (drives s) = (dr, indata)" by fastforce
  have one: "bit (ports s 0x1F6) 4" using p assms(3) by (simp add: bit_0)
  have "dr True = disk_after ?b (drives s True) \<and>
      (\<not> b_dirty ?b \<longrightarrow> indata = drives s True (b_blockno ?b))"
    using assms(1)[unfolded ata_controller_def, THEN spec[of _ "ports s"], THEN spec[of _ "outdata s"],
        THEN spec[of _ "drives s"]] p c one
    by (cases "b_dirty ?b") (simp_all add: disk_after_def)
  then show thesis using that c by blast
qed

lemma ideintr_serves:
  assumes "idequeue s = Some i" and "i < length (bufs (kern s))" and "drive_ready 2 sts"
    and "\<not> b_dirty (bufs (kern s) ! i) \<Longrightarrow> indata = d (b_blockno (bufs (kern s) ! i))"
  obtains sts' s1 where "drive_ready 1 sts'"
    "ideintr indata sts s = (if idequeue s1 \<noteq> None then idestart (idequeue s1) sts' s1 else Ok (sts', s1))"
    "idequeue s1 = qnext s i" "qnext s1 = qnext s" "havedisk1 s1 = havedisk1 s"
    "drives s1 = drives s" "pending s1 = pending s" "disksize (kern s1) = disksize (kern s)"
    "bufs (kern s1) = upd_at i (served d) (bufs (kern s))"
proof -
  have r1: "drive_ready 1 sts" using assms(3) by (auto simp: drive_ready_def)
  obtain sts1 where w: "idewait True sts = Ok (0, sts1)" "drive_ready 1 sts1"
    using idewait_ready[of 1 sts True] assms(3) by (auto simp: numeral_2_eq_2)
  show thesis
  proof (cases "b_dirty (bufs (kern s) ! i)")
    case True
    then show thesis using assms(1,2)
      by (intro that[OF r1, of "s\<lparr>idequeue := qnext s i, kern := wakeup (ChanDisk i)
            (upd_buf i (\<lambda>b. b\<lparr>b_valid := True, b_dirty := False\<rparr>) (kern s))\<rparr>"])
        (simp_all add: ideintr_def Let_def wakeup_def wakeup1_def upd_at_def served_def)
  next
    case False
    then show thesis using assms(1,2,4) w
      by (intro that[OF w(2), of "s\<lparr>idequeue := qnext s i, kern := wakeup (ChanDisk i)
            (upd_buf i (\<lambda>b. b\<lparr>b_data := indata, b_valid := True, b_dirty := False\<rparr>) (kern s))\<rparr>"])
        (simp_all add: ideintr_def Let_def wakeup_def wakeup1_def upd_at_def served_def)
  qed
qed

lemma ide_interrupt_step:
  assumes "ata_controller ctl" and "ide_ok (i # q) s" and "drive_ready 2 sts"
  shows "\<exists>sts' s'. ide_interrupt ctl sts s = Ok (sts', s') \<and> ide_ok q s' \<and>
    (\<forall>r. settle r s' = settle (i # r) s) \<and> disksize (kern s') = disksize (kern s) \<and>
    length (bufs (kern s')) = length (bufs (kern s)) \<and>
    (\<forall>j. j \<noteq> i \<longrightarrow> bufs (kern s') ! j = bufs (kern s) ! j)"
proof -
  let ?b = "bufs (kern s) ! i"
  have ok: "idequeue s = Some i" "queued (qnext s) (qnext s i) q" "distinct (i # q)" "havedisk1 s"
    "request_ok (kern s) i" "\<And>j. j \<in> set q \<Longrightarrow> request_ok (kern s) j" "programmed i s"
    using assms(2) by (auto simp: ide_ok_def)
  have b: "b_dev ?b = 1" "i < length (bufs (kern s))" and p: "pending s"
    using ok(5,7) by (auto simp: request_ok_def programmed_def Let_def)
  obtain dr indata where c: "ctl (ports s) (outdata s) (drives s) = (dr, indata)"
    "dr True = disk_after ?b (drives s True)"
    "\<not> b_dirty ?b \<Longrightarrow> indata = drives s True (b_blockno ?b)"
    by (rule controller_serves[OF assms(1) ok(7) b(1)]) blast
  define s0 where "s0 = s\<lparr>drives := dr, pending := False\<rparr>"
  have s0: "idequeue s0 = Some i" "i < length (bufs (kern s0))"
    "\<not> b_dirty (bufs (kern s0) ! i) \<Longrightarrow> indata = drives s True (b_blockno (bufs (kern s0) ! i))"
    using ok(1) b(2) c(3) by (auto simp: s0_def)
  obtain sts' s1 where s1: "drive_ready 1 sts'"
    "ideintr indata sts s0 = (if idequeue s1 \<noteq> None then idestart (idequeue s1) sts' s1 else Ok (sts', s1))"
    "idequeue s1 = qnext s0 i" "qnext s1 = qnext s0" "havedisk1 s1 = havedisk1 s0"
    "drives s1 = drives s0" "pending s1 = pending s0" "disksize (kern s1) = disksize (kern s0)"
    "bufs (kern s1) = upd_at i (served (drives s True)) (bufs (kern s0))"
    using ideintr_serves[where d = "drives s True" and indata = indata, OF s0(1,2) assms(3) s0(3)]
    by blast
  have i: "ide_interrupt ctl sts s = ideintr indata sts s0"
    using p c(1) by (simp add: ide_interrupt_def s0_def)
  have other: "bufs (kern s1) ! j = bufs (kern s) ! j" if "j \<noteq> i" for j
    using that s1(9) by (simp add: upd_at_def s0_def)
  have len: "length (bufs (kern s1)) = length (bufs (kern s))" using s1(9) by (simp add: upd_at_def s0_def)
  have sz: "disksize (kern s1) = disksize (kern s)" using s1(8) by (simp add: s0_def)
  have req: "request_ok (kern s1) j" if "j \<in> set q" for j
    using request_ok_other[OF ok(6)[OF that] other len sz] ok(3) that by auto
  have set1: "settle r s' = settle (i # r) s"
    if "bufs (kern s') = bufs (kern s1)" "drives s' = drives s1" "disksize (kern s') = disksize (kern s1)"
    for r s'
  proof -
    have "request_ok (image s) i" using ok(5) by (simp add: request_ok_def image_def)
    from iderw_served[OF this] obtain k where k: "iderw i (image s) = Ok k"
      "bufs k = upd_at i (served (drives s True)) (bufs (kern s))"
      "disk k = disk_after ?b (drives s True)" "disksize k = disksize (kern s)"
      by (auto simp: image_def)
    have "settle r s' = andthen (for_each r iderw k) (\<lambda>k. Ok (bufs k, disk k))"
      using that s1(6,9) c(2) k sz by (intro settle_cong) (simp_all add: s0_def)
    then show ?thesis using k(1) by (simp add: settle_def)
  qed
  show ?thesis
  proof (cases q)
    case Nil
    then have "idequeue s1 = None" using ok(2) s1(3) by (simp add: s0_def)
    moreover have "ide_ok q s1" using Nil calculation ok(4) s1 by (simp add: ide_ok_def s0_def)
    ultimately show ?thesis using i s1(2) set1 other len sz by auto
  next
    case (Cons j js)
    then have h: "idequeue s1 = Some j" using ok(2) s1(3) by (simp add: s0_def)
    obtain sts'' where w: "idewait False sts' = Ok (0, sts'')"
      using idewait_ready[of 0 sts' False] s1(1) by auto
    have n: "b_blockno (bufs (kern s1) ! j) < FSSIZE"
      using req[of j] Cons by (simp add: request_ok_def Let_def)
    obtain s2 where s2: "idestart (Some j) sts' s1 = Ok (sts'', s2)" "programmed j s2"
      "kern s2 = kern s1" "havedisk1 s2 = havedisk1 s1" "drives s2 = drives s1"
      "idequeue s2 = idequeue s1" "qnext s2 = qnext s1"
      by (rule idestart_programs[OF n w])
    have "ide_ok q s2" using Cons s2 h ok(2-4) s1(4,5) req by (simp add: ide_ok_def s0_def)
    then show ?thesis using i s1(2) h s2 set1[of s2] other len sz by auto
  qed
qed

subsection \<open>Runs of the driver\<close>

primrec event_ready :: "ide_event \<Rightarrow> bool" where
  "event_ready (Request i sts) = drive_ready 1 sts"
| "event_ready (Interrupt sts) = drive_ready 2 sts"

lemma requests_simps [simp]:
  "requests [] = []" "requests (Request i sts # es) = i # requests es"
  "requests (Interrupt sts # es) = requests es"
  by (simp_all add: requests_def)

lemma interrupt_idle: "ide_ok [] s \<Longrightarrow> ide_interrupt ctl sts s = Ok (sts, s)"
  by (simp add: ide_ok_def ide_interrupt_def ideintr_def)

lemma ide_run_settles:
  assumes "ata_controller ctl" and "ide_ok q s" and "distinct (q @ requests es)"
    and "\<And>i. i \<in> set (requests es) \<Longrightarrow> request_ok (kern s) i" and "list_all event_ready es"
  shows "\<exists>s' n. ide_run ctl es s = Ok s' \<and> ide_ok (drop n (q @ requests es)) s' \<and>
    settle (drop n (q @ requests es)) s' = settle (q @ requests es) s"
  using assms(2-)
proof (induction es arbitrary: q s)
  case Nil
  then show ?case by (intro exI[of _ s] exI[of _ 0]) (simp add: ide_run_def)
next
  case (Cons e es)
  show ?case
  proof (cases e)
    case (Request i sts)
    then obtain sts' s1 where s1: "ide_rw i sts s = Ok (sts', s1)" "ide_ok (q @ [i]) s1"
      "kern s1 = kern s" "drives s1 = drives s"
      using ide_rw_step[OF Cons.prems(1), of i sts] Cons.prems(2) Cons.prems(3)[of i] Cons.prems(4)
      by auto
    have "settle r s1 = settle r s" for r using s1(3,4) by (simp add: settle_def image_def)
    then show ?thesis
      using Cons.IH[OF s1(2)] Cons.prems s1 Request by (simp add: ide_run_def)
  next
    case (Interrupt sts)
    show ?thesis
    proof (cases q)
      case Nil
      then show ?thesis
        using Cons.IH[OF Cons.prems(1)] Cons.prems interrupt_idle[of s ctl sts] Interrupt
        by (simp add: ide_run_def)
    next
      case q: (Cons j q')
      obtain sts' s1 where s1: "ide_interrupt ctl sts s = Ok (sts', s1)" "ide_ok q' s1"
        "\<And>r. settle r s1 = settle (j # r) s" "disksize (kern s1) = disksize (kern s)"
        "length (bufs (kern s1)) = length (bufs (kern s))"
        "\<And>k. k \<noteq> j \<Longrightarrow> bufs (kern s1) ! k = bufs (kern s) ! k"
        using ide_interrupt_step[OF assms(1), of j q' s sts] Cons.prems(1,4) q Interrupt by auto
      have req: "request_ok (kern s1) i" if "i \<in> set (requests es)" for i
        using request_ok_other[OF Cons.prems(3)[of i] s1(6,5,4)] Cons.prems(2) that q Interrupt
        by auto
      obtain s' n where "ide_run ctl es s1 = Ok s'" "ide_ok (drop n (q' @ requests es)) s'"
        "settle (drop n (q' @ requests es)) s' = settle (q' @ requests es) s1"
        using Cons.IH[OF s1(2) _ req] Cons.prems(2,4) q Interrupt by auto
      then show ?thesis
        using s1(1,3) q Interrupt by (intro exI[of _ s'] exI[of _ "Suc n"]) (simp add: ide_run_def)
    qed
  qed
qed

lemma ide_run_drains:
  assumes "ata_controller ctl" and "ide_ok q s" and "list_all (drive_ready 2) stss" and "length q \<le> length stss"
  shows "\<exists>s'. ide_run ctl (map Interrupt stss) s = Ok s' \<and> ide_ok [] s' \<and> settle [] s' = settle q s"
  using assms(2-)
proof (induction stss arbitrary: q s)
  case Nil
  then show ?case by (simp add: ide_run_def)
next
  case (Cons sts stss)
  show ?case
  proof (cases q)
    case Nil
    then show ?thesis
      using Cons.IH[of "[]" s] Cons.prems interrupt_idle[of s ctl sts] by (simp add: ide_run_def)
  next
    case (Cons j q')
    then obtain sts' s1 where s1: "ide_interrupt ctl sts s = Ok (sts', s1)" "ide_ok q' s1"
      "\<And>r. settle r s1 = settle (j # r) s"
      using ide_interrupt_step[OF assms(1), of j q' s sts] Cons.prems(1,2) by auto
    then show ?thesis using Cons.IH[OF s1(2)] Cons.prems Cons by (simp add: ide_run_def)
  qed
qed

lemma ide_run_append: "ide_run ctl (es @ fs) s = andthen (ide_run ctl es s) (ide_run ctl fs)"
  by (simp add: ide_run_def[abs_def] for_each_append)

text \<open>
  C29.  The driver with its queue and interrupts does what the memory disk does at once.  Start it
  idle and let processes issue requests for distinct buffers, in any interleaving with interrupts,
  and let as many interrupts follow as there were requests.  Then nothing panics, the queue is empty,
  and the buffers and the drive are those the \<open>iderw\<close> of src/memide.c leaves when it serves the
  requests in the order in which they came in.
\<close>

theorem ide_equals_memide:
  assumes "ata_controller ctl" and "ide_ok [] s" and "distinct (requests es)"
    and "\<And>i. i \<in> set (requests es) \<Longrightarrow> request_ok (kern s) i"
    and "list_all event_ready es" and "list_all (drive_ready 2) stss"
    and "length (requests es) \<le> length stss"
  shows "\<exists>s' k. ide_run ctl (es @ map Interrupt stss) s = Ok s' \<and>
    for_each (requests es) iderw (image s) = Ok k \<and> idequeue s' = None \<and>
    bufs (kern s') = bufs k \<and> drives s' True = disk k"
proof -
  obtain s1 n where s1: "ide_run ctl es s = Ok s1" "ide_ok (drop n (requests es)) s1"
    "settle (drop n (requests es)) s1 = settle (requests es) s"
    using ide_run_settles[OF assms(1,2), of es] assms(3-5) by auto
  have "length (drop n (requests es)) \<le> length stss" using assms(7) by simp
  from ide_run_drains[OF assms(1) s1(2) assms(6) this] obtain s' where
    s': "ide_run ctl (map Interrupt stss) s1 = Ok s'" "ide_ok [] s'"
    "settle [] s' = settle (requests es) s"
    using s1(3) by auto
  have "Ok (bufs (kern s'), drives s' True) = settle (requests es) s"
    using s'(3) by (simp add: settle_def image_def)
  then obtain k where "for_each (requests es) iderw (image s) = Ok k"
    "bufs (kern s') = bufs k" "drives s' True = disk k"
    by (cases "for_each (requests es) iderw (image s)") (simp_all add: settle_def)
  moreover have "idequeue s' = None" using s'(2) by (simp add: ide_ok_def)
  ultimately show ?thesis using s1(1) s'(1) by (simp add: ide_run_append)
qed

definition demo_ctl :: controller where
  "demo_ctl p out dr =
     (if p 0x1F7 = IDE_CMD_READ then (dr, dr (bit (p 0x1F6) 4) (lba p))
      else (dr(bit (p 0x1F6) 4 := (dr (bit (p 0x1F6) 4))(lba p := out)), []))"

text \<open>Buffer 0 waits for block 5 to be read, buffer 1 for block 7 to be written.\<close>

definition demo_ide :: ide_state where
  "demo_ide = \<lparr>kern = demo_kernel\<lparr>bufs := (bufs demo_kernel)
       [0 := demo_buf\<lparr>b_dev := 1, b_blockno := 5, b_lock := \<lparr>sl_locked = True, sl_pid = 3\<rparr>\<rparr>,
        1 := demo_buf\<lparr>b_dev := 1, b_blockno := 7, b_dirty := True,
               b_lock := \<lparr>sl_locked = True, sl_pid = 3\<rparr>\<rparr>]\<rparr>,
     idequeue = None, qnext = (\<lambda>_. None), havedisk1 = True, ports = (\<lambda>_. 0), outdata = [],
     pending = False, drives = (\<lambda>_ _. replicate BSIZE 0)\<rparr>"

theorem ide_equals_memide_witness:
  "\<exists>s' k. ide_run demo_ctl ([Request 0 [0x80, 0x40], Request 1 [0x40]] @ map Interrupt [[0x40, 0x40], [0x40, 0x40]]) demo_ide = Ok s' \<and>
    for_each [0, 1] iderw (image demo_ide) = Ok k \<and> idequeue s' = None \<and>
    bufs (kern s') = bufs k \<and> drives s' True = disk k"
proof -
  have "ata_controller demo_ctl" by (simp add: ata_controller_def demo_ctl_def)
  moreover have "ide_ok [] demo_ide" by (simp add: ide_ok_def demo_ide_def)
  moreover have "request_ok (kern demo_ide) i" if "i \<in> {0, 1}" for i
    using that by (auto simp: request_ok_def demo_ide_def demo_kernel_def demo_buf_def holdingsleep_def Let_def)
  ultimately show ?thesis
    using ide_equals_memide[of demo_ctl demo_ide "[Request 0 [0x80, 0x40], Request 1 [0x40]]"
        "[[0x40, 0x40], [0x40, 0x40]]"] by (simp add: drive_ready_def)
qed

text \<open>
  C30.  A read error is lost.  Let the drive report an error for the read at the head of the queue,
  whatever requests are waiting behind it, and get ready again for the next one.  Then \<open>ideintr\<close>
  leaves the buffer with the bytes it had and marks it valid, although nothing has been read from
  the disk, so the process that waits in \<open>iderw\<close> stops waiting and takes these bytes for the block;
  the next request is started.
\<close>

theorem ide_read_error_marks_valid:
  assumes ok: "ide_ok (i # q) s" and clean: "\<not> b_dirty (bufs (kern s) ! i)"
    and err: "r AND 0xC0 = 0x40" "r AND 0x21 \<noteq> 0" and sts: "drive_ready 1 sts"
  shows "\<exists>sts' s'. ideintr indata (r # sts) s = Ok (sts', s') \<and> \<not> ide_waits i s' \<and>
    b_valid (bufs (kern s') ! i) \<and> b_data (bufs (kern s') ! i) = b_data (bufs (kern s) ! i) \<and>
    (\<forall>j q'. q = j # q' \<longrightarrow> programmed j s')"
proof -
  define s1 where "s1 = s\<lparr>idequeue := qnext s i, kern := wakeup (ChanDisk i)
    (upd_buf i (\<lambda>b. b\<lparr>b_valid := True, b_dirty := False\<rparr>) (kern s))\<rparr>"
  have q: "queued (qnext s) (idequeue s) (i # q)" "distinct (i # q)" "i < length (bufs (kern s))"
    "\<And>j. j \<in> set q \<Longrightarrow> request_ok (kern s) j"
    using ok by (auto simp: ide_ok_def request_ok_def Let_def)
  have head: "idequeue s = Some i" "queued (qnext s) (qnext s i) q" using q(1) by auto
  have s1: "bufs (kern s1) = upd_at i (\<lambda>b. b\<lparr>b_valid := True, b_dirty := False\<rparr>) (bufs (kern s))"
    "idequeue s1 = qnext s i" by (simp_all add: s1_def wakeup_def wakeup1_def)
  have intr: "ideintr indata (r # sts) s = (if idequeue s1 \<noteq> None then idestart (idequeue s1) sts s1 else Ok (sts, s1))"
    using head(1) clean err q(3) by (simp add: ideintr_def Let_def s1_def wakeup_def wakeup1_def upd_at_def)
  have keep: "\<not> ide_waits i s'" "b_valid (bufs (kern s') ! i)" "b_data (bufs (kern s') ! i) = b_data (bufs (kern s) ! i)"
    if "kern s' = kern s1" for s'
    using that s1(1) q(3) by (simp_all add: ide_waits_def Let_def)
  show ?thesis
  proof (cases q)
    case Nil
    then show ?thesis using intr head(2) s1(2) keep[of s1] by auto
  next
    case (Cons j q')
    have j: "qnext s i = Some j" "j \<noteq> i" "request_ok (kern s) j" using head(2) q(2) q(4)[of j] Cons by auto
    then have "b_blockno (bufs (kern s1) ! j) < FSSIZE" using s1(1) by (simp add: request_ok_def Let_def)
    moreover obtain sts' where "idewait False sts = Ok (0, sts')" using idewait_ready[of 0 sts False] sts by auto
    ultimately obtain s' where "idestart (Some j) sts s1 = Ok (sts', s')" "programmed j s'" "kern s' = kern s1"
      by (rule idestart_programs)
    then show ?thesis using intr s1(2) j(1) keep[of s'] Cons by auto
  qed
qed

theorem ide_read_error_marks_valid_witness:
  "\<exists>s sts' s'. ideintr [1, 2, 3] [0x41, 0x40] s = Ok (sts', s') \<and> \<not> ide_waits 0 s' \<and> \<not> b_valid (bufs (kern s) ! 0) \<and>
    b_valid (bufs (kern s') ! 0) \<and> b_data (bufs (kern s') ! 0) = replicate BSIZE 0 \<and> programmed 1 s'"
proof -
  have r: "request_ok (kern demo_ide) i" if "i \<in> {0, 1}" for i
    using that by (auto simp: request_ok_def demo_ide_def demo_kernel_def demo_buf_def holdingsleep_def Let_def)
  have n: "ide_ok [] demo_ide" by (simp add: ide_ok_def demo_ide_def)
  have d: "drive_ready 1 [0x40]" by (simp add: drive_ready_def)
  obtain s1 where s1: "ide_ok [0] s1" "kern s1 = kern demo_ide"
    using ide_rw_step[OF n _ r d, of 0] by auto
  obtain s2 where s2: "ide_ok [0, 1] s2" "kern s2 = kern demo_ide"
    using ide_rw_step[OF s1(1) _ _ d, of 1] r[of 1] s1(2) by auto
  have b: "\<not> b_dirty (bufs (kern demo_ide) ! 0)" "\<not> b_valid (bufs (kern demo_ide) ! 0)"
    "b_data (bufs (kern demo_ide) ! 0) = replicate BSIZE 0"
    by (simp_all add: demo_ide_def demo_kernel_def demo_buf_def)
  show ?thesis
    using ide_read_error_marks_valid[of 0 "[1]" s2 "0x41" "[0x40]" "[1, 2, 3]"] s2 b d by (intro exI[of _ s2]) simp
qed

end
