(* ===== verification/Grep.thy ===== *)
theory Grep
  imports Prelude
begin

text \<open>
  The user program src/grep.c: the pattern matcher and the loop that cuts the input into lines.  A C
  string is the list of its characters before the NUL; a pointer into it is the rest of the list.
  The argument handling of \<open>main\<close> is not modelled.
\<close>

section \<open>The matcher\<close>

function (sequential) matchhere :: "string \<Rightarrow> string \<Rightarrow> bool"
  and matchstar :: "char \<Rightarrow> string \<Rightarrow> string \<Rightarrow> bool" where
  "matchhere [] line = True"
| "matchhere (r # re) line =
     (if re \<noteq> [] \<and> hd re = CHR ''*'' then matchstar r (tl re) line
      else if r = CHR ''$'' \<and> re = [] then line = []
      else if line \<noteq> [] \<and> (r = CHR ''.'' \<or> r = hd line) then matchhere re (tl line)
      else False)"
| "matchstar c re line =
     (if matchhere re line then True
      else if line \<noteq> [] \<and> (hd line = c \<or> c = CHR ''.'') then matchstar c re (tl line)
      else False)"
  by pat_completeness auto
termination
  by (relation "measure (\<lambda>x. case x of
        Inl (re, line) \<Rightarrow> 2 * (length re + length line)
      | Inr (c, re, line) \<Rightarrow> 2 * (length re + length line) + 1)") (auto simp: neq_Nil_conv)

declare matchhere.simps [simp del] matchstar.simps [simp del]

fun match_from :: "string \<Rightarrow> string \<Rightarrow> bool" where
  "match_from re line =
     (if matchhere re line then True
      else case line of [] \<Rightarrow> False | _ # line' \<Rightarrow> match_from re line')"

declare match_from.simps [simp del]

definition match :: "string \<Rightarrow> string \<Rightarrow> bool" where
  "match re line =
     (case re of
        [] \<Rightarrow> match_from re line
      | r # re' \<Rightarrow> if r = CHR ''^'' then matchhere re' line else match_from re line)"

section \<open>The language of a pattern\<close>

text \<open>An item is a character class, or any number of characters of a class; the class of \<open>.\<close>
  contains every character.\<close>

datatype item = One char | Many char

fun pattern_items :: "string \<Rightarrow> item list \<times> bool" where
  "pattern_items [] = ([], False)"
| "pattern_items [r] = (if r = CHR ''$'' then ([], True) else ([One r], False))"
| "pattern_items (r # s # re) =
     (if s = CHR ''*'' then let (its, eol) = pattern_items re in (Many r # its, eol)
      else let (its, eol) = pattern_items (s # re) in (One r # its, eol))"

definition in_class :: "char \<Rightarrow> char \<Rightarrow> bool" where
  "in_class r c \<longleftrightarrow> r = CHR ''.'' \<or> c = r"

primrec lang :: "item list \<Rightarrow> string set" where
  "lang [] = {[]}"
| "lang (i # its) = (case i of
     One r \<Rightarrow> {c # w | c w. in_class r c \<and> w \<in> lang its}
   | Many r \<Rightarrow> {u @ w | u w. list_all (in_class r) u \<and> w \<in> lang its})"

text \<open>A prefix of the text is in the language, up to the end of the text if the pattern says so.\<close>

definition prefix_in :: "item list \<times> bool \<Rightarrow> string \<Rightarrow> bool" where
  "prefix_in p line \<longleftrightarrow> (\<exists>v w. line = v @ w \<and> v \<in> lang (fst p) \<and> (snd p \<longrightarrow> w = []))"

lemma prefix_in_Nil [simp]: "prefix_in ([], eol) line \<longleftrightarrow> (eol \<longrightarrow> line = [])"
  by (auto simp: prefix_in_def)

lemma prefix_in_One [simp]:
  "prefix_in (One r # its, eol) line \<longleftrightarrow>
     (\<exists>c line'. line = c # line' \<and> in_class r c \<and> prefix_in (its, eol) line')" (is "?l \<longleftrightarrow> ?r")
proof
  assume ?l
  then obtain x w where x: "line = x @ w" "x \<in> lang (One r # its)" "eol \<longrightarrow> w = []"
    by (auto simp only: prefix_in_def fst_conv snd_conv)
  from x(2) obtain c v where "x = c # v" "in_class r c" "v \<in> lang its" by auto
  with x show ?r unfolding prefix_in_def fst_conv snd_conv by (intro exI[of _ c] exI[of _ "v @ w"]) auto
next
  assume ?r
  then obtain c v w where x: "line = c # v @ w" "in_class r c" "v \<in> lang its" "eol \<longrightarrow> w = []"
    by (auto simp only: prefix_in_def fst_conv snd_conv)
  then have "c # v \<in> lang (One r # its)" by simp
  with x show ?l unfolding prefix_in_def fst_conv snd_conv
    by (intro exI[of _ "c # v"] exI[of _ w]) simp
qed

lemma prefix_in_Many:
  "prefix_in (Many r # its, eol) line \<longleftrightarrow> prefix_in (its, eol) line \<or>
     (\<exists>c line'. line = c # line' \<and> in_class r c \<and> prefix_in (Many r # its, eol) line')"
    (is "?l \<longleftrightarrow> ?r")
proof
  assume ?l
  then obtain x w where x: "line = x @ w" "x \<in> lang (Many r # its)" "eol \<longrightarrow> w = []"
    by (auto simp only: prefix_in_def fst_conv snd_conv)
  from x(2) obtain u v where "x = u @ v" "list_all (in_class r) u" "v \<in> lang its" by auto
  with x have u: "line = (u @ v) @ w" "list_all (in_class r) u" "v \<in> lang its" "eol \<longrightarrow> w = []"
    by simp_all
  show ?r
  proof (cases u)
    case Nil
    then have "prefix_in (its, eol) line" using u unfolding prefix_in_def by auto
    then show ?thesis ..
  next
    case (Cons c u')
    then have "prefix_in (Many r # its, eol) (u' @ v @ w)"
      using u unfolding prefix_in_def fst_conv snd_conv
      by (intro exI[of _ "u' @ v"] exI[of _ w]) auto
    then show ?thesis using u Cons by auto
  qed
next
  assume ?r
  then show ?l
  proof
    assume "prefix_in (its, eol) line"
    then obtain v w where "line = v @ w" "v \<in> lang its" "eol \<longrightarrow> w = []"
      by (auto simp: prefix_in_def)
    moreover from this(2) have "v \<in> lang (Many r # its)" by (auto intro: exI[of _ "[]"])
    ultimately show ?l unfolding prefix_in_def by auto
  next
    assume "\<exists>c line'. line = c # line' \<and> in_class r c \<and> prefix_in (Many r # its, eol) line'"
    then obtain c x w where x: "line = c # x @ w" "in_class r c" "x \<in> lang (Many r # its)"
      "eol \<longrightarrow> w = []" by (auto simp only: prefix_in_def fst_conv snd_conv)
    from x(3) obtain u v where "x = u @ v" "list_all (in_class r) u" "v \<in> lang its" by auto
    then have "c # x \<in> lang (Many r # its)" 
      using x(2) by simp (metis append_Cons list.pred_inject(2))
    then show ?l unfolding prefix_in_def using x by (intro exI[of _ "c # x"] exI[of _ w]) simp
  qed
qed

lemma pattern_items_Cons:
  "pattern_items (r # re) =
     (if re \<noteq> [] \<and> hd re = CHR ''*'' then (Many r # fst (pattern_items (tl re)), snd (pattern_items (tl re)))
      else if r = CHR ''$'' \<and> re = [] then ([], True)
      else (One r # fst (pattern_items re), snd (pattern_items re)))"
  by (cases re) (auto split: prod.splits)

lemma match_lang:
  "matchhere re line \<longleftrightarrow> prefix_in (pattern_items re) line"
  "matchstar c re' line' \<longleftrightarrow> prefix_in (Many c # fst (pattern_items re'), snd (pattern_items re')) line'"
proof (induction re line and c re' line' rule: matchhere_matchstar.induct)
  case (1 line)
  then show ?case by (simp add: matchhere.simps)
next
  case (2 r re line)
  show ?case
    using 2 by (cases line) (auto simp: matchhere.simps pattern_items_Cons in_class_def)
next
  case (3 c re line)
  show ?case
    using 3 by (subst prefix_in_Many, cases line) (auto simp: matchstar.simps in_class_def)
qed

lemma match_from_suffix: "match_from re line \<longleftrightarrow> (\<exists>u v. line = u @ v \<and> matchhere re v)"
proof (induction line)
  case Nil
  then show ?case by (simp add: match_from.simps)
next
  case (Cons c line)
  have "(\<exists>u v. c # line = u @ v \<and> matchhere re v) \<longleftrightarrow>
      matchhere re (c # line) \<or> (\<exists>u v. line = u @ v \<and> matchhere re v)"
    by (auto simp: Cons_eq_append_conv)
  then show ?case using Cons.IH by (subst match_from.simps) simp
qed

text \<open>
  C35.  The recursive matcher decides the language of the pattern: \<open>match re line\<close> holds
  exactly when some part of the line is in the language of the items of the pattern, at the start
  of the line if the pattern begins with \<open>^\<close> and at its end if the pattern ends with \<open>$\<close>.
\<close>

theorem match_decides_pattern:
  "match re line \<longleftrightarrow>
     (let bol = (re \<noteq> [] \<and> hd re = CHR ''^'');
          (its, eol) = pattern_items (if bol then tl re else re)
      in \<exists>u v w. line = u @ v @ w \<and> v \<in> lang its \<and> (bol \<longrightarrow> u = []) \<and> (eol \<longrightarrow> w = []))"
proof -
  have a: "matchhere re' line \<longleftrightarrow> (\<exists>v w. line = v @ w \<and> v \<in> lang (fst (pattern_items re')) \<and>
      (snd (pattern_items re') \<longrightarrow> w = []))" for re' line
    by (simp only: match_lang(1) prefix_in_def)
  show ?thesis
  proof (cases "re \<noteq> [] \<and> hd re = CHR ''^''")
    case True
    then have "match re line \<longleftrightarrow> matchhere (tl re) line" by (cases re) (simp_all add: match_def)
    then show ?thesis using True by (simp add: Let_def case_prod_unfold a)
  next
    case False
    then have "match re line \<longleftrightarrow> match_from re line" by (cases re) (simp_all add: match_def)
    then have "match re line \<longleftrightarrow> (\<exists>u v w. line = u @ v @ w \<and> v \<in> lang (fst (pattern_items re)) \<and>
        (snd (pattern_items re) \<longrightarrow> w = []))"
      unfolding match_from_suffix a by blast
    moreover have "(re \<noteq> [] \<and> hd re = CHR ''^'') = False" using False by blast
    ultimately show ?thesis by (simp only: Let_def case_prod_unfold if_False simp_thms)
  qed
qed

theorem match_decides_pattern_witness:
  "match ''a*b$'' ''xaab'' \<and>
   (\<exists>u v w. ''xaab'' = u @ v @ w \<and> v \<in> lang [Many (CHR ''a''), One (CHR ''b'')] \<and> w = [])"
proof -
  have "match ''a*b$'' ''xaab''"
    by (simp add: match_def match_from.simps matchhere.simps matchstar.simps)
  then show ?thesis using match_decides_pattern[of "''a*b$''" "''xaab''"] by (simp del: lang.simps)
qed

section \<open>The lines of the input\<close>

text \<open>
  The inner loop of \<open>grep\<close>: \<open>strchr\<close> finds the next newline before a NUL, the line is tested
  and written with its newline.  The result is what is written and what \<open>p\<close> points to at the end.
\<close>

abbreviation (input) NL :: char where "NL \<equiv> CHR 0x0A"
abbreviation (input) NUL :: char where "NUL \<equiv> CHR 0x00"

function grep_lines :: "string \<Rightarrow> string \<Rightarrow> string \<times> string" where
  "grep_lines re p =
     (let line = takeWhile (\<lambda>c. c \<noteq> NL \<and> c \<noteq> NUL) p;
          q = dropWhile (\<lambda>c. c \<noteq> NL \<and> c \<noteq> NUL) p
      in if q = [] \<or> hd q \<noteq> NL then ([], p)
         else let (out, rest) = grep_lines re (tl q)
              in (if match re line then line @ [NL] @ out else out, rest))"
  by pat_completeness auto
termination
proof (relation "measure (length \<circ> snd)", goal_cases)
  case (2 re p line q)
  then have "length (tl q) < length q" by (cases q) auto
  also have "length q \<le> length p" using 2(2) length_dropWhile_le by metis
  finally show ?case by simp
qed simp

declare grep_lines.simps [simp del]

text \<open>
  \<open>read\<close> on a file or a pipe from which the portions \<open>cs\<close> come, one after the other: it returns
  at most \<open>n\<close> bytes of the first portion, and the rest of the portion is there for the next call.
  An empty portion, or none, is the end of the file.
\<close>

definition fd_read :: "nat \<Rightarrow> string list \<Rightarrow> string \<times> string list" where
  "fd_read n cs =
     (case cs of
        [] \<Rightarrow> ([], [])
      | c # cs \<Rightarrow> (take n c, if length c \<le> n then cs else drop n c # cs))"

lemma fd_read_less:
  "(s, cs') = fd_read n cs \<Longrightarrow> s \<noteq> [] \<Longrightarrow> sum_list (map length cs') < sum_list (map length cs)"
  by (cases cs) (auto simp: fd_read_def split: if_splits)

text \<open>
  \<open>grep\<close>; \<open>buf\<close> is the part of the buffer, of 1024 bytes, below \<open>m\<close>.  The result is what is
  written to the standard output.
\<close>

function grep :: "string \<Rightarrow> string list \<Rightarrow> string \<Rightarrow> string" where
  "grep re cs buf =
     (let (s, cs) = fd_read (1024 - length buf - 1) cs in
      if s = [] then []
      else let buf = buf @ s;
               (out, p) = grep_lines re buf;
               buf = (if p = buf then [] else p)
           in out @ grep re cs buf)"
  by pat_completeness auto
termination
  by (relation "measure (\<lambda>(re, cs, buf). sum_list (map length cs))") (auto dest: fd_read_less)

declare grep.simps [simp del]

lemma grep_step:
  assumes "fd_read (1023 - length buf) cs = (s, cs')" and "s \<noteq> []" and "grep_lines re (buf @ s) = (out, p)"
  shows "grep re cs buf = out @ grep re cs' (if p = buf @ s then [] else p)"
  using assms by (subst grep.simps) (simp add: Let_def)

section \<open>What it prints\<close>

text \<open>The complete lines of a text, and the rest after the last newline.\<close>

fun split_lines :: "string \<Rightarrow> string \<Rightarrow> string list \<times> string" where
  "split_lines acc [] = ([], acc)"
| "split_lines acc (c # cs) =
     (if c = NL then let (ls, r) = split_lines [] cs in (acc # ls, r) else split_lines (acc @ [c]) cs)"

abbreviation lines_of :: "string \<Rightarrow> string list" where "lines_of s \<equiv> fst (split_lines [] s)"
abbreviation rest_of :: "string \<Rightarrow> string" where "rest_of s \<equiv> snd (split_lines [] s)"

definition printed :: "string \<Rightarrow> string list \<Rightarrow> string" where
  "printed re ls = concat (map (\<lambda>l. l @ [NL]) (filter (match re) ls))"

lemma split_lines_no_NL:
  "NL \<notin> set l \<Longrightarrow> split_lines acc (l @ s) = split_lines (acc @ l) s"
  by (induction l arbitrary: acc) auto

lemma split_lines_append:
  "split_lines acc (s @ t) =
     (let (ls, r) = split_lines acc s; (ls', r') = split_lines r t in (ls @ ls', r'))"
  by (induction acc s rule: split_lines.induct) (auto simp: Let_def split: prod.splits)

lemma split_lines_rest: "NL \<notin> set acc \<Longrightarrow> NL \<notin> set (snd (split_lines acc s))"
  by (induction acc s rule: split_lines.induct) (auto simp: Let_def split: prod.splits)

lemma split_lines_NUL:
  "NUL \<notin> set acc \<Longrightarrow> NUL \<notin> set s \<Longrightarrow> NUL \<notin> set (snd (split_lines acc s))"
  by (induction acc s rule: split_lines.induct) (auto simp: Let_def split: prod.splits)

lemma split_lines_some: "NL \<in> set s \<Longrightarrow> snd (split_lines acc s) \<noteq> acc @ s"
proof (induction acc s rule: split_lines.induct)
  case (2 acc c cs)
  show ?case
  proof (cases "c = NL")
    case True
    have "length (snd (split_lines acc' s')) \<le> length acc' + length s'" for acc' s'
      by (induction acc' s' rule: split_lines.induct) (auto simp: Let_def split: prod.splits)
    from this[of "[]" cs] show ?thesis using True by (auto split: prod.splits)
  next
    case False
    then show ?thesis using 2 by auto
  qed
qed simp

lemma grep_lines_split:
  "NUL \<notin> set p \<Longrightarrow> grep_lines re p = (printed re (lines_of p), rest_of p)"
proof (induction re p rule: grep_lines.induct)
  case (1 re p)
  define line where "line = takeWhile (\<lambda>c. c \<noteq> NL \<and> c \<noteq> NUL) p"
  define q where "q = dropWhile (\<lambda>c. c \<noteq> NL \<and> c \<noteq> NUL) p"
  have p: "p = line @ q" by (simp add: line_def q_def)
  have l: "NL \<notin> set line" using set_takeWhileD by (fastforce simp: line_def)
  show ?case
  proof (cases "q = [] \<or> hd q \<noteq> NL")
    case True
    have "q = []"
    proof (rule ccontr)
      assume "q \<noteq> []"
      then have "hd q = NL \<or> hd q = NUL" using hd_dropWhile[of _ p] unfolding q_def by blast
      moreover have "hd q \<in> set p" using \<open>q \<noteq> []\<close> p by simp
      ultimately show False using True \<open>q \<noteq> []\<close> 1(2) by metis
    qed
    then have "split_lines [] p = ([], p)" using split_lines_no_NL[OF l, of "[]" "[]"] p by simp
    moreover have "grep_lines re p = ([], p)"
      using True by (subst grep_lines.simps) (simp add: line_def q_def Let_def)
    ultimately show ?thesis by (simp add: printed_def)
  next
    case False
    then obtain q' where q': "q = NL # q'" by (cases q) auto
    have "grep_lines re q' = (printed re (lines_of q'), rest_of q')"
      using 1(1)[OF line_def q_def] False q' 1(2) p by auto
    moreover have "split_lines [] p = (line # lines_of q', rest_of q')"
      using split_lines_no_NL[OF l, of "[]" q] p q' by (simp split: prod.splits)
    moreover have "grep_lines re p = (let (out, rest) = grep_lines re q'
        in (if match re line then line @ [NL] @ out else out, rest))"
      using False q' by (subst grep_lines.simps) (simp add: line_def[symmetric] q_def[symmetric])
    ultimately show ?thesis by (simp add: printed_def)
  qed
qed

lemma split_lines_length: "length (snd (split_lines acc s)) \<le> length acc + length s"
  by (induction acc s rule: split_lines.induct) (auto simp: Let_def split: prod.splits)

lemma split_lines_shorter: "NL \<in> set s \<Longrightarrow> length (snd (split_lines acc s)) < length s"
proof (induction acc s rule: split_lines.induct)
  case (2 acc c cs)
  show ?case
  proof (cases "c = NL")
    case True
    then show ?thesis using split_lines_length[of "[]" cs] by (auto split: prod.splits)
  next
    case False
    then show ?thesis using 2 by simp
  qed
qed simp

lemma split_lines_none: "NL \<notin> set s \<Longrightarrow> split_lines acc s = ([], acc @ s)"
  using split_lines_no_NL[of s acc "[]"] by simp

text \<open>One round of the loop with a newline in what has been read, and one without.\<close>

lemma grep_round:
  assumes "fd_read (1023 - length buf) cs = (s, cs')" and "NL \<in> set s" and "NUL \<notin> set buf" and "NUL \<notin> set s"
  shows "grep re cs buf = printed re (lines_of (buf @ s)) @ grep re cs' (rest_of (buf @ s))"
proof -
  have "rest_of (buf @ s) \<noteq> buf @ s" using split_lines_some[of "buf @ s" "[]"] assms(2) by simp
  moreover have "grep_lines re (buf @ s) = (printed re (lines_of (buf @ s)), rest_of (buf @ s))"
    by (rule grep_lines_split) (use assms in simp)
  moreover have "s \<noteq> []" using assms(2) by auto
  ultimately show ?thesis using grep_step[OF assms(1)] by simp
qed

lemma grep_lines_none: "NL \<notin> set s \<Longrightarrow> grep_lines re s = ([], s)"
proof -
  assume nl: "NL \<notin> set s"
  let ?q = "dropWhile (\<lambda>c. c \<noteq> NL \<and> c \<noteq> NUL) s"
  have "set ?q \<subseteq> set s" using set_dropWhileD by fast
  then have "?q = [] \<or> hd ?q \<noteq> NL" using nl by (cases ?q) auto
  then show ?thesis by (subst grep_lines.simps) (simp add: Let_def)
qed

lemma grep_round_none:
  assumes "fd_read (1023 - length buf) cs = (s, cs')" and "s \<noteq> []" and "NL \<notin> set (buf @ s)"
  shows "grep re cs buf = grep re cs' []"
  using grep_step[OF assms(1,2) grep_lines_none[OF assms(3)]] by simp

lemma lines_of_append:
  "lines_of (s @ t) = lines_of s @ lines_of (rest_of s @ t)" "rest_of (s @ t) = rest_of (rest_of s @ t)"
proof -
  have nl: "NL \<notin> set (rest_of s)" by (rule split_lines_rest) simp
  show "lines_of (s @ t) = lines_of s @ lines_of (rest_of s @ t)" "rest_of (s @ t) = rest_of (rest_of s @ t)"
    using split_lines_append[of "[]" s t] split_lines_no_NL[OF nl, of "[]" t]
    by (simp_all add: Let_def split: prod.splits)
qed

lemma printed_append: "printed re (ls @ ks) = printed re ls @ printed re ks"
  by (simp add: printed_def)

lemma grep_portions:
  assumes "\<And>s. s \<in> set cs \<Longrightarrow> NL \<in> set s \<and> NUL \<notin> set s \<and> length s \<le> 512"
    and "NUL \<notin> set buf" and "NL \<notin> set buf" and "length buf < 512"
  shows "grep re cs buf = printed re (lines_of (buf @ concat cs))"
  using assms
proof (induction cs arbitrary: buf)
  case Nil
  then show ?case by (subst grep.simps) (simp add: fd_read_def split_lines_none printed_def)
next
  case (Cons s cs)
  have s: "NL \<in> set s" "NUL \<notin> set s" "length s \<le> 512" using Cons.prems(1)[of s] by auto
  have r: "fd_read (1023 - length buf) (s # cs) = (s, cs)" using s(3) Cons.prems(4) by (simp add: fd_read_def)
  let ?r = "rest_of (buf @ s)"
  have "?r = snd (split_lines buf s)" using split_lines_no_NL[OF Cons.prems(3), of "[]" s] by simp
  then have "length ?r < 512" using split_lines_shorter[OF s(1), of buf] s(3) by simp
  moreover have "NUL \<notin> set ?r" "NL \<notin> set ?r"
    using split_lines_NUL[of "[]" "buf @ s"] split_lines_rest[of "[]" "buf @ s"] Cons.prems(2) s(2) by auto
  ultimately have "grep re cs ?r = printed re (lines_of (?r @ concat cs))"
    using Cons.prems(1) by (intro Cons.IH) auto
  then show ?case
    using grep_round[OF r s(1) Cons.prems(2) s(2), of re] lines_of_append(1)[of "buf @ s" "concat cs"]
    by (simp add: printed_append)
qed

lemma first_line_long:
  assumes "NL \<notin> set u" and "NL \<in> set v"
  shows "\<exists>l\<in>set (lines_of (u @ v)). length u \<le> length l"
proof -
  obtain a b where v: "v = a @ NL # b" "NL \<notin> set a" using split_list_first[OF assms(2)] by blast
  then have "split_lines [] (u @ v) = ((u @ a) # lines_of b, rest_of b)"
    using split_lines_no_NL[of "u @ a" "[]" "NL # b"] assms(1) by (simp split: prod.splits)
  then show ?thesis by simp
qed

lemma grep_file:
  assumes "NUL \<notin> set (buf @ s)" and "NL \<notin> set buf" and "length buf < 1023"
    and "\<And>l. l \<in> set (lines_of (buf @ s)) \<Longrightarrow> length l < 1023"
  shows "grep re [s] buf = printed re (lines_of (buf @ s))"
  using assms
proof (induction "length s" arbitrary: s buf rule: less_induct)
  case less
  let ?n = "1023 - length buf"
  let ?t = "take ?n s" and ?d = "drop ?n s"
  define cs where "cs = (if length s \<le> ?n then [] else [?d])"
  have r: "fd_read ?n [s] = (?t, cs)" by (simp add: fd_read_def cs_def)
  have s: "buf @ s = (buf @ ?t) @ ?d" by simp
  have nul: "NUL \<notin> set buf" "NUL \<notin> set ?t" "NUL \<notin> set ?d"
    using less.prems(1) set_take_subset[of ?n s] set_drop_subset[of ?n s] by auto
  have rest: "grep re cs b = printed re (lines_of (b @ ?d))"
    if b: "NUL \<notin> set b" "NL \<notin> set b" "length b < 1023" "s \<noteq> []" "\<And>l. l \<in> set (lines_of (b @ ?d)) \<Longrightarrow> length l < 1023" for b
  proof (cases "length s \<le> ?n")
    case True
    then show ?thesis using b(2) by (subst grep.simps) (simp add: cs_def fd_read_def split_lines_none printed_def)
  next
    case False
    have "length ?d < length s" using less.prems(3) b(4) by (cases s) auto
    then have "grep re [?d] b = printed re (lines_of (b @ ?d))"
      by (rule less.hyps) (use b nul in auto)
    then show ?thesis using False by (simp add: cs_def)
  qed
  show ?case
  proof (cases "NL \<in> set ?t")
    case True
    let ?r = "rest_of (buf @ ?t)"
    have l: "lines_of (buf @ s) = lines_of (buf @ ?t) @ lines_of (?r @ ?d)" by (subst s) (rule lines_of_append(1))
    have "?r = snd (split_lines buf ?t)" using split_lines_no_NL[OF less.prems(2), of "[]" ?t] by simp
    then have "length ?r < length ?t" using split_lines_shorter[OF True, of buf] by simp
    then have "length ?r < 1023" by (rule order_less_le_trans) simp
    moreover have "NUL \<notin> set ?r" "NL \<notin> set ?r" "s \<noteq> []"
      using split_lines_NUL[of "[]" "buf @ ?t"] split_lines_rest[of "[]" "buf @ ?t"] nul True by auto
    ultimately have "grep re cs ?r = printed re (lines_of (?r @ ?d))"
      using less.prems(4) l by (intro rest) auto
    then show ?thesis using grep_round[OF r True nul(1,2), of re] l by (simp add: printed_append)
  next
    case False
    then have nl: "NL \<notin> set (buf @ ?t)" using less.prems(2) by simp
    have "NL \<notin> set ?d"
    proof
      assume d: "NL \<in> set ?d"
      then have "length (buf @ ?t) = 1023" using less.prems(3) by (cases "?d = []") auto
      then show False using first_line_long[OF nl d] less.prems(4) s by (metis not_less)
    qed
    then have d: "NL \<notin> set ?d" .
    then have "NL \<notin> set ((buf @ ?t) @ ?d)" using nl by (simp only: set_append Un_iff simp_thms)
    then have "NL \<notin> set (buf @ s)" unfolding s[symmetric] .
    then have none: "lines_of ?d = []" "lines_of (buf @ s) = []"
      using d by (simp_all only: split_lines_none fst_conv simp_thms)
    show ?thesis
    proof (cases "s = []")
      case True
      then show ?thesis using less.prems(2) by (subst grep.simps) (simp add: fd_read_def split_lines_none printed_def)
    next
      case s0: False
      then have "?t \<noteq> []" using less.prems(3) by simp
      then show ?thesis using grep_round_none[OF r _ nl, of re] rest[of "[]"] none s0 by simp
    qed
  qed
qed

text \<open>
  C36.  \<open>grep\<close> prints exactly the complete lines of its input that match the pattern, in order, in
  two situations, in both of which the input contains no NUL (\<open>strchr\<close> would stop there and the rest
  of the buffer be passed over).  First, a file of which \<open>read\<close> returns as much as the buffer has
  room for, when every line is shorter than 1023 bytes.  Second, input that comes in portions of at
  most 512 bytes, as much as a pipe holds, each of which contains a newline.
\<close>

theorem grep_prints_matching_lines:
  "(NUL \<notin> set s \<and> (\<forall>l\<in>set (lines_of s). length l < 1023) \<longrightarrow> grep re [s] [] = printed re (lines_of s)) \<and>
   ((\<forall>c\<in>set cs. NL \<in> set c \<and> NUL \<notin> set c \<and> length c \<le> 512) \<longrightarrow>
      grep re cs [] = printed re (lines_of (concat cs)))"
  using grep_file[of "[]" s re] grep_portions[of cs "[]" re] by simp

theorem grep_prints_matching_lines_witness:
  "grep ''b*'' [''ab'' @ [NL] @ ''c'', ''d'' @ [NL]] [] =
     printed ''b*'' (lines_of (concat [''ab'' @ [NL] @ ''c'', ''d'' @ [NL]])) \<and>
   grep ''b'' [''ab'' @ [NL] @ ''cd'' @ [NL]] [] = ''ab'' @ [NL]"
  using grep_prints_matching_lines[of "''ab'' @ [NL] @ ''cd'' @ [NL]" "''b''" "[]"]
    grep_prints_matching_lines[of "[]" "''b*''" "[''ab'' @ [NL] @ ''c'', ''d'' @ [NL]]"]
  by (simp add: printed_def match_def match_from.simps matchhere.simps)

text \<open>
  C37.  A read without a newline is thrown away: after it, \<open>p == buf\<close>, and \<open>m = 0\<close> drops the
  beginning of a line of which the rest is still to come, although the buffer has room for it.
  \<open>grep\<close> goes on as if the bytes had never been read.
\<close>

theorem grep_loses_partial_line:
  assumes "NL \<notin> set s" and "s \<noteq> []"
  shows "grep re (s # reads) [] = grep re reads []"
  using assms
proof (induction "length s" arbitrary: s rule: less_induct)
  case less
  let ?t = "take 1023 s" and ?d = "drop 1023 s"
  have nl: "NL \<notin> set ?t" "NL \<notin> set ?d"
    using less.prems(1) set_take_subset[of 1023 s] set_drop_subset[of 1023 s] by auto
  have "fd_read (1023 - length []) (s # reads) = (?t, if length s \<le> 1023 then reads else ?d # reads)"
    by (simp add: fd_read_def)
  then have g: "grep re (s # reads) [] = grep re (if length s \<le> 1023 then reads else ?d # reads) []"
    by (rule grep_round_none) (use less.prems nl in simp_all)
  show ?case
  proof (cases "length s \<le> 1023")
    case False
    then have "grep re (?d # reads) [] = grep re reads []" by (intro less.hyps) (use nl in simp_all)
    then show ?thesis using g False by simp
  qed (use g in simp)
qed

theorem grep_loses_partial_line_witness:
  "grep ''ab'' [''ab'', ''c'' @ [NL]] [] = [] \<and> grep ''ab'' [''abc'' @ [NL]] [] = ''abc'' @ [NL]"
  using grep_loses_partial_line[of "''ab''" "''ab''" "[''c'' @ [NL]]"]
  by (simp add: grep.simps fd_read_def grep_lines.simps match_def match_from.simps matchhere.simps)

end
