(* ===== verification/Shell.thy ===== *)
theory Shell
  imports Prelude "HOL-Library.Sublist"
begin

text \<open>
  The shell src/sh.c: the tokens, the recursive descent parser, the cutting of the line into C
  strings, and the processes a command creates.  A pointer into the line is the rest of the line from
  there on (\<open>parsecmd\<close> works below the line's NUL, so the end of the list is the NUL).  The nodes
  of the command are values: \<open>malloc\<close> is taken to succeed, as the source does, which does not check
  it.  \<open>runcmd\<close> works on descriptor tables; \<open>fork\<close> is taken to succeed (\<open>fork1\<close> ends the
  process otherwise), and the waiting of the parents is not modelled.
\<close>

section \<open>Commands\<close>

text \<open>The parsed command; \<open>'w\<close> is what stands for a word of the command line.\<close>

datatype 'w cmd =
    EXEC "'w list"
  | REDIR "'w cmd" 'w nat nat
  | PIPE "'w cmd" "'w cmd"
  | LIST "'w cmd" "'w cmd"
  | BACK "'w cmd"

abbreviation (input) MAXARGS :: nat where "MAXARGS \<equiv> 10"
abbreviation (input) O_RDONLY :: nat where "O_RDONLY \<equiv> 0"
abbreviation (input) O_WRONLY_CREATE :: nat where "O_WRONLY_CREATE \<equiv> 0x201"

text \<open>The pointers \<open>q\<close> and \<open>eq\<close> around a word.\<close>

type_synonym word_at = "string \<times> string"

definition word_text :: "word_at \<Rightarrow> string" where
  "word_text w = take (length (fst w) - length (snd w)) (fst w)"

section \<open>Tokens\<close>

definition whitespace :: "char \<Rightarrow> bool" where
  "whitespace c \<longleftrightarrow> c \<in> set [CHR '' '', CHR 0x09, CHR 0x0D, CHR 0x0A, CHR 0x0B]"

definition symbol :: "char \<Rightarrow> bool" where
  "symbol c \<longleftrightarrow> c \<in> set ''<|>&;()''"

definition plain :: "char \<Rightarrow> bool" where
  "plain c \<longleftrightarrow> \<not> whitespace c \<and> \<not> symbol c"

definition skip_ws :: "string \<Rightarrow> string" where
  "skip_ws s = dropWhile whitespace s"

definition gettoken :: "string \<Rightarrow> char \<times> word_at \<times> string" where
  "gettoken s =
     (let q = skip_ws s in
      case q of
        [] \<Rightarrow> (CHR 0x00, (q, q), q)
      | c # s \<Rightarrow>
        if c \<in> set ''|();&<'' then (c, (q, s), skip_ws s)
        else if c = CHR ''>'' then
          (case s of
             d # s' \<Rightarrow> if d = CHR ''>'' then (CHR ''+'', (q, s'), skip_ws s') else (c, (q, s), skip_ws s)
           | [] \<Rightarrow> (c, (q, s), skip_ws s))
        else let eq = dropWhile plain q in (CHR ''a'', (q, eq), skip_ws eq))"

definition peek :: "string \<Rightarrow> string \<Rightarrow> bool \<times> string" where
  "peek s toks = (let s = skip_ws s in (s \<noteq> [] \<and> hd s \<in> set toks, s))"

lemma skip_ws_length: "length (skip_ws s) \<le> length s"
  by (simp add: skip_ws_def length_dropWhile_le)

lemma skip_ws_idem [simp]: "skip_ws (skip_ws s) = skip_ws s"
  by (simp add: skip_ws_def)

lemma gettoken_length: "gettoken s = (t, w, s') \<Longrightarrow> length s' \<le> length s"
proof -
  have p: "length (skip_ws (dropWhile plain q)) \<le> length q" for q
    by (rule order_trans[OF skip_ws_length length_dropWhile_le])
  show "gettoken s = (t, w, s') \<Longrightarrow> length s' \<le> length s"
    using skip_ws_length[of s] p[of "skip_ws s"]
    by (auto simp: gettoken_def Let_def split: list.splits if_splits
        intro: order_trans[OF skip_ws_length])
qed

lemma gettoken_shrinks:
  assumes "gettoken s = (t, w, s')" and "t \<noteq> CHR 0x00"
  shows "length s' < length s"
proof -
  obtain c r where q: "skip_ws s = c # r"
    using assms by (cases "skip_ws s") (auto simp: gettoken_def)
  have le: "Suc (length r) \<le> length s" using skip_ws_length[of s] q by simp
  have w: "\<not> whitespace c" using q hd_dropWhile[of whitespace s] by (simp add: skip_ws_def)
  have sk: "length (skip_ws x) \<le> length x" for x by (rule skip_ws_length)
  have d: "plain c \<Longrightarrow> length (skip_ws (dropWhile plain (c # r))) \<le> length r"
    by (simp add: order_trans[OF skip_ws_length length_dropWhile_le])
  have "c \<in> set ''|();&<'' \<or> c = CHR ''>'' \<or> plain c"
    using w by (auto simp: plain_def symbol_def)
  then show ?thesis
    using assms q le d sk[of r] sk[of "tl r"]
    by (auto simp: gettoken_def Let_def split: list.splits if_splits)
qed

lemma peek_length: "peek s toks = (b, s') \<Longrightarrow> length s' \<le> length s"
  by (auto simp: peek_def Let_def skip_ws_length)

lemma gettoken_after_peek:
  assumes "peek s toks = (True, s')" and "gettoken s' = (t, w, s'')"
  shows "length s'' < length s"
proof -
  obtain c r where s': "s' = c # r" "s' = skip_ws s"
    using assms(1) by (auto simp: peek_def Let_def neq_Nil_conv)
  then have "skip_ws s' = c # r" by (metis skip_ws_idem)
  then have "t \<noteq> CHR 0x00" using assms(2)
    by (auto simp: gettoken_def Let_def split: list.splits if_splits)
  then show ?thesis using gettoken_shrinks[OF assms(2)] s'(2) skip_ws_length[of s] by simp
qed

lemma redir_shrinks:
  "(True, s1) = peek s toks \<Longrightarrow> (t, w, s2) = gettoken s1 \<Longrightarrow> (t', w', s3) = gettoken s2 \<Longrightarrow>
    length s3 < length s"
  using gettoken_after_peek[of s toks s1 t w s2] gettoken_length[of s2 t' w' s3] by simp

lemma arg_shrinks:
  "(b, s1) = peek s toks \<Longrightarrow> (t, w, s2) = gettoken s1 \<Longrightarrow> t \<noteq> CHR 0x00 \<Longrightarrow> length s2 < length s"
  using peek_length[of s toks b s1] gettoken_shrinks[of s1 t w s2] by simp

section \<open>The parser\<close>

text \<open>The \<open>switch\<close> of \<open>parseredirs\<close>; \<open>+\<close> is the token of \<open>>>\<close>.\<close>

definition redirect :: "char \<Rightarrow> 'w \<Rightarrow> 'w cmd \<Rightarrow> 'w cmd" where
  "redirect tok w cmd =
     (if tok = CHR ''<'' then REDIR cmd w O_RDONLY 0
      else if tok = CHR ''>'' then REDIR cmd w O_WRONLY_CREATE 1
      else if tok = CHR ''+'' then REDIR cmd w O_WRONLY_CREATE 1
      else cmd)"

function parseredirs :: "word_at cmd \<Rightarrow> string \<Rightarrow> (word_at cmd \<times> string) res" where
  "parseredirs cmd s =
     (let (b, s1) = peek s ''<>'' in
      if \<not> b then Ok (cmd, s1)
      else let (tok, _, s2) = gettoken s1; (t, w, s3) = gettoken s2 in
        if t \<noteq> CHR ''a'' then Stop (Panic ''missing file for redirection'')
        else parseredirs (redirect tok w cmd) s3)"
  by pat_completeness auto
termination
  by (relation "measure (length \<circ> snd)") (auto dest: redir_shrinks)

declare parseredirs.simps [simp del]

lemma parseredirs_none: "peek s ''<>'' = (False, s1) \<Longrightarrow> parseredirs cmd s = Ok (cmd, s1)"
  by (subst parseredirs.simps) simp

lemma parseredirs_one:
  assumes "peek s ''<>'' = (True, s1)" "gettoken s1 = (tok, w0, s2)" "gettoken s2 = (t, w, s3)"
  shows "parseredirs cmd s = (if t \<noteq> CHR ''a'' then Stop (Panic ''missing file for redirection'')
    else parseredirs (redirect tok w cmd) s3)"
  by (subst parseredirs.simps) (simp add: assms)

text \<open>Induction over the turns of the loop.\<close>

lemma parseredirs_cases [consumes 1, case_names none one]:
  assumes "parseredirs cmd s = Ok (c, s')"
    and "\<And>cmd s. peek s ''<>'' = (False, s') \<Longrightarrow> P cmd s cmd"
    and "\<And>cmd s s1 tok w0 s2 w s3 c. peek s ''<>'' = (True, s1) \<Longrightarrow> gettoken s1 = (tok, w0, s2) \<Longrightarrow>
      gettoken s2 = (CHR ''a'', w, s3) \<Longrightarrow> P (redirect tok w cmd) s3 c \<Longrightarrow> P cmd s c"
  shows "P cmd s c"
  using assms(1)
proof (induction cmd s rule: parseredirs.induct)
  case (1 cmd s)
  obtain b s1 where p: "peek s ''<>'' = (b, s1)" by fastforce
  show ?case
  proof (cases b)
    case False
    then show ?thesis using assms(2) 1(2) parseredirs_none[of s s1 cmd] p by auto
  next
    case True
    obtain tok w0 s2 where g: "gettoken s1 = (tok, w0, s2)" by (cases "gettoken s1") auto
    obtain t w s3 where h: "gettoken s2 = (t, w, s3)" by (cases "gettoken s2") auto
    note o = parseredirs_one[OF p[unfolded eqTrueI[OF True]] g h, of cmd]
    have t: "t = CHR ''a''" using o 1(2) by (metis res.distinct(1))
    have "parseredirs (redirect tok w cmd) s3 = Ok (c, s')" using o t 1(2) by simp
    then have P: "P (redirect tok w cmd) s3 c" using 1(1)[OF p[symmetric] refl _ g[symmetric] _ _ h[symmetric]] True t by simp
    have p': "peek s ''<>'' = (True, s1)" and h': "gettoken s2 = (CHR ''a'', w, s3)"
      using p True h t by simp_all
    show ?thesis by (rule assms(3)[OF p' g h' P])
  qed
qed

lemma parseredirs_length: "parseredirs cmd s = Ok (c, s') \<Longrightarrow> length s' \<le> length s"
proof (induction rule: parseredirs_cases)
  case (none cmd s)
  then show ?case by (rule peek_length)
next
  case (one cmd s s1 tok w0 s2 w s3 c)
  then show ?case using redir_shrinks[of s1 s "''<>''" tok w0 s2 _ w s3] by simp
qed

text \<open>The innermost \<open>EXEC\<close> of the command under construction gets one more argument.\<close>

fun add_arg :: "'w \<Rightarrow> 'w cmd \<Rightarrow> 'w cmd" where
  "add_arg w (EXEC ws) = EXEC (ws @ [w])"
| "add_arg w (REDIR c f m d) = REDIR (add_arg w c) f m d"
| "add_arg w c = c"

function parseargs :: "nat \<Rightarrow> word_at cmd \<Rightarrow> string \<Rightarrow> (word_at cmd \<times> string) res" where
  "parseargs argc ret s =
     (let (b, s1) = peek s ''|)&;'' in
      if b then Ok (ret, s1)
      else let (tok, w, s2) = gettoken s1 in
        if tok = CHR 0x00 then Ok (ret, s2)
        else if tok \<noteq> CHR ''a'' then Stop (Panic ''syntax'')
        else if argc + 1 \<ge> MAXARGS then Stop (Panic ''too many args'')
        else andthen (parseredirs (add_arg w ret) s2) (\<lambda>(ret, s3). parseargs (argc + 1) ret s3))"
  by pat_completeness auto
termination
  by (relation "measure (\<lambda>(argc, ret, s). length s)")
    (fastforce dest: arg_shrinks parseredirs_length)+

declare parseargs.simps [simp del]

function parsebacks :: "word_at cmd \<Rightarrow> string \<Rightarrow> word_at cmd \<times> string" where
  "parsebacks cmd s =
     (let (b, s1) = peek s ''&'' in
      if b then let (_, _, s2) = gettoken s1 in parsebacks (BACK cmd) s2 else (cmd, s1))"
  by pat_completeness auto
termination
  by (relation "measure (length \<circ> snd)") (auto dest: gettoken_after_peek[OF sym sym])

declare parsebacks.simps [simp del]

text \<open>
  The mutually recursive part, with fuel: it bounds the depth of the calls.  \<open>parsecmd\<close> starts it
  with a value that the length of the line makes sufficient.
\<close>

fun parseline :: "nat \<Rightarrow> string \<Rightarrow> (word_at cmd \<times> string) res"
  and parsepipe :: "nat \<Rightarrow> string \<Rightarrow> (word_at cmd \<times> string) res"
  and parseexec :: "nat \<Rightarrow> string \<Rightarrow> (word_at cmd \<times> string) res"
  and parseblock :: "nat \<Rightarrow> string \<Rightarrow> (word_at cmd \<times> string) res" where
  "parseline 0 s = Stop Diverges"
| "parseline (Suc n) s =
     andthen (parsepipe n s) (\<lambda>(cmd, s).
       let (cmd, s) = parsebacks cmd s;
           (b, s) = peek s '';''
       in if b then let (_, _, s) = gettoken s in
            andthen (parseline n s) (\<lambda>(right, s). Ok (LIST cmd right, s))
          else Ok (cmd, s))"
| "parsepipe 0 s = Stop Diverges"
| "parsepipe (Suc n) s =
     andthen (parseexec n s) (\<lambda>(cmd, s).
       let (b, s) = peek s ''|''
       in if b then let (_, _, s) = gettoken s in
            andthen (parsepipe n s) (\<lambda>(right, s). Ok (PIPE cmd right, s))
          else Ok (cmd, s))"
| "parseexec 0 s = Stop Diverges"
| "parseexec (Suc n) s =
     (let (b, s) = peek s ''(''
      in if b then parseblock n s
         else andthen (parseredirs (EXEC []) s) (\<lambda>(ret, s). parseargs 0 ret s))"
| "parseblock 0 s = Stop Diverges"
| "parseblock (Suc n) s =
     (let (b, s) = peek s ''(''
      in if \<not> b then Stop (Panic ''parseblock'')
         else let (_, _, s) = gettoken s in
           andthen (parseline n s) (\<lambda>(cmd, s).
             let (b, s) = peek s '')''
             in if \<not> b then Stop (Panic ''syntax - missing )'')
                else let (_, _, s) = gettoken s in parseredirs cmd s))"

definition parsecmd :: "string \<Rightarrow> word_at cmd res" where
  "parsecmd s =
     andthen (parseline (4 * length s + 4) s) (\<lambda>(cmd, s).
       let (_, s) = peek s ''''
       in if s \<noteq> [] then Stop (Panic ''syntax'') else Ok cmd)"

section \<open>What the parser consumes and returns\<close>

text \<open>A word of the line: it is not empty, and it ends where a separator or the line's end follows.\<close>

definition word_in :: "string \<Rightarrow> word_at \<Rightarrow> bool" where
  "word_in s w \<longleftrightarrow> suffix (fst w) s \<and> (\<exists>u. fst w = u @ snd w \<and> u \<noteq> [] \<and> list_all plain u) \<and>
     (snd w = [] \<or> \<not> plain (hd (snd w)))"

lemma word_in_suffix: "word_in s w \<Longrightarrow> suffix s t \<Longrightarrow> word_in t w"
  by (auto simp: word_in_def intro: suffix_order.trans)

lemma skip_ws_suffix: "suffix (skip_ws s) s"
  by (simp add: skip_ws_def suffix_dropWhile)

lemma peek_suffix: "peek s toks = (b, s') \<Longrightarrow> suffix s' s"
  by (auto simp: peek_def Let_def skip_ws_suffix)

lemma suffix_Cons_skip: "skip_ws s = c # r \<Longrightarrow> suffix t r \<Longrightarrow> suffix t s"
  using skip_ws_suffix[of s] by (metis suffix_ConsI suffix_order.trans)

lemma gettoken_suffix: "gettoken s = (t, w, s') \<Longrightarrow> suffix s' s"
proof (cases "skip_ws s")
  case Nil
  then show "gettoken s = (t, w, s') \<Longrightarrow> suffix s' s" by (simp add: gettoken_def)
next
  case (Cons c r)
  have sk: "suffix (skip_ws x) r" if "suffix x r" for x
    using that skip_ws_suffix suffix_order.trans by blast
  have d: "suffix (skip_ws (dropWhile plain (c # r))) s"
    using skip_ws_suffix[of s] skip_ws_suffix[of "dropWhile plain (c # r)"] suffix_dropWhile[of plain "c # r"] Cons
    by (metis suffix_order.trans)
  show "gettoken s = (t, w, s') \<Longrightarrow> suffix s' s"
    using Cons suffix_Cons_skip[OF Cons sk[OF suffix_order.refl]] d
      suffix_Cons_skip[OF Cons sk[of "tl r"]] suffix_tl[of r]
    by (auto simp: gettoken_def Let_def simp del: dropWhile.simps split: list.splits if_splits)
qed

lemma gettoken_word:
  assumes "gettoken s = (CHR ''a'', w, s')"
  shows "word_in s w"
proof -
  obtain c r where q: "skip_ws s = c # r"
    using assms by (cases "skip_ws s") (auto simp: gettoken_def)
  have ws: "\<not> whitespace c" using q hd_dropWhile[of whitespace s] by (simp add: skip_ws_def)
  have "c \<notin> set ''|();&<''" "c \<noteq> CHR ''>''" and w: "w = (c # r, dropWhile plain (c # r))"
    using assms q by (auto simp: gettoken_def Let_def simp del: dropWhile.simps split: list.splits if_splits)
  then have p: "plain c" using ws by (auto simp: plain_def symbol_def)
  have "takeWhile plain (c # r) \<noteq> []" "list_all plain (takeWhile plain (c # r))"
    using p by (auto simp: list_all_iff dest: set_takeWhileD)
  moreover have "c # r = takeWhile plain (c # r) @ dropWhile plain (c # r)" by simp
  moreover have "suffix (c # r) s" using skip_ws_suffix[of s] q by simp
  ultimately show ?thesis unfolding word_in_def w fst_conv snd_conv using hd_dropWhile by blast
qed

text \<open>The text is consumed from the front, and the words of the command are words of the text.\<close>

definition parsed_from :: "string \<Rightarrow> word_at cmd \<times> string \<Rightarrow> bool" where
  "parsed_from s r \<longleftrightarrow> suffix (snd r) s \<and> (\<forall>w \<in> set_cmd (fst r). word_in s w)"

lemma parsed_from_suffix: "parsed_from s r \<Longrightarrow> suffix s t \<Longrightarrow> parsed_from t r"
  by (auto simp: parsed_from_def intro: suffix_order.trans word_in_suffix)

lemma set_cmd_redirect: "set_cmd (redirect tok w c) \<subseteq> insert w (set_cmd c)"
  by (auto simp: redirect_def)

lemma set_cmd_add_arg: "set_cmd (add_arg w c) \<subseteq> insert w (set_cmd c)"
  by (induction w c rule: add_arg.induct) auto

lemma parseredirs_parsed:
  "parseredirs cmd s = Ok (c, s') \<Longrightarrow> (\<forall>w \<in> set_cmd cmd. word_in t w) \<Longrightarrow> suffix s t \<Longrightarrow> parsed_from t (c, s')"
proof (induction rule: parseredirs_cases)
  case (none cmd s)
  have "suffix s' t" using peek_suffix[OF none(1)] none(3) by (rule suffix_order.trans)
  then show ?case using none(2) by (simp add: parsed_from_def)
next
  case (one cmd s s1 tok w0 s2 w s3 c)
  have s2: "suffix s2 t" using peek_suffix[OF one(1)] gettoken_suffix[OF one(2)] one(6) suffix_order.trans by blast
  have s3: "suffix s3 t" using gettoken_suffix[OF one(3)] s2 suffix_order.trans by blast
  have "word_in t w" by (rule word_in_suffix[OF gettoken_word[OF one(3)] s2])
  then have "\<forall>w' \<in> set_cmd (redirect tok w cmd). word_in t w'" using set_cmd_redirect[of tok w cmd] one(5) by auto
  then show ?case using one(4) s3 by blast
qed

lemma parseargs_parsed:
  "parseargs argc ret s = Ok (c, s') \<Longrightarrow> (\<forall>w \<in> set_cmd ret. word_in t w) \<Longrightarrow> suffix s t \<Longrightarrow> parsed_from t (c, s')"
proof (induction argc ret s rule: parseargs.induct)
  case (1 argc ret s)
  obtain b s1 where p: "peek s ''|)&;'' = (b, s1)" by fastforce
  obtain tok w s2 where g: "gettoken s1 = (tok, w, s2)" by (cases "gettoken s1") auto
  have s1: "suffix s1 t" using peek_suffix[OF p] 1(4) suffix_order.trans by blast
  have s2: "suffix s2 t" using gettoken_suffix[OF g] s1 suffix_order.trans by blast
  note e = 1(2)[unfolded parseargs.simps[of argc ret s], simplified p g Let_def prod.case]
  show ?case
  proof (cases "b \<or> tok = CHR 0x00")
    case True
    then show ?thesis using e 1(3) s1 s2 by (auto simp: parsed_from_def split: if_splits)
  next
    case False
    then have a: "tok = CHR ''a''" "\<not> MAXARGS \<le> argc + 1" using e by (auto split: if_splits)
    obtain ret' s3 where r: "parseredirs (add_arg w ret) s2 = Ok (ret', s3)"
      "parseargs (argc + 1) ret' s3 = Ok (c, s')"
      using e False a by (auto simp: andthen_eq_Ok)
    have "word_in t w" using word_in_suffix[OF gettoken_word s1] g a(1) by simp
    then have "\<forall>w' \<in> set_cmd (add_arg w ret). word_in t w'" using set_cmd_add_arg[of w ret] 1(3) by auto
    from parseredirs_parsed[OF r(1) this s2]
    have "\<forall>w' \<in> set_cmd ret'. word_in t w'" "suffix s3 t" by (auto simp: parsed_from_def)
    then show ?thesis
      using 1(1)[OF p[symmetric] refl _ g[symmetric] refl refl] False a r by simp
  qed
qed

lemma parsebacks_parsed:
  "parsebacks cmd s = (c, s') \<Longrightarrow> suffix s' s \<and> set_cmd c = set_cmd cmd"
proof (induction cmd s rule: parsebacks.induct)
  case (1 cmd s)
  obtain b s1 where p: "peek s ''&'' = (b, s1)" by fastforce
  obtain tok w s2 where g: "gettoken s1 = (tok, w, s2)" by (cases "gettoken s1") auto
  have s: "suffix s1 s" "suffix s2 s"
    using peek_suffix[OF p] gettoken_suffix[OF g] suffix_order.trans by blast+
  note e = 1(2)[unfolded parsebacks.simps[of cmd s], simplified p g Let_def prod.case]
  show ?case
    using 1(1)[OF p[symmetric] refl _ g[symmetric] refl] e s suffix_order.trans
    by (cases b) auto
qed

text \<open>
  A parser function returns something parsed from its text; with the given amount of fuel it returns
  or the shell panics, nothing else.
\<close>

definition returns :: "'a res \<Rightarrow> bool" where
  "returns r \<longleftrightarrow> (\<exists>x. r = Ok x) \<or> (\<exists>msg. r = Stop (Panic msg))"

definition parses :: "nat \<Rightarrow> nat \<Rightarrow> string \<Rightarrow> (word_at cmd \<times> string) res \<Rightarrow> bool" where
  "parses need n s r \<longleftrightarrow> (\<forall>x. r = Ok x \<longrightarrow> parsed_from s x) \<and> (need \<le> n \<longrightarrow> returns r)"

lemma parseredirs_total: "returns (parseredirs cmd s)"
proof (induction cmd s rule: parseredirs.induct)
  case (1 cmd s)
  obtain b s1 where p: "peek s ''<>'' = (b, s1)" by fastforce
  obtain tok w0 s2 where g: "gettoken s1 = (tok, w0, s2)" by (cases "gettoken s1") auto
  obtain t w s3 where h: "gettoken s2 = (t, w, s3)" by (cases "gettoken s2") auto
  show ?case
    using 1[OF p[symmetric] refl _ g[symmetric] refl refl h[symmetric] refl refl]
    by (subst parseredirs.simps) (simp add: p g h returns_def)
qed

lemma parseargs_total: "returns (parseargs argc ret s)"
proof (induction argc ret s rule: parseargs.induct)
  case (1 argc ret s)
  obtain b s1 where p: "peek s ''|)&;'' = (b, s1)" by fastforce
  obtain tok w s2 where g: "gettoken s1 = (tok, w, s2)" by (cases "gettoken s1") auto
  show ?case
    using 1[OF p[symmetric] refl _ g[symmetric] refl refl] parseredirs_total[of "add_arg w ret" s2]
    by (subst parseargs.simps) (fastforce simp: p g returns_def)
qed

lemma parses_Ok: "parsed_from s x \<Longrightarrow> parses k n s (Ok x)"
  by (simp add: parses_def returns_def)

lemma parses_Panic: "parses k n s (Stop (Panic e))"
  by (simp add: parses_def returns_def)

lemma parses_sub:
  assumes "parses k n t r" and "suffix t s" and "K \<le> N \<Longrightarrow> k \<le> n"
  shows "parses K N s r"
  using assms by (auto simp: parses_def intro: parsed_from_suffix)

lemma parses_then:
  assumes "parses k n s m" and "\<And>c s'. m = Ok (c, s') \<Longrightarrow> parsed_from s (c, s') \<Longrightarrow> parses k n s (f (c, s'))"
  shows "parses k n s (andthen m f)"
  using assms by (cases m) (auto simp: parses_def returns_def)

lemma parses_total:
  assumes "returns r" and "\<And>c s'. r = Ok (c, s') \<Longrightarrow> parsed_from s (c, s')"
  shows "parses k n s r"
  using assms by (cases r) (auto simp: parses_def)

text \<open>A token that \<open>peek\<close> has found is consumed.\<close>

lemma peek_gettoken:
  assumes "peek s toks = (True, s1)" and "gettoken s1 = (tok, w, s2)"
  shows "suffix s2 s" and "length s2 < length s"
  using peek_suffix[OF assms(1)] gettoken_suffix[OF assms(2)] gettoken_after_peek[OF assms]
  by (auto intro: suffix_order.trans)

lemma parses_right:
  assumes "parsed_from s (cmd, t)" and "suffix u t" and "length u < length t"
    and "parses k n u r" and "K \<le> N \<Longrightarrow> k \<le> n"
    and "\<And>c. set_cmd (f c) = set_cmd cmd \<union> set_cmd c"
  shows "parses K N s (andthen r (\<lambda>(c, s). Ok (f c, s)))"
proof (rule parses_then)
  have u: "suffix u s" using assms(1,2) by (auto simp: parsed_from_def intro: suffix_order.trans)
  show r: "parses K N s r" by (rule parses_sub[OF assms(4) u assms(5)])
  fix c s'
  assume "parsed_from s (c, s')"
  then show "parses K N s (case (c, s') of (c, s) \<Rightarrow> Ok (f c, s))"
    using assms(1,6) by (auto simp: parses_def parsed_from_def returns_def)
qed

lemma parsed_from_length: "parsed_from s (c, t) \<Longrightarrow> length t \<le> length s"
  by (auto simp: parsed_from_def dest: suffix_length_le)

lemma parsed_from_cong:
  "parsed_from s (c, t) \<Longrightarrow> suffix u t \<Longrightarrow> set_cmd d = set_cmd c \<Longrightarrow> parsed_from s (d, u)"
  by (auto simp: parsed_from_def intro: suffix_order.trans)

lemma parseline_parses:
  assumes "\<And>s. parses (4 * length s + 3) n s (parsepipe n s)"
    and "\<And>s. parses (4 * length s + 4) n s (parseline n s)"
  shows "parses (4 * length s + 4) (Suc n) s (parseline (Suc n) s)"
  unfolding parseline.simps
proof (rule parses_then)
  show "parses (4 * length s + 4) (Suc n) s (parsepipe n s)"
    by (rule parses_sub[OF assms(1)]) simp_all
  fix cmd s1 assume f: "parsed_from s (cmd, s1)"
  obtain cmd' s2 where b: "parsebacks cmd s1 = (cmd', s2)" by fastforce
  obtain c s3 where p: "peek s2 '';'' = (c, s3)" by fastforce
  obtain tok w s4 where g: "gettoken s3 = (tok, w, s4)" by (cases "gettoken s3") auto
  have f2: "parsed_from s (cmd', s2)" using parsed_from_cong[OF f] parsebacks_parsed[OF b] by blast
  have f3: "parsed_from s (cmd', s3)" using parsed_from_cong[OF f2 peek_suffix[OF p]] by blast
  have "parses (4 * length s + 4) (Suc n) s
      (andthen (parseline n s4) (\<lambda>(right, s). Ok (LIST cmd' right, s)))" if c
  proof -
    have t: "peek s2 '';'' = (True, s3)" using p that by simp
    note pg = peek_gettoken[OF t g]
    show ?thesis
      by (rule parses_right[OF f2 pg assms(2)]) (use pg(2) parsed_from_length[OF f2] in auto)
  qed
  then show "parses (4 * length s + 4) (Suc n) s (case (cmd, s1) of (cmd, s) \<Rightarrow>
       let (cmd, s) = parsebacks cmd s; (b, s) = peek s '';''
       in if b then let (_, _, s) = gettoken s in
            andthen (parseline n s) (\<lambda>(right, s). Ok (LIST cmd right, s))
          else Ok (cmd, s))"
    using f3 by (simp add: b p g parses_Ok)
qed

lemma parsepipe_parses:
  assumes "\<And>s. parses (4 * length s + 2) n s (parseexec n s)"
    and "\<And>s. parses (4 * length s + 3) n s (parsepipe n s)"
  shows "parses (4 * length s + 3) (Suc n) s (parsepipe (Suc n) s)"
  unfolding parsepipe.simps
proof (rule parses_then)
  show "parses (4 * length s + 3) (Suc n) s (parseexec n s)"
    by (rule parses_sub[OF assms(1)]) simp_all
  fix cmd s2 assume f2: "parsed_from s (cmd, s2)"
  obtain c s3 where p: "peek s2 ''|'' = (c, s3)" by fastforce
  obtain tok w s4 where g: "gettoken s3 = (tok, w, s4)" by (cases "gettoken s3") auto
  have f3: "parsed_from s (cmd, s3)" using parsed_from_cong[OF f2 peek_suffix[OF p]] by blast
  have "parses (4 * length s + 3) (Suc n) s
      (andthen (parsepipe n s4) (\<lambda>(right, s). Ok (PIPE cmd right, s)))" if c
  proof -
    have t: "peek s2 ''|'' = (True, s3)" using p that by simp
    note pg = peek_gettoken[OF t g]
    show ?thesis
      by (rule parses_right[OF f2 pg assms(2)]) (use pg(2) parsed_from_length[OF f2] in auto)
  qed
  then show "parses (4 * length s + 3) (Suc n) s (case (cmd, s2) of (cmd, s) \<Rightarrow>
       let (b, s) = peek s ''|''
       in if b then let (_, _, s) = gettoken s in
            andthen (parsepipe n s) (\<lambda>(right, s). Ok (PIPE cmd right, s))
          else Ok (cmd, s))"
    using f3 by (simp add: p g parses_Ok)
qed

lemma parseexec_parses:
  assumes "\<And>s. parses (4 * length s + 1) n s (parseblock n s)"
  shows "parses (4 * length s + 2) (Suc n) s (parseexec (Suc n) s)"
proof -
  obtain c s1 where p: "peek s ''('' = (c, s1)" by fastforce
  have s1: "suffix s1 s" by (rule peek_suffix[OF p])
  have "parses (4 * length s + 2) (Suc n) s (parseblock n s1)"
    by (rule parses_sub[OF assms s1]) (use suffix_length_le[OF s1] in simp)
  moreover have "parses (4 * length s + 2) (Suc n) s
      (andthen (parseredirs (EXEC []) s1) (\<lambda>(ret, s). parseargs 0 ret s))"
  proof (rule parses_then)
    show "parses (4 * length s + 2) (Suc n) s (parseredirs (EXEC []) s1)"
      using parseredirs_parsed[OF _ _ s1] by (intro parses_total[OF parseredirs_total]) simp
    fix c s' assume "parsed_from s (c, s')"
    then show "parses (4 * length s + 2) (Suc n) s (case (c, s') of (ret, s) \<Rightarrow> parseargs 0 ret s)"
      using parseargs_parsed[of 0 c s' _ _ s] by (auto simp: parsed_from_def intro!: parses_total parseargs_total)
  qed
  ultimately show ?thesis by (simp add: p)
qed

lemma parseblock_parses:
  assumes "\<And>s. parses (4 * length s + 4) n s (parseline n s)"
  shows "parses (4 * length s + 1) (Suc n) s (parseblock (Suc n) s)"
proof -
  obtain c s1 where p: "peek s ''('' = (c, s1)" by fastforce
  obtain tok w s2 where g: "gettoken s1 = (tok, w, s2)" by (cases "gettoken s1") auto
  have "parses (4 * length s + 1) (Suc n) s (andthen (parseline n s2) (\<lambda>(cmd, s).
             let (b, s) = peek s '')''
             in if \<not> b then Stop (Panic ''syntax - missing )'')
                else let (_, _, s) = gettoken s in parseredirs cmd s))" if c
  proof (rule parses_then)
    have t: "peek s ''('' = (True, s1)" using p that by simp
    note pg = peek_gettoken[OF t g]
    show "parses (4 * length s + 1) (Suc n) s (parseline n s2)"
      by (rule parses_sub[OF assms pg(1)]) (use pg(2) in simp)
    fix cmd s3 assume f: "parsed_from s (cmd, s3)"
    obtain d s4 where q: "peek s3 '')'' = (d, s4)" by fastforce
    obtain tok w s5 where h: "gettoken s4 = (tok, w, s5)" by (cases "gettoken s4") auto
    have s5: "suffix s5 s" using f peek_suffix[OF q] gettoken_suffix[OF h]
      by (auto simp: parsed_from_def intro: suffix_order.trans)
    have "parses (4 * length s + 1) (Suc n) s (parseredirs cmd s5)"
      using parseredirs_parsed[OF _ _ s5] f
      by (intro parses_total[OF parseredirs_total]) (auto simp: parsed_from_def)
    then show "parses (4 * length s + 1) (Suc n) s (case (cmd, s3) of (cmd, s) \<Rightarrow>
             let (b, s) = peek s '')''
             in if \<not> b then Stop (Panic ''syntax - missing )'')
                else let (_, _, s) = gettoken s in parseredirs cmd s)"
      by (simp add: q h parses_Panic)
  qed
  then show ?thesis by (simp add: p g parses_Panic)
qed

lemma parser_parses:
  "parses (4 * length s + 4) n s (parseline n s) \<and> parses (4 * length s + 3) n s (parsepipe n s) \<and>
   parses (4 * length s + 2) n s (parseexec n s) \<and> parses (4 * length s + 1) n s (parseblock n s)"
proof (induction n arbitrary: s)
  case 0
  then show ?case by (simp add: parses_def)
next
  case (Suc n)
  then show ?case
    using parseline_parses[of n s] parsepipe_parses[of n s] parseexec_parses[of n s] parseblock_parses[of n s]
    by blast
qed

section \<open>Cutting the line into strings\<close>

text \<open>
  \<open>nulterminate\<close> stores a NUL where a word ends.  \<open>len\<close> is the length of the line, from which the
  offset of a pointer is computed.
\<close>

definition offset_of :: "nat \<Rightarrow> string \<Rightarrow> nat" where
  "offset_of len p = len - length p"

primrec nulterminate :: "nat \<Rightarrow> word_at cmd \<Rightarrow> string \<Rightarrow> string" where
  "nulterminate len (EXEC ws) b = foldl (\<lambda>b w. b[offset_of len (snd w) := CHR 0x00]) b ws"
| "nulterminate len (REDIR c f m d) b = (nulterminate len c b)[offset_of len (snd f) := CHR 0x00]"
| "nulterminate len (PIPE l r) b = nulterminate len r (nulterminate len l b)"
| "nulterminate len (LIST l r) b = nulterminate len r (nulterminate len l b)"
| "nulterminate len (BACK c) b = nulterminate len c b"

text \<open>The string a pointer points to: the characters before the first NUL.\<close>

definition c_string :: "string \<Rightarrow> nat \<Rightarrow> string" where
  "c_string b i = takeWhile (\<lambda>c. c \<noteq> CHR 0x00) (drop i b)"

definition cuts :: "nat \<Rightarrow> word_at cmd \<Rightarrow> nat set" where
  "cuts len c = (\<lambda>w. offset_of len (snd w)) ` set_cmd c"

lemma nth_store: "j < length xs \<Longrightarrow> xs[i := x] ! j = (if i = j then x else xs ! j)"
  by (cases "i = j") auto

lemma foldl_cuts:
  "length (foldl (\<lambda>b w. b[f w := x]) b ws) = length b"
  "i < length b \<Longrightarrow> foldl (\<lambda>b w. b[f w := x]) b ws ! i = (if i \<in> f ` set ws then x else b ! i)"
  by (induction ws arbitrary: b) (auto simp: nth_store)

lemma nulterminate_length [simp]: "length (nulterminate len c b) = length b"
  by (induction c arbitrary: b) (auto simp: foldl_cuts)

lemma nulterminate_nth:
  "i < length b \<Longrightarrow> nulterminate len c b ! i = (if i \<in> cuts len c then CHR 0x00 else b ! i)"
  by (induction c arbitrary: b) (auto simp: foldl_cuts cuts_def nth_store)

text \<open>Where a word of the line is, as offsets.\<close>

lemma word_in_offsets:
  assumes "word_in s w"
  shows "offset_of (length s) (fst w) + length (word_text w) = offset_of (length s) (snd w)"
    and "offset_of (length s) (snd w) \<le> length s"
    and "j < length (word_text w) \<Longrightarrow> s ! (offset_of (length s) (fst w) + j) = word_text w ! j"
    and "list_all plain (word_text w)"
    and "offset_of (length s) (snd w) = length s \<or> \<not> plain (s ! offset_of (length s) (snd w))"
proof -
  obtain v u where w: "s = v @ fst w" "fst w = u @ snd w" "list_all plain u"
    "snd w = [] \<or> \<not> plain (hd (snd w))"
    using assms by (auto simp: word_in_def suffix_def)
  have t: "word_text w = u" using w(2) by (simp add: word_text_def)
  have o: "offset_of (length s) (fst w) = length v" "offset_of (length s) (snd w) = length v + length u"
    using w(1,2) by (simp_all add: offset_of_def)
  have s: "s = v @ u @ snd w" using w(1,2) by simp
  have n: "j < length u \<Longrightarrow> s ! (length v + j) = u ! j" for j
    by (subst s) (simp add: nth_append)
  show "offset_of (length s) (fst w) + length (word_text w) = offset_of (length s) (snd w)"
    "offset_of (length s) (snd w) \<le> length s" "list_all plain (word_text w)"
    using o t w(3) s by simp_all
  show "j < length (word_text w) \<Longrightarrow> s ! (offset_of (length s) (fst w) + j) = word_text w ! j"
    using o t n by simp
  show "offset_of (length s) (snd w) = length s \<or> \<not> plain (s ! offset_of (length s) (snd w))"
  proof (cases "snd w")
    case Nil
    then show ?thesis using o s by simp
  next
    case (Cons c r)
    then have "s ! (length v + length u) = c" by (subst s) (simp add: nth_append)
    then show ?thesis using o w(4) Cons by simp
  qed
qed

lemma parsecmd_words:
  assumes "parsecmd s = Ok cmd" and "w \<in> set_cmd cmd"
  shows "word_in s w"
proof -
  obtain r where r: "parseline (4 * length s + 4) s = Ok r"
    using assms(1) by (cases "parseline (4 * length s + 4) s") (auto simp: parsecmd_def)
  then have "fst r = cmd"
    using assms(1) by (cases r) (auto simp: parsecmd_def Let_def split: prod.splits if_splits)
  with r show ?thesis using parser_parses[of s "4 * length s + 4"] assms(2)
    by (auto simp: parses_def parsed_from_def)
qed

lemma takeWhile_prefix:
  assumes "length u \<le> length b" and "\<And>j. j < length u \<Longrightarrow> b ! j = u ! j" and "list_all P u"
    and "length u < length b" and "\<not> P (b ! length u)"
  shows "takeWhile P b = u"
proof -
  have "take (length u) b = u" using assms(1,2) by (intro nth_equalityI) auto
  moreover have "b = take (length u) b @ b ! length u # drop (Suc (length u)) b"
    using assms(4) by (metis Cons_nth_drop_Suc append_take_drop_id)
  ultimately have "b = u @ b ! length u # drop (Suc (length u)) b" by simp
  then show ?thesis using assms(3,5)
    by (metis (no_types, lifting) list_all_iff takeWhile.simps(2) takeWhile_append2 append_Nil2)
qed

text \<open>
  C32.  The parser always comes back.  On every line, \<open>parsecmd\<close> returns a command or the shell
  panics with a message: the recursion is bounded by the length of the line, and the fuel of the model
  is never used up.
\<close>

theorem parsecmd_returns: "(\<exists>cmd. parsecmd s = Ok cmd) \<or> (\<exists>msg. parsecmd s = Stop (Panic msg))"
proof -
  have "returns (parseline (4 * length s + 4) s)"
    using parser_parses[of s "4 * length s + 4"] by (simp add: parses_def)
  then show ?thesis
    by (auto simp: returns_def parsecmd_def Let_def split: prod.splits)
qed

text \<open>
  C33.  \<open>nulterminate\<close> cuts the line exactly at the ends of the words.  The NULs it stores fall on
  separators or on the end of the line, never inside a word, even where no blank stands between a
  word and the symbol after it.  So afterwards every word of the parsed command, arguments and file
  names alike, is the C string its pointer points to.
\<close>

theorem nulterminate_cuts_words:
  assumes "parsecmd s = Ok cmd" and "CHR 0x00 \<notin> set s" and "w \<in> set_cmd cmd"
  shows "c_string (nulterminate (length s) cmd (s @ [CHR 0x00])) (offset_of (length s) (fst w)) = word_text w"
proof -
  let ?b = "nulterminate (length s) cmd (s @ [CHR 0x00])"
  let ?i = "offset_of (length s) (fst w)"
  have w: "word_in s w" by (rule parsecmd_words[OF assms(1,3)])
  note o = word_in_offsets[OF w]
  have nc: "?i + j \<notin> cuts (length s) cmd" if j: "j < length (word_text w)" for j
  proof
    assume "?i + j \<in> cuts (length s) cmd"
    then obtain v where v: "v \<in> set_cmd cmd" "?i + j = offset_of (length s) (snd v)"
      by (auto simp: cuts_def)
    have "plain (s ! (?i + j))" using o(3)[OF j] o(4) j by (simp add: list_all_length)
    moreover have "?i + j < length s" using o(1,2) j by linarith
    ultimately show False using word_in_offsets(5)[OF parsecmd_words[OF assms(1) v(1)]] v(2) by auto
  qed
  have z: "word_text w ! j \<noteq> CHR 0x00" if "j < length (word_text w)" for j
    using o(1,2) o(3)[of j] that assms(2) by (metis nth_mem less_le_trans nat_add_left_cancel_less)
  show ?thesis unfolding c_string_def
  proof (rule takeWhile_prefix)
    show "length (word_text w) \<le> length (drop ?i ?b)" "length (word_text w) < length (drop ?i ?b)"
      using o(1,2) by auto
    show "drop ?i ?b ! j = word_text w ! j" if "j < length (word_text w)" for j
      using that nc[OF that] o(1,2) o(3)[of j] by (simp add: nulterminate_nth nth_append)
    show "list_all (\<lambda>c. c \<noteq> CHR 0x00) (word_text w)" using z by (simp add: list_all_length)
    have "offset_of (length s) (snd w) \<in> cuts (length s) cmd" using assms(3) by (auto simp: cuts_def)
    then show "\<not> drop ?i ?b ! length (word_text w) \<noteq> CHR 0x00"
      using o(1,2) by (simp add: nulterminate_nth)
  qed
qed

lemma demo_parse:
  "parsecmd ''a>f'' = Ok (REDIR (EXEC [(''a>f'', ''>f'')]) (''f'', []) O_WRONLY_CREATE 1)"
  by code_simp

theorem nulterminate_cuts_words_witness:
  "c_string (nulterminate (length ''a>f'') (REDIR (EXEC [(''a>f'', ''>f'')]) (''f'', []) O_WRONLY_CREATE 1) (''a>f'' @ [CHR 0x00]))
     (offset_of (length ''a>f'') ''a>f'') = word_text (''a>f'', ''>f'')"
  using nulterminate_cuts_words[OF demo_parse, of "(''a>f'', ''>f'')"] by simp

section \<open>Printing and parsing\<close>

text \<open>A command as a line, every part of it in parentheses.\<close>

primrec unparse :: "string cmd \<Rightarrow> string" where
  "unparse (EXEC ws) = concat (map (\<lambda>w. w @ '' '') ws)"
| "unparse (REDIR c f m d) = ''('' @ unparse c @ '')'' @ (if d = 0 then ''<'' else ''>'') @ f"
| "unparse (PIPE l r) = ''('' @ unparse l @ '')|('' @ unparse r @ '')''"
| "unparse (LIST l r) = ''('' @ unparse l @ '');('' @ unparse r @ '')''"
| "unparse (BACK c) = ''('' @ unparse c @ '')&''"

definition is_word :: "string \<Rightarrow> bool" where
  "is_word w \<longleftrightarrow> w \<noteq> [] \<and> list_all plain w"

primrec printable :: "string cmd \<Rightarrow> bool" where
  "printable (EXEC ws) \<longleftrightarrow> length ws < MAXARGS \<and> list_all is_word ws"
| "printable (REDIR c f m d) \<longleftrightarrow> printable c \<and> is_word f \<and> (d = 0 \<and> m = O_RDONLY \<or> d = 1 \<and> m = O_WRONLY_CREATE)"
| "printable (PIPE l r) \<longleftrightarrow> printable l \<and> printable r"
| "printable (LIST l r) \<longleftrightarrow> printable l \<and> printable r"
| "printable (BACK c) \<longleftrightarrow> printable c"

text \<open>Where a parenthesised part ends: at the end of the line or at a closing parenthesis.\<close>

definition part_end :: "string \<Rightarrow> bool" where
  "part_end s \<longleftrightarrow> s = [] \<or> hd s = CHR '')''"

lemma not_ws [simp]:
  "\<not> whitespace (CHR ''('')" "\<not> whitespace (CHR '')'')" "\<not> whitespace (CHR ''|'')"
  "\<not> whitespace (CHR '';'')" "\<not> whitespace (CHR ''&'')" "\<not> whitespace (CHR ''<'')" "\<not> whitespace (CHR ''>'')"
  "whitespace (CHR '' '')"
  by (simp_all add: whitespace_def)

lemma not_plain [simp]:
  "\<not> plain (CHR ''('')" "\<not> plain (CHR '')'')" "\<not> plain (CHR ''|'')" "\<not> plain (CHR '';'')"
  "\<not> plain (CHR ''&'')" "\<not> plain (CHR ''<'')" "\<not> plain (CHR ''>'')" "\<not> plain (CHR '' '')"
  by (simp_all add: plain_def symbol_def)

lemma skip_ws_Cons [simp]: "skip_ws (c # s) = (if whitespace c then skip_ws s else c # s)"
  by (simp add: skip_ws_def)

lemma skip_ws_Nil [simp]: "skip_ws [] = []"
  by (simp add: skip_ws_def)

lemma skip_ws_part_end [simp]: "part_end s \<Longrightarrow> skip_ws s = s"
  by (cases s) (auto simp: part_end_def)

lemma gettoken_symbol [simp]:
  "c \<in> set ''|();&<'' \<Longrightarrow> gettoken (c # s) = (c, (c # s, s), skip_ws s)"
  by (auto simp: gettoken_def Let_def)

lemma gettoken_gt: "s \<noteq> [] \<Longrightarrow> hd s \<noteq> CHR ''>'' \<Longrightarrow>
    gettoken (CHR ''>'' # s) = (CHR ''>'', (CHR ''>'' # s, s), skip_ws s)"
  by (cases s) (auto simp: gettoken_def Let_def)

lemma plain_not: "plain c \<Longrightarrow> \<not> whitespace c \<and> c \<notin> set ''<|>&;()''"
  by (simp add: plain_def symbol_def)

lemma gettoken_plain:
  assumes "is_word w" and "s = [] \<or> \<not> plain (hd s)"
  shows "gettoken (w @ s) = (CHR ''a'', (w @ s, s), skip_ws s)"
proof -
  obtain c w' where w: "w = c # w'" "plain c" "list_all plain w'"
    using assms(1) by (cases w) (auto simp: is_word_def)
  have d: "dropWhile plain (w @ s) = s"
    using assms(2) w by (cases s) (auto simp: list_all_iff dropWhile_append3)
  have q: "skip_ws (w @ s) = w @ s" using plain_not[OF w(2)] w(1) by simp
  then show ?thesis
    using plain_not[OF w(2)] d w(1) by (simp add: gettoken_def Let_def)
qed

lemma word_text_token [simp]: "word_text (w @ s, s) = w"
  by (simp add: word_text_def)

lemma peek_symbol [simp]: "\<not> whitespace c \<Longrightarrow> peek (c # s) toks = (c \<in> set toks, c # s)"
  by (simp add: peek_def)

lemma peek_part_end: "part_end s \<Longrightarrow> CHR '')'' \<notin> set toks \<Longrightarrow> peek s toks = (False, s)"
  by (cases s) (auto simp: peek_def part_end_def Let_def)


text \<open>Where blanks have been skipped and no token of \<open>toks\<close> follows.\<close>

definition stands :: "string \<Rightarrow> string \<Rightarrow> bool" where
  "stands toks s \<longleftrightarrow> s = [] \<or> \<not> whitespace (hd s) \<and> hd s \<notin> set toks"

lemma stands_skip: "stands toks s \<Longrightarrow> skip_ws s = s"
  by (cases s) (auto simp: stands_def)

lemma stands_peek: "stands toks s \<Longrightarrow> peek s toks = (False, s)"
  by (cases s) (auto simp: stands_def peek_def)

lemma stands_part_end: "part_end s \<Longrightarrow> CHR '')'' \<notin> set toks \<Longrightarrow> stands toks s"
  by (cases s) (auto simp: stands_def part_end_def)

lemma parseredirs_stands: "stands ''<>'' s \<Longrightarrow> parseredirs c s = Ok (c, s)"
  by (rule parseredirs_none) (rule stands_peek)

lemma parsebacks_stands: "stands ''&'' s \<Longrightarrow> parsebacks c s = (c, s)"
  by (subst parsebacks.simps) (simp add: stands_peek)

lemma finish_pipe:
  "parseexec n s = Ok (c, r) \<Longrightarrow> stands ''|'' r \<Longrightarrow> parsepipe (Suc n) s = Ok (c, r)"
  by (simp add: stands_peek)

lemma finish_line:
  "parsepipe n s = Ok (c, r) \<Longrightarrow> stands ''&;'' r \<Longrightarrow> parseline (Suc n) s = Ok (c, r)"
proof -
  assume "stands ''&;'' r"
  then have "stands ''&'' r" "stands '';'' r" by (auto simp: stands_def)
  then show "parsepipe n s = Ok (c, r) \<Longrightarrow> parseline (Suc n) s = Ok (c, r)"
    by (simp add: parsebacks_stands stands_peek)
qed

section \<open>A list of words\<close>

lemma map_cmd_add_arg: "map_cmd f (add_arg w c) = add_arg (f w) (map_cmd f c)"
  by (induction w c rule: add_arg.induct) auto

abbreviation blanks :: "string list \<Rightarrow> string" where
  "blanks ws \<equiv> concat (map (\<lambda>w. w @ '' '') ws)"

lemma words_stand:
  assumes "list_all is_word ws" and "part_end rest" and "set toks \<subseteq> set ''<|>&;(''"
  shows "stands toks (blanks ws @ rest)"
proof (cases ws)
  case Nil
  then show ?thesis using assms(2,3) stands_part_end by auto
next
  case (Cons w ws')
  then obtain c w' where w: "w = c # w'" "plain c" using assms(1) by (cases w) (auto simp: is_word_def)
  then show ?thesis using Cons plain_not[OF w(2)] assms(3) by (auto simp: stands_def)
qed

lemma parseargs_words:
  assumes "list_all is_word ws" and "argc + length ws < MAXARGS" and "part_end rest"
  shows "\<exists>c. parseargs argc ret (blanks ws @ rest) = Ok (c, rest) \<and>
    map_cmd word_text c = foldl (\<lambda>c w. add_arg w c) (map_cmd word_text ret) ws"
  using assms(1,2)
proof (induction ws arbitrary: argc ret)
  case Nil
  show ?case
  proof (cases rest)
    case Nil
    then show ?thesis by (subst parseargs.simps) (simp add: peek_def gettoken_def)
  next
    case (Cons c r)
    then have "c = CHR '')''" using assms(3) by (simp add: part_end_def)
    then show ?thesis using Cons by (subst parseargs.simps) simp
  qed
next
  case (Cons w ws)
  let ?more = "blanks ws @ rest"
  have w: "is_word w" "list_all is_word ws" using Cons.prems(1) by auto
  then obtain c w' where c: "w = c # w'" "plain c" by (cases w) (auto simp: is_word_def)
  have p: "peek (w @ '' '' @ ?more) ''|)&;'' = (False, w @ '' '' @ ?more)"
    using plain_not[OF c(2)] c(1) by auto
  have st: "stands toks ?more" if "set toks \<subseteq> set ''<|>&;(''" for toks
    by (rule words_stand[OF w(2) assms(3) that])
  have g: "gettoken (w @ '' '' @ ?more) = (CHR ''a'', (w @ '' '' @ ?more, '' '' @ ?more), ?more)"
    using gettoken_plain[OF w(1), of "'' '' @ ?more"] stands_skip[OF st[of "''<''"]] by simp
  obtain c' where "parseargs (argc + 1) (add_arg (w @ '' '' @ ?more, '' '' @ ?more) ret) ?more = Ok (c', rest)"
    "map_cmd word_text c' = foldl (\<lambda>c w. add_arg w c)
      (map_cmd word_text (add_arg (w @ '' '' @ ?more, '' '' @ ?more) ret)) ws"
    using Cons.IH[OF w(2), of "argc + 1"] Cons.prems(2) by auto
  moreover have "parseargs argc ret (w @ '' '' @ ?more) =
      parseargs (argc + 1) (add_arg (w @ '' '' @ ?more, '' '' @ ?more) ret) ?more"
    using Cons.prems(2) parseredirs_stands[OF st[of "''<>''"]] 
    by (subst parseargs.simps) (simp add: p[simplified] g[simplified])
  ultimately show ?case using word_text_token[of w "'' '' @ ?more"] by (simp add: map_cmd_add_arg)
qed

lemma foldl_add_arg: "foldl (\<lambda>c w. add_arg w c) (EXEC us) ws = EXEC (us @ ws)"
  by (induction ws arbitrary: us) auto

lemma parseexec_words:
  assumes "list_all is_word ws" and "length ws < MAXARGS" and "part_end rest"
  shows "\<exists>c. parseexec (Suc n) (blanks ws @ rest) = Ok (c, rest) \<and> map_cmd word_text c = EXEC ws"
proof -
  have st: "stands toks (blanks ws @ rest)" if "set toks \<subseteq> set ''<|>&;(''" for toks
    by (rule words_stand[OF assms(1,3) that])
  show ?thesis
    using parseargs_words[OF assms(1) _ assms(3), of 0 "EXEC []"] assms(2)
      stands_peek[OF st[of "''(''"]] parseredirs_stands[OF st[of "''<>''"]]
    by (simp add: foldl_add_arg)
qed

section \<open>A part in parentheses\<close>

definition reparses :: "string cmd \<Rightarrow> bool" where
  "reparses c \<longleftrightarrow> (\<forall>n rest. part_end rest \<longrightarrow> 4 * length (unparse c) + 4 \<le> n \<longrightarrow>
     (\<exists>c'. parseline n (unparse c @ rest) = Ok (c', rest) \<and> map_cmd word_text c' = c))"

lemma unparse_stands: "printable c \<Longrightarrow> part_end rest \<Longrightarrow> skip_ws (unparse c @ rest) = unparse c @ rest"
  using words_stand[of _ rest "''<''"] stands_skip by (cases c) auto

lemma parseexec_part:
  assumes "reparses c" and "printable c" and "4 * length (unparse c) + 6 \<le> n"
  shows "\<exists>c'. parseexec n (''('' @ unparse c @ '')'' @ t) = parseredirs c' (skip_ws t) \<and>
    map_cmd word_text c' = c"
proof -
  let ?s = "unparse c @ '')'' @ t"
  define m where "m = n - 2"
  have n: "n = Suc (Suc m)" "4 * length (unparse c) + 4 \<le> m" using assms(3) by (simp_all add: m_def)
  have e: "part_end ('')'' @ t)" by (simp add: part_end_def)
  obtain c' where "parseline m ?s = Ok (c', '')'' @ t)" "map_cmd word_text c' = c"
    using assms(1) e n(2) unfolding reparses_def by blast
  then show ?thesis using unparse_stands[OF assms(2) e] n(1) by (intro exI[of _ c']) simp
qed

lemma reparses_EXEC: "printable (EXEC ws) \<Longrightarrow> reparses (EXEC ws)"
  unfolding reparses_def
proof (intro allI impI)
  fix n rest assume p: "printable (EXEC ws)" and e: "part_end rest" and "4 * length (unparse (EXEC ws)) + 4 \<le> n"
  then have n: "n = Suc (Suc (Suc (n - 3)))" by simp
  obtain c where c: "parseexec (Suc (n - 3)) (blanks ws @ rest) = Ok (c, rest)" "map_cmd word_text c = EXEC ws"
    using parseexec_words[of ws rest "n - 3"] p e by auto
  have "parseline (Suc (Suc (Suc (n - 3)))) (blanks ws @ rest) = Ok (c, rest)"
    by (rule finish_line[OF finish_pipe[OF c(1)]]) (auto intro: stands_part_end[OF e])
  then show "\<exists>c'. parseline n (unparse (EXEC ws) @ rest) = Ok (c', rest) \<and> map_cmd word_text c' = EXEC ws"
    using n c(2) by auto
qed

lemma reparses_REDIR:
  assumes "reparses c" and "printable (REDIR c f m d)"
  shows "reparses (REDIR c f m d)"
  unfolding reparses_def
proof (intro allI impI)
  fix n rest assume e: "part_end rest" and f: "4 * length (unparse (REDIR c f m d)) + 4 \<le> n"
  let ?op = "if d = 0 then CHR ''<'' else CHR ''>''"
  let ?t = "?op # f @ rest"
  have w: "is_word f" "printable c" "d = 0 \<and> m = O_RDONLY \<or> d = 1 \<and> m = O_WRONLY_CREATE"
    using assms(2) by auto
  obtain a f' where a: "f = a # f'" "plain a" using w(1) by (cases f) (auto simp: is_word_def)
  have pe: "rest = [] \<or> \<not> plain (hd rest)" using e by (auto simp: part_end_def)
  have n: "n = Suc (Suc (n - 2))" "4 * length (unparse c) + 6 \<le> n - 2" using f by auto
  obtain c' where c': "parseexec (n - 2) (''('' @ unparse c @ '')'' @ ?t) = parseredirs c' (skip_ws ?t)"
    "map_cmd word_text c' = c"
    using parseexec_part[OF assms(1) w(2) n(2)] by blast
  have sk: "skip_ws (f @ rest) = f @ rest" "skip_ws ?t = ?t" using plain_not[OF a(2)] a(1) by auto
  have g1: "gettoken ?t = (?op, (?t, f @ rest), f @ rest)"
    using plain_not[OF a(2)] a(1) gettoken_gt[of "f @ rest"] sk(1) by auto
  have g2: "gettoken (f @ rest) = (CHR ''a'', (f @ rest, rest), rest)"
    using gettoken_plain[OF w(1) pe] e by simp
  have "parseredirs c' ?t = parseredirs (redirect ?op (f @ rest, rest) c') rest"
    by (subst parseredirs_one[OF _ g1 g2]) auto
  also have "\<dots> = Ok (redirect ?op (f @ rest, rest) c', rest)"
    by (rule parseredirs_stands) (auto intro: stands_part_end[OF e])
  finally have x: "parseexec (n - 2) (''('' @ unparse c @ '')'' @ ?t) = Ok (redirect ?op (f @ rest, rest) c', rest)"
    using c'(1) sk(2) by simp
  have "parseline (Suc (Suc (n - 2))) (''('' @ unparse c @ '')'' @ ?t) = Ok (redirect ?op (f @ rest, rest) c', rest)"
    by (rule finish_line[OF finish_pipe[OF x]]) (auto intro: stands_part_end[OF e])
  moreover have "map_cmd word_text (redirect ?op (f @ rest, rest) c') = REDIR c f m d"
    using w(3) c'(2) by (auto simp: redirect_def)
  ultimately show "\<exists>c'. parseline n (unparse (REDIR c f m d) @ rest) = Ok (c', rest) \<and>
      map_cmd word_text c' = REDIR c f m d"
    using n(1) by auto
qed

text \<open>A part followed by one of the operators.\<close>

lemma part_then:
  assumes "reparses c" and "printable c" and "4 * length (unparse c) + 6 \<le> n"
    and "stands ''<>'' t"
  shows "\<exists>c'. parseexec n (''('' @ unparse c @ '')'' @ t) = Ok (c', t) \<and> map_cmd word_text c' = c"
  using parseexec_part[OF assms(1-3), of t] parseredirs_stands[OF assms(4)] stands_skip[OF assms(4)] by auto

lemma reparses_PIPE:
  assumes "reparses l" "reparses r" and "printable l" "printable r"
  shows "reparses (PIPE l r)"
  unfolding reparses_def
proof (intro allI impI)
  fix n rest assume e: "part_end rest" and f: "4 * length (unparse (PIPE l r)) + 4 \<le> n"
  let ?r = "''('' @ unparse r @ '')'' @ rest"
  let ?s = "''('' @ unparse l @ '')'' @ ''|'' @ ?r"
  have n: "n = Suc (Suc (Suc (n - 3)))" "4 * length (unparse l) + 6 \<le> Suc (n - 3)"
    "4 * length (unparse r) + 6 \<le> n - 3" using f by auto
  obtain l' where l': "parseexec (Suc (n - 3)) ?s = Ok (l', ''|'' @ ?r)" "map_cmd word_text l' = l"
    using part_then[OF assms(1,3) n(2), of "''|'' @ ?r"] by (auto simp: stands_def)
  obtain r' where r': "parseexec (n - 3) ?r = Ok (r', rest)" "map_cmd word_text r' = r"
    using part_then[OF assms(2,4) n(3) stands_part_end[OF e]] by auto
  have "parsepipe (Suc (n - 3)) ?r = Ok (r', rest)"
    by (rule finish_pipe[OF r'(1)]) (auto intro: stands_part_end[OF e])
  then have "parsepipe (Suc (Suc (n - 3))) ?s = Ok (PIPE l' r', rest)"
    using l'(1) by (subst parsepipe.simps) simp
  then have "parseline (Suc (Suc (Suc (n - 3)))) ?s = Ok (PIPE l' r', rest)"
    by (rule finish_line) (auto intro: stands_part_end[OF e])
  then show "\<exists>c'. parseline n (unparse (PIPE l r) @ rest) = Ok (c', rest) \<and> map_cmd word_text c' = PIPE l r"
    using n(1) l'(2) r'(2) by auto
qed

lemma reparses_LIST:
  assumes "reparses l" "reparses r" and "printable l" "printable r"
  shows "reparses (LIST l r)"
  unfolding reparses_def
proof (intro allI impI)
  fix n rest assume e: "part_end rest" and f: "4 * length (unparse (LIST l r)) + 4 \<le> n"
  let ?r = "''('' @ unparse r @ '')'' @ rest"
  let ?s = "''('' @ unparse l @ '')'' @ '';'' @ ?r"
  have n: "n = Suc (Suc (Suc (n - 3)))" "4 * length (unparse l) + 6 \<le> Suc (n - 3)"
    "4 * length (unparse r) + 6 \<le> n - 3" using f by auto
  obtain l' where l': "parseexec (Suc (n - 3)) ?s = Ok (l', '';'' @ ?r)" "map_cmd word_text l' = l"
    using part_then[OF assms(1,3) n(2), of "'';'' @ ?r"] by (auto simp: stands_def)
  obtain r' where r': "parseexec (n - 3) ?r = Ok (r', rest)" "map_cmd word_text r' = r"
    using part_then[OF assms(2,4) n(3) stands_part_end[OF e]] by auto
  have x: "parsepipe (Suc (n - 3)) ?r = Ok (r', rest)"
    by (rule finish_pipe[OF r'(1)]) (auto intro: stands_part_end[OF e])
  have y: "parseline (Suc (Suc (n - 3))) ?r = Ok (r', rest)"
    by (rule finish_line[OF x]) (auto intro: stands_part_end[OF e])
  have "parsepipe (Suc (Suc (n - 3))) ?s = Ok (l', '';'' @ ?r)"
    by (rule finish_pipe[OF l'(1)]) (simp add: stands_def)
  moreover have "parsebacks l' ('';'' @ ?r) = (l', '';'' @ ?r)"
    by (rule parsebacks_stands) (simp add: stands_def)
  ultimately have "parseline (Suc (Suc (Suc (n - 3)))) ?s = Ok (LIST l' r', rest)"
    using y by (subst parseline.simps) simp
  then show "\<exists>c'. parseline n (unparse (LIST l r) @ rest) = Ok (c', rest) \<and> map_cmd word_text c' = LIST l r"
    using n(1) l'(2) r'(2) by auto
qed

lemma reparses_BACK:
  assumes "reparses c" and "printable c"
  shows "reparses (BACK c)"
  unfolding reparses_def
proof (intro allI impI)
  fix n rest assume e: "part_end rest" and f: "4 * length (unparse (BACK c)) + 4 \<le> n"
  let ?s = "''('' @ unparse c @ '')'' @ ''&'' @ rest"
  have n: "n = Suc (Suc (n - 2))" "4 * length (unparse c) + 6 \<le> n - 2" using f by auto
  obtain c' where c': "parseexec (n - 2) ?s = Ok (c', ''&'' @ rest)" "map_cmd word_text c' = c"
    using part_then[OF assms n(2), of "''&'' @ rest"] by (auto simp: stands_def)
  have "parsepipe (Suc (n - 2)) ?s = Ok (c', ''&'' @ rest)"
    by (rule finish_pipe[OF c'(1)]) (simp add: stands_def)
  moreover have "parsebacks c' (''&'' @ rest) = (BACK c', rest)"
    using e parsebacks_stands[OF stands_part_end[OF e]] by (subst parsebacks.simps) simp
  moreover have "peek rest '';'' = (False, rest)" using peek_part_end[OF e] by simp
  ultimately have "parseline (Suc (Suc (n - 2))) ?s = Ok (BACK c', rest)"
    by (subst parseline.simps) simp
  then show "\<exists>c'. parseline n (unparse (BACK c) @ rest) = Ok (c', rest) \<and> map_cmd word_text c' = BACK c"
    using n(1) c'(2) by auto
qed

lemma printable_reparses: "printable c \<Longrightarrow> reparses c"
  by (induction c) (auto intro: reparses_EXEC reparses_REDIR reparses_PIPE reparses_LIST reparses_BACK)

text \<open>
  C31.  Parsing undoes printing.  Every command tree (any nesting of pipes, lists, background
  commands and redirections over programs with fewer than ten plain words) written as a line with
  its parts in parentheses is parsed back to the same tree.
\<close>

theorem parse_unparse_roundtrip:
  assumes "printable c"
  shows "\<exists>c'. parsecmd (unparse c) = Ok c' \<and> map_cmd word_text c' = c"
proof -
  obtain c' where "parseline (4 * length (unparse c) + 4) (unparse c @ []) = Ok (c', [])"
    "map_cmd word_text c' = c"
    using printable_reparses[OF assms] unfolding reparses_def by (auto simp: part_end_def)
  then show ?thesis by (simp add: parsecmd_def peek_def)
qed

theorem parse_unparse_roundtrip_witness:
  "\<exists>c'. parsecmd (unparse (PIPE (REDIR (EXEC [''cat'']) ''in'' O_RDONLY 0) (BACK (EXEC [''wc'', ''-l''])))) = Ok c' \<and>
     map_cmd word_text c' = PIPE (REDIR (EXEC [''cat'']) ''in'' O_RDONLY 0) (BACK (EXEC [''wc'', ''-l'']))"
  by (rule parse_unparse_roundtrip) (simp add: is_word_def plain_def whitespace_def symbol_def)

section \<open>Running a command\<close>

text \<open>
  What a descriptor refers to, and a process's descriptor table.  \<open>open\<close>, \<open>dup\<close> and \<open>pipe\<close>
  take the lowest free descriptors, as \<open>fdalloc\<close> of src/sysfile.c does.
\<close>

datatype open_file = Console | PipeRead nat | PipeWrite nat | Named string nat

type_synonym fds = "open_file option list"

primrec lowest_free :: "fds \<Rightarrow> nat" where
  "lowest_free [] = 0"
| "lowest_free (x # xs) = (if x = None then 0 else Suc (lowest_free xs))"

definition fd_alloc :: "open_file \<Rightarrow> fds \<Rightarrow> (nat \<times> fds) option" where
  "fd_alloc f t = (let i = lowest_free t in if i < length t then Some (i, t[i := Some f]) else None)"

definition fd_close :: "nat \<Rightarrow> fds \<Rightarrow> fds" where
  "fd_close d t = t[d := None]"

definition fd_dup :: "nat \<Rightarrow> fds \<Rightarrow> fds" where
  "fd_dup d t =
     (if d < length t then
        case t ! d of None \<Rightarrow> t | Some f \<Rightarrow> (case fd_alloc f t of None \<Rightarrow> t | Some (_, t') \<Rightarrow> t')
      else t)"

text \<open>
  The programs a command executes, with the descriptor tables they start with, in the order in which
  the processes are created.  \<open>can_open\<close> tells which files can be opened; \<open>k\<close> numbers the pipes.
  A process that cannot open a file or create a pipe ends.  \<open>fork\<close> gives the child a copy of the
  table.
\<close>

primrec runcmd :: "(string \<Rightarrow> nat \<Rightarrow> bool) \<Rightarrow> string cmd \<Rightarrow> fds \<Rightarrow> nat \<Rightarrow> (string list \<times> fds) list \<times> nat" where
  "runcmd can_open (EXEC argv) t k = (if argv = [] then ([], k) else ([(argv, t)], k))"
| "runcmd can_open (REDIR c file mode fd) t k =
     (let t = fd_close fd t in
      if \<not> can_open file mode then ([], k)
      else case fd_alloc (Named file mode) t of
             None \<Rightarrow> ([], k)
           | Some (_, t) \<Rightarrow> runcmd can_open c t k)"
| "runcmd can_open (LIST l r) t k =
     (let (runs, k) = runcmd can_open l t k; (runs', k) = runcmd can_open r t k in (runs @ runs', k))"
| "runcmd can_open (PIPE l r) t k =
     (case fd_alloc (PipeRead k) t of
        None \<Rightarrow> ([], k)
      | Some (p0, t0) \<Rightarrow>
        case fd_alloc (PipeWrite k) t0 of
          None \<Rightarrow> ([], k)
        | Some (p1, t) \<Rightarrow>
          let child = fd_close p1 (fd_close p0 (fd_dup p1 (fd_close 1 t)));
              (runs, k) = runcmd can_open l child (k + 1);
              child = fd_close p1 (fd_close p0 (fd_dup p0 (fd_close 0 t)));
              (runs', k) = runcmd can_open r child k
          in (runs @ runs', k))"
| "runcmd can_open (BACK c) t k = runcmd can_open c t k"

text \<open>
  What the loop of \<open>main\<close> does with one line: \<open>cd\<close> runs in the shell itself, with the last
  character of the line, the newline, cut off; everything else is parsed in a child.
\<close>

datatype line_action = Chdir string | Child "word_at cmd res"

definition main_line :: "string \<Rightarrow> line_action" where
  "main_line buf =
     (if take 3 buf = ''cd '' then Chdir (drop 3 (butlast buf)) else Child (parsecmd buf))"

section \<open>How the programs are connected\<close>

text \<open>The programs of a command with their standard input and output.\<close>

primrec wiring :: "(string \<Rightarrow> nat \<Rightarrow> bool) \<Rightarrow> string cmd \<Rightarrow> open_file \<Rightarrow> open_file \<Rightarrow> nat \<Rightarrow>
    (string list \<times> open_file \<times> open_file) list \<times> nat" where
  "wiring can_open (EXEC argv) i out k = (if argv = [] then ([], k) else ([(argv, i, out)], k))"
| "wiring can_open (REDIR c file mode fd) i out k =
     (if \<not> can_open file mode then ([], k)
      else if fd = 0 then wiring can_open c (Named file mode) out k
      else wiring can_open c i (Named file mode) k)"
| "wiring can_open (LIST l r) i out k =
     (let (ps, k) = wiring can_open l i out k; (ps', k) = wiring can_open r i out k in (ps @ ps', k))"
| "wiring can_open (PIPE l r) i out k =
     (let (ps, k') = wiring can_open l i (PipeWrite k) (k + 1);
          (ps', k') = wiring can_open r (PipeRead k) out k'
      in (ps @ ps', k'))"
| "wiring can_open (BACK c) i out k = wiring can_open c i out k"

text \<open>The redirections the parser makes: of descriptor 0 or 1.\<close>

primrec redirs_ok :: "'w cmd \<Rightarrow> bool" where
  "redirs_ok (EXEC ws) \<longleftrightarrow> True"
| "redirs_ok (REDIR c f m d) \<longleftrightarrow> redirs_ok c \<and> d \<in> {0, 1}"
| "redirs_ok (PIPE l r) \<longleftrightarrow> redirs_ok l \<and> redirs_ok r"
| "redirs_ok (LIST l r) \<longleftrightarrow> redirs_ok l \<and> redirs_ok r"
| "redirs_ok (BACK c) \<longleftrightarrow> redirs_ok c"

definition std_fds :: "open_file \<Rightarrow> open_file \<Rightarrow> open_file \<Rightarrow> fds" where
  "std_fds i out err = [Some i, Some out, Some err] @ replicate 13 None"

lemma std_fds_redirect:
  "fd_alloc f (fd_close 0 (std_fds i out err)) = Some (0, std_fds f out err)"
  "fd_alloc f (fd_close 1 (std_fds i out err)) = Some (1, std_fds i f err)"
  by (simp_all add: fd_alloc_def fd_close_def std_fds_def Let_def)

lemma std_fds_pipe:
  "\<exists>t0 t. fd_alloc (PipeRead k) (std_fds i out err) = Some (3, t0) \<and>
     fd_alloc (PipeWrite k) t0 = Some (4, t) \<and>
     fd_close 4 (fd_close 3 (fd_dup 4 (fd_close 1 t))) = std_fds i (PipeWrite k) err \<and>
     fd_close 4 (fd_close 3 (fd_dup 3 (fd_close 0 t))) = std_fds (PipeRead k) out err"
  by (simp add: fd_alloc_def fd_close_def fd_dup_def std_fds_def Let_def numeral_eq_Suc)

text \<open>
  C34.  The shell connects the programs of a command as its syntax says.  In a shell with the three
  standard descriptors open and the others closed, every program of the command starts with exactly
  these three: standard input and output are the nearest enclosing redirection or end of the pipe
  between its neighbours, and no end of a pipe stays open in a descriptor that is not in use (which
  would keep the reader of the pipe from seeing its end).
\<close>

theorem runcmd_connects_programs:
  assumes "redirs_ok c"
  shows "runcmd can_open c (std_fds i out err) k =
    (map (\<lambda>(argv, i, out). (argv, std_fds i out err)) (fst (wiring can_open c i out k)),
     snd (wiring can_open c i out k))"
  using assms
proof (induction c arbitrary: i out k)
  case (REDIR c f m d)
  then show ?case by (auto simp: Let_def std_fds_redirect std_fds_redirect(2)[unfolded One_nat_def])
next
  case (PIPE l r)
  then show ?case using std_fds_pipe[of k i out err] by (auto simp: Let_def split: prod.splits)
next
  case (LIST l r)
  then show ?case by (auto simp: Let_def split: prod.splits)
qed auto

theorem runcmd_connects_programs_witness:
  "runcmd (\<lambda>_ _. True) (PIPE (REDIR (EXEC [''cat'']) ''in'' O_RDONLY 0) (EXEC [''wc'']))
     (std_fds Console Console Console) 0 =
   ([([''cat''], std_fds (Named ''in'' O_RDONLY) (PipeWrite 0) Console),
     ([''wc''], std_fds (PipeRead 0) Console Console)], 1)"
  using runcmd_connects_programs[of "PIPE (REDIR (EXEC [''cat'']) ''in'' O_RDONLY 0) (EXEC [''wc''])"
      "\<lambda>_ _. True" Console Console Console 0] by simp

end
