(* ===== verification/ProcTable.thy ===== *)
theory ProcTable
  imports Proc
begin

text \<open>
  The process table of src/proc.c under the steps of the schedulers and of the processes on several
  CPUs: what the operations keep of a process's scheduling state, and the invariant of the table.  The theorems at
  the end describe two defects: a number that names no process can be killed, and the paging metadata
  of a process is damaged when it frees another address space.
\<close>

section \<open>What the paging operations keep of a process\<close>

text \<open>The fields of a process the scheduler works with.\<close>

definition same_sched :: "proc \<Rightarrow> proc \<Rightarrow> bool" where
  "same_sched p q \<longleftrightarrow> p_state q = p_state p \<and> p_chan q = p_chan p \<and> p_pid q = p_pid p \<and>
     p_parent q = p_parent p \<and> p_killed q = p_killed p"

definition same_table :: "kernel \<Rightarrow> kernel \<Rightarrow> bool" where
  "same_table s t \<longleftrightarrow> cur t = cur s \<and> nextpid t = nextpid s \<and> initproc t = initproc s \<and>
     length (procs t) = length (procs s) \<and>
     (\<forall>i < length (procs s). same_sched (procs s ! i) (procs t ! i))"

lemma same_sched_refl [simp]: "same_sched p p"
  by (simp add: same_sched_def)

lemma same_sched_trans: "same_sched p q \<Longrightarrow> same_sched q r \<Longrightarrow> same_sched p r"
  by (simp add: same_sched_def)

lemma same_table_refl [simp]: "same_table s s"
  by (simp add: same_table_def)

lemma same_table_trans: "same_table s t \<Longrightarrow> same_table t u \<Longrightarrow> same_table s u"
  by (auto simp: same_table_def intro: same_sched_trans)

lemma same_table_machine [simp]:
  "same_table s (t\<lparr>mem := m\<rparr>) = same_table s t" "same_table (s\<lparr>mem := m\<rparr>) t = same_table s t"
  by (auto simp: same_table_def)

lemma same_table_set_proc:
  assumes "same_sched (procs s ! c) q"
  shows "same_table s (set_proc c q s)"
proof -
  have "same_sched (procs s ! i) ((procs s)[c := q] ! i)" if "i < length (procs s)" for i
    using assms that by (cases "i = c") auto
  then show ?thesis by (simp add: same_table_def set_proc_def)
qed

lemma for_each_same:
  assumes "\<And>i s s'. f i s = Ok s' \<Longrightarrow> R s s'" and "\<And>s. R s s" and "\<And>s t u. R s t \<Longrightarrow> R t u \<Longrightarrow> R s u"
    and "for_each xs f s = Ok s'"
  shows "R s s'"
  using assms(4)
proof (induction xs arbitrary: s)
  case Nil
  then show ?case using assms(2) by simp
next
  case (Cons x xs)
  then show ?case using assms(1,3) by (fastforce simp: andthen_eq_Ok)
qed

lemma kfree_same_table: "kfree kend v s = Ok s' \<Longrightarrow> same_table s s'"
  by (auto simp: kfree_def Let_def same_table_def split: if_splits)

lemma kalloc_same_table: "same_table s (snd (kalloc s))"
  by (auto simp: kalloc_def Let_def same_table_def)

lemma forget_ram_same: "same_sched p (snd x) \<Longrightarrow> same_sched p (snd (forget_ram pol pg a i x))"
  by (cases x) (auto simp: forget_ram_def Let_def same_sched_def split: option.splits)

lemma forget_disk_same: "same_sched p (snd x) \<Longrightarrow> same_sched p (snd (forget_disk pg a i x))"
  by (cases x) (auto simp: forget_disk_def Let_def same_sched_def)

lemma foldl_same:
  "(\<And>i x. P x \<Longrightarrow> P (f i x)) \<Longrightarrow> P x \<Longrightarrow> P (foldl (\<lambda>x i. f i x) x is)"
  by (induction "is" arbitrary: x) auto

lemma forget_all_same_table:
  assumes "\<And>p i x. same_sched p (snd x) \<Longrightarrow> same_sched p (snd (f i x))" and "forget_all f s = Ok (n, s')"
  shows "same_table s s'"
proof -
  obtain c where c: "cur s = Some c" using assms(2) by (auto simp: forget_all_def split: option.splits)
  have "same_sched (procs s ! c) (snd (foldl (\<lambda>x i. f i x) (0, procs s ! c) [0..<MAX_PSYC_PAGES]))"
    by (rule foldl_same) (auto intro: assms(1))
  then show ?thesis
    using assms(2) c by (auto simp: forget_all_def Let_def intro: same_table_set_proc split: prod.splits)
qed

lemmas forget_same_table = forget_all_same_table[OF forget_ram_same] forget_all_same_table[OF forget_disk_same]

lemma dealloc_page_same_table:
  assumes "dealloc_page kend pol pg a ptep s = Ok s'"
  shows "same_table s s'"
proof -
  have r: "same_table s t" if "forget_all (forget_ram pol pg a) s = Ok (n, t)" for n t
    by (rule forget_same_table(1)[OF _ that])
  have d: "same_table s t" if "forget_all (forget_disk pg a) (s\<lparr>mem := m\<rparr>) = Ok (n, t)" for m n t
    using forget_same_table(2)[OF _ that] by simp
  show ?thesis
    using assms
    by (auto simp: dealloc_page_def Let_def andthen_eq_Ok split: if_splits
        dest!: kfree_same_table r d intro: same_table_trans)
qed

lemma dealloc_loop_same_table:
  "dealloc_loop kend pol pg a oldsz s = Ok s' \<Longrightarrow> same_table s s'"
proof (induction kend pol pg a oldsz s rule: dealloc_loop.induct)
  case (1 kend pol pg a oldsz s)
  show ?case
    using 1 unfolding dealloc_loop.simps[of kend pol pg a oldsz s]
    by (fastforce simp: Let_def andthen_eq_Ok split: if_splits dest: dealloc_page_same_table
        intro: same_table_trans)
qed

lemma freevm_same_table: "freevm kend pol pg s = Ok s' \<Longrightarrow> same_table s s'"
proof -
  assume "freevm kend pol pg s = Ok s'"
  then obtain s1 s2 where s: "same_table s s1" "for_each [0..<NPDENTRIES] (\<lambda>i s.
      let e = ld32 (mem s) (entry pg (of_nat i)) in
      if e AND PTE_P \<noteq> 0 then kfree kend (P2V (PTE_ADDR e)) s else Ok s) s1 = Ok s2" "same_table s2 s'"
    by (auto simp: freevm_def deallocuvm_def andthen_eq_Ok split: if_splits
        dest!: dealloc_loop_same_table kfree_same_table)
  have "same_table s1 s2"
    by (rule for_each_same[OF _ _ _ s(2)])
      (auto simp: Let_def dest: kfree_same_table intro: same_table_trans split: if_splits)
  with s show ?thesis by (blast intro: same_table_trans)
qed

section \<open>Aging\<close>

lemma updateAccessBit_proc_same: "updateAccessBit_proc pg va s = Ok (r, s') \<Longrightarrow> same_table s s'"
  by (auto simp: updateAccessBit_proc_def Let_def split: if_splits)

definition aged :: "proc \<times> kernel \<Rightarrow> proc \<times> kernel \<Rightarrow> bool" where
  "aged x y \<longleftrightarrow> same_sched (fst x) (fst y) \<and> same_table (snd x) (snd y)"

lemma same_sched_mem [simp]: "same_sched p (q\<lparr>memory_pg_arr := a\<rparr>) = same_sched p q"
  by (simp add: same_sched_def)

lemma age_slot_aged:
  assumes "age_slot i (p, s) = Ok y"
  shows "aged (p, s) y"
proof (cases "slot_va p i = NOVA")
  case True
  then show ?thesis using assms by (simp add: age_slot_def aged_def)
next
  case False
  let ?p = "upd_slot i (\<lambda>f. f\<lparr>fp_age := drop_bit 1 (fp_age f)\<rparr>) p"
  obtain x where x: "updateAccessBit_proc (p_pgdir ?p) (slot_va ?p i) s = Ok x"
    "y = (if fst x = 1 then upd_slot i (\<lambda>f. f\<lparr>fp_age := fp_age f OR push_bit 31 1\<rparr>) ?p else ?p, snd x)"
    using assms unfolding age_slot_def Let_def case_prod_unfold fst_conv snd_conv if_not_P[OF False]
      andthen_eq_Ok res.inject by blast
  then show ?thesis using updateAccessBit_proc_same[of _ _ _ "fst x" "snd x"] by (simp add: aged_def)
qed

lemma aq_slot_aged:
  assumes "aq_slot i (p, s) = Ok y"
  shows "aged (p, s) y"
proof (cases "slot_va p i = NOVA")
  case True
  then show ?thesis using assms by (simp add: aq_slot_def aged_def)
next
  case False
  obtain x where x: "updateAccessBit_proc (p_pgdir p) (slot_va p i) s = Ok x"
    "y = (upd_slot i (\<lambda>f. f\<lparr>fp_age := if fst x = 1 then 1 else 0\<rparr>) p, snd x)"
    using assms unfolding aq_slot_def Let_def case_prod_unfold fst_conv snd_conv if_not_P[OF False]
      andthen_eq_Ok res.inject by blast
  then show ?thesis using updateAccessBit_proc_same[of _ _ _ "fst x" "snd x"] by (simp add: aged_def)
qed

lemma aq_swap_same: "same_sched p (aq_swap i p)"
  by (auto simp: aq_swap_def Let_def same_sched_def split: option.splits)

lemma aq_traverse_same: "aq_traverse x p = Some q \<Longrightarrow> same_sched p q"
proof (rule aq_traverse.raw_induct[of "\<lambda>x p q. same_sched p q"])
  fix f x p q
  assume ih: "\<And>x p q. f x p = Some q \<Longrightarrow> same_sched p q"
    and e: "(case x of None \<Rightarrow> Some p
      | Some i \<Rightarrow> let p = aq_swap i p in f (fp_next (memory_pg_arr p ! i)) p) = Some q"
  show "same_sched p q"
  proof (cases x)
    case None
    then show ?thesis using e by simp
  next
    case (Some i)
    then have "same_sched (aq_swap i p) q" using e ih by (simp add: Let_def)
    then show ?thesis by (rule same_sched_trans[OF aq_swap_same])
  qed
qed

lemma aged_trans: "aged x y \<Longrightarrow> aged y z \<Longrightarrow> aged x z"
  unfolding aged_def by (meson same_sched_trans same_table_trans)

lemma for_each_aged:
  assumes "for_each xs f x = Ok y" and "f = age_slot \<or> f = aq_slot"
  shows "aged x y"
proof (rule for_each_same[OF _ _ _ assms(1)])
  show "aged x y" if "f i x = Ok y" for i x y
    using assms(2) that age_slot_aged[of i "fst x" "snd x" y] aq_slot_aged[of i "fst x" "snd x" y]
    by (elim disjE) (simp_all only: prod.collapse)
  show "aged s s" for s by (simp add: aged_def)
qed (rule aged_trans)


lemma age_pages_aged:
  assumes "age_pages pol p s = Ok y"
  shows "aged (p, s) y"
proof -
  consider (n) "pol = NFUA \<or> pol = LAPA" | (q) "pol = AQ" | (o) "pol = SCFIFO \<or> pol = NONE"
    by (cases pol) blast+
  then show ?thesis
  proof cases
    case n
    then have "for_each [0..<MAX_PSYC_PAGES] age_slot (p, s) = Ok y"
      using assms by (simp only: age_pages_def if_True)
    then show ?thesis by (rule for_each_aged) (rule disjI1, rule refl)
  next
    case q
    have "andthen (for_each [0..<MAX_PSYC_PAGES] aq_slot (p, s)) (\<lambda>(p, s).
        case aq_traverse (p_head p) p of None \<Rightarrow> Stop Diverges | Some p \<Rightarrow> Ok (p, s)) = Ok y"
      using assms unfolding age_pages_def q by (simp only: policy.distinct if_False if_True simp_thms)
    then obtain x where x: "for_each [0..<MAX_PSYC_PAGES] aq_slot (p, s) = Ok x"
      "(case aq_traverse (p_head (fst x)) (fst x) of None \<Rightarrow> Stop Diverges | Some p \<Rightarrow> Ok (p, snd x)) = Ok y"
      unfolding andthen_eq_Ok case_prod_unfold by blast
    from x(2) obtain p' where p': "aq_traverse (p_head (fst x)) (fst x) = Some p'" "y = (p', snd x)"
      by (cases "aq_traverse (p_head (fst x)) (fst x)") simp_all
    have "aged (p, s) x" by (rule for_each_aged[OF x(1)]) (rule disjI2, rule refl)
    then show ?thesis using aq_traverse_same[OF p'(1)] unfolding aged_def p'(2) fst_conv snd_conv
      by (blast intro: same_sched_trans)
  next
    case o
    then have "Ok (p, s) = Ok y" using assms unfolding age_pages_def
      by (elim disjE) (simp_all only: policy.distinct if_False simp_thms)
    then show ?thesis by (simp add: aged_def)
  qed
qed

section \<open>The process table\<close>

text \<open>
  The table when the processes in \<open>R\<close>, and no others, are running and the numbers below \<open>N\<close> have
  been given out: a sleeping process has a channel, and two processes have different numbers.
\<close>

definition table_ok :: "int \<Rightarrow> nat set \<Rightarrow> kernel \<Rightarrow> bool" where
  "table_ok N R s \<longleftrightarrow> nextpid s = N \<and> 0 < N \<and> R \<subseteq> {..<length (procs s)} \<and>
     (\<forall>i < length (procs s).
        (p_state (procs s ! i) = RUNNING \<longleftrightarrow> i \<in> R) \<and>
        (p_state (procs s ! i) = SLEEPING \<longrightarrow> p_chan (procs s ! i) \<noteq> None) \<and>
        (p_state (procs s ! i) \<noteq> UNUSED \<longrightarrow> 0 < p_pid (procs s ! i) \<and> p_pid (procs s ! i) < N) \<and>
        (\<forall>j < length (procs s). p_state (procs s ! i) \<noteq> UNUSED \<longrightarrow> p_state (procs s ! j) \<noteq> UNUSED \<longrightarrow>
           p_pid (procs s ! i) = p_pid (procs s ! j) \<longrightarrow> i = j))"

lemma table_okD:
  assumes "table_ok N R s" and "i < length (procs s)"
  shows "p_state (procs s ! i) = RUNNING \<longleftrightarrow> i \<in> R"
    and "p_state (procs s ! i) = SLEEPING \<Longrightarrow> p_chan (procs s ! i) \<noteq> None"
    and "p_state (procs s ! i) \<noteq> UNUSED \<Longrightarrow> 0 < p_pid (procs s ! i)"
    and "p_state (procs s ! i) \<noteq> UNUSED \<Longrightarrow> p_pid (procs s ! i) < N"
    and "j < length (procs s) \<Longrightarrow> p_state (procs s ! i) \<noteq> UNUSED \<Longrightarrow> p_state (procs s ! j) \<noteq> UNUSED \<Longrightarrow>
      p_pid (procs s ! i) = p_pid (procs s ! j) \<Longrightarrow> i = j"
  using assms unfolding table_ok_def by blast+

lemma table_ok_cur [simp]: "table_ok N R (s\<lparr>cur := x\<rparr>) = table_ok N R s"
  by (simp add: table_ok_def)

lemma table_ok_in: "table_ok N R s \<Longrightarrow> i \<in> R \<Longrightarrow> i < length (procs s)"
  by (auto simp: table_ok_def)

text \<open>A step that creates no process: slots may change their state but not their identity.\<close>

lemma table_okI:
  assumes "table_ok N R s" and "length (procs t) = length (procs s)" and "nextpid t = N'" and "N \<le> N'"
    and "\<And>i. i < length (procs s) \<Longrightarrow> p_state (procs t ! i) \<noteq> UNUSED \<Longrightarrow>
      p_state (procs s ! i) \<noteq> UNUSED \<and> p_pid (procs t ! i) = p_pid (procs s ! i)"
    and "\<And>i. i < length (procs s) \<Longrightarrow> p_state (procs t ! i) = RUNNING \<longleftrightarrow> i \<in> R'"
    and "R' \<subseteq> {..<length (procs s)}"
    and "\<And>i. i < length (procs s) \<Longrightarrow> p_state (procs t ! i) = SLEEPING \<Longrightarrow> p_chan (procs t ! i) \<noteq> None"
  shows "table_ok N' R' t"
  unfolding table_ok_def assms(2)
proof (intro conjI allI impI)
  fix i j assume i: "i < length (procs s)" and j: "j < length (procs s)"
    and u: "p_state (procs t ! i) \<noteq> UNUSED" "p_state (procs t ! j) \<noteq> UNUSED"
    and e: "p_pid (procs t ! i) = p_pid (procs t ! j)"
  show "i = j"
    using table_okD(5)[OF assms(1) i j] assms(5)[OF i u(1)] assms(5)[OF j u(2)] e by simp
next
  fix i assume i: "i < length (procs s)" and u: "p_state (procs t ! i) \<noteq> UNUSED"
  show "0 < p_pid (procs t ! i)" "p_pid (procs t ! i) < N'"
    using table_okD(3,4)[OF assms(1) i] assms(4) assms(5)[OF i u] by simp_all
next
  show "0 < N'" using assms(1,4) by (simp add: table_ok_def)
qed (use assms(3,6-8) in blast)+

text \<open>The same for a step that changes one slot.\<close>

lemma table_ok_upd:
  assumes s: "table_ok N R s" and "nextpid t = N'" and "N \<le> N'" and c: "c < length (procs s)"
    and p: "procs t = (procs s)[c := q]"
    and "p_state q \<noteq> UNUSED \<Longrightarrow> p_state (procs s ! c) \<noteq> UNUSED \<and> p_pid q = p_pid (procs s ! c)"
    and r: "R' = (if p_state q = RUNNING then insert c R else R - {c})"
    and "p_state q = SLEEPING \<Longrightarrow> p_chan q \<noteq> None"
  shows "table_ok N' R' t"
proof (rule table_okI[OF s _ assms(2,3)])
  have nth: "procs t ! i = (if i = c then q else procs s ! i)" if "i < length (procs s)" for i
    using that p by simp
  show "p_state (procs s ! i) \<noteq> UNUSED \<and> p_pid (procs t ! i) = p_pid (procs s ! i)"
    if "i < length (procs s)" "p_state (procs t ! i) \<noteq> UNUSED" for i
    using that assms(6) nth[OF that(1)] by (cases "i = c") simp_all
  show "p_state (procs t ! i) = RUNNING \<longleftrightarrow> i \<in> R'" if "i < length (procs s)" for i
    using nth[OF that] r table_okD(1)[OF s that] by (cases "i = c") simp_all
  show "p_chan (procs t ! i) \<noteq> None" if "i < length (procs s)" "p_state (procs t ! i) = SLEEPING" for i
    using that assms(8) nth[OF that(1)] table_okD(2)[OF s that(1)] by (cases "i = c") simp_all
  show "R' \<subseteq> {..<length (procs s)}" using r c s by (auto simp: table_ok_def)
qed (use p in simp)

text \<open>A slot changes but keeps its state, number and channel.\<close>

lemma table_ok_same_table:
  assumes s: "table_ok N R s" and t: "same_table s t"
  shows "table_ok N R t"
proof -
  have i: "p_state (procs t ! i) = p_state (procs s ! i)" "p_chan (procs t ! i) = p_chan (procs s ! i)"
      "p_pid (procs t ! i) = p_pid (procs s ! i)" if "i < length (procs s)" for i
    using t that by (simp_all add: same_table_def same_sched_def)
  have c: "nextpid t = N" "length (procs t) = length (procs s)" "R \<subseteq> {..<length (procs s)}"
    using s t by (simp_all add: same_table_def table_ok_def)
  show ?thesis
  proof (rule table_okI[OF s c(2) c(1) order_refl _ _ c(3)])
    fix j assume j: "j < length (procs s)"
    show "p_state (procs t ! j) \<noteq> UNUSED \<Longrightarrow>
      p_state (procs s ! j) \<noteq> UNUSED \<and> p_pid (procs t ! j) = p_pid (procs s ! j)" using i[OF j] by simp
    show "p_state (procs t ! j) = RUNNING \<longleftrightarrow> j \<in> R" using i[OF j] table_okD(1)[OF s j] by simp
    show "p_state (procs t ! j) = SLEEPING \<Longrightarrow> p_chan (procs t ! j) \<noteq> None"
      using i[OF j] table_okD(2)[OF s j] by simp
  qed
qed

lemma wakeup1_fields [simp]:
  "cur (wakeup1 ch s) = cur s" "length (procs (wakeup1 ch s)) = length (procs s)"
  "initproc (wakeup1 ch s) = initproc s" "nextpid (wakeup1 ch s) = nextpid s"
  by (simp_all add: wakeup1_def)

lemma table_ok_wakeup1: "table_ok N R s \<Longrightarrow> table_ok N R (wakeup1 ch s)"
proof -
  assume s: "table_ok N R s"
  have n: "procs (wakeup1 ch s) ! i = (if p_state (procs s ! i) = SLEEPING \<and> p_chan (procs s ! i) = Some ch
      then (procs s ! i)\<lparr>p_state := RUNNABLE\<rparr> else procs s ! i)" if "i < length (procs s)" for i
    using that by (simp add: wakeup1_def)
  show "table_ok N R (wakeup1 ch s)"
  proof (rule table_okI[OF s])
    fix j assume j: "j < length (procs s)"
    show "p_state (procs (wakeup1 ch s) ! j) \<noteq> UNUSED \<Longrightarrow> p_state (procs s ! j) \<noteq> UNUSED \<and>
        p_pid (procs (wakeup1 ch s) ! j) = p_pid (procs s ! j)" using n[OF j] by (simp split: if_splits)
    show "p_state (procs (wakeup1 ch s) ! j) = RUNNING \<longleftrightarrow> j \<in> R"
      using n[OF j] table_okD(1)[OF s j] by (auto split: if_splits)
    show "p_state (procs (wakeup1 ch s) ! j) = SLEEPING \<Longrightarrow> p_chan (procs (wakeup1 ch s) ! j) \<noteq> None"
      using n[OF j] table_okD(2)[OF s j] by (simp split: if_splits)
  qed (use s in \<open>simp_all add: table_ok_def\<close>)
qed

lemma adopt_fields: "cur (adopt c i s) = cur s" "length (procs (adopt c i s)) = length (procs s)"
  by (simp_all add: adopt_def Let_def upd_at_def split: option.splits)

lemma table_ok_adopt:
  assumes s: "table_ok N R s"
  shows "table_ok N R (adopt c i s)"
proof -
  let ?q = "(procs s ! i)\<lparr>p_parent := initproc s\<rparr>"
  let ?s = "upd_proc i (\<lambda>p. p\<lparr>p_parent := initproc s\<rparr>) s"
  have "table_ok N R ?s"
  proof (cases "i < length (procs s)")
    case True
    show ?thesis
      by (rule table_ok_upd[OF s _ order_refl True, where q = ?q])
        (use s table_okD(1,2)[OF s True] in \<open>auto simp: upd_at_def table_ok_def\<close>)
  next
    case False
    then show ?thesis using s by (simp add: upd_at_def not_less list_update_beyond)
  qed
  then show ?thesis using s
    by (auto simp: adopt_def Let_def intro: table_ok_wakeup1 split: option.splits)
qed

lemma table_ok_exit_finish:
  assumes s: "table_ok N R s" and c: "c \<in> R"
  shows "table_ok N (R - {c}) (exit_finish c s)" "cur (exit_finish c s) = cur s"
proof -
  define s1 where "s1 = (case p_parent (procs s ! c) of None \<Rightarrow> s | Some q \<Rightarrow> wakeup1 (ChanProc q) s)"
  define s2 where "s2 = foldl (\<lambda>s i. adopt c i s) s1 [0..<NPROC]"
  have "table_ok N R s1 \<and> cur s1 = cur s" using s table_ok_wakeup1 by (simp add: s1_def split: option.splits)
  then have s2: "table_ok N R s2 \<and> cur s2 = cur s" unfolding s2_def
    by (rule foldl_same[rotated]) (simp add: table_ok_adopt adopt_fields)
  have e: "exit_finish c s = upd_proc c (\<lambda>p. p\<lparr>p_state := ZOMBIE\<rparr>) s2"
    by (simp only: exit_finish_def Let_def s1_def s2_def)
  have l: "c < length (procs s2)" using table_ok_in[OF _ c] s2 by blast
  then have "p_state (procs s2 ! c) = RUNNING" using table_okD(1) s2 c by blast
  then show "table_ok N (R - {c}) (exit_finish c s)" unfolding e
    by (intro table_ok_upd[OF conjunct1[OF s2] _ order_refl l, where q = "(procs s2 ! c)\<lparr>p_state := ZOMBIE\<rparr>"])
      (use s2 in \<open>simp_all add: upd_at_def table_ok_def\<close>)
  show "cur (exit_finish c s) = cur s" using s2 by (simp add: e)
qed

lemma exit_finish_length: "length (procs (exit_finish c s)) = length (procs s)"
proof -
  have "length (procs (foldl (\<lambda>s i. adopt c i s) s1 is)) = length (procs s1)" for s1 "is"
    by (induction "is" arbitrary: s1) (simp_all add: adopt_fields)
  then show ?thesis by (simp add: exit_finish_def Let_def upd_at_def split: option.split)
qed

lemma kalloc_table: "kalloc s = (v, t) \<Longrightarrow> same_table s t \<and> procs t = procs s"
  by (auto simp: kalloc_def Let_def same_table_def split: if_splits)

text \<open>A free slot becomes a process with the next number.\<close>

lemma table_ok_new:
  assumes s: "table_ok N R s" and i: "i < length (procs s)" and "p_state (procs s ! i) = UNUSED"
    and t: "nextpid t = N + 1" "procs t = (procs s)[i := q]"
    and q: "p_state q = EMBRYO" "p_pid q = N"
  shows "table_ok (N + 1) R t"
proof -
  have nth: "procs t ! j = (if j = i then q else procs s ! j)" if "j < length (procs s)" for j
    using that t(2) by simp
  have len: "length (procs t) = length (procs s)" using t(2) by simp
  have n: "0 < N" "R \<subseteq> {..<length (procs s)}" "i \<notin> R"
    using s table_okD(1)[OF s i] assms(3) by (simp_all add: table_ok_def)
  show ?thesis unfolding table_ok_def len
  proof (intro conjI allI impI)
    fix j k assume j: "j < length (procs s)" and k: "k < length (procs s)"
      and u: "p_state (procs t ! j) \<noteq> UNUSED" "p_state (procs t ! k) \<noteq> UNUSED"
      and e: "p_pid (procs t ! j) = p_pid (procs t ! k)"
    show "j = k"
      using nth[OF j] nth[OF k] u e q table_okD(4)[OF s j] table_okD(4)[OF s k] table_okD(5)[OF s j k]
      by (cases "j = i"; cases "k = i") simp_all
  next
    fix j assume j: "j < length (procs s)"
    show "p_state (procs t ! j) = RUNNING \<longleftrightarrow> j \<in> R"
      using nth[OF j] q n(3) table_okD(1)[OF s j] by (cases "j = i") simp_all
    show "p_state (procs t ! j) = SLEEPING \<Longrightarrow> p_chan (procs t ! j) \<noteq> None"
      using nth[OF j] q table_okD(2)[OF s j] by (cases "j = i") simp_all
    assume u: "p_state (procs t ! j) \<noteq> UNUSED"
    show "0 < p_pid (procs t ! j)"
      using nth[OF j] u n q table_okD(3)[OF s j] by (cases "j = i") simp_all
    show "p_pid (procs t ! j) < N + 1"
      using nth[OF j] u q table_okD(4)[OF s j] by (cases "j = i") simp_all
  qed (use n t in simp_all)
qed

lemma inc_int: "- (2 ^ 31) \<le> n \<Longrightarrow> n < 2 ^ 31 - 1 \<Longrightarrow> inc_int n = n + 1"
  unfolding inc_int_def by (subst mod_pos_pos_trivial) simp_all

lemma allocproc_cases:
  assumes "allocproc fr tr pol s = (r, t)"
  obtains (full) "r = None" "t = s"
  | (nomem) i q where "r = None" "i < length (procs s)" "p_state (procs s ! i) = UNUSED"
      "cur t = cur s" "nextpid t = inc_int (nextpid s)" "procs t = (procs s)[i := q]" "p_state q = UNUSED"
  | (new) i q where "r = Some i" "i < length (procs s)" "p_state (procs s ! i) = UNUSED"
      "cur t = cur s" "nextpid t = inc_int (nextpid s)" "procs t = (procs s)[i := q]" "p_state q = EMBRYO"
      "p_pid q = nextpid s" "p_killed q = p_killed (procs s ! i)"
      "find_idx (\<lambda>p. p_state p = UNUSED) (procs s) = Some i"
proof (cases "find_idx (\<lambda>p. p_state p = UNUSED) (procs s)")
  case None
  then show thesis using assms full by (simp add: allocproc_def)
next
  case (Some i)
  note i = find_idx_SomeD(1,2)[OF Some]
  let ?s = "(upd_proc i (\<lambda>p. p\<lparr>p_state := EMBRYO, p_pid := nextpid s\<rparr>) s)\<lparr>nextpid := inc_int (nextpid s)\<rparr>"
  obtain v u where k: "kalloc ?s = (v, u)" by fastforce
  have u: "cur u = cur s" "nextpid u = inc_int (nextpid s)"
    "procs u = (procs s)[i := (procs s ! i)\<lparr>p_state := EMBRYO, p_pid := nextpid s\<rparr>]"
    using kalloc_table[OF k] by (auto simp: same_table_def upd_at_def)
  show thesis
  proof (cases "v = 0")
    case True
    then show thesis using assms Some k u i
      by (intro nomem[of i "(procs s ! i)\<lparr>p_pid := nextpid s, p_kstack := 0, p_state := UNUSED\<rparr>"])
        (auto simp: allocproc_def Let_def upd_at_def)
  next
    case False
    have e: "(r, t) = (Some i, upd_proc i (\<lambda>p. fresh_meta pol
        (p\<lparr>p_context := \<lparr>cx_edi = 0, cx_esi = 0, cx_ebx = 0, cx_ebp = 0, cx_eip = fr\<rparr>\<rparr>))
        ((upd_proc i (\<lambda>p. p\<lparr>p_kstack := v\<rparr>) u)\<lparr>mem := st32 (mem u) (v + KSTACKSIZE - 76 - 4) tr\<rparr>))"
      using assms Some k False by (simp add: allocproc_def Let_def)
    show thesis
      by (rule new[of i "fresh_meta pol ((procs u ! i)\<lparr>p_kstack := v, p_context := \<lparr>cx_edi = 0, cx_esi = 0,
          cx_ebx = 0, cx_ebp = 0, cx_eip = fr\<rparr>\<rparr>)"])
        (use e u i Some in \<open>auto simp: upd_at_def fresh_meta_def\<close>)
  qed
qed

lemma table_ok_allocproc:
  assumes s: "table_ok N R s" and n: "N < 2 ^ 31 - 1" and "allocproc fr tr pol s = (r, t)"
  shows "cur t = cur s" "table_ok N R t \<or> table_ok (N + 1) R t"
proof -
  have N: "nextpid s = N" "0 < N" using s by (simp_all add: table_ok_def)
  have inc: "inc_int (nextpid s) = N + 1" using inc_int[of N] n N by simp
  from assms(3) have "cur t = cur s \<and> (table_ok N R t \<or> table_ok (N + 1) R t)"
  proof (cases rule: allocproc_cases)
    case full
    with s show ?thesis by simp
  next
    case (nomem i q)
    have "R - {i} = R" using table_okD(1)[OF s nomem(2)] nomem(3) by simp
    then have "table_ok (N + 1) R t"
      by (intro table_ok_upd[OF s _ _ nomem(2,6)]) (use nomem(5,7) inc in simp_all)
    then show ?thesis using nomem(4) by simp
  next
    case (new i q)
    have "table_ok (N + 1) R t"
      by (rule table_ok_new[OF s new(2,3) _ new(6,7)]) (use new(5,8) inc N in simp_all)
    then show ?thesis using new(4) by simp
  qed
  then show "cur t = cur s" "table_ok N R t \<or> table_ok (N + 1) R t" by simp_all
qed

lemma table_ok_kill: "table_ok N R s \<Longrightarrow> table_ok N R (snd (kill pid s)) \<and> cur (snd (kill pid s)) = cur s"
proof (cases "find_idx (\<lambda>p. p_pid p = pid) (procs s)")
  case (Some i)
  assume s: "table_ok N R s"
  note i = find_idx_SomeD(1)[OF Some]
  let ?q = "(procs s ! i)\<lparr>p_killed := True,
    p_state := (if p_state (procs s ! i) = SLEEPING then RUNNABLE else p_state (procs s ! i))\<rparr>"
  have e: "procs (snd (kill pid s)) = (procs s)[i := ?q]" "cur (snd (kill pid s)) = cur s"
    "nextpid (snd (kill pid s)) = nextpid s"
    using Some i by (simp_all add: kill_def upd_at_def)
  have "R = (if p_state ?q = RUNNING then insert i R else R - {i})"
    using table_okD(1)[OF s i] by auto
  then have "table_ok N R (snd (kill pid s))"
    by (rule table_ok_upd[OF s _ order_refl i e(1), rotated 2])
      (use s e(3) table_okD(2)[OF s i] in \<open>auto simp: table_ok_def split: if_splits\<close>)
  then show ?thesis using e(2) by simp
qed (simp add: kill_def)

lemma same_sched_join: "same_sched p q \<Longrightarrow> same_sched p r \<Longrightarrow> same_sched q r"
  by (simp add: same_sched_def)

lemma aged_set_proc:
  assumes "aged (procs s ! c, s) (p, t)" and "c < length (procs s)"
  shows "same_table s (set_proc c p t)"
proof -
  have a: "same_sched (procs s ! c) p" "same_table s t" using assms(1) by (simp_all add: aged_def)
  have "same_sched (procs t ! c) p"
    by (rule same_sched_join[OF _ a(1)]) (use a(2) assms(2) in \<open>simp add: same_table_def\<close>)
  then show ?thesis by (rule same_table_trans[OF a(2) same_table_set_proc])
qed

lemma table_ok_sched_back:
  assumes s: "table_ok N R s" and c: "c < length (procs s)" and b: "sched_back pol c s = Ok t"
  shows "table_ok N R t" "cur t = None"
proof -
  let ?m = "if pol = NONE \<or> pol = SCFIFO \<or> p_pid (procs s ! c) = 1 then Ok s
        else case p_parent (procs s ! c) of
               None \<Rightarrow> Stop NullDeref
             | Some q \<Rightarrow>
               if p_pid (procs s ! q) = 1 then Ok s
               else andthen (age_pages pol (procs s ! c) s) (\<lambda>(p, s). Ok (set_proc c p s))"
  obtain u where m: "?m = Ok u" and t: "t = u\<lparr>cur := None\<rparr>"
    using b unfolding sched_back_def andthen_eq_Ok by blast
  have "same_table s u"
  proof (cases "?m = Ok s")
    case True
    then show ?thesis using m by simp
  next
    case False
    then have "andthen (age_pages pol (procs s ! c) s) (\<lambda>(p, s). Ok (set_proc c p s)) = Ok u"
      using m by (simp split: if_splits option.splits)
    then obtain p v where "age_pages pol (procs s ! c) s = Ok (p, v)" "u = set_proc c p v"
      by (auto simp: andthen_eq_Ok)
    then show ?thesis using aged_set_proc[OF age_pages_aged c] by simp
  qed
  then show "table_ok N R t" "cur t = None" using table_ok_same_table[OF s] t by simp_all
qed

section \<open>Steps of the CPUs\<close>

text \<open>
  The steps of one CPU that change the process table; \<open>cur\<close> is its field \<open>proc\<close>.  Each is what the
  code does between two points at which it does not hold \<open>ptable.lock\<close>.  The scheduler of an idle CPU
  starts a runnable process and leaves it the lock.  A process that yields, sleeps or ends takes the
  lock, changes its state and switches to the scheduler of its CPU, which still has the lock when it
  clears the field \<open>proc\<close>: these are single steps.  The other steps are the end of \<open>sleep\<close>, waking
  processes up (also by an interrupt on an idle CPU), killing, creating and starting a process, and
  waiting for a child.  What \<open>allocproc\<close> does without the lock concerns only its own new slot.
\<close>

inductive cpu_step :: "kernel \<Rightarrow> kernel \<Rightarrow> bool" where
  runs: "cur s = None \<Longrightarrow> i < length (procs s) \<Longrightarrow> p_state (procs s ! i) = RUNNABLE \<Longrightarrow>
    sched_run i s = Ok s' \<Longrightarrow> cpu_step s s'"
| yields: "cur s = Some c \<Longrightarrow> yield s = Ok t \<Longrightarrow> sched_back pol c t = Ok s' \<Longrightarrow> cpu_step s s'"
| sleeps: "cur s = Some c \<Longrightarrow> sleep ch s = Ok t \<Longrightarrow> sched_back pol c t = Ok s' \<Longrightarrow> cpu_step s s'"
| resumes: "sleep_resume s = Ok s' \<Longrightarrow> cpu_step s s'"
| exits: "cur s = Some c \<Longrightarrow> sched (exit_finish c s) = Ok t \<Longrightarrow> sched_back pol c t = Ok s' \<Longrightarrow> cpu_step s s'"
| wakes: "cpu_step s (wakeup ch s)"
| kills: "cpu_step s (snd (kill pid s))"
| allocs: "allocproc fr tr pol s = (r, s') \<Longrightarrow> cpu_step s s'"
| starts: "i < length (procs s) \<Longrightarrow> p_state (procs s ! i) = EMBRYO \<Longrightarrow>
    cpu_step s (upd_proc i (\<lambda>p. p\<lparr>p_state := RUNNABLE\<rparr>) s)"
| waits: "wait_proc kend pol s = Ok (r, s') \<Longrightarrow> cpu_step s s'"

text \<open>Several CPUs on one process table: \<open>cpus\<close> are the fields \<open>proc\<close> of the array \<open>cpus\<close>.\<close>

inductive mp_step :: "nat option list \<times> kernel \<Rightarrow> nat option list \<times> kernel \<Rightarrow> bool" where
  "k < length cpus \<Longrightarrow> cpu_step (s\<lparr>cur := cpus ! k\<rparr>) s' \<Longrightarrow> mp_step (cpus, s) (cpus[k := cur s'], s')"

inductive_cases mp_stepE: "mp_step (cpus, s) x"

text \<open>
  The table and the CPUs fit together: the running processes are those on some CPU, and no process
  is on two.
\<close>

definition mp_ok :: "nat option list \<Rightarrow> kernel \<Rightarrow> bool" where
  "mp_ok cpus s \<longleftrightarrow> table_ok (nextpid s) {i. Some i \<in> set cpus} s \<and>
     (\<forall>j < length cpus. \<forall>k < length cpus. cpus ! j \<noteq> None \<and> cpus ! j = cpus ! k \<longrightarrow> j = k)"

lemma table_ok_state:
  assumes s: "table_ok N R s" and i: "i < length (procs s)" and u: "p_state (procs s ! i) \<noteq> UNUSED" "st \<noteq> UNUSED"
    and "st = SLEEPING \<Longrightarrow> ch \<noteq> None"
  shows "table_ok N (if st = RUNNING then insert i R else R - {i})
    (upd_proc i (\<lambda>p. p\<lparr>p_chan := ch, p_state := st\<rparr>) s)"
  by (rule table_ok_upd[OF s _ order_refl i, where q = "(procs s ! i)\<lparr>p_chan := ch, p_state := st\<rparr>"])
    (use assms in \<open>simp_all add: upd_at_def table_ok_def\<close>)

lemma table_ok_reap:
  assumes s: "table_ok N R s" and r: "reap kend pol i s = Ok (r, t)" and z: "i < length (procs s)" "p_state (procs s ! i) = ZOMBIE"
  shows "table_ok N R t" "cur t = cur s"
proof -
  obtain s1 s2 where a: "kfree kend (p_kstack (procs s ! i)) s = Ok s1"
    "freevm kend pol (p_pgdir (procs s1 ! i)) (upd_proc i (\<lambda>p. p\<lparr>p_kstack := 0\<rparr>) s1) = Ok s2"
    "t = upd_proc i (\<lambda>p. p\<lparr>p_pid := 0, p_parent := None, p_name := (p_name p)[0 := 0],
       p_killed := False, p_state := UNUSED\<rparr>) s2"
    using r by (auto simp: reap_def Let_def andthen_eq_Ok)
  have s1: "same_table s s1" by (rule kfree_same_table[OF a(1)])
  have "same_table s1 (upd_proc i (\<lambda>p. p\<lparr>p_kstack := 0\<rparr>) s1)"
    using same_table_set_proc[of s1 i "(procs s1 ! i)\<lparr>p_kstack := 0\<rparr>"]
    by (simp add: set_proc_def upd_at_def same_sched_def)
  with s1 freevm_same_table[OF a(2)] have st: "same_table s s2" by (meson same_table_trans)
  then have s2: "table_ok N R s2" by (rule table_ok_same_table[OF s])
  have i: "i < length (procs s2)" "R - {i} = R"
    using st z table_okD(1)[OF s z(1)] by (simp_all add: same_table_def)
  show "table_ok N R t" unfolding a(3)
    by (rule table_ok_upd[OF s2 _ order_refl i(1), where q = "(procs s2 ! i)\<lparr>p_pid := 0, p_parent := None,
        p_name := (p_name (procs s2 ! i))[0 := 0], p_killed := False, p_state := UNUSED\<rparr>"])
      (use s2 i(2) in \<open>simp_all add: upd_at_def table_ok_def\<close>)
  show "cur t = cur s" using st by (simp add: a(3) same_table_def)
qed

text \<open>A process that leaves its CPU.\<close>

lemma leaves_cpu:
  assumes s: "table_ok N R s" and c: "cur s = Some c" "c \<in> R" and st: "st \<noteq> RUNNING" "st \<noteq> UNUSED" "st = SLEEPING \<Longrightarrow> ch \<noteq> None"
    and t: "t = upd_proc c (\<lambda>p. p\<lparr>p_chan := ch, p_state := st\<rparr>) s" and b: "sched_back pol c t = Ok s'"
  shows "table_ok N (R - {c}) s'" "cur s' = None"
proof -
  have l: "c < length (procs s)" by (rule table_ok_in[OF s c(2)])
  have "p_state (procs s ! c) \<noteq> UNUSED" using table_okD(1)[OF s l] c(2) by simp
  then have "table_ok N (R - {c}) t" using table_ok_state[OF s l _ st(2,3)] st(1) by (simp add: t)
  then show "table_ok N (R - {c}) s'" "cur s' = None" using table_ok_sched_back[OF _ _ b] l by (simp_all add: t)
qed

text \<open>
  What a step does to the set of running processes: the process on the CPU leaves it, and the one
  that the CPU has afterwards, if it is not the same, was not running.
\<close>

lemma table_ok_step:
  assumes "cpu_step s s'" and s: "table_ok N R s" and n: "N < 2 ^ 31 - 1" and c: "\<And>c. cur s = Some c \<Longrightarrow> c \<in> R"
  shows "\<exists>N'. N \<le> N' \<and> N' \<le> N + 1 \<and> table_ok N' (R - set_option (cur s) \<union> set_option (cur s')) s' \<and>
    (cur s' = cur s \<or> set_option (cur s') \<inter> R = {})"
proof -
  have same: ?thesis if "cur s' = cur s" "table_ok N R s' \<or> table_ok (N + 1) R s'"
  proof -
    have "R - set_option (cur s) \<union> set_option (cur s) = R" using c by (cases "cur s") auto
    then show ?thesis using that by (metis order_refl zle_add1_eq_le less_add_one order_less_imp_le)
  qed
  have gone: ?thesis if "cur s = Some c" "table_ok N (R - {c}) s'" "cur s' = None" for c
    using that by (intro exI[of _ N]) simp
  from assms(1) show ?thesis
  proof cases
    case (runs i)
    then have e: "s' = upd_proc i (\<lambda>p. p\<lparr>p_chan := p_chan (procs s ! i), p_state := RUNNING\<rparr>) (s\<lparr>cur := Some i\<rparr>)"
      by (auto simp: sched_run_def switchuvm_def andthen_eq_Ok upd_at_def split: if_splits)
    have "table_ok N (insert i R) s'"
      using table_ok_state[of N R "s\<lparr>cur := Some i\<rparr>" i RUNNING] runs s by (simp add: e)
    moreover have "i \<notin> R" using table_okD(1)[OF s runs(2)] runs(3) by simp
    ultimately show ?thesis using runs(1) e by (intro exI[of _ N]) simp
  next
    case (yields c t pol)
    have "t = upd_proc c (\<lambda>p. p\<lparr>p_chan := p_chan (procs s ! c), p_state := RUNNABLE\<rparr>) s"
      using yields by (auto simp: yield_def sched_def myproc_def upd_at_def split: if_splits)
    from leaves_cpu[OF s yields(1) c[OF yields(1)] _ _ _ this yields(3)] show ?thesis
      using gone[OF yields(1)] by simp
  next
    case (sleeps c ch t pol)
    have "t = upd_proc c (\<lambda>p. p\<lparr>p_chan := Some ch, p_state := SLEEPING\<rparr>) s"
      using sleeps by (auto simp: sleep_def sched_def myproc_def upd_at_def split: if_splits)
    from leaves_cpu[OF s sleeps(1) c[OF sleeps(1)] _ _ _ this sleeps(3)] show ?thesis
      using gone[OF sleeps(1)] by simp
  next
    case resumes
    then obtain d where d: "cur s = Some d" "s' = upd_proc d (\<lambda>p. p\<lparr>p_chan := None\<rparr>) s"
      by (auto simp: sleep_resume_def split: option.splits)
    have l: "d < length (procs s)" "p_state (procs s ! d) = RUNNING"
      using table_ok_in[OF s c[OF d(1)]] table_okD(1)[OF s] c[OF d(1)] by auto
    then have "s' = upd_proc d (\<lambda>p. p\<lparr>p_chan := None, p_state := RUNNING\<rparr>) s"
      using d(2) by (cases "procs s ! d") (simp add: upd_at_def)
    then have "table_ok N (insert d R) s'" using table_ok_state[OF s l(1), of RUNNING] l(2) by simp
    then show ?thesis using same d c[OF d(1)] by (simp add: insert_absorb)
  next
    case (exits c t pol)
    have "t = exit_finish c s" using exits(2) by (auto simp: sched_def split: option.splits if_splits)
    then have t: "table_ok N (R - {c}) t" using table_ok_exit_finish(1)[OF s c[OF exits(1)]] by simp
    have "c < length (procs t)" using table_ok_in[OF s c[OF exits(1)]] exit_finish_length[of c s] \<open>t = exit_finish c s\<close> by simp
    from table_ok_sched_back[OF t this exits(3)] show ?thesis using gone[OF exits(1)] by blast
  next
    case (wakes ch)
    then show ?thesis using table_ok_wakeup1[OF s] by (intro same) (simp_all add: wakeup_def)
  next
    case (kills pid)
    then show ?thesis using table_ok_kill[OF s] by (intro same) simp_all
  next
    case (allocs fr tr pol r)
    then show ?thesis using table_ok_allocproc[OF s n] by (intro same) blast+
  next
    case (starts i)
    have e: "s' = upd_proc i (\<lambda>p. p\<lparr>p_chan := p_chan (procs s ! i), p_state := RUNNABLE\<rparr>) s"
      using starts by (simp add: upd_at_def)
    have "i \<notin> R" using table_okD(1)[OF s starts(2)] starts(3) by simp
    then show ?thesis using table_ok_state[OF s starts(2), of RUNNABLE] starts(3) e by (intro same) simp_all
  next
    case (waits kend pol r)
    then obtain d where d: "cur s = Some d" by (auto simp: wait_proc_def split: option.splits)
    show ?thesis
    proof (cases "find_idx (\<lambda>p. p_parent p = Some d \<and> p_state p = ZOMBIE) (procs s)")
      case None
      then have "s' = s" using waits d by (auto simp: wait_proc_def split: if_splits)
      then show ?thesis using s by (intro same) simp_all
    next
      case (Some i)
      then have "reap kend pol i s = Ok (r, s')" using waits d by (simp add: wait_proc_def)
      from table_ok_reap[OF s this] find_idx_SomeD(1,2)[OF Some] show ?thesis by (intro same) simp_all
    qed
  qed
qed

lemma mp_ok_step:
  assumes "mp_step (cpus, s) (cpus', t)" and ok: "mp_ok cpus s" and n: "nextpid s < 2 ^ 31 - 1"
  shows "mp_ok cpus' t \<and> nextpid t \<le> nextpid s + 1"
proof -
  let ?R = "{i. Some i \<in> set cpus}"
  obtain k where k: "k < length cpus" "cpu_step (s\<lparr>cur := cpus ! k\<rparr>) t" "cpus' = cpus[k := cur t]"
    using assms(1) by (rule mp_stepE) simp
  have T: "table_ok (nextpid s) ?R (s\<lparr>cur := cpus ! k\<rparr>)" using ok by (simp add: mp_ok_def)
  have one: "i = j" if "i < length cpus" "j < length cpus" "cpus ! i \<noteq> None" "cpus ! i = cpus ! j" for i j
    using ok that by (simp add: mp_ok_def)
  have c: "c \<in> ?R" if "cur (s\<lparr>cur := cpus ! k\<rparr>) = Some c" for c using that k(1) by (simp add: in_set_conv_nth) blast
  obtain N where N: "N \<le> nextpid s + 1" "table_ok N (?R - set_option (cpus ! k) \<union> set_option (cur t)) t"
    "cur t = cpus ! k \<or> set_option (cur t) \<inter> ?R = {}"
    using table_ok_step[OF k(2) T n c] by auto
  have new: "Some i \<notin> set cpus" if "cur t = Some i" "cur t \<noteq> cpus ! k" for i using N(3) that by auto
  have "{i. Some i \<in> set cpus'} = ?R - set_option (cpus ! k) \<union> set_option (cur t)"
  proof (rule set_eqI)
    fix i
    have "Some i \<in> set cpus' \<longleftrightarrow> cur t = Some i \<or> (\<exists>j < length cpus. j \<noteq> k \<and> cpus ! j = Some i)"
      using k(1) by (auto simp: k(3) in_set_conv_nth nth_list_update)
    moreover have "(\<exists>j < length cpus. j \<noteq> k \<and> cpus ! j = Some i) \<longleftrightarrow> Some i \<in> set cpus \<and> cpus ! k \<noteq> Some i"
      using one[of k] k(1) by (auto simp: in_set_conv_nth)
    ultimately show "i \<in> {i. Some i \<in> set cpus'} \<longleftrightarrow> i \<in> ?R - set_option (cpus ! k) \<union> set_option (cur t)"
      by (auto simp: elem_set)
  qed
  then have "table_ok (nextpid t) {i. Some i \<in> set cpus'} t" "nextpid t = N" using N(2) by (simp_all add: table_ok_def)
  moreover have "i = j" if h: "i < length cpus'" "j < length cpus'" "cpus' ! i \<noteq> None" "cpus' ! i = cpus' ! j" for i j
  proof (rule ccontr)
    assume ij: "i \<noteq> j"
    have l: "length cpus' = length cpus" by (simp add: k(3))
    obtain x where x: "cpus' ! i = Some x" "cpus' ! j = Some x" using h(3,4) by auto
    have two: False if "m < length cpus" "m \<noteq> k" "cpus ! m = Some x" "cur t = Some x" for m
      using that new[of x] one[of m k] k(1) nth_mem[of m cpus] by (metis option.distinct(1))
    show False
      using h x ij l one[of i j] two[of i] two[of j] by (cases "i = k"; cases "j = k") (auto simp: k(3))
  qed
  ultimately show ?thesis using N(1) unfolding mp_ok_def by blast
qed

text \<open>
  C38.  The process table stays well-formed on any number of CPUs.  Whatever their schedulers and the
  processes do, in any order, the running processes are exactly those the CPUs record: each CPU has
  at most one, and no process is on two CPUs.  A sleeping process has a channel on which it can be
  woken, and two processes never have the same number, the numbers given out so far being positive
  and below \<open>nextpid\<close>.  The numbers are of 32 bits: this holds for as many steps as \<open>nextpid\<close> has
  room for, after which numbers come again.
\<close>

theorem process_table_wellformed:
  assumes "(mp_step ^^ n) (cpus, s) (cpus', t)" and "mp_ok cpus s" and "nextpid s + int n < 2 ^ 31"
  shows "mp_ok cpus' t"
proof -
  have "mp_ok cpus' t \<and> nextpid t \<le> nextpid s + int n"
    using assms
  proof (induction n arbitrary: cpus' t)
    case (Suc n)
    then obtain cs u where u: "(mp_step ^^ n) (cpus, s) (cs, u)" "mp_step (cs, u) (cpus', t)" by auto
    have "mp_ok cs u" "nextpid u \<le> nextpid s + int n" using Suc.IH[OF u(1)] Suc.prems by auto
    then show ?case using mp_ok_step[OF u(2)] Suc.prems(3) by auto
  qed simp
  then show ?thesis ..
qed

text \<open>Two CPUs of which one is idle and the other runs process 2.\<close>

lemma demo_mp_ok: "mp_ok [Some 2, None] demo_kernel"
proof -
  have "procs demo_kernel = demo_procs" "nextpid demo_kernel = 4" by (simp_all add: demo_kernel_def)
  then show ?thesis
    by (auto simp: mp_ok_def table_ok_def demo_procs_def blank_proc_def less_Suc_eq numeral_eq_Suc)
qed

lemma demo_sleeps:
  "mp_step ([Some 2, None], demo_kernel)
     ([None, None], upd_proc 2 (\<lambda>p. p\<lparr>p_chan := Some ChanTicks, p_state := SLEEPING\<rparr>) (demo_kernel\<lparr>cur := None\<rparr>))"
proof -
  let ?t = "upd_proc 2 (\<lambda>p. p\<lparr>p_chan := Some ChanTicks, p_state := SLEEPING\<rparr>) (demo_kernel\<lparr>cur := None\<rparr>)"
  have "cpu_step (demo_kernel\<lparr>cur := Some 2\<rparr>) ?t"
    by (rule cpu_step.sleeps[of _ 2 ChanTicks "?t\<lparr>cur := Some 2\<rparr>" SCFIFO])
      (simp_all add: sleep_def sched_def myproc_def demo_kernel_def demo_procs_def upd_at_def sched_back_def)
  then show ?thesis using mp_step.intros[of 0 "[Some 2, None]" demo_kernel ?t] by simp
qed

theorem process_table_wellformed_witness:
  "mp_ok [None, None] (upd_proc 2 (\<lambda>p. p\<lparr>p_chan := Some ChanTicks, p_state := SLEEPING\<rparr>) (demo_kernel\<lparr>cur := None\<rparr>))"
proof (rule process_table_wellformed[of 1, OF _ demo_mp_ok])
  show "nextpid demo_kernel + int 1 < 2 ^ 31" by (simp add: demo_kernel_def)
qed (use demo_sleeps in \<open>simp add: eq_OO\<close>)

section \<open>A process that is killed before it exists\<close>

text \<open>
  C39.  \<open>kill(0)\<close> succeeds: it finds a slot of the table that is not in use, whose number is 0, and
  sets its \<open>killed\<close> flag.  \<open>allocproc\<close> does not clear the flag, so the next process that gets this
  slot is killed from the start.
\<close>

theorem kill_zero_kills_next_process:
  assumes "find_idx (\<lambda>p. p_pid p = 0) (procs s) = Some i"
    and "find_idx (\<lambda>p. p_state p = UNUSED) (procs s) = Some i"
    and "allocproc fr tr pol (snd (kill 0 s)) = (Some j, t)"
  shows "fst (kill 0 s) = 0 \<and> j = i \<and> p_state (procs t ! i) = EMBRYO \<and> p_pid (procs t ! i) = nextpid s \<and>
    p_killed (procs t ! i)"
proof -
  note i = find_idx_SomeD[OF assms(2)]
  let ?s = "snd (kill 0 s)"
  have k: "fst (kill 0 s) = 0" "procs ?s = (procs s)[i := (procs s ! i)\<lparr>p_killed := True, p_state := UNUSED\<rparr>]" "nextpid ?s = nextpid s"
    using assms(1) i(1,2) by (simp_all add: kill_def upd_at_def)
  have u: "find_idx (\<lambda>p. p_state p = UNUSED) (procs ?s) = Some i"
    using i by (simp add: find_idx_Some_iff k(2))
  from assms(3) show ?thesis
  proof (cases rule: allocproc_cases)
    case (new i' q)
    then have "i' = i" "j = i" using u by simp_all
    then show ?thesis using new k i(1) by simp
  qed simp_all
qed

theorem kill_zero_kills_next_process_witness:
  "\<exists>t. allocproc 0x80103000 0x80105000 SCFIFO
     (snd (kill 0 (demo_kernel\<lparr>kmem := \<lparr>use_lock = True, freelist = 0x80600000\<rparr>\<rparr>))) = (Some 3, t) \<and>
   p_state (procs t ! 3) = EMBRYO \<and> p_killed (procs t ! 3)"
proof -
  let ?s = "demo_kernel\<lparr>kmem := \<lparr>use_lock = True, freelist = 0x80600000\<rparr>\<rparr>"
  have "procs ?s = demo_procs" by (simp add: demo_kernel_def)
  then have f: "find_idx (\<lambda>p. p_pid p = 0) (procs ?s) = Some 3"
    "find_idx (\<lambda>p. p_state p = UNUSED) (procs ?s) = Some 3"
    by (simp_all add: demo_procs_def blank_proc_def)
  have k: "snd (kill 0 ?s) = upd_proc 3 (\<lambda>p. p\<lparr>p_killed := True, p_state := UNUSED\<rparr>) ?s"
    using f find_idx_SomeD(2)[OF f(2)] by (simp add: kill_def upd_at_def)
  have "find_idx (\<lambda>p. p_state p = UNUSED) (procs (snd (kill 0 ?s))) = Some 3"
    using f(2) by (simp add: k find_idx_Some_iff upd_at_def nth_list_update)
  then obtain t where "allocproc 0x80103000 0x80105000 SCFIFO (snd (kill 0 ?s)) = (Some 3, t)"
    by (simp add: allocproc_def Let_def kalloc_def k)
  then show ?thesis using kill_zero_kills_next_process[OF f] by blast
qed

section \<open>Freeing another address space\<close>

text \<open>What the loop of \<open>deallocuvm\<close> over the slots does when it works on a foreign page table.\<close>

definition foreign_forgot :: "uint32 \<Rightarrow> proc \<Rightarrow> nat \<Rightarrow> proc \<Rightarrow> bool" where
  "foreign_forgot a p k q \<longleftrightarrow> p_pgdir q = p_pgdir p \<and> pages_in_memory_counter q = pages_in_memory_counter p \<and>
     length (memory_pg_arr q) = length (memory_pg_arr p) \<and>
     (\<forall>j < length (memory_pg_arr p). slot_va q j = slot_va p j \<or> slot_va p j = a \<and> slot_va q j = NOVA) \<and>
     (\<forall>j < k. slot_va q j \<noteq> a)"

lemma forget_ram_foreign:
  assumes "foreign_forgot a p k q" and "k < length (memory_pg_arr p)" and "p_pgdir p \<noteq> pg" and "a \<noteq> NOVA"
  shows "foreign_forgot a p (Suc k) (snd (forget_ram pol pg a k (n, q)))"
proof (cases "slot_va q k = a")
  case False
  then show ?thesis using assms by (simp add: forget_ram_def foreign_forgot_def less_Suc_eq)
next
  case True
  let ?q = "snd (forget_ram pol pg a k (n, q))"
  have va: "slot_va ?q j = (if j = k then NOVA else slot_va q j)" if "j < length (memory_pg_arr q)" for j
    using that True by (auto simp: forget_ram_def Let_def nth_upd_at split: option.splits)
  have f: "p_pgdir ?q = p_pgdir q" "length (memory_pg_arr ?q) = length (memory_pg_arr q)"
    by (auto simp: forget_ram_def Let_def split: option.splits)
  have c: "pages_in_memory_counter ?q = pages_in_memory_counter q"
    using assms(1,3) by (auto simp: forget_ram_def Let_def foreign_forgot_def split: option.splits)
  have o: "length (memory_pg_arr q) = length (memory_pg_arr p)"
    "\<And>j. j < length (memory_pg_arr p) \<Longrightarrow> slot_va q j = slot_va p j \<or> slot_va p j = a \<and> slot_va q j = NOVA"
    "\<And>j. j < k \<Longrightarrow> slot_va q j \<noteq> a" "p_pgdir q = p_pgdir p"
    "pages_in_memory_counter q = pages_in_memory_counter p"
    using assms(1) by (simp_all add: foreign_forgot_def)
  show ?thesis unfolding foreign_forgot_def
  proof (intro conjI allI impI)
    fix j assume j: "j < length (memory_pg_arr p)"
    show "slot_va ?q j = slot_va p j \<or> slot_va p j = a \<and> slot_va ?q j = NOVA"
      using va[of j] o(1) o(2)[OF j] o(2)[OF assms(2)] j True assms(4) by (cases "j = k") auto
  next
    fix j assume "j < Suc k"
    then show "slot_va ?q j \<noteq> a"
      using va[of j] o(1) o(3)[of j] assms(2,4) by (cases "j = k") auto
  qed (simp_all add: f c o)
qed

lemma forget_all_foreign:
  assumes "p_pgdir p \<noteq> pg" and "a \<noteq> NOVA" and "k \<le> length (memory_pg_arr p)"
  shows "foreign_forgot a p k (snd (foldl (\<lambda>x i. forget_ram pol pg a i x) (0, p) [0..<k]))"
  using assms(3)
proof (induction k)
  case 0
  then show ?case by (simp add: foreign_forgot_def)
next
  case (Suc k)
  obtain n q where q: "foldl (\<lambda>x i. forget_ram pol pg a i x) (0, p) [0..<k] = (n, q)" by fastforce
  then show ?case using forget_ram_foreign[OF _ _ assms(1,2), of k q pol n] Suc by simp
qed

text \<open>
  C40.  Freeing the pages of another address space damages the paging metadata of the running
  process.  When \<open>deallocuvm\<close> frees a page of a page table that is not that of the running process
  (\<open>wait\<close> frees a dead child's, \<open>exec\<close> the old one), it still looks for the page's address in
  the metadata of the running process.  Every slot that holds the address is cleared and nothing else
  of the addresses changes, but \<open>pages_in_memory_counter\<close> keeps its value: the process's own page at
  this address is no longer recorded, can never be paged out again, and the counter is too large.
\<close>

theorem foreign_free_forgets_own_page:
  assumes "dealloc_page kend pol pg a ptep s = Ok s'" and "cur s = Some c" and "c < length (procs s)"
    and "length (memory_pg_arr (procs s ! c)) = MAX_PSYC_PAGES" and "pol \<noteq> NONE" and "a \<noteq> NOVA"
    and "ld32 (mem s) ptep AND PTE_P \<noteq> 0" and "p_pgdir (procs s ! c) \<noteq> pg"
    and "i < MAX_PSYC_PAGES" and "slot_va (procs s ! c) i = a"
  shows "slot_va (procs s' ! c) i = NOVA \<and>
    pages_in_memory_counter (procs s' ! c) = pages_in_memory_counter (procs s ! c)"
proof -
  let ?p = "procs s ! c"
  obtain n q where f: "foldl (\<lambda>x i. forget_ram pol pg a i x) (0, ?p) [0..<MAX_PSYC_PAGES] = (n, q)" by fastforce
  have "foreign_forgot a ?p MAX_PSYC_PAGES q"
    using forget_all_foreign[OF assms(8,6), of MAX_PSYC_PAGES pol] assms(4) by (simp only: f snd_conv order_refl)
  then have "slot_va q i = slot_va ?p i \<or> slot_va ?p i = a \<and> slot_va q i = NOVA" "slot_va q i \<noteq> a"
    and c: "pages_in_memory_counter q = pages_in_memory_counter ?p"
    using assms(4,9) by (simp_all add: foreign_forgot_def)
  then have q: "slot_va q i = NOVA" using assms(10) by simp
  have "forget_all (forget_ram pol pg a) s = Ok (n, set_proc c q s)"
    by (simp only: forget_all_def assms(2) option.case f Let_def prod.case)
  then have "procs s' = procs (set_proc c q s)"
    using assms(1,5,7) kalloc_table
    by (auto simp: dealloc_page_def Let_def andthen_eq_Ok kfree_def split: if_splits)
  then show ?thesis using q c assms(3) by (simp add: set_proc_def)
qed

definition demo_parent :: kernel where
  "demo_parent = demo_kernel\<lparr>procs := (procs demo_kernel)[2 := (procs demo_kernel ! 2)
     \<lparr>memory_pg_arr := (memory_pg_arr blank_proc)[0 := \<lparr>fp_next = None, fp_prev = None, fp_va = 0x1000, fp_age = 0\<rparr>],
      pages_in_memory_counter := 1\<rparr>]\<rparr>"

lemma forget_ram_none:
  "(\<And>i. i \<in> set is \<Longrightarrow> slot_va q i \<noteq> a) \<Longrightarrow>
    foldl (\<lambda>x i. forget_ram pol pg a i x) (n, q) is = (n, q)"
  by (induction "is") (simp_all add: forget_ram_def)

lemma demo_parent_fields:
  "cur demo_parent = Some 2" "length (procs demo_parent) = 4" "mem demo_parent = mem user_machine"
  "p_pgdir (procs demo_parent ! 2) = 0x80300000" "pages_in_memory_counter (procs demo_parent ! 2) = 1"
  "memory_pg_arr (procs demo_parent ! 2) = (replicate MAX_PSYC_PAGES \<lparr>fp_next = None, fp_prev = None,
     fp_va = NOVA, fp_age = 0\<rparr>)[0 := \<lparr>fp_next = None, fp_prev = None, fp_va = 0x1000, fp_age = 0\<rparr>]"
  by (simp_all add: demo_parent_def demo_kernel_def demo_procs_def blank_proc_def)

lemma demo_parent_forgets:
  "\<exists>q. forget_all (forget_ram SCFIFO 0x80340000 0x1000) demo_parent = Ok (1, set_proc 2 q demo_parent)"
proof -
  let ?p = "procs demo_parent ! 2" and ?f = "\<lambda>x i. forget_ram SCFIFO 0x80340000 0x1000 i x"
  have m: "slot_va ?p i = (if i = 0 then 0x1000 else NOVA)" if "i < MAX_PSYC_PAGES" for i
    using that by (simp only: demo_parent_fields(6)) (cases "i = 0"; simp)
  obtain q where q: "?f (0, ?p) 0 = (1, q)" using m[of 0] by (simp add: forget_ram_def Let_def)
  have v: "slot_va q i = NOVA" if "0 < i" "i < MAX_PSYC_PAGES" for i
  proof -
    have "slot_va (snd (?f (0, ?p) 0)) i = slot_va ?p i"
      using that m[of 0] demo_parent_fields(6) by (simp add: forget_ram_def Let_def)
    then show ?thesis using q m[OF that(2)] that(1) by simp
  qed
  have "foldl ?f (0, ?p) (0 # [1..<MAX_PSYC_PAGES]) = (1, q)"
    unfolding foldl_Cons q by (rule forget_ram_none) (use v in auto)
  moreover have "0 # [1..<MAX_PSYC_PAGES] = [0..<MAX_PSYC_PAGES]" by (subst (2) upt_conv_Cons) simp_all
  ultimately have "foldl ?f (0, ?p) [0..<MAX_PSYC_PAGES] = (1, q)" by (simp only:)
  then show ?thesis by (simp only: forget_all_def demo_parent_fields(1) option.case Let_def prod.case) blast
qed

theorem foreign_free_forgets_own_page_witness:
  "\<exists>s'. dealloc_page 0x80100000 SCFIFO 0x80340000 0x1000 (entry 0x80200000 1) demo_parent = Ok s' \<and>
     slot_va (procs s' ! 2) 0 = NOVA \<and> pages_in_memory_counter (procs s' ! 2) = 1"
proof -
  have m: "ld32 (mem demo_parent) (entry 0x80200000 1) = 0x401027"
    by (simp add: demo_parent_fields(3) user_machine_def ld32_st32_entry aligned_iff_mod)
  obtain q where "forget_all (forget_ram SCFIFO 0x80340000 0x1000) demo_parent = Ok (1, set_proc 2 q demo_parent)"
    using demo_parent_forgets by blast
  then obtain s' where s': "dealloc_page 0x80100000 SCFIFO 0x80340000 0x1000 (entry 0x80200000 1) demo_parent = Ok s'"
    by (simp add: dealloc_page_def m PTE_ADDR_def P2V_def V2P_def Let_def kfree_def)
  show ?thesis
    using s' foreign_free_forgets_own_page[OF s' demo_parent_fields(1), of 0] m
    by (simp add: demo_parent_fields(2,4,5)) (simp add: demo_parent_fields(6))
qed

end
