(* ===== verification/Spec2Isabelle.thy ===== *)
theory Spec2Isabelle
  imports Trap Swapping PipeSync Spinlock Ide Grep Shell ProcTable
begin

text \<open>
  A verification development for the xv6 kernel in src/ that pages user memory out to a swap file.

  \<^bold>\<open>The program.\<close>  A process has at most 16 pages in memory and 16 in its swap file, a file
  \<open>/.swap<pid>\<close> of the ordinary file system.  When an address space grows beyond that (\<open>allocuvm\<close>), or
  a page fault asks for a page that is in the file (\<open>trap\<close>, \<open>getPageFromFile\<close>), a replacement policy
  that is chosen at compile time (SCFIFO, NFUA, LAPA, AQ; NONE is the unpaged kernel) selects a page of
  the process, which is written to the file.  Below this lie the page tables in physical memory and the
  allocator of page frames; the file goes through the open files, the inodes and the blocks of the file
  system, through a redo log, and through the buffer cache to the disk.  Processes, program loading,
  system calls and traps use both sides.  The shell and \<open>grep\<close> are user programs of the system.

  \<^bold>\<open>How the code is modelled.\<close>  Machine integers are words of their width (pids and return values
  are \<open>int\<close>; \<open>nextpid\<close> wraps as a 32-bit integer does), physical memory is a byte at every kernel
  virtual address, and page tables, free list and user pages are bytes of it.  The kernel's global
  variables are the record \<open>kernel\<close>, which extends \<open>machine\<close> (memory and allocator); pointers to entries of
  tables are indices and a null pointer is \<open>None\<close>.  An operation takes the state and gives the new one.  One
  that may not return yields \<open>'a res\<close>: \<open>Ok x\<close>, or \<open>Stop e\<close> for a panic, a null dereference,
  an access out of range, a page fault of the kernel, a sleep that only another thread can end, or a
  loop that does not end.  Linker symbols (\<open>kend\<close>, \<open>kdata\<close>, \<open>forkret\<close>, \<open>trapret\<close>), the policy, the
  registers of devices and the disk controller are arguments.  Each operation is one thread of the
  kernel; the interleaving of threads is modelled by step relations where the property is about it:
  spin locks (\<open>spin_step\<close>), pipes (\<open>pstep\<close>) and the process table (\<open>mp_step\<close>).

  \<^bold>\<open>Theories, in the order of their dependence.\<close>

  \<^item> \<open>Prelude\<close>: the result type, searches and loops over fixed arrays, facts on lists and words.
  \<^item> \<open>Mmu\<close> (mmu.h, memlayout.h): address arithmetic.  Splitting and composing an address are
    inverse; rounding up gives the least boundary, with its wrap-around.
  \<^item> \<open>Memory\<close>, \<open>Bytes\<close>: words in memory and in blocks.  \<open>StringC\<close> (string.c): \<open>memmove\<close> on
    overlapping ranges; \<open>strncpy\<close> and \<open>strncmp\<close> as a round trip.
  \<^item> \<open>Kalloc\<close> (kalloc.c): the free list threaded through the pages and its invariant, as the
    interface \<open>page_allocator\<close>; what the counters say; the initialisation at boot.
  \<^item> \<open>PageTable\<close>, \<open>UserMem\<close> (vm.c): page table entries as a function \<open>pte\<close> of the address;
    \<open>mappages\<close> updates exactly a range; the invariant \<open>user_ok\<close> keeps user frames apart, and
    \<open>copyout\<close> is an update of user bytes; what paging out and in does to an entry and its flags.
  \<^item> \<open>ProcTypes\<close> (proc.h), \<open>Replace\<close>, \<open>Policies\<close> (vm.c): the metadata of a process and the four
    policies.  The interface \<open>replacement_policy\<close> is what paging needs and is interpreted for each
    policy; what each policy evicts is stated against a queue or a minimum.
  \<^item> \<open>Kernel\<close> (the state), \<open>Bio\<close> (bio.c, buf.h, memide.c): the cache shows the content of every
    block (\<open>view\<close>).  \<open>Ide\<close> (ide.c): the driver with queue and interrupts against the memory disk.
  \<^item> \<open>Log\<close> (log.c): commit is atomic under a crash between any two disk writes, and durable.
    \<open>Tx\<close>: the interfaces \<open>block_reader\<close> and \<open>block_store\<close> between file system and cache.
  \<^item> \<open>Inode\<close>, \<open>FreeMap\<close>, \<open>Fs\<close>, \<open>FileData\<close> (fs.c, fs.h, stat.h): the allocation of blocks, the format of
    inodes, and the bytes of a file (\<open>fbyte\<close>) under \<open>bmap\<close>, \<open>readi\<close>, \<open>writei\<close> and \<open>iupdate\<close>, proved in the
    interface of \<open>Tx\<close>; directories and path names as definitions.
  \<^item> \<open>Console\<close>, \<open>Kbd\<close> (console.c, kbd.c, uart.c): definitions of the devices.
  \<^item> \<open>Pipe\<close>, \<open>PipeSync\<close> (pipe.c): a pipe is a queue of at most 512 bytes; a writer and a reader that
    interleave where they sleep deliver everything.
  \<^item> \<open>File\<close>, \<open>SwapFile\<close>, \<open>FileOps\<close> (file.c, the end of fs.c, part of sysfile.c): reading and writing the
    swap file through all layers, as a round trip and with everything that stays unchanged, other
    inodes on the disk included.
  \<^item> \<open>Paging\<close>, \<open>Swapping\<close> (vm.c): growing, shrinking, copying, paging out and in.  Paging a page out and
    in again is invisible to the user; a fault restores the page from the file.  Both theorems are
    about a fault with a free slot in memory; the eviction inside a fault is a definition only.
  \<^item> \<open>Proc\<close>, \<open>ProcTable\<close> (proc.c): processes and one turn of the scheduler; the invariant of the
    process table for several CPUs, each with its own \<open>cur\<close>, and two defects.
  \<^item> \<open>Exec\<close>, \<open>Syscall\<close>, \<open>Trap\<close> (exec.c, elf.h, syscall.c, sysproc.c, sysfile.c, trap.c): definitions of
    the whole handlers with their error exits, composed from the operations above.
  \<^item> \<open>Spinlock\<close> (spinlock.c, sleeplock.c is part of \<open>Kernel\<close>): mutual exclusion as a refinement.
  \<^item> \<open>Shell\<close> (sh.c), \<open>Grep\<close> (grep.c): the parser returns on every line and inverts the printer, the words
    are cut right, programs get their descriptors; the matcher decides the language of the pattern, and
    when the line loop prints the matching lines and when it loses one.

  \<^bold>\<open>Bounds and fuel.\<close>  \<open>mappages_loop\<close> counts down from \<open>2^20\<close>: both ends are page aligned, so the
  loop of the source meets its end in fewer steps.  The shell's parser has fuel \<open>4 * n + 4\<close> for a
  line of \<open>n\<close> characters, which is proved to be enough.  The loops of the policies, of the queue of
  the IDE driver and of \<open>strlen\<close> are partial functions; it is shown that they return under the
  invariants.  The scheduler's walk over the queue of AQ (\<open>aq_traverse\<close>) is one too, without such a
  lemma: a turn in which it does not end is not a step of \<open>mp_step\<close>.  A loop over addresses that would wrap around stops with \<open>Diverges\<close>.  The transfer
  through a pipe ends after at most \<open>6 * n + 5\<close> steps for \<open>n\<close> bytes.  The invariant of the process table
  is proved for as many steps as \<open>nextpid\<close> has room for below \<open>2^31\<close>; after that pids repeat.
  \<open>grep\<close> works with its buffer of 1024 bytes.

  \<^bold>\<open>Not modelled.\<close>  Interrupt controllers, processor discovery, boot code and assembly (device
  registers and stack switching); \<open>seginit\<close>, \<open>tvinit\<close> and \<open>idtinit\<close> (tables only the processor reads);
  \<open>procdump\<close>; the program mkfs.c of the build host, whose disk image is a hypothesis (\<open>fs_ok\<close>); the
  user library and the remaining user programs and tests.  Spin locks are left out of the other
  components.  Processes that are killed while they sleep in a pipe are not steps of \<open>pstep\<close>;
  \<open>pipewrite\<close> and \<open>piperead\<close> have these branches.  The source of \<open>copyout\<close> is a list of bytes, so it does not
  overlap the pages it writes.  Between \<open>kinit1\<close> and \<open>kinit2\<close> the kernel allocates page tables, which the
  theorem on the boot initialisation leaves out.
\<close>

end
